(* ===== verification/Prelude.thy ===== *)
theory Prelude imports Main "HOL-Library.Word" begin

section \<open>Shared vocabulary of the development\<close>

text \<open>
  This theory holds what every component uses: bytes, the width of \<open>size_t\<close>, the ways a C++
  operation of the library can go wrong, sequencing of fallible steps, \<open>memcpy\<close> and \<open>memmem\<close>
  on byte lists, and the rules about them.  The collections declared here are filled by the
  components: \<open>szt\<close> holds the facts that turn \<open>size_t\<close> arithmetic into plain arithmetic when
  nothing wraps, \<open>blit_simps\<close> the facts about writing a block into a vector.
\<close>

named_theorems szt "size_t arithmetic that does not wrap"
named_theorems blit_simps "writing a block of bytes into a vector"

type_synonym bytes = "char list"

subsection \<open>Unsigned 64-bit arithmetic\<close>

text \<open>
  \<open>size_t\<close> and \<open>uint64_t\<close> values are natural numbers below \<open>2 ^ 64\<close>; the wrap-around of every
  operation is written out.
\<close>

definition sz_add :: "nat \<Rightarrow> nat \<Rightarrow> nat" where
  "sz_add a b = (a + b) mod 2 ^ 64"

definition sz_sub :: "nat \<Rightarrow> nat \<Rightarrow> nat" where
  "sz_sub a b = (a + 2 ^ 64 - b) mod 2 ^ 64"

definition sz_mul :: "nat \<Rightarrow> nat \<Rightarrow> nat" where
  "sz_mul a b = (a * b) mod 2 ^ 64"

text \<open>A negative \<open>ssize_t\<close> passed where a \<open>size_t\<close> is expected is taken modulo \<open>2 ^ 64\<close>.\<close>

definition to_size_t :: "int \<Rightarrow> nat" where
  "to_size_t i = nat (i mod 2 ^ 64)"

text \<open>A value stored in an \<open>int\<close> keeps its low 32 bits, read as a signed number.\<close>

definition to_int32 :: "int \<Rightarrow> int" where
  "to_int32 i = (i + 2 ^ 31) mod 2 ^ 32 - 2 ^ 31"

lemma to_int32_exact [szt]: "- (2 ^ 31) \<le> i \<Longrightarrow> i < 2 ^ 31 \<Longrightarrow> to_int32 i = i"
  by (simp add: to_int32_def)

lemma sz_add_exact [szt]: "a + b < 2 ^ 64 \<Longrightarrow> sz_add a b = a + b"
  by (simp add: sz_add_def)

lemma sz_sub_exact [szt]: "b \<le> a \<Longrightarrow> a < 2 ^ 64 \<Longrightarrow> sz_sub a b = a - b"
proof -
  assume le: "b \<le> a" and lt: "a < 2 ^ 64"
  have "a + 2 ^ 64 - b = 2 ^ 64 + (a - b)" using le by linarith
  then have "sz_sub a b = (a - b) mod 2 ^ 64"
    unfolding sz_sub_def by (simp only: mod_add_self1)
  also have "\<dots> = a - b" using lt by (intro mod_less) linarith
  finally show ?thesis .
qed

lemma sz_mul_exact [szt]: "a * b < 2 ^ 64 \<Longrightarrow> sz_mul a b = a * b"
  by (simp add: sz_mul_def)

lemma to_size_t_nonneg [szt]: "n < 2 ^ 64 \<Longrightarrow> to_size_t (int n) = n"
  by (simp add: to_size_t_def)

lemma to_size_t_minus_one [simp]: "to_size_t (- 1) = 18446744073709551615"
  by (simp add: to_size_t_def)

subsection \<open>How an operation can go wrong\<close>

text \<open>
  An assertion that fails (the build does not define \<open>NDEBUG\<close>), an exception of the standard
  library, or a use of an object that the language leaves undefined.
\<close>

datatype cpp_err =
    Assert_failed
  | Length_error
  | Bad_function_call
  | Bad_weak_ptr
  | Out_of_bounds
  | Div_by_zero
  | Use_after_free
  | Does_not_return

type_synonym 'a res = "cpp_err + 'a"

definition res_bind :: "'a res \<Rightarrow> ('a \<Rightarrow> 'b res) \<Rightarrow> 'b res" where
  "res_bind m f = (case m of Inl e \<Rightarrow> Inl e | Inr a \<Rightarrow> f a)"

lemma res_bind_simps [simp]:
  "res_bind (Inl e) f = Inl e"
  "res_bind (Inr a) f = f a"
  by (simp_all add: res_bind_def)

lemma res_bind_Inr_iff:
  "res_bind m f = Inr b \<longleftrightarrow> (\<exists>a. m = Inr a \<and> f a = Inr b)"
  by (cases m) simp_all

lemma res_bind_InrE [elim!]:
  assumes "res_bind m f = Inr b"
  obtains a where "m = Inr a" "f a = Inr b"
  using assms by (cases m) simp_all

lemma res_bind_cong [fundef_cong]:
  "m = m' \<Longrightarrow> (\<And>a. m' = Inr a \<Longrightarrow> f a = f' a) \<Longrightarrow> res_bind m f = res_bind m' f'"
  by (cases m') simp_all

subsection \<open>Blocks of bytes\<close>

text \<open>\<open>blit xs i ys\<close> is \<open>xs\<close> with the bytes from index \<open>i\<close> on overwritten by \<open>ys\<close>.\<close>

definition blit :: "'a list \<Rightarrow> nat \<Rightarrow> 'a list \<Rightarrow> 'a list" where
  "blit xs i ys = take i xs @ ys @ drop (i + length ys) xs"

lemma length_blit [blit_simps]:
  "i + length ys \<le> length xs \<Longrightarrow> length (blit xs i ys) = length xs"
  by (simp add: blit_def)

lemma take_blit [blit_simps]: "i \<le> length xs \<Longrightarrow> take i (blit xs i ys) = take i xs"
  by (simp add: blit_def)

lemma blit_Nil [blit_simps]: "blit xs i [] = xs"
  by (simp add: blit_def)

lemma take_drop_blit [blit_simps]:
  "i \<le> length xs \<Longrightarrow> take (length ys) (drop i (blit xs i ys)) = ys"
  by (simp add: blit_def)

lemma window_blit:
  "r \<le> w \<Longrightarrow> w \<le> length xs \<Longrightarrow>
     take (w + length ys - r) (drop r (blit xs w ys)) = take (w - r) (drop r xs) @ ys"
  by (simp add: blit_def drop_take)

text \<open>
  \<open>block_at xs i n\<close>: the \<open>n\<close> bytes at index \<open>i\<close>, what \<open>std::string(p, n)\<close> reads at a pointer.
\<close>

definition block_at :: "'a list \<Rightarrow> nat \<Rightarrow> nat \<Rightarrow> 'a list" where
  "block_at xs i n = take n (drop i xs)"

lemma length_block_at [simp]: "i + n \<le> length xs \<Longrightarrow> length (block_at xs i n) = n"
  by (simp add: block_at_def)

lemma block_at_zero [simp]: "block_at xs i 0 = []"
  by (simp add: block_at_def)

lemma block_at_append: "i + n \<le> length xs \<Longrightarrow> block_at (xs @ ys) i n = block_at xs i n"
  by (simp add: block_at_def)

subsection \<open>Searching a block\<close>

text \<open>
  \<open>memmem hay needle\<close> is the index of the first occurrence of \<open>needle\<close>, as the C library
  function of that name documents (an empty needle is found at index 0).
\<close>

definition occurs_at :: "'a list \<Rightarrow> 'a list \<Rightarrow> nat \<Rightarrow> bool" where
  "occurs_at hay needle i \<longleftrightarrow> take (length needle) (drop i hay) = needle"

fun memmem :: "'a list \<Rightarrow> 'a list \<Rightarrow> nat option" where
  "memmem [] needle = (if needle = [] then Some 0 else None)"
| "memmem (x # xs) needle =
     (if take (length needle) (x # xs) = needle then Some 0
      else map_option Suc (memmem xs needle))"

lemma memmem_SomeD:
  "memmem hay needle = Some i \<Longrightarrow>
     occurs_at hay needle i \<and> i + length needle \<le> length hay \<and> (\<forall>j<i. \<not> occurs_at hay needle j)"
proof (induction hay arbitrary: i)
  case Nil
  then show ?case by (auto simp: occurs_at_def split: if_splits)
next
  case (Cons x xs)
  show ?case
  proof (cases "take (length needle) (x # xs) = needle")
    case True
    then have "length needle \<le> length (x # xs)"
      by (metis length_take min.absorb_iff2 min.commute min_def nle_le)
    with True Cons.prems show ?thesis by (simp add: occurs_at_def)
  next
    case False
    with Cons.prems obtain i' where i': "memmem xs needle = Some i'" "i = Suc i'" by auto
    from Cons.IH [OF i'(1)] have ih: "occurs_at xs needle i'" "i' + length needle \<le> length xs"
      "\<forall>j<i'. \<not> occurs_at xs needle j" by auto
    have "\<not> occurs_at (x # xs) needle j" if "j < i" for j
      using that ih(3) False i'(2) by (cases j) (auto simp: occurs_at_def)
    with ih i'(2) show ?thesis by (auto simp: occurs_at_def)
  qed
qed

lemma memmem_NoneD:
  "memmem hay needle = None \<Longrightarrow> \<not> occurs_at hay needle i"
proof (induction hay arbitrary: i)
  case Nil
  then show ?case by (auto simp: occurs_at_def split: if_splits)
next
  case (Cons x xs)
  then have *: "take (length needle) (x # xs) \<noteq> needle" "memmem xs needle = None"
    by (auto split: if_splits)
  show ?case
    using * Cons.IH [OF *(2)] by (cases i) (auto simp: occurs_at_def)
qed

lemma memmem_first:
  "occurs_at hay needle i \<Longrightarrow> (\<And>j. j < i \<Longrightarrow> \<not> occurs_at hay needle j) \<Longrightarrow>
     memmem hay needle = Some i"
proof (cases "memmem hay needle")
  case None
  then show "occurs_at hay needle i \<Longrightarrow> ?thesis" using memmem_NoneD by blast
next
  case (Some k)
  assume i: "occurs_at hay needle i" "\<And>j. j < i \<Longrightarrow> \<not> occurs_at hay needle j"
  from memmem_SomeD [OF Some] have "occurs_at hay needle k" "\<forall>j<k. \<not> occurs_at hay needle j"
    by auto
  with i have "k = i" by (metis linorder_neqE_nat)
  with Some show ?thesis by simp
qed

end
