(* ===== verification/OS.thy ===== *)
theory OS imports Prelude begin

unbundle bit_operations_syntax

section \<open>The operating system as a parameter\<close>

text \<open>
  The library sits on Linux system calls.  They are not part of the repository, so the model
  takes them as a parameter: a record \<open>'k os\<close> of functions over an abstract kernel state \<open>'k\<close>,
  one per call the sources make.  What the sources rely on is written down as named predicates
  (\<open>stream_contract\<close>, \<open>epoll_contract\<close>), each the documented behaviour of the calls, and
  appears as a hypothesis of the properties that need it.  \<open>sim\<close>, at the end of the theory, is a
  small deterministic kernel that satisfies them; the witnesses run the model on it.
\<close>

subsection \<open>Answers of the calls\<close>

datatype errno = EAGAIN | EINTR | EPIPE | ECONNRESET | EINPROGRESS | EPROTO | ECONNABORTED
  | EEXIST | ENOENT | EBADF | EINVAL | EMFILE

text \<open>On Linux \<open>EWOULDBLOCK\<close> and \<open>EAGAIN\<close> are the same number.\<close>

abbreviation EWOULDBLOCK :: errno where
  "EWOULDBLOCK \<equiv> EAGAIN"

text \<open>\<open>read\<close>: the bytes read (none at end of file), or \<open>-1\<close> with \<open>errno\<close>; \<open>write\<close>: a count.\<close>

datatype rd_answer = RdBytes bytes | RdErr errno

datatype wr_answer = WrBytes nat | WrErr errno

datatype ctl_op = CtlAdd | CtlMod | CtlDel

type_synonym fd = int
type_synonym event_id = nat
type_synonym u32 = "32 word"

text \<open>What \<open>struct epoll_event\<close> carries: the mask and the pointer to the \<open>Event\<close> object.\<close>

type_synonym epoll_event = "u32 \<times> event_id"

record 'k os =
  sys_read :: "fd \<Rightarrow> nat \<Rightarrow> 'k \<Rightarrow> rd_answer \<times> 'k"
  sys_write :: "fd \<Rightarrow> bytes \<Rightarrow> 'k \<Rightarrow> wr_answer \<times> 'k"
  sys_close :: "fd \<Rightarrow> 'k \<Rightarrow> 'k"
  sys_accept :: "fd \<Rightarrow> 'k \<Rightarrow> (errno + fd) \<times> 'k"
  sys_getfl :: "fd \<Rightarrow> 'k \<Rightarrow> (errno + u32) \<times> 'k"
  sys_setfl :: "fd \<Rightarrow> u32 \<Rightarrow> 'k \<Rightarrow> errno option \<times> 'k"
  sys_epoll_ctl :: "fd \<Rightarrow> ctl_op \<Rightarrow> fd \<Rightarrow> epoll_event \<Rightarrow> 'k \<Rightarrow> errno option \<times> 'k"

subsection \<open>The environment of a handler: kernel state and log\<close>

text \<open>
  \<open>Logger::sys\<close>, \<open>Logger::fatal\<close> and \<open>Logger::info\<close> hand a line to the logger and return (\<open>fatal\<close>
  too: nothing stops the program).  The model records the call with its format string, less a
  final newline.
\<close>

datatype log_entry = Sys string | Fatal string | Info string

record 'k env =
  kern :: 'k
  logs :: "log_entry list"

definition add_log :: "log_entry \<Rightarrow> 'k env \<Rightarrow> 'k env" where
  "add_log l e = e\<lparr>logs := logs e @ [l]\<rparr>"

lemma add_log_simps [simp]:
  "kern (add_log l e) = kern e"
  "logs (add_log l e) = logs e @ [l]"
  by (simp_all add: add_log_def)

text \<open>A call that only fails or succeeds; a failure is logged and execution goes on.\<close>

definition logged :: "string \<Rightarrow> ('k \<Rightarrow> errno option \<times> 'k) \<Rightarrow> 'k env \<Rightarrow> 'k env" where
  "logged msg call e =
     (case call (kern e) of
        (None, k) \<Rightarrow> e\<lparr>kern := k\<rparr>
      | (Some _, k) \<Rightarrow> add_log (Sys msg) (e\<lparr>kern := k\<rparr>))"

text \<open>
  \<open>Socket::setNonblock\<close>: the status flags are read and written back with one more; when they cannot be
  read, the \<open>-1\<close> is written.
\<close>

definition O_NONBLOCK :: u32 where
  "O_NONBLOCK = 2048"

definition setNonblock :: "'k os \<Rightarrow> fd \<Rightarrow> 'k env \<Rightarrow> 'k env" where
  "setNonblock os f e =
     (let (r, k) = sys_getfl os f (kern e); e1 = e\<lparr>kern := k\<rparr>;
          (flags, e2) = (case r of Inl _ \<Rightarrow> (- 1, add_log (Sys ''fcntl F_GETFL error'') e1) | Inr fl \<Rightarrow> (fl, e1)) in
      logged ''fcntl F_SETFL error'' (sys_setfl os f (flags OR O_NONBLOCK)) e2)"

subsection \<open>What the sources rely on\<close>

text \<open>
  Stream sockets: \<open>inq fd k\<close> are the bytes the peer has sent on \<open>fd\<close> and nobody has read yet,
  \<open>outq fd k\<close> the bytes the kernel has accepted for sending on \<open>fd\<close>, oldest first.  \<open>read\<close>
  delivers a prefix of the former of at most the requested length, \<open>write\<close> accepts a prefix of
  what it is given; a call that fails moves nothing; neither touches the other direction or
  another descriptor.
\<close>

definition stream_contract ::
  "'k os \<Rightarrow> (fd \<Rightarrow> 'k \<Rightarrow> bytes) \<Rightarrow> (fd \<Rightarrow> 'k \<Rightarrow> bytes) \<Rightarrow> bool" where
  "stream_contract os inq outq \<longleftrightarrow>
     (\<forall>f n k bs k'. sys_read os f n k = (RdBytes bs, k') \<longrightarrow>
        length bs \<le> n \<and> inq f k = bs @ inq f k') \<and>
     (\<forall>f n k e k'. sys_read os f n k = (RdErr e, k') \<longrightarrow> inq f k' = inq f k) \<and>
     (\<forall>f n k a k'. sys_read os f n k = (a, k') \<longrightarrow>
        outq f k' = outq f k \<and> (\<forall>g. g \<noteq> f \<longrightarrow> inq g k' = inq g k \<and> outq g k' = outq g k)) \<and>
     (\<forall>f bs k n k'. sys_write os f bs k = (WrBytes n, k') \<longrightarrow>
        n \<le> length bs \<and> outq f k' = outq f k @ take n bs) \<and>
     (\<forall>f bs k e k'. sys_write os f bs k = (WrErr e, k') \<longrightarrow> outq f k' = outq f k) \<and>
     (\<forall>f bs k a k'. sys_write os f bs k = (a, k') \<longrightarrow>
        inq f k' = inq f k \<and> (\<forall>g. g \<noteq> f \<longrightarrow> inq g k' = inq g k \<and> outq g k' = outq g k))"

lemma stream_contractD:
  assumes "stream_contract os inq outq"
  shows "sys_read os f n k = (RdBytes bs, k') \<Longrightarrow> length bs \<le> n"
    and "sys_read os f n k = (RdBytes bs, k') \<Longrightarrow> inq f k = bs @ inq f k'"
    and "sys_read os f n k = (RdErr e, k') \<Longrightarrow> inq f k' = inq f k"
    and "sys_read os f n k = (a, k') \<Longrightarrow> outq f k' = outq f k"
    and "sys_write os f ws k = (WrBytes n, k') \<Longrightarrow> n \<le> length ws"
    and "sys_write os f ws k = (WrBytes n, k') \<Longrightarrow> outq f k' = outq f k @ take n ws"
    and "sys_write os f ws k = (WrErr e, k') \<Longrightarrow> outq f k' = outq f k"
    and "sys_write os f ws k = (wa, k') \<Longrightarrow> inq f k' = inq f k"
  using assms unfolding stream_contract_def by - (elim conjE, metis)+

text \<open>
  \<open>epoll\<close>: \<open>interest ep k\<close> is the interest list of the instance \<open>ep\<close>.  \<open>ADD\<close> inserts and fails
  with \<open>EEXIST\<close> when the descriptor is there, \<open>MOD\<close> and \<open>DEL\<close> change it and fail with
  \<open>ENOENT\<close> when it is not; on a negative number, the \<open>-1\<close> of a call that has failed, every operation fails with
  \<open>EBADF\<close>; a failing call changes nothing, and other instances are untouched.
\<close>

fun epoll_ctl_spec ::
  "ctl_op \<Rightarrow> fd \<Rightarrow> epoll_event \<Rightarrow> (fd \<rightharpoonup> epoll_event) \<Rightarrow> errno option \<times> (fd \<rightharpoonup> epoll_event)" where
  "epoll_ctl_spec CtlAdd f ev m =
     (if f < 0 then (Some EBADF, m) else if m f \<noteq> None then (Some EEXIST, m) else (None, m(f \<mapsto> ev)))"
| "epoll_ctl_spec CtlMod f ev m =
     (if f < 0 then (Some EBADF, m) else if m f \<noteq> None then (None, m(f \<mapsto> ev)) else (Some ENOENT, m))"
| "epoll_ctl_spec CtlDel f ev m =
     (if f < 0 then (Some EBADF, m) else if m f \<noteq> None then (None, m(f := None)) else (Some ENOENT, m))"

lemma epoll_ctl_spec_bad [simp]: "f < 0 \<Longrightarrow> epoll_ctl_spec op f ev m = (Some EBADF, m)"
  by (cases op) simp_all

definition epoll_contract ::
  "'k os \<Rightarrow> (fd \<Rightarrow> 'k \<Rightarrow> (fd \<rightharpoonup> epoll_event)) \<Rightarrow> bool" where
  "epoll_contract os interest \<longleftrightarrow>
     (\<forall>ep op f ev k r k'. sys_epoll_ctl os ep op f ev k = (r, k') \<longrightarrow>
        (r, interest ep k') = epoll_ctl_spec op f ev (interest ep k) \<and>
        (\<forall>ep'. ep' \<noteq> ep \<longrightarrow> interest ep' k' = interest ep' k))"

text \<open>
  What stays as it is: \<open>read\<close>, \<open>write\<close>, \<open>accept\<close> and \<open>fcntl\<close> leave the interest lists alone,
  \<open>epoll_ctl\<close>, \<open>accept\<close> and \<open>fcntl\<close> the streams; \<open>close\<close> takes a descriptor out of every interest
  list and leaves the others alone, and what was accepted for sending is still sent (the default
  of \<open>SO_LINGER\<close>); a descriptor \<open>accept\<close> returns is in use nowhere.
\<close>

definition frame_contract ::
  "'k os \<Rightarrow> (fd \<Rightarrow> 'k \<Rightarrow> bytes) \<Rightarrow> (fd \<Rightarrow> 'k \<Rightarrow> bytes) \<Rightarrow> (fd \<Rightarrow> 'k \<Rightarrow> (fd \<rightharpoonup> epoll_event)) \<Rightarrow> bool" where
  "frame_contract os inq outq interest \<longleftrightarrow>
     (\<forall>f n k a k' ep. sys_read os f n k = (a, k') \<longrightarrow> interest ep k' = interest ep k) \<and>
     (\<forall>f bs k a k' ep. sys_write os f bs k = (a, k') \<longrightarrow> interest ep k' = interest ep k) \<and>
     (\<forall>f k a k' ep g. sys_accept os f k = (a, k') \<longrightarrow>
        interest ep k' = interest ep k \<and> inq g k' = inq g k \<and> outq g k' = outq g k) \<and>
     (\<forall>f k a k' ep g. sys_getfl os f k = (a, k') \<longrightarrow>
        interest ep k' = interest ep k \<and> inq g k' = inq g k \<and> outq g k' = outq g k) \<and>
     (\<forall>f fl k a k' ep g. sys_setfl os f fl k = (a, k') \<longrightarrow>
        interest ep k' = interest ep k \<and> inq g k' = inq g k \<and> outq g k' = outq g k) \<and>
     (\<forall>ep op f ev k a k' g. sys_epoll_ctl os ep op f ev k = (a, k') \<longrightarrow>
        inq g k' = inq g k \<and> outq g k' = outq g k) \<and>
     (\<forall>f k ep. interest ep (sys_close os f k) = (interest ep k)(f := None)) \<and>
     (\<forall>f k g. outq g (sys_close os f k) = outq g k \<and>
        (g \<noteq> f \<longrightarrow> inq g (sys_close os f k) = inq g k)) \<and>
     (\<forall>f k c k' ep. sys_accept os f k = (Inr c, k') \<longrightarrow> interest ep k c = None)"

definition os_contract ::
  "'k os \<Rightarrow> (fd \<Rightarrow> 'k \<Rightarrow> bytes) \<Rightarrow> (fd \<Rightarrow> 'k \<Rightarrow> bytes) \<Rightarrow> (fd \<Rightarrow> 'k \<Rightarrow> (fd \<rightharpoonup> epoll_event)) \<Rightarrow> bool" where
  "os_contract os inq outq interest \<longleftrightarrow>
     stream_contract os inq outq \<and> epoll_contract os interest \<and> frame_contract os inq outq interest"

lemma frame_contractD:
  assumes "frame_contract os inq outq interest"
  shows "sys_read os f n k = (ra, k') \<Longrightarrow> interest ep k' = interest ep k"
    and "sys_write os f bs k = (wa, k') \<Longrightarrow> interest ep k' = interest ep k"
    and "sys_accept os f k = (aa, k') \<Longrightarrow> interest ep k' = interest ep k"
    and "sys_getfl os f k = (ga, k') \<Longrightarrow> interest ep k' = interest ep k \<and> outq g k' = outq g k"
    and "sys_setfl os f fl k = (na, k') \<Longrightarrow> interest ep k' = interest ep k \<and> outq g k' = outq g k"
    and "sys_epoll_ctl os ep op f ev k = (ea, k') \<Longrightarrow> outq g k' = outq g k"
    and "sys_epoll_ctl os ep op f ev k = (ea, k') \<Longrightarrow> inq g k' = inq g k"
    and "interest ep (sys_close os f k) = (interest ep k)(f := None)"
    and "outq g (sys_close os f k) = outq g k"
    and "sys_accept os f k = (Inr c, k') \<Longrightarrow> interest ep k c = None"
  using assms unfolding frame_contract_def by - (elim conjE, metis)+

lemma epoll_contractD:
  assumes "epoll_contract os interest" and "sys_epoll_ctl os ep op f ev k = (r, k')"
  shows "(r, interest ep k') = epoll_ctl_spec op f ev (interest ep k)"
    and "ep' \<noteq> ep \<Longrightarrow> interest ep' k' = interest ep' k"
  using assms unfolding epoll_contract_def by - blast+

subsection \<open>A small kernel for the witnesses\<close>

text \<open>
  Per descriptor a script of answers to \<open>read\<close> (a longer chunk than asked for is delivered in
  pieces, an exhausted script answers \<open>EAGAIN\<close>), a script of answers to \<open>write\<close> (exhausted:
  everything is accepted), the bytes written; the registrations of all epoll instances, latest
  first; the descriptors a listening socket has ready; the closed descriptors.
\<close>

record sim =
  sim_rd :: "fd \<Rightarrow> rd_answer list"
  sim_wr :: "fd \<Rightarrow> wr_answer list"
  sim_out :: "fd \<Rightarrow> bytes"
  sim_reg :: "((fd \<times> fd) \<times> epoll_event) list"
  sim_ready :: "fd \<Rightarrow> fd list"
  sim_closed :: "fd list"

definition sim_init :: sim where
  "sim_init = \<lparr>sim_rd = (\<lambda>_. []), sim_wr = (\<lambda>_. []), sim_out = (\<lambda>_. []),
     sim_reg = [], sim_ready = (\<lambda>_. []), sim_closed = []\<rparr>"

lemma sim_out_init [simp]: "sim_out sim_init f = []"
  by (simp add: sim_init_def)

definition sim_read :: "fd \<Rightarrow> nat \<Rightarrow> sim \<Rightarrow> rd_answer \<times> sim" where
  "sim_read f n k =
     (case sim_rd k f of
        [] \<Rightarrow> (RdErr EAGAIN, k)
      | RdErr e # rest \<Rightarrow> (RdErr e, k\<lparr>sim_rd := (sim_rd k)(f := rest)\<rparr>)
      | RdBytes bs # rest \<Rightarrow>
          if length bs \<le> n then (RdBytes bs, k\<lparr>sim_rd := (sim_rd k)(f := rest)\<rparr>)
          else (RdBytes (take n bs), k\<lparr>sim_rd := (sim_rd k)(f := RdBytes (drop n bs) # rest)\<rparr>))"

definition sim_write :: "fd \<Rightarrow> bytes \<Rightarrow> sim \<Rightarrow> wr_answer \<times> sim" where
  "sim_write f bs k =
     (case sim_wr k f of
        [] \<Rightarrow> (WrBytes (length bs), k\<lparr>sim_out := (sim_out k)(f := sim_out k f @ bs)\<rparr>)
      | WrErr e # rest \<Rightarrow> (WrErr e, k\<lparr>sim_wr := (sim_wr k)(f := rest)\<rparr>)
      | WrBytes n # rest \<Rightarrow>
          (WrBytes (min n (length bs)),
           k\<lparr>sim_wr := (sim_wr k)(f := rest), sim_out := (sim_out k)(f := sim_out k f @ take n bs)\<rparr>))"

definition sim_interest :: "fd \<Rightarrow> sim \<Rightarrow> fd \<rightharpoonup> epoll_event" where
  "sim_interest ep k f = map_of (sim_reg k) (ep, f)"

definition sim_epoll_ctl ::
  "fd \<Rightarrow> ctl_op \<Rightarrow> fd \<Rightarrow> epoll_event \<Rightarrow> sim \<Rightarrow> errno option \<times> sim" where
  "sim_epoll_ctl ep op f ev k =
     (let there = sim_interest ep k f \<noteq> None;
          put = k\<lparr>sim_reg := ((ep, f), ev) # sim_reg k\<rparr> in
      if f < 0 then (Some EBADF, k) else
      case op of
        CtlAdd \<Rightarrow> if there then (Some EEXIST, k) else (None, put)
      | CtlMod \<Rightarrow> if there then (None, put) else (Some ENOENT, k)
      | CtlDel \<Rightarrow> if there then (None, k\<lparr>sim_reg := filter (\<lambda>r. fst r \<noteq> (ep, f)) (sim_reg k)\<rparr>)
                  else (Some ENOENT, k))"

definition sim_accept :: "fd \<Rightarrow> sim \<Rightarrow> (errno + fd) \<times> sim" where
  "sim_accept f k =
     (case sim_ready k f of
        [] \<Rightarrow> (Inl EAGAIN, k)
      | c # cs \<Rightarrow>
          if c \<le> 0 \<or> c \<in> snd ` fst ` set (sim_reg k) then (Inl EMFILE, k)
          else (Inr c, k\<lparr>sim_ready := (sim_ready k)(f := cs)\<rparr>))"

definition sim_close :: "fd \<Rightarrow> sim \<Rightarrow> sim" where
  "sim_close f k = k\<lparr>sim_reg := filter (\<lambda>r. snd (fst r) \<noteq> f) (sim_reg k),
                    sim_closed := f # sim_closed k\<rparr>"

definition sim_os :: "sim os" where
  "sim_os = \<lparr>sys_read = sim_read, sys_write = sim_write, sys_close = sim_close,
     sys_accept = sim_accept, sys_getfl = (\<lambda>f k. (Inr 2, k)), sys_setfl = (\<lambda>f fl k. (None, k)), sys_epoll_ctl = sim_epoll_ctl\<rparr>"

fun answer_bytes :: "rd_answer \<Rightarrow> bytes" where
  "answer_bytes (RdBytes bs) = bs"
| "answer_bytes (RdErr e) = []"

definition sim_inq :: "fd \<Rightarrow> sim \<Rightarrow> bytes" where
  "sim_inq f k = concat (map answer_bytes (sim_rd k f))"

definition sim_outq :: "fd \<Rightarrow> sim \<Rightarrow> bytes" where
  "sim_outq f k = sim_out k f"

lemma sim_os_sel [simp]:
  "sys_read sim_os = sim_read" "sys_write sim_os = sim_write" "sys_close sim_os = sim_close"
  "sys_accept sim_os = sim_accept" "sys_epoll_ctl sim_os = sim_epoll_ctl"
  "sys_getfl sim_os f k = (Inr 2, k)" "sys_setfl sim_os f fl k = (None, k)"
  by (simp_all add: sim_os_def)

lemma map_of_filter_key:
  "map_of (filter (\<lambda>r. fst r \<noteq> y) xs) x = (if x \<noteq> y then map_of xs x else None)"
  by (induction xs) auto

lemma map_of_filter_snd_key:
  "map_of (filter (\<lambda>r. snd (fst r) \<noteq> y) xs) x = (if snd x \<noteq> y then map_of xs x else None)"
  by (induction xs) auto

lemma sim_stream_contract: "stream_contract sim_os sim_inq sim_outq"
  unfolding stream_contract_def
  by (auto simp: sim_read_def sim_write_def sim_inq_def sim_outq_def min_def
           split: list.splits rd_answer.splits wr_answer.splits if_splits)

lemma sim_epoll_contract: "epoll_contract sim_os sim_interest"
  unfolding epoll_contract_def
  by (auto simp: sim_epoll_ctl_def Let_def sim_interest_def fun_eq_iff map_of_filter_key
           split: if_splits ctl_op.splits)

lemma sim_frame_contract: "frame_contract sim_os sim_inq sim_outq sim_interest"
  unfolding frame_contract_def
  by (auto simp: sim_read_def sim_write_def sim_accept_def sim_close_def sim_inq_def sim_outq_def
        sim_epoll_ctl_def sim_interest_def fun_eq_iff map_of_filter_snd_key map_of_filter_key Let_def map_of_eq_None_iff image_iff
      split: list.splits rd_answer.splits wr_answer.splits if_splits ctl_op.splits)

lemma sim_os_contract: "os_contract sim_os sim_inq sim_outq sim_interest"
  by (simp add: os_contract_def sim_stream_contract sim_epoll_contract sim_frame_contract)

text \<open>The same kernel with a socket that takes one byte at a time.\<close>

definition sim_drip :: "fd \<Rightarrow> bytes \<Rightarrow> sim \<Rightarrow> wr_answer \<times> sim" where
  "sim_drip f bs k =
     (WrBytes (min 1 (length bs)), k\<lparr>sim_out := (sim_out k)(f := sim_out k f @ take 1 bs)\<rparr>)"

definition drip_os :: "sim os" where
  "drip_os = sim_os\<lparr>sys_write := sim_drip\<rparr>"

lemma drip_os_sel [simp]:
  "sys_read drip_os = sim_read" "sys_write drip_os = sim_drip" "sys_close drip_os = sim_close"
  "sys_accept drip_os = sim_accept" "sys_epoll_ctl drip_os = sim_epoll_ctl"
  "sys_getfl drip_os f k = (Inr 2, k)" "sys_setfl drip_os f fl k = (None, k)"
  by (simp_all add: drip_os_def)

lemma drip_os_contract: "os_contract drip_os sim_inq sim_outq sim_interest"
proof -
  have "stream_contract drip_os sim_inq sim_outq"
    using sim_stream_contract
    by (auto simp: stream_contract_def sim_drip_def sim_inq_def sim_outq_def min_def)
  moreover have "epoll_contract drip_os sim_interest"
    using sim_epoll_contract by (simp add: epoll_contract_def)
  moreover have "frame_contract drip_os sim_inq sim_outq sim_interest"
    using sim_frame_contract unfolding frame_contract_def
    by (simp add: sim_drip_def sim_interest_def fun_eq_iff)
  ultimately show ?thesis by (simp add: os_contract_def)
qed

end
