(* ===== verification/Event.thy ===== *)
theory Event imports OS begin


section \<open>Event.h and Epoller: descriptors registered with epoll\<close>

text \<open>
  An \<open>Event\<close> is the registration of one descriptor with one \<open>Epoller\<close>: the mask of interest, the
  mask of the last poll, and four callbacks.  \<open>Event\<close> objects live on a heap (\<open>evs\<close>), their
  address is what \<open>epoll_event.data.ptr\<close> carries; \<open>new\<close> takes a fresh address, \<open>delete\<close> frees it
  (\<open>ObjectPool\<close> does no more, see \<open>get_new_object\<close>).  An \<open>Epoller\<close> is its \<open>epollfd_\<close>.  Callbacks
  are the closures the sources register, named by a datatype.
\<close>

subsection \<open>Masks\<close>

definition EPOLLIN :: u32 where "EPOLLIN = 0x001"
definition EPOLLPRI :: u32 where "EPOLLPRI = 0x002"
definition EPOLLOUT :: u32 where "EPOLLOUT = 0x004"
definition EPOLLERR :: u32 where "EPOLLERR = 0x008"
definition EPOLLHUP :: u32 where "EPOLLHUP = 0x010"
definition EPOLLRDNORM :: u32 where "EPOLLRDNORM = 0x040"
definition EPOLLWRNORM :: u32 where "EPOLLWRNORM = 0x100"

lemmas mask_defs = EPOLLIN_def EPOLLPRI_def EPOLLOUT_def EPOLLERR_def EPOLLHUP_def
  EPOLLRDNORM_def EPOLLWRNORM_def

type_synonym conn_id = nat

datatype callback =
    Cb_accept
  | Cb_conn_msg conn_id
  | Cb_send_nonblock conn_id
  | Cb_check_connect conn_id
  | Cb_wake_up
  | Cb_timer nat

subsection \<open>State\<close>

record event =
  ev_fd :: fd
  events :: u32
  revents :: u32
  epoller :: fd
  readCallback :: "callback option"
  writeCallback :: "callback option"
  errorCallback :: "callback option"
  closeCallback :: "callback option"

definition new_event :: "fd \<Rightarrow> fd \<Rightarrow> event" where
  "new_event f ep = \<lparr>ev_fd = f, events = 0, revents = 0, epoller = ep, readCallback = None,
     writeCallback = None, errorCallback = None, closeCallback = None\<rparr>"

record 'k world =
  env :: "'k env"
  evs :: "event_id \<rightharpoonup> event"
  next_ev :: event_id

subsection \<open>ObjectPool\<close>

text \<open>
  \<open>getNewObject\<close> returns \<open>new T(args)\<close> in its first statement and \<open>returnObject\<close> deletes in its
  first statement; what follows them is never reached.  On a heap of objects with a counter for
  the next free address:
\<close>

definition get_new_object :: "'t \<Rightarrow> (nat \<rightharpoonup> 't) \<Rightarrow> nat \<Rightarrow> nat \<times> (nat \<rightharpoonup> 't) \<times> nat" where
  "get_new_object obj heap nxt = (nxt, heap(nxt \<mapsto> obj), Suc nxt)"

definition return_object :: "nat \<Rightarrow> (nat \<rightharpoonup> 't) \<Rightarrow> (nat \<rightharpoonup> 't) res" where
  "return_object p heap = (if heap p = None then Inl Use_after_free else Inr (heap(p := None)))"

text \<open>Following a pointer to an object that has been deleted is an error.\<close>

definition deref :: "(nat \<rightharpoonup> 't) \<Rightarrow> nat \<Rightarrow> 't res" where
  "deref heap p = (case heap p of None \<Rightarrow> Inl Use_after_free | Some x \<Rightarrow> Inr x)"

lemma deref_simps [simp]:
  "heap p = Some x \<Longrightarrow> deref heap p = Inr x"
  "heap p = None \<Longrightarrow> deref heap p = Inl Use_after_free"
  by (simp_all add: deref_def)

lemma deref_Inr_iff [simp]: "deref heap p = Inr x \<longleftrightarrow> heap p = Some x"
  by (simp add: deref_def split: option.splits)

subsection \<open>Epoller\<close>

definition add_event :: "'k os \<Rightarrow> fd \<Rightarrow> event_id \<Rightarrow> ('k, 'z) world_scheme \<Rightarrow> ('k, 'z) world_scheme res" where
  "add_event os ep p w =
     res_bind (deref (evs w) p) (\<lambda>ev.
       Inr (w\<lparr>env := logged ''in addEvent, epoll_ctl error''
                       (sys_epoll_ctl os ep CtlAdd (ev_fd ev) (events ev, p)) (env w)\<rparr>))"

definition update_event :: "'k os \<Rightarrow> fd \<Rightarrow> event_id \<Rightarrow> ('k, 'z) world_scheme \<Rightarrow> ('k, 'z) world_scheme res" where
  "update_event os ep p w =
     res_bind (deref (evs w) p) (\<lambda>ev.
       Inr (w\<lparr>env := logged ''in updateEvent, epoll_ctl error. {}''
                       (sys_epoll_ctl os ep CtlMod (ev_fd ev) (events ev, p)) (env w)\<rparr>))"

definition remove_event :: "'k os \<Rightarrow> fd \<Rightarrow> event_id \<Rightarrow> ('k, 'z) world_scheme \<Rightarrow> ('k, 'z) world_scheme res" where
  "remove_event os ep p w =
     res_bind (deref (evs w) p) (\<lambda>ev.
       Inr (w\<lparr>env := logged ''epoll_ctl error''
                       (sys_epoll_ctl os ep CtlDel (ev_fd ev) (events ev, p)) (env w)\<rparr>))"

text \<open>
  \<open>poll\<close> on the answer of \<open>epoll_wait\<close>: the entries it reports, or its error.  Each entry's mask is
  stored in the event its pointer names; the events are returned in the order reported.
\<close>

fun store_revents :: "epoll_event list \<Rightarrow> (event_id \<rightharpoonup> event) \<Rightarrow> (event_id list \<times> (event_id \<rightharpoonup> event)) res" where
  "store_revents [] es = Inr ([], es)"
| "store_revents ((m, p) # rest) es =
     res_bind (deref es p) (\<lambda>ev.
       res_bind (store_revents rest (es(p \<mapsto> ev\<lparr>revents := m\<rparr>))) (\<lambda>(ps, es').
         Inr (p # ps, es')))"

definition poll :: "(errno + epoll_event list) \<Rightarrow> ('k, 'z) world_scheme \<Rightarrow> (event_id list \<times> ('k, 'z) world_scheme) res" where
  "poll answer w =
     (case answer of
        Inl e \<Rightarrow>
          if e \<noteq> EINTR then Inr ([], w\<lparr>env := add_log (Sys ''epoll_wait error'') (env w)\<rparr>)
          else Inr ([], w)
      | Inr evlist \<Rightarrow>
          res_bind (store_revents evlist (evs w)) (\<lambda>(ps, es). Inr (ps, w\<lparr>evs := es\<rparr>)))"

subsection \<open>Event\<close>

text \<open>\<open>make\<close>: a new event, already added to the epoller's list (with an empty mask).\<close>

definition make_event :: "'k os \<Rightarrow> fd \<Rightarrow> fd \<Rightarrow> ('k, 'z) world_scheme \<Rightarrow> (event_id \<times> ('k, 'z) world_scheme) res" where
  "make_event os f ep w =
     (let (p, heap, nxt) = get_new_object (new_event f ep) (evs w) (next_ev w) in
      res_bind (add_event os ep p (w\<lparr>evs := heap, next_ev := nxt\<rparr>)) (\<lambda>w'. Inr (p, w')))"

definition isWritable :: "event \<Rightarrow> bool" where
  "isWritable ev \<longleftrightarrow> EPOLLOUT AND events ev \<noteq> 0"

definition set_flag :: "u32 \<Rightarrow> bool \<Rightarrow> event \<Rightarrow> event" where
  "set_flag onFlag on ev =
     ev\<lparr>events := (if on then events ev OR onFlag else events ev AND NOT onFlag)\<rparr>"

definition set_mask :: "'k os \<Rightarrow> u32 \<Rightarrow> event_id \<Rightarrow> bool \<Rightarrow> ('k, 'z) world_scheme \<Rightarrow> ('k, 'z) world_scheme res" where
  "set_mask os onFlag p on w =
     res_bind (deref (evs w) p) (\<lambda>ev.
       update_event os (epoller ev) p (w\<lparr>evs := (evs w)(p \<mapsto> set_flag onFlag on ev)\<rparr>))"

definition setReadable :: "'k os \<Rightarrow> event_id \<Rightarrow> bool \<Rightarrow> ('k, 'z) world_scheme \<Rightarrow> ('k, 'z) world_scheme res" where
  "setReadable os = set_mask os (EPOLLIN OR EPOLLPRI)"

definition setWritable :: "'k os \<Rightarrow> event_id \<Rightarrow> bool \<Rightarrow> ('k, 'z) world_scheme \<Rightarrow> ('k, 'z) world_scheme res" where
  "setWritable os = set_mask os EPOLLOUT"

definition setErrorable :: "'k os \<Rightarrow> event_id \<Rightarrow> bool \<Rightarrow> ('k, 'z) world_scheme \<Rightarrow> ('k, 'z) world_scheme res" where
  "setErrorable os = set_mask os EPOLLERR"

definition setReadCallback :: "event_id \<Rightarrow> callback \<Rightarrow> ('k, 'z) world_scheme \<Rightarrow> ('k, 'z) world_scheme res" where
  "setReadCallback p cb w =
     res_bind (deref (evs w) p) (\<lambda>ev. Inr (w\<lparr>evs := (evs w)(p \<mapsto> ev\<lparr>readCallback := Some cb\<rparr>)\<rparr>))"

definition setWriteCallback :: "event_id \<Rightarrow> callback \<Rightarrow> ('k, 'z) world_scheme \<Rightarrow> ('k, 'z) world_scheme res" where
  "setWriteCallback p cb w =
     res_bind (deref (evs w) p) (\<lambda>ev. Inr (w\<lparr>evs := (evs w)(p \<mapsto> ev\<lparr>writeCallback := Some cb\<rparr>)\<rparr>))"

definition setErrorCallback :: "event_id \<Rightarrow> callback \<Rightarrow> ('k, 'z) world_scheme \<Rightarrow> ('k, 'z) world_scheme res" where
  "setErrorCallback p cb w =
     res_bind (deref (evs w) p) (\<lambda>ev. Inr (w\<lparr>evs := (evs w)(p \<mapsto> ev\<lparr>errorCallback := Some cb\<rparr>)\<rparr>))"

definition setCloseCallback :: "event_id \<Rightarrow> callback \<Rightarrow> ('k, 'z) world_scheme \<Rightarrow> ('k, 'z) world_scheme res" where
  "setCloseCallback p cb w =
     res_bind (deref (evs w) p) (\<lambda>ev. Inr (w\<lparr>evs := (evs w)(p \<mapsto> ev\<lparr>closeCallback := Some cb\<rparr>)\<rparr>))"

text \<open>
  \<open>handle\<close> runs at most one callback: the first of error, read, write, close whose bits are in
  the mask of the poll and whose callback is set.
\<close>

definition handle :: "event \<Rightarrow> callback option" where
  "handle ev =
     (if revents ev AND EPOLLERR \<noteq> 0 \<and> errorCallback ev \<noteq> None then errorCallback ev
      else if (revents ev AND EPOLLIN \<noteq> 0 \<or> revents ev AND EPOLLPRI \<noteq> 0 \<or>
               revents ev AND EPOLLRDNORM \<noteq> 0) \<and> readCallback ev \<noteq> None then readCallback ev
      else if (revents ev AND EPOLLOUT \<noteq> 0 \<or> revents ev AND EPOLLWRNORM \<noteq> 0) \<and>
              writeCallback ev \<noteq> None then writeCallback ev
      else if revents ev AND EPOLLHUP \<noteq> 0 \<and> closeCallback ev \<noteq> None then closeCallback ev
      else None)"

subsection \<open>Masks and flags\<close>

lemma and_flag_iff:
  "EPOLLIN AND e \<noteq> 0 \<longleftrightarrow> bit e 0" "EPOLLPRI AND e \<noteq> 0 \<longleftrightarrow> bit e 1" "EPOLLOUT AND e \<noteq> 0 \<longleftrightarrow> bit e 2"
  "EPOLLERR AND e \<noteq> 0 \<longleftrightarrow> bit e 3" "EPOLLHUP AND e \<noteq> 0 \<longleftrightarrow> bit e 4"
  using and_exp_eq_0_iff_not_bit [of e 0] and_exp_eq_0_iff_not_bit [of e 1]
    and_exp_eq_0_iff_not_bit [of e 2] and_exp_eq_0_iff_not_bit [of e 3]
    and_exp_eq_0_iff_not_bit [of e 4]
  by (simp_all add: mask_defs and.commute)

lemma isWritable_bit: "isWritable ev \<longleftrightarrow> bit (events ev) 2"
  by (simp add: isWritable_def and_flag_iff)

definition isReadable :: "event \<Rightarrow> bool" where
  "isReadable ev \<longleftrightarrow> EPOLLIN AND events ev \<noteq> 0"

lemma isReadable_bit: "isReadable ev \<longleftrightarrow> bit (events ev) 0"
  by (simp add: isReadable_def and_flag_iff)

lemma bit_flags [simp]:
  "bit EPOLLOUT 2" "\<not> bit EPOLLOUT 0" "\<not> bit EPOLLIN 2" "\<not> bit EPOLLPRI 2" "bit EPOLLIN 0"
  by (simp_all add: mask_defs bit_iff_odd)

lemma isWritable_set_flag [simp]:
  "isWritable (set_flag EPOLLOUT on ev) = on"
  "isWritable (set_flag (EPOLLIN OR EPOLLPRI) on ev) = isWritable ev"
  by (simp_all add: isWritable_bit set_flag_def bit_or_iff bit_and_iff bit_not_iff)

lemma isReadable_set_flag [simp]:
  "isReadable (set_flag EPOLLOUT on ev) = isReadable ev"
  "isReadable (set_flag (EPOLLIN OR EPOLLPRI) on ev) = on"
  by (simp_all add: isReadable_bit set_flag_def bit_or_iff bit_and_iff bit_not_iff)

lemma set_flag_sel [simp]:
  "ev_fd (set_flag fl on ev) = ev_fd ev" "epoller (set_flag fl on ev) = epoller ev"
  "revents (set_flag fl on ev) = revents ev"
  "readCallback (set_flag fl on ev) = readCallback ev"
  "writeCallback (set_flag fl on ev) = writeCallback ev"
  "errorCallback (set_flag fl on ev) = errorCallback ev"
  "closeCallback (set_flag fl on ev) = closeCallback ev"
  by (simp_all add: set_flag_def)

subsection \<open>Logged calls of \<open>epoll_ctl\<close>\<close>

lemma logged_cases:
  obtains r k where "call (kern e) = (r, k)" "kern (logged msg call e) = k"
    "logs (logged msg call e) = (if r = None then logs e else logs e @ [Sys msg])"
proof -
  obtain r k where "call (kern e) = (r, k)" by fastforce
  then show ?thesis by (intro that [of r k]) (cases r; simp add: logged_def)+
qed

lemma logged_epoll:
  assumes "epoll_contract os interest"
    and "e' = logged msg (sys_epoll_ctl os ep op f m) e"
  shows "interest ep (kern e') = snd (epoll_ctl_spec op f m (interest ep (kern e)))"
    and "ep' \<noteq> ep \<Longrightarrow> interest ep' (kern e') = interest ep' (kern e)"
    and "logs e' = (if fst (epoll_ctl_spec op f m (interest ep (kern e))) = None then logs e
                    else logs e @ [Sys msg])"
proof -
  obtain r k where *: "sys_epoll_ctl os ep op f m (kern e) = (r, k)" "kern e' = k"
    "logs e' = (if r = None then logs e else logs e @ [Sys msg])"
    using logged_cases [of "sys_epoll_ctl os ep op f m" e msg] assms(2) by metis
  note c = epoll_contractD [OF assms(1) *(1)]
  show "interest ep (kern e') = snd (epoll_ctl_spec op f m (interest ep (kern e)))"
    using c(1) *(2) by (metis snd_conv)
  show "ep' \<noteq> ep \<Longrightarrow> interest ep' (kern e') = interest ep' (kern e)"
    using c(2) *(2) by simp
  show "logs e' = (if fst (epoll_ctl_spec op f m (interest ep (kern e))) = None then logs e
                    else logs e @ [Sys msg])"
    using c(1) *(3) by (metis fst_conv)
qed

lemma logged_streams:
  assumes "frame_contract os inq outq interest"
  shows "outq g (kern (logged msg (sys_epoll_ctl os ep op f m) e)) = outq g (kern e)"
    and "inq g (kern (logged msg (sys_epoll_ctl os ep op f m) e)) = inq g (kern e)"
    and "outq g (kern (setNonblock os f e)) = outq g (kern e)"
    and "interest ep (kern (setNonblock os f e)) = interest ep (kern e)"
proof -
  note fc = frame_contractD [OF assms]
  show "outq g (kern (logged msg (sys_epoll_ctl os ep op f m) e)) = outq g (kern e)"
    and "inq g (kern (logged msg (sys_epoll_ctl os ep op f m) e)) = inq g (kern e)"
    using fc(6,7) by (metis logged_cases)+
  obtain r k where r: "sys_getfl os f (kern e) = (r, k)" by fastforce
  define e2 where "e2 = (case r of Inl _ \<Rightarrow> add_log (Sys ''fcntl F_GETFL error'') (e\<lparr>kern := k\<rparr>) | Inr fl \<Rightarrow> e\<lparr>kern := k\<rparr>)"
  obtain fl where nb: "setNonblock os f e = logged ''fcntl F_SETFL error'' (sys_setfl os f fl) e2"
    using r by (cases r) (auto simp: setNonblock_def e2_def)
  have k2: "kern e2 = k" by (simp add: e2_def split: sum.split)
  obtain r3 k3 where r3: "sys_setfl os f fl (kern e2) = (r3, k3)" "kern (setNonblock os f e) = k3"
    using logged_cases [of "sys_setfl os f fl" e2] nb by metis
  show "outq g (kern (setNonblock os f e)) = outq g (kern e)"
    and "interest ep (kern (setNonblock os f e)) = interest ep (kern e)"
    using fc(4) [OF r] fc(5) [OF r3(1)] r3(2) k2 by metis+
qed

subsection \<open>Live events are the registered events\<close>

text \<open>
  The invariant that makes the pointers in the kernel safe to follow: every live event is in the
  interest list of its epoller under its descriptor, with its mask and its address, and every
  entry of an interest list points to such an event; no two live events share a descriptor.  An event made for
  the \<open>-1\<close> of a failed call is in no interest list, and there may be many of them.
\<close>

definition registered :: "(fd \<Rightarrow> 'k \<Rightarrow> (fd \<rightharpoonup> epoll_event)) \<Rightarrow> ('k, 'z) world_scheme \<Rightarrow> bool" where
  "registered interest w \<longleftrightarrow>
     (\<forall>p ev. evs w p = Some ev \<longrightarrow>
        p < next_ev w \<and> (0 \<le> ev_fd ev \<longrightarrow> interest (epoller ev) (kern (env w)) (ev_fd ev) = Some (events ev, p))) \<and>
     (\<forall>ep f m p. interest ep (kern (env w)) f = Some (m, p) \<longrightarrow>
        0 \<le> f \<and> (\<exists>ev. evs w p = Some ev \<and> ev_fd ev = f \<and> epoller ev = ep \<and> events ev = m)) \<and>
     (\<forall>p q ev ev'. evs w p = Some ev \<and> evs w q = Some ev' \<and> 0 \<le> ev_fd ev \<and> ev_fd ev = ev_fd ev' \<longrightarrow> p = q)"

lemma registeredD:
  assumes "registered interest w"
  shows "evs w p = Some ev \<Longrightarrow> p < next_ev w"
    and "evs w p = Some ev \<Longrightarrow> 0 \<le> ev_fd ev \<Longrightarrow>
      interest (epoller ev) (kern (env w)) (ev_fd ev) = Some (events ev, p)"
    and "interest ep (kern (env w)) f = Some (m, p) \<Longrightarrow>
      \<exists>ev. evs w p = Some ev \<and> ev_fd ev = f \<and> epoller ev = ep \<and> events ev = m"
    and "evs w p = Some ev \<Longrightarrow> evs w q = Some ev' \<Longrightarrow> 0 \<le> ev_fd ev \<Longrightarrow> ev_fd ev = ev_fd ev' \<Longrightarrow> p = q"
    and "f < 0 \<Longrightarrow> interest ep (kern (env w)) f = None"
    and "interest ep (kern (env w)) f = Some (m, p) \<Longrightarrow> 0 \<le> f"
proof -
  note d = assms [unfolded registered_def]
  show "evs w p = Some ev \<Longrightarrow> p < next_ev w"
    and "evs w p = Some ev \<Longrightarrow> 0 \<le> ev_fd ev \<Longrightarrow>
      interest (epoller ev) (kern (env w)) (ev_fd ev) = Some (events ev, p)"
    and "interest ep (kern (env w)) f = Some (m, p) \<Longrightarrow>
      \<exists>ev. evs w p = Some ev \<and> ev_fd ev = f \<and> epoller ev = ep \<and> events ev = m"
    and "evs w p = Some ev \<Longrightarrow> evs w q = Some ev' \<Longrightarrow> 0 \<le> ev_fd ev \<Longrightarrow> ev_fd ev = ev_fd ev' \<Longrightarrow> p = q"
    and "interest ep (kern (env w)) f = Some (m, p) \<Longrightarrow> 0 \<le> f"
    using d by blast+
  show "f < 0 \<Longrightarrow> interest ep (kern (env w)) f = None"
    using d by (metis not_less option.exhaust prod.exhaust)
qed

text \<open>The conditions, each under a name: what a proof of the invariant shows.\<close>

lemma registeredI:
  assumes "\<And>p ev. evs w p = Some ev \<Longrightarrow> p < next_ev w"
    and "\<And>p ev. evs w p = Some ev \<Longrightarrow> 0 \<le> ev_fd ev \<Longrightarrow> interest (epoller ev) (kern (env w)) (ev_fd ev) = Some (events ev, p)"
    and "\<And>ep f m p. interest ep (kern (env w)) f = Some (m, p) \<Longrightarrow>
      0 \<le> f \<and> (\<exists>ev. evs w p = Some ev \<and> ev_fd ev = f \<and> epoller ev = ep \<and> events ev = m)"
    and "\<And>p q ev ev'. evs w p = Some ev \<Longrightarrow> evs w q = Some ev' \<Longrightarrow> 0 \<le> ev_fd ev \<Longrightarrow> ev_fd ev = ev_fd ev' \<Longrightarrow> p = q"
  shows "registered interest w"
  unfolding registered_def using assms by blast

lemma registered_cong:
  assumes "registered interest w" and "next_ev w' = next_ev w"
    and "\<And>ep. interest ep (kern (env w')) = interest ep (kern (env w))"
    and "\<And>p. map_option (\<lambda>ev. (ev_fd ev, epoller ev, events ev)) (evs w' p)
           = map_option (\<lambda>ev. (ev_fd ev, epoller ev, events ev)) (evs w p)"
  shows "registered interest w'"
proof (rule registeredI, goal_cases)
  case (1 p ev')
  with assms(4) [of p] obtain ev where "evs w p = Some ev" by (cases "evs w p") auto
  then show ?case using registeredD(1) [OF assms(1)] assms(2) by auto
next
  case (2 p ev')
  with assms(4) [of p] obtain ev where ev: "evs w p = Some ev" "ev_fd ev = ev_fd ev'"
    "epoller ev = epoller ev'" "events ev = events ev'"
    by (cases "evs w p") auto
  then show ?case using registeredD(2) [OF assms(1) ev(1)] 2(2) assms(3) by auto
next
  case (3 ep f m p)
  then obtain ev where ev: "evs w p = Some ev" "ev_fd ev = f" "epoller ev = ep" "events ev = m"
    using registeredD(3) [OF assms(1)] assms(3) by metis
  have "0 \<le> f" using 3 registeredD(6) [OF assms(1), of ep f] assms(3) by simp
  then show ?case using assms(4) [of p] ev by (cases "evs w' p") auto
next
  case (4 p q ev ev')
  then obtain e1 e2 where "evs w p = Some e1" "evs w q = Some e2" "0 \<le> ev_fd e1" "ev_fd e1 = ev_fd e2"
    using assms(4) [of p] assms(4) [of q] by (cases "evs w p"; cases "evs w q") auto
  then show ?case using registeredD(4) [OF assms(1)] by blast
qed

lemma set_mask_eq:
  "evs w p = Some ev \<Longrightarrow>
     set_mask os fl p on w = Inr (w\<lparr>evs := (evs w)(p \<mapsto> set_flag fl on ev),
       env := logged ''in updateEvent, epoll_ctl error. {}''
         (sys_epoll_ctl os (epoller ev) CtlMod (ev_fd ev) (events (set_flag fl on ev), p)) (env w)\<rparr>)"
  by (simp add: set_mask_def update_event_def)

lemma set_mask_dead: "evs w p = None \<Longrightarrow> set_mask os fl p on w = Inl Use_after_free"
  by (simp add: set_mask_def)

text \<open>The three operations, on an event whose descriptor is negative and on one whose descriptor is not.\<close>

lemma set_mask_registered:
  assumes os: "epoll_contract os interest" and reg: "registered interest w"
    and ev: "evs w p = Some ev"
  obtains e' where "set_mask os fl p on w = Inr (w\<lparr>evs := (evs w)(p \<mapsto> set_flag fl on ev), env := e'\<rparr>)"
    "registered interest (w\<lparr>evs := (evs w)(p \<mapsto> set_flag fl on ev), env := e'\<rparr>)"
    "0 \<le> ev_fd ev \<Longrightarrow> logs e' = logs (env w)"
    "e' = logged ''in updateEvent, epoll_ctl error. {}''
         (sys_epoll_ctl os (epoller ev) CtlMod (ev_fd ev) (events (set_flag fl on ev), p)) (env w)"
proof -
  define e' where "e' = logged ''in updateEvent, epoll_ctl error. {}''
    (sys_epoll_ctl os (epoller ev) CtlMod (ev_fd ev) (events (set_flag fl on ev), p)) (env w)"
  note l = logged_epoll [OF os e'_def]
  note r = registeredD [OF reg]
  have i: "interest (epoller ev) (kern e') = (if ev_fd ev < 0 then interest (epoller ev) (kern (env w))
      else (interest (epoller ev) (kern (env w)))(ev_fd ev \<mapsto> (events (set_flag fl on ev), p)))"
    using l(1) r(2) [OF ev] by simp
  have "registered interest (w\<lparr>evs := (evs w)(p \<mapsto> set_flag fl on ev), env := e'\<rparr>)"
  proof (rule registeredI, goal_cases)
    case (1 q ev')
    then show ?case using r(1) ev by (auto split: if_splits)
  next
    case (2 q ev')
    show ?case
    proof (cases "q = p")
      case True
      with 2 have "ev' = set_flag fl on ev" by simp
      then show ?thesis using i True 2(2) by simp
    next
      case False
      with 2 have q: "evs w q = Some ev'" "0 \<le> ev_fd ev'" by simp_all
      have "epoller ev' \<noteq> epoller ev \<or> ev_fd ev' \<noteq> ev_fd ev"
        using r(2) [OF q] r(2) [OF ev] q(2) False by auto
      then show ?thesis using r(2) [OF q] i l(2) by (cases "epoller ev' = epoller ev") auto
    qed
  next
    case (3 ep f m q)
    show ?case
    proof (cases "ep = epoller ev \<and> f = ev_fd ev \<and> 0 \<le> f")
      case True
      with 3 i show ?thesis by simp
    next
      case False
      have old: "interest ep (kern (env w)) f = Some (m, q)"
        using 3 False i l(2) [of ep] by (cases "ep = epoller ev") (auto split: if_splits)
      then obtain ev' where ev': "evs w q = Some ev'" "ev_fd ev' = f" "epoller ev' = ep" "events ev' = m"
        using r(3) by blast
      have f: "0 \<le> f" using r(6) [OF old] .
      with ev' False have "q \<noteq> p" using ev by auto
      with ev' f show ?thesis by simp
    qed
  next
    case (4 q1 q2 e1 e2)
    have "\<exists>e. evs w q1 = Some e \<and> ev_fd e = ev_fd e1" "\<exists>e. evs w q2 = Some e \<and> ev_fd e = ev_fd e2"
      using 4(1,2) ev by (auto split: if_splits)
    then show ?case using r(4) 4(3,4) by metis
  qed
  moreover have "0 \<le> ev_fd ev \<Longrightarrow> logs e' = logs (env w)"
    using l(3) r(2) [OF ev] by simp
  ultimately show ?thesis
    using that [of e'] set_mask_eq [OF ev, of os fl on] e'_def by simp
qed

lemma make_event_registered:
  assumes os: "epoll_contract os interest" and reg: "registered interest w"
    and fresh_all: "\<And>ep. interest ep (kern (env w)) f = None"
  obtains e' where "make_event os f ep w = Inr (next_ev w,
      w\<lparr>evs := (evs w)(next_ev w \<mapsto> new_event f ep), next_ev := Suc (next_ev w), env := e'\<rparr>)"
    "registered interest
       (w\<lparr>evs := (evs w)(next_ev w \<mapsto> new_event f ep), next_ev := Suc (next_ev w), env := e'\<rparr>)"
    "0 \<le> f \<Longrightarrow> logs e' = logs (env w)"
    "e' = logged ''in addEvent, epoll_ctl error'' (sys_epoll_ctl os ep CtlAdd f (0, next_ev w)) (env w)"
proof -
  define p where "p = next_ev w"
  define e' where
    "e' = logged ''in addEvent, epoll_ctl error'' (sys_epoll_ctl os ep CtlAdd f (0, p)) (env w)"
  define w' where "w' = w\<lparr>evs := (evs w)(p \<mapsto> new_event f ep), next_ev := Suc p, env := e'\<rparr>"
  note l = logged_epoll [OF os e'_def]
  note r = registeredD [OF reg]
  note fresh = fresh_all [of ep]
  have unused: "ev_fd ev \<noteq> f" if "evs w q = Some ev" "0 \<le> f" for q ev
    using r(2) [OF that(1)] that(2) fresh_all [of "epoller ev"] by auto
  have i: "interest ep (kern e') = (if f < 0 then interest ep (kern (env w)) else (interest ep (kern (env w)))(f \<mapsto> (0, p)))"
    using l(1) fresh by simp
  have new: "ev_fd (new_event f ep) = f" "epoller (new_event f ep) = ep" "events (new_event f ep) = 0"
    by (simp_all add: new_event_def)
  have "make_event os f ep w = Inr (p, w')"
    by (simp add: make_event_def get_new_object_def add_event_def p_def w'_def e'_def new)
  moreover have "registered interest w'"
  proof (rule registeredI, goal_cases)
    case (1 q ev')
    then show ?case using r(1) by (auto simp: w'_def p_def split: if_splits dest: less_SucI)
  next
    case (2 q ev')
    show ?case
    proof (cases "q = p")
      case True
      with 2 i new show ?thesis by (auto simp: w'_def)
    next
      case False
      with 2 have q: "evs w q = Some ev'" "0 \<le> ev_fd ev'" by (simp_all add: w'_def)
      then have "epoller ev' \<noteq> ep \<or> ev_fd ev' \<noteq> f" using r(2) [OF q] fresh by auto
      then show ?thesis using r(2) [OF q] i l(2) by (cases "epoller ev' = ep") (auto simp: w'_def)
    qed
  next
    case (3 g h m q)
    show ?case
    proof (cases "g = ep \<and> h = f \<and> 0 \<le> f")
      case True
      with 3 i new show ?thesis by (simp add: w'_def)
    next
      case False
      then have old: "interest g (kern (env w)) h = Some (m, q)"
        using 3 i l(2) [of g] by (cases "g = ep") (auto simp: w'_def split: if_splits)
      then obtain ev' where ev': "evs w q = Some ev'" "ev_fd ev' = h" "epoller ev' = g" "events ev' = m"
        using r(3) by blast
      have "0 \<le> h" using r(6) [OF old] .
      moreover have "q \<noteq> p" using r(1) ev' by (auto simp: p_def)
      ultimately show ?thesis using ev' by (simp add: w'_def)
    qed
  next
    case (4 q1 q2 e1 e2)
    then have "q1 = p \<or> evs w q1 = Some e1" "q2 = p \<or> evs w q2 = Some e2" "q1 = p \<longrightarrow> ev_fd e1 = f" "q2 = p \<longrightarrow> ev_fd e2 = f"
      using new(1) by (auto simp: w'_def split: if_splits)
    then show ?case using r(4) [of q1 e1 q2 e2] unused 4(3,4) by metis
  qed
  moreover have "0 \<le> f \<Longrightarrow> logs e' = logs (env w)"
    using l(3) fresh by simp
  ultimately show ?thesis
    using that [of e'] by (simp add: w'_def p_def e'_def)
qed

lemma delete_event_registered:
  assumes os: "epoll_contract os interest" and reg: "registered interest w"
    and ev: "evs w p = Some ev"
    and e': "e' = logged ''epoll_ctl error'' (sys_epoll_ctl os (epoller ev) CtlDel (ev_fd ev) m) (env w)"
  shows "registered interest (w\<lparr>evs := (evs w)(p := None), env := e'\<rparr>)"
    and "0 \<le> ev_fd ev \<Longrightarrow> logs e' = logs (env w)"
    and "interest (epoller ev) (kern e') (ev_fd ev) = None"
proof -
  note l = logged_epoll [OF os e']
  note r = registeredD [OF reg]
  have i: "interest (epoller ev) (kern e') = (interest (epoller ev) (kern (env w)))(ev_fd ev := None)"
    using l(1) r(2) [OF ev] r(5) [of "ev_fd ev" "epoller ev"] by (cases "ev_fd ev < 0") (simp_all add: fun_upd_idem)
  then show "interest (epoller ev) (kern e') (ev_fd ev) = None" by simp
  show "0 \<le> ev_fd ev \<Longrightarrow> logs e' = logs (env w)"
    using l(3) r(2) [OF ev] by simp
  show "registered interest (w\<lparr>evs := (evs w)(p := None), env := e'\<rparr>)"
  proof (rule registeredI, goal_cases)
    case (1 q ev')
    then show ?case using r(1) by (auto split: if_splits)
  next
    case (2 q ev')
    then have q: "evs w q = Some ev'" "0 \<le> ev_fd ev'" "q \<noteq> p" by (auto split: if_splits)
    then have "epoller ev' \<noteq> epoller ev \<or> ev_fd ev' \<noteq> ev_fd ev"
      using r(2) [OF q(1,2)] r(2) [OF ev] by auto
    then show ?case
      using r(2) [OF q(1,2)] i l(2) by (cases "epoller ev' = epoller ev") auto
  next
    case (3 g h m' q)
    then have old: "interest g (kern (env w)) h = Some (m', q)" "g \<noteq> epoller ev \<or> h \<noteq> ev_fd ev"
      using i l(2) [of g] by (cases "g = epoller ev"; auto split: if_splits)+
    then obtain ev' where ev': "evs w q = Some ev'" "ev_fd ev' = h" "epoller ev' = g" "events ev' = m'"
      using r(3) by blast
    moreover have "0 \<le> h" using r(6) [OF old(1)] .
    moreover have "q \<noteq> p" using ev' ev \<open>g \<noteq> epoller ev \<or> h \<noteq> ev_fd ev\<close> by auto
    ultimately show ?case by simp
  next
    case (4 q1 q2 e1 e2)
    then show ?case using r(4) by (auto split: if_splits)
  qed
qed

subsection \<open>Polling\<close>

lemma store_revents_live:
  "(\<And>x. x \<in> set evlist \<Longrightarrow> es (snd x) \<noteq> None) \<Longrightarrow>
     \<exists>es'. store_revents evlist es = Inr (map snd evlist, es') \<and>
       (\<forall>p. map_option (\<lambda>ev. ev\<lparr>revents := 0\<rparr>) (es' p) = map_option (\<lambda>ev. ev\<lparr>revents := 0\<rparr>) (es p))"
proof (induction evlist arbitrary: es)
  case Nil
  then show ?case by simp
next
  case (Cons a evlist)
  obtain m p where a: "a = (m, p)" by fastforce
  with Cons.prems [of a] obtain ev where ev: "es p = Some ev" by auto
  define es1 where "es1 = es(p \<mapsto> ev\<lparr>revents := m\<rparr>)"
  have "\<And>x. x \<in> set evlist \<Longrightarrow> es1 (snd x) \<noteq> None"
    using Cons.prems by (auto simp: es1_def)
  from Cons.IH [of es1, OF this] obtain es' where
    es': "store_revents evlist es1 = Inr (map snd evlist, es')"
    "\<forall>q. map_option (\<lambda>ev. ev\<lparr>revents := 0\<rparr>) (es' q) = map_option (\<lambda>ev. ev\<lparr>revents := 0\<rparr>) (es1 q)"
    by blast
  then show ?case
    using a ev by (intro exI [of _ es']) (auto simp: es1_def)
qed

end
