(* ===== verification/Fifo.thy ===== *)
theory Fifo imports Prelude begin

section \<open>The contract of a byte queue\<close>

text \<open>
  A connection uses its buffers as byte queues: bytes go in at one end (\<open>put\<close>), are looked at
  (\<open>front\<close>) and dropped (\<open>get\<close>) at the other.  \<open>byte_fifo\<close> states that contract over an
  abstraction \<open>contents\<close>; what a client concludes from it, in particular that a sequence of
  operations neither loses, repeats nor reorders a byte, is proved here once.  \<open>Buffer\<close> provides
  the interpretation, the connection theories are the clients.
\<close>

datatype fifo_op = Put bytes | Get nat

fun put_bytes :: "fifo_op list \<Rightarrow> bytes" where
  "put_bytes [] = []"
| "put_bytes (Put s # ops) = s @ put_bytes ops"
| "put_bytes (Get n # ops) = put_bytes ops"

fun fifo_run ::
  "('b \<Rightarrow> bytes \<Rightarrow> 'b res) \<Rightarrow> ('b \<Rightarrow> nat \<Rightarrow> 'b res) \<Rightarrow> ('b \<Rightarrow> nat \<Rightarrow> bytes) \<Rightarrow>
     'b \<Rightarrow> fifo_op list \<Rightarrow> (bytes \<times> 'b) res" where
  "fifo_run put get front b [] = Inr ([], b)"
| "fifo_run put get front b (Put s # ops) =
     res_bind (put b s) (\<lambda>b'. fifo_run put get front b' ops)"
| "fifo_run put get front b (Get n # ops) =
     res_bind (get b n) (\<lambda>b'.
       res_bind (fifo_run put get front b' ops) (\<lambda>(out, b''). Inr (front b n @ out, b'')))"

locale byte_fifo =
  fixes inv :: "'b \<Rightarrow> bool"
    and contents :: "'b \<Rightarrow> bytes"
    and ok :: "bytes \<Rightarrow> bool"
    and put :: "'b \<Rightarrow> bytes \<Rightarrow> 'b res"
    and get :: "'b \<Rightarrow> nat \<Rightarrow> 'b res"
    and front :: "'b \<Rightarrow> nat \<Rightarrow> bytes"
  assumes put_inv: "inv b \<Longrightarrow> ok s \<Longrightarrow> put b s = Inr b' \<Longrightarrow> inv b'"
    and put_contents: "inv b \<Longrightarrow> ok s \<Longrightarrow> put b s = Inr b' \<Longrightarrow> contents b' = contents b @ s"
    and get_ok: "inv b \<Longrightarrow> n \<le> length (contents b) \<Longrightarrow>
      \<exists>b'. get b n = Inr b' \<and> inv b' \<and> contents b' = drop n (contents b)"
    and get_err: "inv b \<Longrightarrow> length (contents b) < n \<Longrightarrow> get b n = Inl Assert_failed"
    and front_eq: "inv b \<Longrightarrow> n \<le> length (contents b) \<Longrightarrow> front b n = take n (contents b)"
begin

lemma get_InrD:
  assumes "inv b" and "get b n = Inr b'"
  shows "n \<le> length (contents b)" and "inv b'" and "contents b' = drop n (contents b)"
proof -
  show n: "n \<le> length (contents b)"
    using assms get_err [of b n] by (cases "length (contents b) < n") auto
  show "inv b'" "contents b' = drop n (contents b)"
    using get_ok [OF assms(1) n] assms(2) by auto
qed

lemma run_conserves:
  "inv b \<Longrightarrow> (\<And>s. Put s \<in> set ops \<Longrightarrow> ok s) \<Longrightarrow> fifo_run put get front b ops = Inr (out, b') \<Longrightarrow>
     inv b' \<and> out @ contents b' = contents b @ put_bytes ops"
proof (induction ops arbitrary: b out)
  case Nil
  then show ?case by simp
next
  case (Cons op ops)
  show ?case
  proof (cases op)
    case (Put s)
    with Cons.prems obtain b1 where b1: "put b s = Inr b1" "fifo_run put get front b1 ops = Inr (out, b')"
      by auto
    have "ok s" using Cons.prems(2) Put by simp
    then show ?thesis
      using Cons.IH [OF put_inv [OF Cons.prems(1) _ b1(1)] _ b1(2)] Cons.prems Put
        put_contents [OF Cons.prems(1) _ b1(1)] by auto
  next
    case (Get n)
    with Cons.prems obtain b1 out1 where b1: "get b n = Inr b1"
      "fifo_run put get front b1 ops = Inr (out1, b')" "out = front b n @ out1"
      by auto
    note g = get_InrD [OF Cons.prems(1) b1(1)]
    have "inv b' \<and> out1 @ contents b' = contents b1 @ put_bytes ops"
      using Cons.IH [OF g(2) _ b1(2)] Cons.prems(2) by auto
    then show ?thesis
      using g b1(3) Get front_eq [OF Cons.prems(1) g(1)] by simp
  qed
qed

end

end
