(* ===== verification/Buffer.thy ===== *)
theory Buffer imports OS Fifo begin

section \<open>Buffer.h: the byte buffer of a connection\<close>

text \<open>
  \<open>Buffer<N>\<close> is a \<open>vector<char>\<close> with two indices: \<open>[0, readIndex)\<close> may be discarded,
  \<open>[readIndex, writeIndex)\<close> is the data, the rest is room for writing.  The indices are
  \<open>size_t\<close>, their arithmetic wraps.  \<open>contents\<close> abstracts a buffer to its data; the lemmas show
  that every operation is the queue operation on \<open>contents\<close> or fails, and how.
\<close>

subsection \<open>The vector\<close>

text \<open>\<open>vector<char>::max_size()\<close>; a larger \<open>resize\<close> throws \<open>length_error\<close>.\<close>

definition vec_max :: nat where
  "vec_max = 2 ^ 63 - 1"

definition vec_resize :: "bytes \<Rightarrow> nat \<Rightarrow> bytes res" where
  "vec_resize v n =
     (if vec_max < n then Inl Length_error
      else Inr (take n v @ replicate (n - length v) (CHR 0x00)))"

definition memcpy_in :: "bytes \<Rightarrow> nat \<Rightarrow> nat \<Rightarrow> nat \<Rightarrow> bytes" where
  "memcpy_in v dst src n = blit v dst (block_at v src n)"

text \<open>What the C standard asks of a call of \<open>memcpy\<close>: the two blocks do not overlap.\<close>

definition memcpy_defined :: "nat \<Rightarrow> nat \<Rightarrow> nat \<Rightarrow> bool" where
  "memcpy_defined dst src n \<longleftrightarrow> dst + n \<le> src \<or> src + n \<le> dst"

subsection \<open>State and observers\<close>

record buffer =
  vec :: bytes
  readIndex :: nat
  writeIndex :: nat

definition new_buffer :: "nat \<Rightarrow> buffer" where
  "new_buffer n = \<lparr>vec = replicate n (CHR 0x00), readIndex = 0, writeIndex = 0\<rparr>"

definition readableBytes :: "buffer \<Rightarrow> nat" where
  "readableBytes b = sz_sub (writeIndex b) (readIndex b)"

definition writableBytes :: "buffer \<Rightarrow> nat" where
  "writableBytes b = sz_sub (length (vec b)) (writeIndex b)"

definition discardableBytes :: "buffer \<Rightarrow> nat" where
  "discardableBytes b = readIndex b"

definition totalSize :: "buffer \<Rightarrow> nat" where
  "totalSize b = length (vec b)"

text \<open>\<open>peek()\<close> is the address of index \<open>readIndex\<close>; \<open>peek_bytes b n\<close> are \<open>n\<close> bytes read there.\<close>

definition peek :: "buffer \<Rightarrow> nat" where
  "peek b = readIndex b"

definition peek_bytes :: "buffer \<Rightarrow> nat \<Rightarrow> bytes" where
  "peek_bytes b n = block_at (vec b) (peek b) n"

subsection \<open>Making room and appending\<close>

text \<open>
  The block both \<open>append\<close> and \<open>readFromSocket\<close> start with: reuse the discarded space when it is
  large enough by itself, else enlarge the vector; then move the data to the front.  (The block
  copied may overlap itself, see \<open>make_room_copies\<close>; the copy is the one glibc performs.)
\<close>

definition make_room :: "buffer \<Rightarrow> nat \<Rightarrow> buffer res" where
  "make_room b n =
     (if writableBytes b < n then
        res_bind
          (if discardableBytes b \<ge> n then Inr (vec b)
           else vec_resize (vec b)
                  (max (sz_mul (length (vec b)) 2) (sz_add n (readableBytes b))))
          (\<lambda>v. Inr (b\<lparr>vec := (if readableBytes b > 0
                               then memcpy_in v 0 (readIndex b) (readableBytes b) else v),
                      writeIndex := readableBytes b, readIndex := 0\<rparr>))
      else Inr b)"

text \<open>The arguments (destination, source, length) of the \<open>memcpy\<close> the block performs, if any.\<close>

definition make_room_copies :: "buffer \<Rightarrow> nat \<Rightarrow> (nat \<times> nat \<times> nat) option" where
  "make_room_copies b n =
     (if writableBytes b < n \<and> readableBytes b > 0
      then Some (0, readIndex b, readableBytes b) else None)"

definition buf_append :: "buffer \<Rightarrow> bytes \<Rightarrow> buffer res" where
  "buf_append b s =
     res_bind (make_room b (length s)) (\<lambda>b1.
       let b2 = b1\<lparr>vec := blit (vec b1) (writeIndex b1) s,
                   writeIndex := sz_add (writeIndex b1) (length s)\<rparr> in
       if writeIndex b2 \<le> totalSize b2 then Inr b2 else Inl Assert_failed)"

subsection \<open>Taking data out\<close>

text \<open>
  \<open>retrieve\<close>: an assertion, then a second check whose failure returns a null pointer, else the
  address of the data taken.  \<open>retrieve_body\<close> is what an \<open>NDEBUG\<close> build runs.
\<close>

definition retrieve_body :: "buffer \<Rightarrow> nat \<Rightarrow> nat option \<times> buffer" where
  "retrieve_body b len =
     (if sz_add (readIndex b) len > writeIndex b then (None, b)
      else (Some (readIndex b), b\<lparr>readIndex := sz_add (readIndex b) len\<rparr>))"

definition retrieve :: "buffer \<Rightarrow> nat \<Rightarrow> (nat option \<times> buffer) res" where
  "retrieve b len =
     (if len \<le> readableBytes b then Inr (retrieve_body b len) else Inl Assert_failed)"

definition retrieveAll :: "buffer \<Rightarrow> (nat option \<times> buffer) res" where
  "retrieveAll b = retrieve b (readableBytes b)"

definition findStr :: "buffer \<Rightarrow> bytes \<Rightarrow> nat option" where
  "findStr b str = map_option (\<lambda>i. peek b + i) (memmem (peek_bytes b (readableBytes b)) str)"

subsection \<open>Socket input and output\<close>

text \<open>
  \<open>readFromSocket\<close>: one \<open>read\<close> of at most \<open>maxBytes\<close>; when it fills the request the function
  calls itself with twice the size and discards that call's result.  \<open>None\<close> is a call that does
  not return.  The result is the returned \<open>ssize_t\<close> with the new buffer and environment.
\<close>

partial_function (option) read_from_socket ::
  "'k os \<Rightarrow> fd \<Rightarrow> 'k env \<Rightarrow> buffer \<Rightarrow> nat \<Rightarrow> (int \<times> buffer \<times> 'k env) res option" where
  "read_from_socket os f e b maxBytes =
     (case make_room b maxBytes of
        Inl err \<Rightarrow> Some (Inl err)
      | Inr b1 \<Rightarrow>
          if writableBytes b1 < maxBytes then Some (Inl Assert_failed)
          else
            (case sys_read os f maxBytes (kern e) of
               (RdErr err, k) \<Rightarrow>
                 if err \<noteq> EINTR \<and> err \<noteq> EWOULDBLOCK
                 then Some (Inr (- 1, b1, add_log (Sys ''read from socket error'') (e\<lparr>kern := k\<rparr>)))
                 else Some (Inr (1, b1, e\<lparr>kern := k\<rparr>))
             | (RdBytes bs, k) \<Rightarrow>
                 let b2 = b1\<lparr>vec := blit (vec b1) (writeIndex b1) bs,
                             writeIndex := sz_add (writeIndex b1) (length bs)\<rparr>;
                     e2 = e\<lparr>kern := k\<rparr> in
                 if length bs = maxBytes then
                   Option.bind (read_from_socket os f e2 b2 (sz_mul maxBytes 2)) (\<lambda>r.
                     Some (res_bind r (\<lambda>(_, b3, e3). Inr (int (length bs), b3, e3))))
                 else Some (Inr (int (length bs), b2, e2))))"

definition default_maxBytes :: nat where
  "default_maxBytes = 4096"

text \<open>\<open>writeToSocket\<close>: the result of \<open>::write\<close> is stored in an \<open>int\<close>.\<close>

definition write_to_socket ::
  "'k os \<Rightarrow> fd \<Rightarrow> 'k env \<Rightarrow> buffer \<Rightarrow> nat \<Rightarrow> (int \<times> buffer \<times> 'k env) res" where
  "write_to_socket os f e b maxBytes =
     (case sys_write os f (peek_bytes b (min (readableBytes b) maxBytes)) (kern e) of
        (WrErr _, k) \<Rightarrow> Inl Assert_failed
      | (WrBytes n, k) \<Rightarrow>
          let m = to_int32 (int n) in
          if 0 \<le> m \<and> to_size_t m \<le> maxBytes
          then Inr (m, b\<lparr>readIndex := sz_add (readIndex b) (to_size_t m)\<rparr>, e\<lparr>kern := k\<rparr>)
          else Inl Assert_failed)"

subsection \<open>Invariant and abstraction\<close>

definition buf_inv :: "buffer \<Rightarrow> bool" where
  "buf_inv b \<longleftrightarrow> readIndex b \<le> writeIndex b \<and> writeIndex b \<le> length (vec b) \<and> length (vec b) \<le> vec_max"

definition contents :: "buffer \<Rightarrow> bytes" where
  "contents b = take (writeIndex b - readIndex b) (drop (readIndex b) (vec b))"

lemma buf_inv_bounds:
  assumes "buf_inv b"
  shows "readIndex b \<le> writeIndex b" "writeIndex b \<le> length (vec b)"
    "length (vec b) < 2 ^ 63" "writeIndex b < 2 ^ 63" "readIndex b < 2 ^ 63"
  using assms by (auto simp: buf_inv_def vec_max_def)

lemma readable_eq [szt]: "buf_inv b \<Longrightarrow> readableBytes b = writeIndex b - readIndex b"
  using buf_inv_bounds [of b] by (simp add: readableBytes_def sz_sub_exact)

lemma writable_eq [szt]: "buf_inv b \<Longrightarrow> writableBytes b = length (vec b) - writeIndex b"
  using buf_inv_bounds [of b] by (simp add: writableBytes_def sz_sub_exact)

lemma length_contents: "buf_inv b \<Longrightarrow> length (contents b) = readableBytes b"
  using buf_inv_bounds [of b] by (simp add: contents_def readable_eq)

lemma peek_bytes_take: "buf_inv b \<Longrightarrow> n \<le> readableBytes b \<Longrightarrow> peek_bytes b n = take n (contents b)"
  by (simp add: contents_def peek_bytes_def peek_def block_at_def readable_eq min_def)

lemma peek_all: "buf_inv b \<Longrightarrow> peek_bytes b (readableBytes b) = contents b"
  by (simp add: peek_bytes_take length_contents)

lemma new_buffer_inv: "n \<le> vec_max \<Longrightarrow> buf_inv (new_buffer n)"
  by (simp add: buf_inv_def new_buffer_def)

lemma new_buffer_contents [simp]: "contents (new_buffer n) = []"
  by (simp add: contents_def new_buffer_def)

subsection \<open>Making room\<close>

text \<open>The size the vector is enlarged to.\<close>

definition grown :: "buffer \<Rightarrow> nat \<Rightarrow> nat" where
  "grown b n = max (2 * length (vec b)) (n + readableBytes b)"

lemma grown_eq:
  "buf_inv b \<Longrightarrow> n \<le> 2 ^ 63 \<Longrightarrow>
     max (sz_mul (length (vec b)) 2) (sz_add n (readableBytes b)) = grown b n"
  using buf_inv_bounds [of b] by (simp add: grown_def sz_mul_exact sz_add_exact readable_eq)

lemma moved_contents:
  assumes "readIndex b \<le> writeIndex b" "writeIndex b \<le> length (vec b)" "v = vec b @ z"
  shows "take (writeIndex b - readIndex b)
           (if readIndex b < writeIndex b
            then memcpy_in v 0 (readIndex b) (writeIndex b - readIndex b) else v) = contents b"
  using assms by (simp add: memcpy_in_def blit_def block_at_def contents_def)

lemma make_room_cases:
  assumes inv: "buf_inv b" and n: "n \<le> 2 ^ 63"
  obtains
    (enough) "n \<le> writableBytes b" "make_room b n = Inr b"
  | (too_long) "writableBytes b < n" "discardableBytes b < n" "vec_max < grown b n"
      "make_room b n = Inl Length_error"
  | (moved) b' where "writableBytes b < n" "n \<le> discardableBytes b \<or> grown b n \<le> vec_max"
      "make_room b n = Inr b'" "readIndex b' = 0" "writeIndex b' = readableBytes b"
      "length (vec b') = (if n \<le> discardableBytes b then length (vec b) else grown b n)"
      "contents b' = contents b"
proof (cases "writableBytes b < n")
  case False
  then show ?thesis by (intro enough) (simp_all add: make_room_def)
next
  case True
  note bounds = buf_inv_bounds [OF inv]
  define v where "v = (if n \<le> discardableBytes b then vec b
    else vec b @ replicate (grown b n - length (vec b)) (CHR 0x00))"
  define b' where "b' = b\<lparr>vec := (if readableBytes b > 0
      then memcpy_in v 0 (readIndex b) (readableBytes b) else v),
    writeIndex := readableBytes b, readIndex := 0\<rparr>"
  have len_v: "length v = (if n \<le> discardableBytes b then length (vec b) else grown b n)"
    by (simp add: v_def grown_def)
  obtain z where pre: "v = vec b @ z"
    by (cases "n \<le> discardableBytes b") (auto simp: v_def)
  have len: "length (vec b') = length v"
    using bounds pre by (simp add: b'_def memcpy_in_def blit_def block_at_def readable_eq inv)
  have con: "contents b' = contents b"
    using moved_contents [of b v z] bounds pre
    by (auto simp: b'_def contents_def readable_eq inv split: if_splits)
  show ?thesis
  proof (cases "n \<le> discardableBytes b \<or> grown b n \<le> vec_max")
    case ok: True
    have "make_room b n = Inr b'"
      using True ok bounds
      by (auto simp: make_room_def vec_resize_def grown_eq [OF inv n] b'_def v_def grown_def Let_def)
    then show ?thesis
      using True ok len len_v con by (intro moved [of b']) (simp_all add: b'_def)
  next
    case too_big: False
    then have "make_room b n = Inl Length_error"
      using True by (simp add: make_room_def vec_resize_def grown_eq [OF inv n])
    then show ?thesis using True too_big by (intro too_long) auto
  qed
qed

lemma make_room_spec:
  assumes inv: "buf_inv b" and n: "n \<le> 2 ^ 63" and ok: "make_room b n = Inr b'"
  shows "buf_inv b'" and "contents b' = contents b" and "n \<le> writableBytes b'"
proof -
  note bounds = buf_inv_bounds [OF inv]
  have "buf_inv b' \<and> contents b' = contents b \<and> n \<le> writableBytes b'"
    using inv n
  proof (cases rule: make_room_cases)
    case enough
    then show ?thesis using ok inv by simp
  next
    case too_long
    then show ?thesis using ok by simp
  next
    case (moved b1)
    with ok have b1: "b1 = b'" by simp
    from moved(1) inv have "length (vec b) < writeIndex b + n" by (simp add: writable_eq)
    with moved(2-7) b1 bounds inv
    have "buf_inv b'" "n \<le> length (vec b') - writeIndex b'"
      by (auto simp: buf_inv_def readable_eq grown_def discardableBytes_def vec_max_def split: if_splits)
    with moved(7) b1 show ?thesis by (simp add: writable_eq)
  qed
  then show "buf_inv b'" "contents b' = contents b" "n \<le> writableBytes b'" by auto
qed

lemma written_spec:
  assumes inv: "buf_inv b" and len: "length s \<le> writableBytes b"
    and b2: "b2 = b\<lparr>vec := blit (vec b) (writeIndex b) s,
                   writeIndex := sz_add (writeIndex b) (length s)\<rparr>"
  shows "buf_inv b2" and "contents b2 = contents b @ s" and "writeIndex b2 \<le> totalSize b2"
proof -
  note bounds = buf_inv_bounds [OF inv]
  from len inv have fit: "writeIndex b + length s \<le> length (vec b)"
    using bounds by (simp add: writable_eq)
  then have add: "sz_add (writeIndex b) (length s) = writeIndex b + length s"
    using bounds by (intro sz_add_exact) simp
  show "buf_inv b2" "writeIndex b2 \<le> totalSize b2"
    using inv fit by (simp_all add: b2 buf_inv_def add length_blit totalSize_def)
  show "contents b2 = contents b @ s"
    using bounds by (simp add: b2 add contents_def window_blit)
qed

subsection \<open>Appending and retrieving\<close>

lemma buf_append_cases:
  assumes inv: "buf_inv b" and s: "length s \<le> vec_max"
  obtains (appended) b' where "buf_append b s = Inr b'" "buf_inv b'" "contents b' = contents b @ s"
    | (too_long) "buf_append b s = Inl Length_error" "writableBytes b < length s"
        "discardableBytes b < length s" "vec_max < grown b (length s)"
proof -
  have n: "length s \<le> 2 ^ 63" using s by (simp add: vec_max_def)
  show ?thesis
  proof (cases "make_room b (length s)")
    case (Inr b1)
    note room = make_room_spec [OF inv n Inr]
    note w = written_spec [OF room(1,3) refl]
    have "buf_append b s = Inr (b1\<lparr>vec := blit (vec b1) (writeIndex b1) s,
        writeIndex := sz_add (writeIndex b1) (length s)\<rparr>)"
      using w(3) by (simp add: buf_append_def Inr Let_def)
    then show ?thesis using w(1,2) room(2) by (intro appended) simp_all
  next
    case (Inl err)
    from inv n show ?thesis
    proof (cases rule: make_room_cases)
      case too_long
      then show ?thesis by (intro that(2)) (simp_all add: buf_append_def)
    qed (use Inl in simp_all)
  qed
qed

lemma retrieve_ok:
  assumes "buf_inv b" and "n \<le> readableBytes b"
  shows "retrieve b n = Inr (Some (readIndex b), b\<lparr>readIndex := readIndex b + n\<rparr>)"
    and "buf_inv (b\<lparr>readIndex := readIndex b + n\<rparr>)"
    and "contents (b\<lparr>readIndex := readIndex b + n\<rparr>) = drop n (contents b)"
  using assms buf_inv_bounds [OF assms(1)]
  by (simp_all add: retrieve_def retrieve_body_def readable_eq sz_add_exact buf_inv_def
      contents_def drop_take add.commute)

lemma retrieve_too_much:
  "readableBytes b < n \<Longrightarrow> retrieve b n = Inl Assert_failed"
  by (simp add: retrieve_def)

text \<open>The buffer as a byte queue: \<open>append\<close>, \<open>retrieve\<close> (the new buffer), \<open>peek\<close>.\<close>

definition buf_get :: "buffer \<Rightarrow> nat \<Rightarrow> buffer res" where
  "buf_get b n = res_bind (retrieve b n) (\<lambda>(_, b'). Inr b')"

interpretation buf_q: byte_fifo buf_inv contents "\<lambda>s. length s \<le> vec_max" buf_append buf_get peek_bytes
proof unfold_locales
  fix b s b'
  assume "buf_inv b" "length s \<le> vec_max" "buf_append b s = Inr b'"
  then show "buf_inv b'" "contents b' = contents b @ s"
    by (auto elim: buf_append_cases [of b s])
next
  fix b n
  assume "buf_inv b" "n \<le> length (contents b)"
  then show "\<exists>b'. buf_get b n = Inr b' \<and> buf_inv b' \<and> contents b' = drop n (contents b)"
    using retrieve_ok [of b n] by (simp add: buf_get_def length_contents)
next
  fix b n
  assume "buf_inv b" "length (contents b) < n"
  then show "buf_get b n = Inl Assert_failed"
    by (simp add: buf_get_def length_contents retrieve_too_much)
next
  fix b n
  assume "buf_inv b" "n \<le> length (contents b)"
  then show "peek_bytes b n = take n (contents b)"
    by (simp add: peek_bytes_take length_contents)
qed

lemma findStr_cases:
  assumes "buf_inv b"
  shows "findStr b str = None \<Longrightarrow> \<not> occurs_at (contents b) str i"
    and "findStr b str = Some p \<Longrightarrow>
      \<exists>i. p = readIndex b + i \<and> occurs_at (contents b) str i \<and>
          i + length str \<le> length (contents b) \<and> (\<forall>j<i. \<not> occurs_at (contents b) str j)"
  using memmem_NoneD [of "contents b" str i] memmem_SomeD [of "contents b" str]
  by (auto simp: findStr_def peek_all [OF assms] peek_def)

subsection \<open>Reading from a socket\<close>

text \<open>
  A request of more than \<open>2 ^ 63\<close> bytes can only come from the doubling, when the vector is so
  large already that it cannot grow.
\<close>

definition request_ok :: "buffer \<Rightarrow> nat \<Rightarrow> bool" where
  "request_ok b m \<longleftrightarrow> 0 < m \<and> (m \<le> 2 ^ 63 \<or> vec_max < 2 * length (vec b))"

lemma make_room_huge:
  assumes "buf_inv b" and "2 ^ 63 < m" and "vec_max < 2 * length (vec b)"
  shows "make_room b m = Inl Length_error"
proof -
  note bounds = buf_inv_bounds [OF assms(1)]
  have "length (vec b) * 2 < 2 ^ 64" using bounds(3) by simp
  then have "sz_mul (length (vec b)) 2 = 2 * length (vec b)" by (simp add: sz_mul_exact)
  then have "vec_max < max (sz_mul (length (vec b)) 2) (sz_add m (readableBytes b))"
    using assms(3) by linarith
  moreover have "writableBytes b < m" "\<not> m \<le> discardableBytes b"
    using assms(2) bounds by (simp_all add: writable_eq [OF assms(1)] discardableBytes_def)
  ultimately show ?thesis by (simp add: make_room_def vec_resize_def)
qed

lemma make_room_request:
  assumes inv: "buf_inv b" and req: "request_ok b m"
  obtains (ok) b1 where "make_room b m = Inr b1" "buf_inv b1" "contents b1 = contents b"
      "m \<le> writableBytes b1"
    | (too_long) "make_room b m = Inl Length_error"
proof (cases "make_room b m")
  case (Inr b1)
  have "m \<le> 2 ^ 63"
  proof (rule ccontr)
    assume "\<not> m \<le> 2 ^ 63"
    then have big: "2 ^ 63 < m" by simp
    with req have "vec_max < 2 * length (vec b)" by (simp add: request_ok_def)
    from make_room_huge [OF inv big this] Inr show False by simp
  qed
  from make_room_spec [OF inv this Inr] Inr show ?thesis by (intro ok [of b1]) auto
next
  case (Inl err)
  have "err = Length_error"
  proof (cases "m \<le> 2 ^ 63")
    case True
    show ?thesis using inv True by (cases rule: make_room_cases) (use Inl in auto)
  next
    case False
    then have big: "2 ^ 63 < m" by simp
    with False req have "vec_max < 2 * length (vec b)" by (simp add: request_ok_def)
    from make_room_huge [OF inv big this] Inl show ?thesis by simp
  qed
  with Inl show ?thesis by (intro too_long) simp
qed

text \<open>The next, doubled request is in order again.\<close>

lemma request_ok_double:
  assumes inv: "buf_inv b" and m: "0 < m" and room: "m \<le> length (vec b)"
  shows "request_ok b (sz_mul m 2)"
proof -
  have "m < 2 ^ 63" using room buf_inv_bounds [OF inv] by linarith
  then have "sz_mul m 2 = m * 2" by (intro sz_mul_exact) simp
  with m room show ?thesis by (auto simp: request_ok_def vec_max_def)
qed

definition read_result_ok ::
  "(fd \<Rightarrow> 'k \<Rightarrow> bytes) \<Rightarrow> (fd \<Rightarrow> 'k \<Rightarrow> bytes) \<Rightarrow> fd \<Rightarrow> buffer \<Rightarrow> 'k env \<Rightarrow>
     (int \<times> buffer \<times> 'k env) res \<Rightarrow> bool" where
  "read_result_ok inq outq f b e r \<longleftrightarrow>
     (case r of
        Inl err \<Rightarrow> err = Length_error
      | Inr (n, b', e') \<Rightarrow>
          buf_inv b' \<and> outq f (kern e') = outq f (kern e) \<and>
          contents b' @ inq f (kern e') = contents b @ inq f (kern e) \<and>
          length (contents b) \<le> length (contents b') \<and>
          (n \<le> 0 \<longrightarrow> contents b' = contents b \<and> inq f (kern e') = inq f (kern e)))"

lemma read_from_socket_total:
  assumes os: "stream_contract os inq outq"
  shows "buf_inv b \<Longrightarrow> request_ok b m \<Longrightarrow>
    \<exists>r. read_from_socket os f e b m = Some r \<and> read_result_ok inq outq f b e r"
proof (induction "length (inq f (kern e))" arbitrary: e b m rule: less_induct)
  case less
  from less.prems show ?case
  proof (cases rule: make_room_request)
    case too_long
    then show ?thesis by (subst read_from_socket.simps) (simp add: read_result_ok_def)
  next
    case (ok b1)
    then have room: "\<not> writableBytes b1 < m" by simp
    obtain a k where rd: "sys_read os f m (kern e) = (a, k)" by fastforce
    note os_rd = stream_contractD(1-4) [OF os]
    show ?thesis
    proof (cases a)
      case (RdErr err)
      with rd ok room os_rd(3,4) [of f m "kern e"] show ?thesis
        by (subst read_from_socket.simps) (auto simp: read_result_ok_def)
    next
      case (RdBytes bs)
      define b2 where "b2 = b1\<lparr>vec := blit (vec b1) (writeIndex b1) bs,
                             writeIndex := sz_add (writeIndex b1) (length bs)\<rparr>"
      define e2 where "e2 = e\<lparr>kern := k\<rparr>"
      have len: "length bs \<le> m" and inq: "inq f (kern e) = bs @ inq f k"
        and outq: "outq f k = outq f (kern e)"
        using os_rd(1,2,4) [of f m "kern e"] rd RdBytes by blast+
      have b2: "buf_inv b2" "contents b2 = contents b @ bs"
        using written_spec [OF ok(2) _ b2_def] len ok(3,4) by auto
      show ?thesis
      proof (cases "length bs = m")
        case False
        then have "read_from_socket os f e b m = Some (Inr (int (length bs), b2, e2))"
          using rd RdBytes ok room
          by (subst read_from_socket.simps) (simp add: b2_def e2_def Let_def)
        then show ?thesis
          using b2 inq outq by (auto simp: read_result_ok_def e2_def)
      next
        case True
        have m: "0 < m" using less.prems(2) by (simp add: request_ok_def)
        have "writableBytes b1 \<le> length (vec b1)" by (simp add: writable_eq [OF ok(2)])
        then have "m \<le> length (vec b2)"
          using ok(4) by (simp add: b2_def blit_def)
        then have req: "request_ok b2 (sz_mul m 2)" by (rule request_ok_double [OF b2(1) m])
        have "length (inq f (kern e2)) < length (inq f (kern e))"
          using True m inq by (simp add: e2_def)
        from less.hyps [OF this b2(1) req] obtain r where
          r: "read_from_socket os f e2 b2 (sz_mul m 2) = Some r" "read_result_ok inq outq f b2 e2 r"
          by blast
        have "read_from_socket os f e b m =
            Some (res_bind r (\<lambda>(_, b3, e3). Inr (int (length bs), b3, e3)))"
          using rd RdBytes ok room True r(1)
          by (subst read_from_socket.simps) (simp add: b2_def e2_def Let_def)
        moreover have "read_result_ok inq outq f b e
            (res_bind r (\<lambda>(_, b3, e3). Inr (int (length bs), b3, e3)))"
          using r(2) b2 inq outq True m
          by (auto simp: read_result_ok_def e2_def split: sum.splits)
        ultimately show ?thesis by blast
      qed
    qed
  qed
qed


text \<open>What no single \<open>read\<close> changes (\<open>obs\<close>), the whole function does not change.\<close>

lemma read_from_socket_keeps:
  assumes os: "\<And>m k a k'. sys_read os f m k = (a, k') \<Longrightarrow> obs k' = obs k"
    and run: "read_from_socket os f e b m = Some (Inr (n, b', e'))"
  shows "obs (kern e') = obs (kern e)"
proof -
  have "\<forall>n b' e'. os' = os \<longrightarrow> f' = f \<longrightarrow> r = Inr (n, b', e') \<longrightarrow> obs (kern e') = obs (kern e)"
    if "read_from_socket os' f' e b m = Some r" for os' f' e b m r
  proof (rule read_from_socket.raw_induct [where P = "\<lambda>os' f' e b m r. \<forall>n b' e'. os' = os \<longrightarrow> f' = f \<longrightarrow>
      r = Inr (n, b', e') \<longrightarrow> obs (kern e') = obs (kern e)", OF _ that], goal_cases)
    case (1 rec os' f' e b m r)
    obtain a k where rd: "sys_read os f m (kern e) = (a, k)" by fastforce
    have k: "obs k = obs (kern e)" by (rule os [OF rd])
    show ?case
    proof (intro allI impI)
      fix n b' e' assume os': "os' = os" "f' = f" and r: "r = Inr (n, b', e')"
      show "obs (kern e') = obs (kern e)"
      proof (cases a)
        case (RdErr err)
        with 1(2) rd k os' r show ?thesis by (auto split: sum.splits if_splits)
      next
        case (RdBytes bs)
        show ?thesis
        proof (cases "length bs = m")
          case False
          with 1(2) rd k os' r RdBytes show ?thesis by (auto simp: Let_def split: sum.splits if_splits)
        next
          case True
          with 1(2) rd os' r RdBytes obtain b2 n2 where
            "rec os f (e\<lparr>kern := k\<rparr>) b2 (sz_mul m 2) = Some (Inr (n2, b', e'))"
            by (auto simp: Let_def bind_eq_Some_conv split: sum.splits if_splits)
          from 1(1) [OF this] k show ?thesis by simp
        qed
      qed
    qed
  qed
  with run show ?thesis by blast
qed

lemma read_from_socket_interest:
  assumes "frame_contract os inq outq interest" and "read_from_socket os f e b m = Some (Inr (n, b', e'))"
  shows "interest ep (kern e') = interest ep (kern e)"
  using frame_contractD(1) [OF assms(1)] assms(2) by (rule read_from_socket_keeps)

text \<open>\<open>writeToSocket\<close>: the two ways it goes.\<close>

lemma write_to_socket_cases:
  assumes os: "stream_contract os inq outq" and inv: "buf_inv b" and m: "m < 2 ^ 31"
  obtains (written) n k where "sys_write os f (take m (contents b)) (kern e) = (WrBytes n, k)"
      "n \<le> m" "n \<le> readableBytes b" "outq f k = outq f (kern e) @ take n (contents b)"
      "write_to_socket os f e b m = Inr (int n, b\<lparr>readIndex := readIndex b + n\<rparr>, e\<lparr>kern := k\<rparr>)"
    | (failed) x k where "sys_write os f (take m (contents b)) (kern e) = (WrErr x, k)"
      "write_to_socket os f e b m = Inl Assert_failed"
proof -
  have pk: "peek_bytes b (min (readableBytes b) m) = take m (contents b)"
    by (simp add: peek_bytes_take [OF inv] length_contents [OF inv, symmetric] min_def)
  obtain a k where wr: "sys_write os f (take m (contents b)) (kern e) = (a, k)" by fastforce
  show ?thesis
  proof (cases a)
    case (WrErr x)
    then show ?thesis using wr failed by (simp add: write_to_socket_def pk)
  next
    case (WrBytes n)
    note w = stream_contractD(5,6) [OF os wr [unfolded WrBytes]]
    have n: "n \<le> m" "n \<le> readableBytes b" using w(1) by (simp_all add: length_contents [OF inv])
    have "sz_add (readIndex b) n = readIndex b + n"
      using n(2) buf_inv_bounds [OF inv] by (intro sz_add_exact) (simp add: readable_eq [OF inv])
    moreover have "to_int32 (int n) = int n" "to_size_t (int n) = n"
      using n(1) m by (simp_all add: to_int32_exact to_size_t_nonneg)
    ultimately have "write_to_socket os f e b m = Inr (int n, b\<lparr>readIndex := readIndex b + n\<rparr>, e\<lparr>kern := k\<rparr>)"
      using wr WrBytes n by (simp add: write_to_socket_def pk Let_def)
    then show ?thesis using written wr WrBytes n w(2) by (simp add: min_def)
  qed
qed

subsection \<open>Properties\<close>

text \<open>The equations with which a concrete buffer operation is evaluated.\<close>

lemmas buffer_eval = make_room_def buf_append_def retrieve_def retrieve_body_def buf_get_def
  readableBytes_def writableBytes_def discardableBytes_def totalSize_def peek_def peek_bytes_def
  new_buffer_def vec_resize_def vec_max_def memcpy_in_def blit_def block_at_def
  sz_add_def sz_sub_def sz_mul_def Let_def

text \<open>
  C14: \<open>append\<close> on a well-formed buffer either leaves it well formed with the new bytes behind the
  old ones, or throws \<open>length_error\<close>, and then because neither the space behind the data nor the
  discarded space is large enough and the enlarged vector would exceed \<open>max_size()\<close>.
\<close>

theorem buf_append_correct:
  assumes "buf_inv b" and "length s \<le> vec_max"
  shows "case buf_append b s of
      Inr b' \<Rightarrow> buf_inv b' \<and> contents b' = contents b @ s
    | Inl e \<Rightarrow> e = Length_error \<and> writableBytes b < length s \<and> discardableBytes b < length s \<and>
        vec_max < grown b (length s)"
  using assms by (rule buf_append_cases) simp_all

theorem buf_append_correct_witness:
  "buf_inv (\<lparr>vec = ''abcd'', readIndex = 2, writeIndex = 4\<rparr>) \<and>
   (case buf_append \<lparr>vec = ''abcd'', readIndex = 2, writeIndex = 4\<rparr> ''xy'' of
      Inr b' \<Rightarrow> contents b' = ''cdxy'' \<and> readIndex b' = 0 \<and> length (vec b') = 4 | Inl e \<Rightarrow> False)"
proof -
  let ?b = "\<lparr>vec = ''abcd'', readIndex = 2, writeIndex = 4\<rparr>"
  have inv: "buf_inv ?b" by (simp add: buf_inv_def vec_max_def)
  have s: "length ''xy'' \<le> vec_max" by (simp add: vec_max_def)
  have "buf_append ?b ''xy'' = Inr \<lparr>vec = ''cdxy'', readIndex = 0, writeIndex = 4\<rparr>"
    by (simp add: buffer_eval)
  then show ?thesis using buf_append_correct [OF inv s] inv by (simp add: contents_def)
qed

text \<open>
  C17: whatever sequence of \<open>append\<close>s and \<open>retrieve\<close>s is run on a buffer, the bytes looked at with
  \<open>peek\<close> before each \<open>retrieve\<close>, followed by what the buffer holds in the end, are what it held at
  the start followed by everything appended: no byte is lost, repeated or reordered.
\<close>

theorem buffer_fifo:
  assumes "buf_inv b" and "\<And>s. Put s \<in> set ops \<Longrightarrow> length s \<le> vec_max"
    and "fifo_run buf_append buf_get peek_bytes b ops = Inr (out, b')"
  shows "buf_inv b' \<and> out @ contents b' = contents b @ put_bytes ops"
  using assms by (rule buf_q.run_conserves)

theorem buffer_fifo_witness:
  "case fifo_run buf_append buf_get peek_bytes (new_buffer 4) [Put ''abc'', Get 2, Put ''defg'', Get 3] of
     Inr (out, b') \<Rightarrow> out = ''abcde'' \<and> contents b' = ''fg'' | Inl e \<Rightarrow> False"
proof -
  let ?b = "new_buffer 4" and ?ops = "[Put ''abc'', Get 2, Put ''defg'', Get 3]"
  have inv: "buf_inv ?b" by (rule new_buffer_inv) (simp add: vec_max_def)
  have ok: "length s \<le> vec_max" if "Put s \<in> set ?ops" for s
    using that by (auto simp: vec_max_def)
  have run: "fifo_run buf_append buf_get peek_bytes ?b ?ops =
      Inr (''abcde'', \<lparr>vec = ''cdefg'' @ replicate 3 (CHR 0x00), readIndex = 3, writeIndex = 5\<rparr>)"
    by (simp add: buffer_eval)
  show ?thesis using buffer_fifo [OF inv ok run] run by simp
qed

text \<open>
  C36: \<open>retrieve\<close> of no more than is readable takes exactly that many bytes off the front and returns
  their address; of more, the assertion fails; an \<open>NDEBUG\<close> build returns a null pointer and changes
  nothing, as long as the sum of index and length does not wrap.
\<close>

theorem retrieve_correct:
  assumes "buf_inv b"
  shows "if n \<le> length (contents b)
     then \<exists>b'. retrieve b n = Inr (Some (peek b), b') \<and> buf_inv b' \<and> contents b' = drop n (contents b)
     else retrieve b n = Inl Assert_failed \<and>
       (readIndex b + n < 2 ^ 64 \<longrightarrow> retrieve_body b n = (None, b))"
proof (cases "n \<le> length (contents b)")
  case True
  then show ?thesis
    using retrieve_ok [OF assms, of n] by (simp add: length_contents [OF assms] peek_def)
next
  case False
  then have "readableBytes b < n" by (simp add: length_contents [OF assms])
  moreover from this have "retrieve_body b n = (None, b)" if "readIndex b + n < 2 ^ 64"
    using sz_add_exact [OF that] readable_eq [OF assms] buf_inv_bounds(1) [OF assms]
    by (simp add: retrieve_body_def)
  ultimately show ?thesis using False by (simp add: retrieve_too_much)
qed

theorem retrieve_correct_witness:
  "contents (snd (projr (retrieve \<lparr>vec = ''aabcd'', readIndex = 2, writeIndex = 5\<rparr> 2))) = ''d'' \<and>
   retrieve \<lparr>vec = ''aabcd'', readIndex = 2, writeIndex = 5\<rparr> 4 = Inl Assert_failed"
proof -
  let ?b = "\<lparr>vec = ''aabcd'', readIndex = 2, writeIndex = 5\<rparr>"
  have inv: "buf_inv ?b" by (simp add: buf_inv_def vec_max_def)
  have con: "contents ?b = ''bcd''" by (simp add: contents_def)
  show ?thesis
    using retrieve_correct [OF inv, of 2] retrieve_correct [OF inv, of 4] by (auto simp: con)
qed

text \<open>
  \<open>findStr\<close> returns the address of the first occurrence of the string in the data, and a null
  pointer exactly when there is none.
\<close>

theorem findStr_first:
  assumes "buf_inv b"
  shows "case findStr b str of
      None \<Rightarrow> \<forall>i. \<not> occurs_at (contents b) str i
    | Some p \<Rightarrow> peek b \<le> p \<and> occurs_at (contents b) str (p - peek b) \<and>
        p - peek b + length str \<le> length (contents b) \<and> (\<forall>j < p - peek b. \<not> occurs_at (contents b) str j)"
proof (cases "findStr b str")
  case None
  then show ?thesis using findStr_cases(1) [OF assms] by simp
next
  case (Some p)
  then show ?thesis using findStr_cases(2) [OF assms Some] by (auto simp: peek_def)
qed

theorem findStr_first_witness:
  "findStr \<lparr>vec = ''xxaabab'', readIndex = 2, writeIndex = 7\<rparr> ''ab'' = Some 3 \<and>
   \<not> occurs_at ''aabab'' ''ab'' 0 \<and> occurs_at ''aabab'' ''ab'' 1"
proof -
  let ?b = "\<lparr>vec = ''xxaabab'', readIndex = 2, writeIndex = 7\<rparr>"
  have inv: "buf_inv ?b" by (simp add: buf_inv_def vec_max_def)
  have run: "findStr ?b ''ab'' = Some 3" by (simp add: findStr_def buffer_eval)
  have con: "contents ?b = ''aabab''" by (simp add: contents_def)
  show ?thesis using findStr_first [OF inv, of "''ab''"] run by (simp add: con peek_def)
qed

text \<open>
  C9: \<open>readFromSocket\<close> always returns (for a request of at least one byte), however the kernel cuts
  the input into pieces: it keeps the buffer well formed, moves bytes from the socket to the end of
  the buffer in order and without loss, and when it reports end of file or an error it has moved
  none.  The only exception it can end in is \<open>length_error\<close>.
\<close>

theorem read_from_socket_correct:
  assumes "stream_contract os inq outq" and "buf_inv b" and "0 < m" and "m \<le> 2 ^ 63"
  shows "\<exists>r. read_from_socket os f e b m = Some r \<and> read_result_ok inq outq f b e r"
  using read_from_socket_total [OF assms(1,2)] assms(3,4) by (simp add: request_ok_def)

theorem read_from_socket_correct_witness:
  "\<exists>b' k'. read_from_socket sim_os 5
     \<lparr>kern = sim_init\<lparr>sim_rd := (\<lambda>_. [RdBytes ''abcde'', RdErr EAGAIN])\<rparr>, logs = []\<rparr> (new_buffer 8) 4 =
       Some (Inr (4, b', \<lparr>kern = k', logs = []\<rparr>)) \<and> contents b' @ sim_inq 5 k' = ''abcde''"
proof -
  let ?e = "\<lparr>kern = sim_init\<lparr>sim_rd := (\<lambda>_. [RdBytes ''abcde'', RdErr EAGAIN])\<rparr>, logs = []\<rparr>"
  have inv: "buf_inv (new_buffer 8)" by (rule new_buffer_inv) (simp add: vec_max_def)
  obtain r where r: "read_from_socket sim_os 5 ?e (new_buffer 8) 4 = Some r"
    "read_result_ok sim_inq sim_outq 5 (new_buffer 8) ?e r"
    using read_from_socket_correct [OF sim_stream_contract inv, of 4 5 ?e] by auto
  have "\<exists>b' k'. read_from_socket sim_os 5 ?e (new_buffer 8) 4 = Some (Inr (4, b', \<lparr>kern = k', logs = []\<rparr>))"
    by (subst read_from_socket.simps, subst read_from_socket.simps)
      (simp add: buffer_eval sim_read_def sim_init_def)
  then show ?thesis using r by (auto simp: read_result_ok_def sim_inq_def sim_init_def)
qed


text \<open>
  The result of \<open>readFromSocket\<close> is that of its first \<open>read\<close>.  When that one fills the request
  the function reads on, and whatever the later calls meet (an end of file, an error), the caller
  sees the size of the first: a peer that sends exactly 4096 bytes and closes is not noticed now.
\<close>

theorem read_result_is_first:
  assumes "read_from_socket os f e b m = Some (Inr (n, b', e'))"
    and "make_room b m = Inr b1" and "sys_read os f m (kern e) = (RdBytes bs, k)"
  shows "n = int (length bs)"
proof (cases "length bs = m")
  case True
  with assms show ?thesis
    by (subst (asm) read_from_socket.simps) (auto simp: Let_def bind_eq_Some_conv split: if_splits)
next
  case False
  with assms show ?thesis
    by (subst (asm) read_from_socket.simps) (auto simp: Let_def split: if_splits)
qed

theorem read_result_is_first_witness:
  "\<exists>b' e'. read_from_socket sim_os 5
     \<lparr>kern = sim_init\<lparr>sim_rd := (\<lambda>_. [RdBytes ''abcd'', RdBytes []])\<rparr>, logs = []\<rparr> (new_buffer 16) 4 =
       Some (Inr (4, b', e')) \<and> sim_rd (kern e') 5 = []"
proof -
  let ?e = "\<lparr>kern = sim_init\<lparr>sim_rd := (\<lambda>_. [RdBytes ''abcd'', RdBytes []])\<rparr>, logs = []\<rparr>"
  have "\<exists>n b' e'. read_from_socket sim_os 5 ?e (new_buffer 16) 4 = Some (Inr (n, b', e')) \<and>
      sim_rd (kern e') 5 = []"
    by (subst read_from_socket.simps, subst read_from_socket.simps)
      (simp add: buffer_eval sim_read_def sim_init_def)
  then obtain n b' e' where run: "read_from_socket sim_os 5 ?e (new_buffer 16) 4 = Some (Inr (n, b', e'))"
    "sim_rd (kern e') 5 = []" by blast
  have "make_room (new_buffer 16) 4 = Inr (new_buffer 16)" by (simp add: buffer_eval)
  moreover have "sys_read sim_os 5 4 (kern ?e) =
      (RdBytes ''abcd'', (kern ?e)\<lparr>sim_rd := (sim_rd (kern ?e))(5 := [RdBytes []])\<rparr>)"
    by (simp add: sim_read_def)
  ultimately have "n = int (length ''abcd'')" by (rule read_result_is_first [OF run(1)])
  with run show ?thesis by auto
qed

text \<open>
  The block both \<open>append\<close> and \<open>readFromSocket\<close> move the data to the front with calls \<open>memcpy\<close>,
  which the C standard defines for blocks that do not overlap only; on a well-formed buffer the call
  is defined exactly when the data is no longer than the discarded space in front of it.
\<close>

theorem make_room_memcpy_defined:
  assumes "buf_inv b" and "make_room_copies b n = Some (dst, src, len)"
  shows "memcpy_defined dst src len \<longleftrightarrow> length (contents b) \<le> discardableBytes b"
proof -
  have "dst = 0" "src = readIndex b" "len = length (contents b)" "0 < len"
    using assms(2) length_contents [OF assms(1)] by (auto simp: make_room_copies_def split: if_splits)
  then show ?thesis by (auto simp: memcpy_defined_def discardableBytes_def)
qed

theorem make_room_memcpy_defined_witness:
  "buf_inv \<lparr>vec = ''abcdefgh'', readIndex = 2, writeIndex = 8\<rparr> \<and>
   \<not> memcpy_defined 0 2 6 \<and> make_room_copies \<lparr>vec = ''abcdefgh'', readIndex = 2, writeIndex = 8\<rparr> 2 = Some (0, 2, 6)"
proof -
  let ?b = "\<lparr>vec = ''abcdefgh'', readIndex = 2, writeIndex = 8\<rparr>"
  have inv: "buf_inv ?b" by (simp add: buf_inv_def vec_max_def)
  have copies: "make_room_copies ?b 2 = Some (0, 2, 6)"
    by (simp add: make_room_copies_def buffer_eval)
  have "length (contents ?b) = 6" by (simp add: contents_def)
  then show ?thesis
    using make_room_memcpy_defined [OF inv copies] inv copies by (simp add: discardableBytes_def)
qed

text \<open>
  A call \<open>readFromSocket(s, 0)\<close> does not return: it reads no byte, takes that for a filled
  request and calls itself with twice nothing.
\<close>

theorem read_nothing_diverges:
  assumes "\<And>k a k'. sys_read os f 0 k = (a, k') \<Longrightarrow> a = RdBytes []"
  shows "read_from_socket os f e b 0 = None"
proof (rule ccontr)
  assume "read_from_socket os f e b 0 \<noteq> None"
  then obtain r where "read_from_socket os f e b 0 = Some r" by blast
  moreover have "os' = os \<and> f' = f \<longrightarrow> m \<noteq> 0" if "read_from_socket os' f' e b m = Some r" for os' f' e b m r
  proof (rule read_from_socket.raw_induct [where P = "\<lambda>os' f' e b m r. os' = os \<and> f' = f \<longrightarrow> m \<noteq> 0", OF _ that],
      goal_cases)
    case (1 rec os' f' e b m r)
    show ?case
    proof (intro impI notI)
      assume same: "os' = os \<and> f' = f" and m: "m = 0"
      obtain k where "sys_read os f 0 (kern e) = (RdBytes [], k)"
        using assms by (metis surj_pair)
      with 1(2) same m obtain e2 b2 r2 where "rec os' f' e2 b2 0 = Some r2"
        by (auto simp: make_room_def bind_eq_Some_conv sz_mul_def)
      from 1(1) [OF this] same show False by simp
    qed
  qed
  ultimately show False by blast
qed

theorem read_nothing_diverges_witness:
  "read_from_socket (sim_os\<lparr>sys_read := \<lambda>f n k. (RdBytes [], k)\<rparr>) 5 \<lparr>kern = sim_init, logs = []\<rparr>
     (new_buffer 8) 0 = None"
  by (rule read_nothing_diverges) simp

text \<open>
  \<open>writeToSocket\<close> hands the kernel at most \<open>maxBytes\<close> bytes from the front of the buffer, drops
  from the buffer exactly those the kernel took, and aborts when \<open>write\<close> reports an error, also
  one that only says to try again later.
\<close>

theorem write_to_socket_correct:
  assumes "stream_contract os inq outq" and "buf_inv b" and "m < 2 ^ 31"
  shows "case write_to_socket os f e b m of
      Inr (n, b', e') \<Rightarrow> buf_inv b' \<and> 0 \<le> n \<and> nat n \<le> m \<and>
        outq f (kern e') = outq f (kern e) @ take (nat n) (contents b) \<and>
        contents b' = drop (nat n) (contents b)
    | Inl err \<Rightarrow> err = Assert_failed \<and>
        (\<exists>x. fst (sys_write os f (take m (contents b)) (kern e)) = WrErr x)"
  using assms
proof (cases rule: write_to_socket_cases [where f = f and e = e])
  case (written n k)
  then show ?thesis using retrieve_ok [OF assms(2) written(3)] by simp
qed simp

theorem write_to_socket_correct_witness:
  "case write_to_socket sim_os 5 \<lparr>kern = sim_init\<lparr>sim_wr := (\<lambda>_. [WrBytes 3])\<rparr>, logs = []\<rparr>
       \<lparr>vec = ''xxabcde'', readIndex = 2, writeIndex = 7\<rparr> 4 of
     Inr (n, b', e') \<Rightarrow> n = 3 \<and> sim_outq 5 (kern e') = ''abc'' \<and> contents b' = ''de'' | Inl e \<Rightarrow> False"
proof -
  let ?b = "\<lparr>vec = ''xxabcde'', readIndex = 2, writeIndex = 7\<rparr>"
    and ?e = "\<lparr>kern = sim_init\<lparr>sim_wr := (\<lambda>_. [WrBytes 3])\<rparr>, logs = []\<rparr>"
  have inv: "buf_inv ?b" by (simp add: buf_inv_def vec_max_def)
  have con: "contents ?b = ''abcde''" by (simp add: contents_def)
  have run: "write_to_socket sim_os 5 ?e ?b 4 = Inr (3, \<lparr>vec = ''xxabcde'', readIndex = 5, writeIndex = 7\<rparr>,
      ?e\<lparr>kern := (kern ?e)\<lparr>sim_wr := (sim_wr (kern ?e))(5 := []), sim_out := (sim_out (kern ?e))(5 := ''abc'')\<rparr>\<rparr>)"
    by (simp add: write_to_socket_def buffer_eval sim_write_def sim_init_def to_int32_def to_size_t_def)
  show ?thesis
    using write_to_socket_correct [OF sim_stream_contract inv, where f = 5 and e = ?e and m = 4] run
    by (simp add: con sim_outq_def sim_init_def)
qed

end
