(* ===== verification/Connection.thy ===== *)
theory Connection imports Event Buffer begin

section \<open>TcpConnection: one connection, its buffers and its life cycle\<close>

text \<open>
  A \<open>TcpConnection\<close> owns a read buffer, a write buffer, an \<open>Event\<close> and the socket.  Data to send
  goes to the write buffer; the connection then asks for writability and \<open>sendNonblock\<close>, run by
  the event loop, hands the kernel what it takes.  Closing goes through the virtual function
  \<open>TcpSource::closeConnection\<close> of the object that made the connection (server or client); the
  operations that call it take it as an argument, and \<open>tcp_source\<close> is its contract.
\<close>

subsection \<open>State\<close>

datatype conn_state = BLANK | ESTABLISHED | WILL_CLOSED | CLOSED

type_synonym loop_id = nat

record tcp_conn =
  readBuffer :: buffer
  writeBuffer :: buffer
  conn_data :: "loop_id option"
  conn_event :: event_id
  sockfd :: fd
  isWillClose :: bool
  conn_state :: conn_state
  conn_loop :: loop_id
  lastReceiveTime :: u32
  destoryCallback :: "nat option"

text \<open>
  The heap of connections beside that of events; \<open>loop_ep\<close> is the epoller of each event loop,
  \<open>localEventLoop\<close> the loop whose thread is running.  (\<open>destoryCallback_\<close> is a user function, named
  by a number; only \<open>FreeServerClient\<close> sets it.)  When idle connections are managed, a connection that is closed
  is not deleted at once: the connections on the heap are then the open ones, \<open>conns\<close>, and the closed ones that
  wait for their deletion, \<open>closed_conns\<close>.
\<close>

record 'k conn_world = "'k world" +
  conns :: "conn_id \<rightharpoonup> tcp_conn"
  next_conn :: conn_id
  loop_ep :: "loop_id \<Rightarrow> fd"
  localEventLoop :: loop_id
  closed_conns :: "conn_id \<rightharpoonup> tcp_conn"

definition IO_BUFFER_SIZE :: nat where
  "IO_BUFFER_SIZE = 8192"

definition upd_conn :: "conn_id \<Rightarrow> tcp_conn \<Rightarrow> ('k, 'z) conn_world_scheme \<Rightarrow> ('k, 'z) conn_world_scheme" where
  "upd_conn c x w = w\<lparr>conns := (conns w)(c \<mapsto> x)\<rparr>"

subsection \<open>Construction\<close>

text \<open>
  The constructor: state \<open>ESTABLISHED\<close>, empty buffers, the descriptor of the event (which is
  dereferenced for it), set to non-blocking.
\<close>

definition new_conn :: "event_id \<Rightarrow> fd \<Rightarrow> loop_id \<Rightarrow> tcp_conn" where
  "new_conn p f l = \<lparr>readBuffer = new_buffer IO_BUFFER_SIZE, writeBuffer = new_buffer IO_BUFFER_SIZE,
     conn_data = None, conn_event = p, sockfd = f, isWillClose = False, conn_state = ESTABLISHED,
     conn_loop = l, lastReceiveTime = 0, destoryCallback = None\<rparr>"

definition makeHeapObject ::
  "'k os \<Rightarrow> event_id \<Rightarrow> loop_id \<Rightarrow> ('k, 'z) conn_world_scheme \<Rightarrow> (conn_id \<times> ('k, 'z) conn_world_scheme) res" where
  "makeHeapObject os p l w =
     res_bind (deref (evs w) p) (\<lambda>ev.
       let (c, heap, nxt) = get_new_object (new_conn p (ev_fd ev) l) (conns w) (next_conn w) in
       Inr (c, w\<lparr>conns := heap, next_conn := nxt,
                 env := setNonblock os (ev_fd ev) (env w)\<rparr>))"

subsection \<open>Sending\<close>

text \<open>
  \<open>send(isLast)\<close>.  (A connection still \<open>BLANK\<close> first sleeps for two seconds, which changes
  nothing here.)  An event that already asks for writability is left as it is.
\<close>

definition send_flag ::
  "'k os \<Rightarrow> conn_id \<Rightarrow> bool \<Rightarrow> ('k, 'z) conn_world_scheme \<Rightarrow> ('k, 'z) conn_world_scheme res" where
  "send_flag os c isLast w =
     res_bind (deref (conns w) c) (\<lambda>x.
       if readableBytes (writeBuffer x) > 0 then
         let w1 = upd_conn c (x\<lparr>isWillClose := isLast\<rparr>) w in
         res_bind (deref (evs w1) (conn_event x)) (\<lambda>ev.
           if isWritable ev then Inr w1
           else res_bind (setWritable os (conn_event x) True w1)
                  (setWriteCallback (conn_event x) (Cb_send_nonblock c)))
       else Inl Assert_failed)"

text \<open>\<open>send(str, len)\<close>: on a connection that is not established a line is logged, and the data is
  sent all the same.\<close>

definition send_data ::
  "'k os \<Rightarrow> conn_id \<Rightarrow> bytes \<Rightarrow> ('k, 'z) conn_world_scheme \<Rightarrow> ('k, 'z) conn_world_scheme res" where
  "send_data os c s w =
     res_bind (deref (conns w) c) (\<lambda>x.
       let w1 = (if conn_state x \<noteq> ESTABLISHED
                 then w\<lparr>env := add_log (Fatal ''connection closed, can't send data!'') (env w)\<rparr> else w) in
       res_bind (buf_append (writeBuffer x) s) (\<lambda>b.
         send_flag os c False (upd_conn c (x\<lparr>writeBuffer := b\<rparr>) w1)))"

text \<open>The result of \<open>::write\<close> as the \<open>ssize_t\<close> the code stores.\<close>

fun wr_count :: "wr_answer \<Rightarrow> int" where
  "wr_count (WrBytes n) = int n"
| "wr_count (WrErr e) = - 1"

definition send_nonblock ::
  "'k os \<Rightarrow> (conn_id \<Rightarrow> ('k, 'z) conn_world_scheme \<Rightarrow> ('k, 'z) conn_world_scheme res) \<Rightarrow>
     conn_id \<Rightarrow> ('k, 'z) conn_world_scheme \<Rightarrow> ('k, 'z) conn_world_scheme res" where
  "send_nonblock os activeClose c w =
     res_bind (deref (conns w) c) (\<lambda>x.
       let (a, k) = sys_write os (sockfd x) (peek_bytes (writeBuffer x) (readableBytes (writeBuffer x)))
                      (kern (env w));
           w1 = w\<lparr>env := (env w)\<lparr>kern := k\<rparr>\<rparr>;
           w2 = (case a of
                   WrErr e \<Rightarrow> if e \<noteq> EAGAIN
                     then w1\<lparr>env := add_log (Sys ''nonblock write error'') (env w1)\<rparr> else w1
                 | WrBytes _ \<Rightarrow> w1) in
       res_bind (retrieve (writeBuffer x) (to_size_t (wr_count a))) (\<lambda>(_, b).
         let w3 = upd_conn c (x\<lparr>writeBuffer := b\<rparr>) w2 in
         if readableBytes b = 0 then
           res_bind (setWritable os (conn_event x) False w3) (\<lambda>w4.
             if isWillClose x then activeClose c w4 else Inr w4)
         else Inr w3))"

subsection \<open>Destruction\<close>

text \<open>\<open>destroy\<close>: closed, out of the epoller, its event deleted.\<close>

definition destroy ::
  "'k os \<Rightarrow> conn_id \<Rightarrow> ('k, 'z) conn_world_scheme \<Rightarrow> ('k, 'z) conn_world_scheme res" where
  "destroy os c w =
     res_bind (deref (conns w) c) (\<lambda>x.
       res_bind (remove_event os (loop_ep w (conn_loop x)) (conn_event x)
                  (upd_conn c (x\<lparr>conn_state := CLOSED\<rparr>) w)) (\<lambda>w1.
         res_bind (return_object (conn_event x) (evs w1)) (\<lambda>heap.
           Inr (w1\<lparr>evs := heap\<rparr>))))"

text \<open>
  \<open>delete connection\<close>: the destructor of the socket member closes the descriptor (unless it is
  0, the mark of a socket moved from).  The connection's own timers are in theory \<open>Timer\<close>.
\<close>

definition delete_conn ::
  "'k os \<Rightarrow> conn_id \<Rightarrow> ('k, 'z) conn_world_scheme \<Rightarrow> ('k, 'z) conn_world_scheme res" where
  "delete_conn os c w =
     res_bind (deref (conns w) c) (\<lambda>x.
       res_bind (return_object c (conns w)) (\<lambda>heap.
         let w1 = w\<lparr>conns := heap\<rparr> in
         Inr (if sockfd x \<noteq> 0
              then w1\<lparr>env := (env w1)\<lparr>kern := sys_close os (sockfd x) (kern (env w1))\<rparr>\<rparr> else w1)))"

text \<open>
  What \<open>closeConnection\<close> of server and clients have in common: with data still to be sent, stop
  reading and send it as the last; else run the close callback, destroy, and \<open>dispose\<close> of the connection:
  delete it, or, when idle connections are managed, leave it to the wheel.
\<close>

definition retire_conn ::
  "conn_id \<Rightarrow> ('k, 'z) conn_world_scheme \<Rightarrow> ('k, 'z) conn_world_scheme res" where
  "retire_conn c w =
     res_bind (deref (conns w) c) (\<lambda>x.
       Inr (w\<lparr>conns := (conns w)(c := None), closed_conns := (closed_conns w)(c \<mapsto> x)\<rparr>))"

definition close_common ::
  "'k os \<Rightarrow> (conn_id \<Rightarrow> ('k, 'z) conn_world_scheme \<Rightarrow> ('k, 'z) conn_world_scheme res) \<Rightarrow>
     (conn_id \<Rightarrow> ('k, 'z) conn_world_scheme \<Rightarrow> ('k, 'z) conn_world_scheme res) option \<Rightarrow>
     conn_id \<Rightarrow> ('k, 'z) conn_world_scheme \<Rightarrow> ('k, 'z) conn_world_scheme res" where
  "close_common os dispose closeCb c w =
     res_bind (deref (conns w) c) (\<lambda>x.
       if readableBytes (writeBuffer x) > 0 then
         res_bind (setReadable os (conn_event x) False w) (send_flag os c True)
       else
         res_bind (case closeCb of None \<Rightarrow> Inr w | Some cb \<Rightarrow> cb c w) (\<lambda>w1.
           res_bind (destroy os c w1) (dispose c)))"

subsection \<open>The invariant of a live connection\<close>

text \<open>
  Its buffers are well formed; its event is live, for its descriptor, at its loop's epoller; and
  (once it is established) writability is asked for exactly while there is data to send, with
  \<open>sendNonblock\<close> as the callback.  Callbacks that name a connection sit on that connection's
  event, so a callback never names a connection that has been deleted.
\<close>

definition names_conn :: "callback \<Rightarrow> conn_id \<Rightarrow> bool" where
  "names_conn cb d \<longleftrightarrow> cb = Cb_conn_msg d \<or> cb = Cb_send_nonblock d \<or> cb = Cb_check_connect d"

definition named_conns :: "event \<Rightarrow> conn_id set" where
  "named_conns ev = {d. \<exists>cb. names_conn cb d \<and>
     Some cb \<in> {readCallback ev, writeCallback ev, errorCallback ev, closeCallback ev}}"

definition cb_own :: "conn_id \<Rightarrow> event \<Rightarrow> bool" where
  "cb_own c ev \<longleftrightarrow> named_conns ev \<subseteq> {c}"

definition cb_free :: "event \<Rightarrow> bool" where
  "cb_free ev \<longleftrightarrow> named_conns ev = {}"

lemma names_conn_simps [simp]:
  "names_conn (Cb_conn_msg c) d = (c = d)" "names_conn (Cb_send_nonblock c) d = (c = d)"
  "names_conn (Cb_check_connect c) d = (c = d)" "\<not> names_conn Cb_accept d"
  "\<not> names_conn Cb_wake_up d" "\<not> names_conn (Cb_timer n) d"
  by (auto simp: names_conn_def)

lemma cb_own_flag [simp]: "cb_own c (set_flag fl on ev) = cb_own c ev"
  by (simp add: cb_own_def named_conns_def)

lemma cb_own_set [simp]:
  "cb_own c ev \<Longrightarrow> cb_own c (ev\<lparr>writeCallback := Some (Cb_send_nonblock c)\<rparr>)"
  "cb_own c ev \<Longrightarrow> cb_own c (ev\<lparr>readCallback := Some (Cb_conn_msg c)\<rparr>)"
  by (auto simp: cb_own_def named_conns_def)

lemma cb_free_own: "cb_free ev \<Longrightarrow> cb_own c ev"
  by (simp add: cb_free_def cb_own_def)

lemma cb_free_new [simp]: "cb_free (new_event f ep)"
  by (simp add: cb_free_def named_conns_def new_event_def)

definition conn_ok :: "('k, 'z) conn_world_scheme \<Rightarrow> conn_id \<Rightarrow> tcp_conn \<Rightarrow> bool" where
  "conn_ok w c x \<longleftrightarrow>
     c < next_conn w \<and> buf_inv (readBuffer x) \<and> buf_inv (writeBuffer x) \<and>
     (\<exists>ev. evs w (conn_event x) = Some ev \<and> ev_fd ev = sockfd x \<and>
        epoller ev = loop_ep w (conn_loop x) \<and> cb_own c ev \<and>
        (conn_state x \<noteq> BLANK \<longrightarrow>
           (isWritable ev \<longleftrightarrow> contents (writeBuffer x) \<noteq> []) \<and>
           (isWritable ev \<longrightarrow> writeCallback ev = Some (Cb_send_nonblock c))))"

definition conn_inv ::
  "(fd \<Rightarrow> 'k \<Rightarrow> (fd \<rightharpoonup> epoll_event)) \<Rightarrow> ('k, 'z) conn_world_scheme \<Rightarrow> bool" where
  "conn_inv interest w \<longleftrightarrow>
     registered interest w \<and> (\<forall>c x. conns w c = Some x \<longrightarrow> conn_ok w c x) \<and>
     (\<forall>p ev. evs w p = Some ev \<and> (\<forall>c x. conns w c = Some x \<longrightarrow> conn_event x \<noteq> p) \<longrightarrow> cb_free ev) \<and>
     (\<forall>c d x y. conns w c = Some x \<and> conns w d = Some y \<and> conn_event x = conn_event y \<longrightarrow> c = d)"

lemma conn_invD:
  assumes "conn_inv interest w"
  shows "registered interest w"
    and "conns w c = Some x \<Longrightarrow> conn_ok w c x"
    and "conns w c = Some x \<Longrightarrow> conns w d = Some y \<Longrightarrow> conn_event x = conn_event y \<Longrightarrow> c = d"
    and "evs w p = Some ev \<Longrightarrow> (\<And>c x. conns w c = Some x \<Longrightarrow> conn_event x \<noteq> p) \<Longrightarrow> cb_free ev"
  using assms unfolding conn_inv_def by - blast+

lemma conn_okE:
  assumes "conn_ok w c x"
  obtains ev where "c < next_conn w" "buf_inv (readBuffer x)" "buf_inv (writeBuffer x)"
    "evs w (conn_event x) = Some ev" "ev_fd ev = sockfd x" "epoller ev = loop_ep w (conn_loop x)"
    "conn_state x \<noteq> BLANK \<Longrightarrow> isWritable ev \<longleftrightarrow> contents (writeBuffer x) \<noteq> []"
    "conn_state x \<noteq> BLANK \<Longrightarrow> isWritable ev \<Longrightarrow> writeCallback ev = Some (Cb_send_nonblock c)"
    "cb_own c ev"
  using assms unfolding conn_ok_def by blast

text \<open>An operation on one connection touches that connection and its event only.\<close>

lemma conn_inv_update:
  assumes inv: "conn_inv interest w" and c: "conns w c = Some x" and reg: "registered interest w'"
    and w': "conns w' = (conns w)(c \<mapsto> x')" "conn_event x' = conn_event x"
      "\<And>q. q \<noteq> conn_event x \<Longrightarrow> evs w' q = evs w q"
      "loop_ep w' = loop_ep w" "next_conn w' = next_conn w"
    and ok: "conn_ok w' c x'"
  shows "conn_inv interest w'"
proof -
  have "conn_ok w' d y" if "conns w' d = Some y" for d y
  proof (cases "d = c")
    case True
    with that w'(1) ok show ?thesis by simp
  next
    case False
    with that w'(1) have y: "conns w d = Some y" by simp
    then have "conn_event y \<noteq> conn_event x" using conn_invD(3) [OF inv c] False by metis
    then show ?thesis
      using conn_invD(2) [OF inv y] w'(3) [of "conn_event y"] w'(4,5) by (simp add: conn_ok_def)
  qed
  moreover have "c1 = d1" if "conns w' c1 = Some x1" "conns w' d1 = Some y1" "conn_event x1 = conn_event y1"
    for c1 d1 x1 y1
    using that w'(1,2) c conn_invD(3) [OF inv] by (auto split: if_splits)
  moreover have "cb_free ev" if "evs w' p = Some ev" "\<And>d y. conns w' d = Some y \<Longrightarrow> conn_event y \<noteq> p" for p ev
  proof -
    have "p \<noteq> conn_event x" using that(2) [of c x'] w'(1,2) by auto
    moreover have "conn_event y \<noteq> p" if "conns w d = Some y" for d y
      using that \<open>\<And>d y. conns w' d = Some y \<Longrightarrow> conn_event y \<noteq> p\<close> [of d y] w'(1) c
        \<open>p \<noteq> conn_event x\<close> by (cases "d = c") auto
    ultimately show ?thesis using conn_invD(4) [OF inv, of p ev] w'(3) that(1) by auto
  qed
  ultimately show ?thesis using reg unfolding conn_inv_def by blast
qed

text \<open>Removing a connection together with its event.\<close>

lemma conn_inv_remove:
  assumes inv: "conn_inv interest w" and c: "conns w c = Some x" and reg: "registered interest w'"
    and w': "conns w' = (conns w)(c := None)" "\<And>q. q \<noteq> conn_event x \<Longrightarrow> evs w' q = evs w q"
      "evs w' (conn_event x) = None" "loop_ep w' = loop_ep w" "next_conn w' = next_conn w"
  shows "conn_inv interest w'"
proof -
  have "conn_ok w' d y" if "conns w' d = Some y" for d y
  proof -
    from that w'(1) have y: "conns w d = Some y" "d \<noteq> c" by (auto split: if_splits)
    then have "conn_event y \<noteq> conn_event x" using conn_invD(3) [OF inv c] by metis
    then show ?thesis
      using conn_invD(2) [OF inv y(1)] w'(2) [of "conn_event y"] w'(4,5) by (simp add: conn_ok_def)
  qed
  moreover have "c1 = d1" if "conns w' c1 = Some x1" "conns w' d1 = Some y1" "conn_event x1 = conn_event y1"
    for c1 d1 x1 y1
    using that w'(1) conn_invD(3) [OF inv] by (auto split: if_splits)
  moreover have "cb_free ev" if "evs w' p = Some ev" "\<And>d y. conns w' d = Some y \<Longrightarrow> conn_event y \<noteq> p" for p ev
  proof -
    have p: "p \<noteq> conn_event x" using that(1) w'(3) by auto
    moreover have "conn_event y \<noteq> p" if "conns w d = Some y" for d y
      using that \<open>\<And>d y. conns w' d = Some y \<Longrightarrow> conn_event y \<noteq> p\<close> [of d y] w'(1) c p
      by (cases "d = c") auto
    ultimately show ?thesis using conn_invD(4) [OF inv, of p ev] w'(2) that(1) by auto
  qed
  ultimately show ?thesis using reg unfolding conn_inv_def by blast
qed

text \<open>Adding a connection with a new event.\<close>

lemma conn_inv_add:
  assumes inv: "conn_inv interest w" and reg: "registered interest w'"
    and w': "conns w' = (conns w)(next_conn w \<mapsto> x)" "evs w' = (evs w)(next_ev w \<mapsto> ev)"
      "loop_ep w' = loop_ep w" "next_conn w' = Suc (next_conn w)" "conn_event x = next_ev w"
    and ok: "conn_ok w' (next_conn w) x"
  shows "conn_inv interest w'"
proof -
  have fresh: "conns w (next_conn w) = None"
    using conn_invD(2) [OF inv, of "next_conn w"] by (cases "conns w (next_conn w)") (auto simp: conn_ok_def)
  have other: "conn_event y \<noteq> next_ev w" if "conns w d = Some y" for d y
  proof -
    have "\<exists>ev'. evs w (conn_event y) = Some ev'"
      using conn_invD(2) [OF inv that] by (auto simp: conn_ok_def)
    then show ?thesis using registeredD(1) [OF conn_invD(1) [OF inv]] by fastforce
  qed
  have "conn_ok w' d y" if "conns w' d = Some y" for d y
  proof (cases "d = next_conn w")
    case True
    with that w'(1) ok show ?thesis by simp
  next
    case False
    with that w'(1) have y: "conns w d = Some y" by simp
    then show ?thesis
      using conn_invD(2) [OF inv y] other [OF y] w' by (auto simp: conn_ok_def)
  qed
  moreover have "c1 = d1" if "conns w' c1 = Some x1" "conns w' d1 = Some y1" "conn_event x1 = conn_event y1"
    for c1 d1 x1 y1
    using that w'(1,5) other [of c1 x1] other [of d1 y1] conn_invD(3) [OF inv, of c1 x1 d1 y1]
    by (auto split: if_splits)
  moreover have "cb_free ev'" if "evs w' p = Some ev'" "\<And>d y. conns w' d = Some y \<Longrightarrow> conn_event y \<noteq> p" for p ev'
  proof -
    have "p \<noteq> next_ev w" using that(2) [of "next_conn w" x] w'(1,5) by simp
    moreover have "conn_event y \<noteq> p" if "conns w d = Some y" for d y
      using that \<open>\<And>d y. conns w' d = Some y \<Longrightarrow> conn_event y \<noteq> p\<close> [of d y] w'(1) fresh
      by (cases "d = next_conn w") auto
    ultimately show ?thesis using conn_invD(4) [OF inv, of p ev'] w'(2) that(1) by auto
  qed
  ultimately show ?thesis using reg unfolding conn_inv_def by blast
qed

subsection \<open>What an operation leaves alone\<close>

definition frame :: "conn_id \<Rightarrow> event_id \<Rightarrow> ('k, 'z) conn_world_scheme \<Rightarrow> ('k, 'z) conn_world_scheme \<Rightarrow> bool" where
  "frame c p w w' \<longleftrightarrow>
     (\<forall>d. d \<noteq> c \<longrightarrow> conns w' d = conns w d) \<and> (\<forall>q. q \<noteq> p \<longrightarrow> evs w' q = evs w q) \<and>
     loop_ep w' = loop_ep w \<and> next_conn w' = next_conn w \<and> next_ev w' = next_ev w \<and>
     localEventLoop w' = localEventLoop w \<and> conn_world.more w' = conn_world.more w \<and>
     (\<forall>d. d \<noteq> c \<longrightarrow> closed_conns w' d = closed_conns w d)"

lemma frame_refl [simp]: "frame c p w w"
  by (simp add: frame_def)

lemma frame_trans: "frame c p w w1 \<Longrightarrow> frame c p w1 w2 \<Longrightarrow> frame c p w w2"
  by (simp add: frame_def)

lemma frameD:
  assumes "frame c p w w'"
  shows "d \<noteq> c \<Longrightarrow> conns w' d = conns w d" "q \<noteq> p \<Longrightarrow> evs w' q = evs w q"
    "loop_ep w' = loop_ep w" "next_conn w' = next_conn w" "next_ev w' = next_ev w"
    "localEventLoop w' = localEventLoop w" "conn_world.more w' = conn_world.more w"
    "d \<noteq> c \<Longrightarrow> closed_conns w' d = closed_conns w d"
  using assms by (simp_all add: frame_def)

lemma frame_conns: "frame c p w w' \<Longrightarrow> conns w' c = Some x \<Longrightarrow> conns w' = (conns w)(c \<mapsto> x)"
  by (auto simp: frame_def)

lemma frame_conns_gone: "frame c p w w' \<Longrightarrow> conns w' c = None \<Longrightarrow> conns w' = (conns w)(c := None)"
  by (auto simp: frame_def)

lemma conn_inv_frame:
  assumes "conn_inv interest w" and "conns w c = Some x" and "frame c (conn_event x) w w'"
    and "registered interest w'" and "conns w' c = Some x'" and "conn_event x' = conn_event x"
    and "conn_ok w' c x'"
  shows "conn_inv interest w'"
  using assms(3) by (intro conn_inv_update [OF assms(1,2,4) frame_conns [OF assms(3,5)] assms(6) _ _ _ assms(7)])
    (simp_all add: frame_def)

lemma conn_inv_frame_gone:
  assumes "conn_inv interest w" and "conns w c = Some x" and "frame c (conn_event x) w w'"
    and "registered interest w'" and "conns w' c = None" and "evs w' (conn_event x) = None"
  shows "conn_inv interest w'"
  using assms(3) by (intro conn_inv_remove [OF assms(1,2,4) frame_conns_gone [OF assms(3,5)] _ assms(6)])
    (simp_all add: frame_def)

subsection \<open>Sending keeps the invariant\<close>

lemma os_contractD:
  assumes "os_contract os inq outq interest"
  shows "stream_contract os inq outq" "epoll_contract os interest" "frame_contract os inq outq interest"
  using assms by (simp_all add: os_contract_def)

lemma send_flag_spec:
  assumes os: "os_contract os inq outq interest" and reg: "registered interest w"
    and c: "conns w c = Some x" and ev: "evs w (conn_event x) = Some ev"
    and ne: "0 < readableBytes (writeBuffer x)"
    and wr: "isWritable ev \<Longrightarrow> writeCallback ev = Some (Cb_send_nonblock c)"
  obtains w' ev' where "send_flag os c l w = Inr w'" "frame c (conn_event x) w w'"
    "conns w' c = Some (x\<lparr>isWillClose := l\<rparr>)" "evs w' (conn_event x) = Some ev'"
    "isWritable ev'" "writeCallback ev' = Some (Cb_send_nonblock c)"
    "ev_fd ev' = ev_fd ev" "epoller ev' = epoller ev" "isReadable ev' = isReadable ev"
    "cb_own c ev \<Longrightarrow> cb_own c ev'" "registered interest w'" "\<And>g. outq g (kern (env w')) = outq g (kern (env w))"
    "0 \<le> ev_fd ev \<Longrightarrow> logs (env w') = logs (env w)"
proof (cases "isWritable ev")
  case True
  define w' where "w' = upd_conn c (x\<lparr>isWillClose := l\<rparr>) w"
  have "send_flag os c l w = Inr w'"
    using c ev ne True by (simp add: send_flag_def w'_def upd_conn_def)
  moreover have "registered interest w'"
    by (rule registered_cong [OF reg]) (simp_all add: w'_def upd_conn_def)
  ultimately show ?thesis
    using ev True wr by (intro that [of w' ev]) (simp_all add: w'_def upd_conn_def frame_def)
next
  case False
  define w1 where "w1 = upd_conn c (x\<lparr>isWillClose := l\<rparr>) w"
  have reg1: "registered interest w1"
    by (rule registered_cong [OF reg]) (simp_all add: w1_def upd_conn_def)
  have ev1: "evs w1 (conn_event x) = Some ev" using ev by (simp add: w1_def upd_conn_def)
  obtain e' where e': "set_mask os EPOLLOUT (conn_event x) True w1 =
      Inr (w1\<lparr>evs := (evs w1)(conn_event x \<mapsto> set_flag EPOLLOUT True ev), env := e'\<rparr>)"
    "registered interest (w1\<lparr>evs := (evs w1)(conn_event x \<mapsto> set_flag EPOLLOUT True ev), env := e'\<rparr>)"
    "0 \<le> ev_fd ev \<Longrightarrow> logs e' = logs (env w1)"
    "e' = logged ''in updateEvent, epoll_ctl error. {}''
         (sys_epoll_ctl os (epoller ev) CtlMod (ev_fd ev) (events (set_flag EPOLLOUT True ev), conn_event x)) (env w1)"
    using set_mask_registered [OF os_contractD(2) [OF os] reg1 ev1] by metis
  define ev' where "ev' = (set_flag EPOLLOUT True ev)\<lparr>writeCallback := Some (Cb_send_nonblock c)\<rparr>"
  define w' where "w' = w1\<lparr>evs := (evs w1)(conn_event x \<mapsto> ev'), env := e'\<rparr>"
  have "send_flag os c l w = Inr w'"
    using c ev ne False e'(1) ev1
    by (simp add: send_flag_def w1_def [symmetric] setWritable_def setWriteCallback_def w'_def ev'_def)
  moreover have "registered interest w'"
    by (rule registered_cong [OF e'(2)]) (simp_all add: w'_def ev'_def)
  moreover have "outq g (kern e') = outq g (kern (env w))" for g
    using e'(4) logged_streams(1) [OF os_contractD(3) [OF os]] by (simp add: w1_def upd_conn_def)
  moreover have "isWritable ev'" "isReadable ev' = isReadable ev"
    using isWritable_set_flag(1) [of True ev] isReadable_set_flag(1) [of True ev]
    by (simp_all add: ev'_def isWritable_def isReadable_def)
  ultimately show ?thesis
    using e'(3) by (intro that [of w' ev']) (simp_all add: w'_def w1_def upd_conn_def ev'_def frame_def)
qed

text \<open>Is input asked for on an event?\<close>

definition asks_input :: "('k, 'z) conn_world_scheme \<Rightarrow> event_id \<Rightarrow> bool" where
  "asks_input w p \<longleftrightarrow> (case evs w p of None \<Rightarrow> False | Some ev \<Rightarrow> isReadable ev)"

lemma send_data_spec:
  assumes os: "os_contract os inq outq interest" and inv: "conn_inv interest w"
    and c: "conns w c = Some x" and st: "conn_state x \<noteq> BLANK"
    and s: "length s \<le> vec_max" and ne: "s \<noteq> [] \<or> contents (writeBuffer x) \<noteq> []"
  obtains (sent) w' x' where "send_data os c s w = Inr w'" "conn_inv interest w'"
      "frame c (conn_event x) w w'" "conns w' c = Some x'"
      "contents (writeBuffer x') = contents (writeBuffer x) @ s" "isWillClose x' = False"
      "x' = x\<lparr>writeBuffer := writeBuffer x', isWillClose := False\<rparr>"
      "\<And>g. outq g (kern (env w')) = outq g (kern (env w))"
      "asks_input w' (conn_event x) = asks_input w (conn_event x)"
      "0 \<le> sockfd x \<Longrightarrow> logs (env w') = logs (env w) @ (if conn_state x = ESTABLISHED then []
         else [Fatal ''connection closed, can't send data!''])"
  | (too_long) "send_data os c s w = Inl Length_error"
proof -
  obtain ev where ok: "c < next_conn w" "buf_inv (readBuffer x)" "buf_inv (writeBuffer x)"
    "evs w (conn_event x) = Some ev" "ev_fd ev = sockfd x" "epoller ev = loop_ep w (conn_loop x)"
    "isWritable ev \<longleftrightarrow> contents (writeBuffer x) \<noteq> []"
    "isWritable ev \<Longrightarrow> writeCallback ev = Some (Cb_send_nonblock c)" "cb_own c ev"
    using conn_okE [OF conn_invD(2) [OF inv c]] st by metis
  define w1 where "w1 = (if conn_state x \<noteq> ESTABLISHED
    then w\<lparr>env := add_log (Fatal ''connection closed, can't send data!'') (env w)\<rparr> else w)"
  from ok(3) s show ?thesis
  proof (cases rule: buf_append_cases)
    case too_long
    then show ?thesis by (intro that(2)) (simp add: send_data_def c Let_def)
  next
    case (appended b)
    define y where "y = x\<lparr>writeBuffer := b\<rparr>"
    define w2 where "w2 = upd_conn c y w1"
    have w2: "conns w2 c = Some y" "evs w2 = evs w" "kern (env w2) = kern (env w)"
      "frame c (conn_event x) w w2" "next_ev w2 = next_ev w"
      by (simp_all add: w2_def upd_conn_def w1_def frame_def)
    have reg: "registered interest w2"
      by (rule registered_cong [OF conn_invD(1) [OF inv]]) (simp_all add: w2)
    have "0 < length (contents b)" using appended(3) ne by auto
    then have ne': "0 < readableBytes (writeBuffer y)"
      using length_contents [OF appended(2)] by (simp add: y_def)
    have ev2: "evs w2 (conn_event y) = Some ev" using ok(4) by (simp add: w2 y_def)
    from os reg w2(1) ev2 ne' ok(8) show ?thesis
    proof (rule send_flag_spec [where l = False])
      fix w' ev'
      assume f: "send_flag os c False w2 = Inr w'" "frame c (conn_event y) w2 w'"
        "conns w' c = Some (y\<lparr>isWillClose := False\<rparr>)" "evs w' (conn_event y) = Some ev'"
        "isWritable ev'" "writeCallback ev' = Some (Cb_send_nonblock c)"
        "ev_fd ev' = ev_fd ev" "epoller ev' = epoller ev" "isReadable ev' = isReadable ev"
        "cb_own c ev \<Longrightarrow> cb_own c ev'" "registered interest w'" "\<And>g. outq g (kern (env w')) = outq g (kern (env w2))"
        "0 \<le> ev_fd ev \<Longrightarrow> logs (env w') = logs (env w2)"
      have p: "conn_event y = conn_event x" by (simp add: y_def)
      have fr: "frame c (conn_event x) w w'"
        using frame_trans [OF w2(4)] f(2) p by simp
      have "conn_ok w' c (y\<lparr>isWillClose := False\<rparr>)"
        using ok f(4-8,10) appended(2,3) ne frameD(3,4) [OF fr]
        by (auto simp: conn_ok_def y_def)
      then have inv': "conn_inv interest w'"
        using conn_inv_frame [OF inv c fr f(11,3)] p by simp
      have "send_data os c s w = Inr w'"
        using f(1) appended(1) c by (simp add: send_data_def w2_def w1_def y_def Let_def)
      moreover have "asks_input w' (conn_event x) = asks_input w (conn_event x)"
        using f(4,9) ev2 ok(4) p by (simp add: asks_input_def)
      ultimately show ?thesis
        using f(3,12,13) ok(5) appended(3) w2(3) fr inv'
        by (intro that(1) [of w' "y\<lparr>isWillClose := False\<rparr>"])
          (simp_all add: y_def w2_def w1_def upd_conn_def)
    qed
  qed
qed

subsection \<open>Writing, destroying, deleting\<close>

lemma event_of:
  assumes "conn_inv interest w" and "conns w c = Some x"
  obtains ev where "evs w (conn_event x) = Some ev" "ev_fd ev = sockfd x"
    "epoller ev = loop_ep w (conn_loop x)" "buf_inv (readBuffer x)" "buf_inv (writeBuffer x)"
    "c < next_conn w"
    "conn_state x \<noteq> BLANK \<Longrightarrow> isWritable ev \<longleftrightarrow> contents (writeBuffer x) \<noteq> []"
    "conn_state x \<noteq> BLANK \<Longrightarrow> isWritable ev \<Longrightarrow> writeCallback ev = Some (Cb_send_nonblock c)"
    "cb_own c ev"
  using conn_okE [OF conn_invD(2) [OF assms]] by metis

text \<open>
  One run of \<open>sendNonblock\<close> with data to send: a failing \<open>write\<close> ends in the assertion of
  \<open>retrieve\<close>; otherwise the bytes taken move from the buffer to the kernel, and a drained
  connection that is to be closed is handed to \<open>closeConnection\<close>.
\<close>

lemma send_nonblock_error:
  assumes "conns w c = Some x" and "buf_inv (writeBuffer x)"
    and "sys_write os (sockfd x) (contents (writeBuffer x)) (kern (env w)) = (WrErr e, k)"
  shows "send_nonblock os close c w = Inl Assert_failed"
proof -
  have "readableBytes (writeBuffer x) < 18446744073709551615"
    using buf_inv_bounds [OF assms(2)] by (simp add: readable_eq [OF assms(2)])
  then show ?thesis
    using assms by (simp add: send_nonblock_def peek_all retrieve_too_much)
qed

lemma send_nonblock_flush:
  assumes os: "os_contract os inq outq interest" and inv: "conn_inv interest w"
    and c: "conns w c = Some x" and st: "conn_state x \<noteq> BLANK"
    and wr: "sys_write os (sockfd x) (contents (writeBuffer x)) (kern (env w)) = (WrBytes n, k)"
  obtains w' x' where
    "send_nonblock os close c w = (if contents (writeBuffer x') = [] \<and> isWillClose x then close c w' else Inr w')"
    "conn_inv interest w'" "frame c (conn_event x) w w'" "conns w' c = Some x'"
    "x' = x\<lparr>writeBuffer := writeBuffer x'\<rparr>"
    "contents (writeBuffer x) = take n (contents (writeBuffer x)) @ contents (writeBuffer x')"
    "n \<le> length (contents (writeBuffer x))"
    "outq (sockfd x) (kern (env w')) = outq (sockfd x) (kern (env w)) @ take n (contents (writeBuffer x))"
    "asks_input w' (conn_event x) = asks_input w (conn_event x)"
    "0 \<le> sockfd x \<Longrightarrow> logs (env w') = logs (env w)" "closed_conns w' = closed_conns w"
    "kern (env w') = k \<or> (\<exists>ep f m. kern (env w') = snd (sys_epoll_ctl os ep CtlMod f m k))"
proof -
  from event_of [OF inv c] obtain ev where ev: "evs w (conn_event x) = Some ev" "ev_fd ev = sockfd x"
    "epoller ev = loop_ep w (conn_loop x)" "buf_inv (readBuffer x)" "buf_inv (writeBuffer x)"
    "c < next_conn w" "isWritable ev \<longleftrightarrow> contents (writeBuffer x) \<noteq> []"
    "isWritable ev \<Longrightarrow> writeCallback ev = Some (Cb_send_nonblock c)" "cb_own c ev"
    using st by metis
  note bi = ev(5)
  note sc = stream_contractD [OF os_contractD(1) [OF os]]
  note fc = frame_contractD [OF os_contractD(3) [OF os]]
  have n: "n \<le> length (contents (writeBuffer x))" using sc(5) [OF wr] .
  then have n': "n \<le> readableBytes (writeBuffer x)" by (simp add: length_contents [OF bi])
  define b where "b = (writeBuffer x)\<lparr>readIndex := readIndex (writeBuffer x) + n\<rparr>"
  note ret = retrieve_ok [OF bi n', folded b_def]
  have len: "to_size_t (int n) = n"
    using n' buf_inv_bounds [OF bi] by (intro to_size_t_nonneg) (simp add: readable_eq [OF bi])
  define y where "y = x\<lparr>writeBuffer := b\<rparr>"
  define w3 where "w3 = upd_conn c y (w\<lparr>env := (env w)\<lparr>kern := k\<rparr>\<rparr>)"
  have w3: "conns w3 c = Some y" "evs w3 = evs w" "kern (env w3) = k" "next_ev w3 = next_ev w"
    "frame c (conn_event x) w w3" "logs (env w3) = logs (env w)" "closed_conns w3 = closed_conns w"
    by (simp_all add: w3_def upd_conn_def frame_def)
  have reg3: "registered interest w3"
    by (rule registered_cong [OF conn_invD(1) [OF inv]]) (simp_all add: w3 fc(2) [OF wr])
  have out3: "outq (sockfd x) (kern (env w3)) = outq (sockfd x) (kern (env w)) @ take n (contents (writeBuffer x))"
    using sc(6) [OF wr] by (simp add: w3)
  have y: "conn_event y = conn_event x" "readBuffer y = readBuffer x" "writeBuffer y = b"
    "sockfd y = sockfd x" "conn_loop y = conn_loop x" "conn_state y = conn_state x" "isWillClose y = isWillClose x"
    by (simp_all add: y_def)
  have con: "contents (writeBuffer x) = take n (contents (writeBuffer x)) @ contents b"
    using ret(3) by simp
  have rb: "readableBytes b = 0 \<longleftrightarrow> contents b = []"
    using length_contents [OF ret(2)] by (metis length_0_conv)
  have run: "send_nonblock os close c w =
      (if contents b = []
       then res_bind (setWritable os (conn_event x) False w3)
              (\<lambda>w4. if isWillClose x then close c w4 else Inr w4)
       else Inr w3)"
    using c wr rb ret(1) len
    by (simp add: send_nonblock_def peek_all [OF bi] w3_def [symmetric] y_def [symmetric])
  show ?thesis
  proof (cases "contents b = []")
    case False
    then have "contents (writeBuffer x) \<noteq> []" using con by auto
    then have "conn_ok w3 c y"
      using ev ret(2) False w3(2) frameD(3,4) [OF w3(5)] by (auto simp: conn_ok_def y)
    then have "conn_inv interest w3" using conn_inv_frame [OF inv c w3(5) reg3 w3(1)] y(1) by simp
    then show ?thesis
      using False run w3 y con n out3 by (intro that [of y w3]) (simp_all add: y_def asks_input_def)
  next
    case True
    have ev3: "evs w3 (conn_event x) = Some ev" using ev(1) by (simp add: w3(2))
    obtain e' where e': "set_mask os EPOLLOUT (conn_event x) False w3 =
        Inr (w3\<lparr>evs := (evs w3)(conn_event x \<mapsto> set_flag EPOLLOUT False ev), env := e'\<rparr>)"
      "registered interest (w3\<lparr>evs := (evs w3)(conn_event x \<mapsto> set_flag EPOLLOUT False ev), env := e'\<rparr>)"
      "0 \<le> ev_fd ev \<Longrightarrow> logs e' = logs (env w3)"
      "e' = logged ''in updateEvent, epoll_ctl error. {}''
         (sys_epoll_ctl os (epoller ev) CtlMod (ev_fd ev) (events (set_flag EPOLLOUT False ev), conn_event x)) (env w3)"
      using set_mask_registered [OF os_contractD(2) [OF os] reg3 ev3] by metis
    define w4 where "w4 = w3\<lparr>evs := (evs w3)(conn_event x \<mapsto> set_flag EPOLLOUT False ev), env := e'\<rparr>"
    have w4_env: "env w4 = e'" by (simp add: w4_def)
    have fr: "frame c (conn_event x) w w4"
      by (rule frame_trans [OF w3(5)]) (simp add: w4_def frame_def)
    have c4: "conns w4 c = Some y" by (simp add: w4_def w3)
    have "conn_ok w4 c y"
      using ev ret(2) True frameD(3,4) [OF fr] by (auto simp: conn_ok_def y w4_def)
    then have inv4: "conn_inv interest w4"
      using conn_inv_frame [OF inv c fr _ c4] y(1) e'(2) by (simp add: w4_def)
    have "kern (env w4) = snd (sys_epoll_ctl os (epoller ev) CtlMod (ev_fd ev)
        (events (set_flag EPOLLOUT False ev), conn_event x) k)"
      using logged_cases [of "sys_epoll_ctl os (epoller ev) CtlMod (ev_fd ev) (events (set_flag EPOLLOUT False ev), conn_event x)"
        "env w3" "''in updateEvent, epoll_ctl error. {}''"] w3(3) by (metis (no_types, lifting) e'(4) snd_conv w4_env)
    then have "kern (env w4) = k \<or> (\<exists>ep f m. kern (env w4) = snd (sys_epoll_ctl os ep CtlMod f m k))" by blast
    moreover have "outq (sockfd x) (kern (env w4)) = outq (sockfd x) (kern (env w3))"
      using logged_streams(1) [OF os_contractD(3) [OF os]] by (simp add: w4_def e'(4))
    moreover have "send_nonblock os close c w = (if isWillClose x then close c w4 else Inr w4)"
      using run True e'(1) by (simp add: setWritable_def w4_def)
    moreover have "asks_input w4 (conn_event x) = asks_input w (conn_event x)"
      using ev(1) by (simp add: asks_input_def w4_def)
    moreover have "closed_conns w4 = closed_conns w" by (simp add: w4_def w3)
    ultimately show ?thesis
      using True inv4 fr c4 con n out3 e'(3) w3(6) ev(2) by (intro that [of y w4]) (simp_all add: y_def w4_def)
  qed
qed

lemma registered_close:
  assumes os: "frame_contract os inq outq interest" and reg: "registered interest w"
    and unused: "\<And>q ev. evs w q = Some ev \<Longrightarrow> 0 \<le> f \<Longrightarrow> ev_fd ev \<noteq> f"
    and w': "evs w' = evs w" "next_ev w' = next_ev w" "kern (env w') = sys_close os f (kern (env w))"
  shows "registered interest w'"
proof (rule registeredI, goal_cases)
  case (1 p ev)
  then show ?case using registeredD(1) [OF reg] w' by simp
next
  case (2 p ev)
  then have ev: "evs w p = Some ev" using w' by simp
  then have "ev_fd ev \<noteq> f" using unused [OF ev] 2(2) by blast
  then show ?case using registeredD(2) [OF reg ev 2(2)] by (simp add: w' frame_contractD(8) [OF os])
next
  case (3 ep g m p)
  then have old: "interest ep (kern (env w)) g = Some (m, p)"
    by (simp add: w' frame_contractD(8) [OF os] split: if_splits)
  show ?case unfolding w'(1) using registeredD(3,6) [OF reg old] by blast
next
  case (4 p q ev ev')
  then show ?case using registeredD(4) [OF reg] unfolding w'(1) by blast
qed

text \<open>\<open>destroy\<close> leaves a connection without an event on a descriptor that no event uses any more.\<close>

lemma destroy_spec:
  assumes os: "os_contract os inq outq interest" and inv: "conn_inv interest w"
    and c: "conns w c = Some x"
  obtains e' where
    "destroy os c w = Inr (w\<lparr>conns := (conns w)(c \<mapsto> x\<lparr>conn_state := CLOSED\<rparr>), evs := (evs w)(conn_event x := None), env := e'\<rparr>)"
    "registered interest (w\<lparr>conns := (conns w)(c \<mapsto> x\<lparr>conn_state := CLOSED\<rparr>), evs := (evs w)(conn_event x := None), env := e'\<rparr>)"
    "\<And>q ev1. q \<noteq> conn_event x \<Longrightarrow> evs w q = Some ev1 \<Longrightarrow> 0 \<le> sockfd x \<Longrightarrow> ev_fd ev1 \<noteq> sockfd x"
    "\<And>g. outq g (kern e') = outq g (kern (env w))" "0 \<le> sockfd x \<Longrightarrow> logs e' = logs (env w)"
    "kern e' = snd (sys_epoll_ctl os (loop_ep w (conn_loop x)) CtlDel (sockfd x)
        (events (the (evs w (conn_event x))), conn_event x) (kern (env w)))"
proof -
  obtain ev where ev: "evs w (conn_event x) = Some ev" "ev_fd ev = sockfd x"
    "epoller ev = loop_ep w (conn_loop x)" "c < next_conn w"
    using event_of [OF inv c] by metis
  define m where "m = (events ev, conn_event x)"
  define e' where "e' = logged ''epoll_ctl error'' (sys_epoll_ctl os (epoller ev) CtlDel (ev_fd ev) m) (env w)"
  define w1 where "w1 = w\<lparr>conns := (conns w)(c \<mapsto> x\<lparr>conn_state := CLOSED\<rparr>), evs := (evs w)(conn_event x := None), env := e'\<rparr>"
  note d = delete_event_registered [OF os_contractD(2) [OF os] conn_invD(1) [OF inv] ev(1) e'_def]
  have destroy: "destroy os c w = Inr w1"
    using c ev
    by (simp add: destroy_def upd_conn_def remove_event_def return_object_def w1_def e'_def m_def)
  have reg1: "registered interest w1"
    by (rule registered_cong [OF d(1)]) (simp_all add: w1_def)
  have unused: "ev_fd ev1 \<noteq> sockfd x" if "q \<noteq> conn_event x" "evs w q = Some ev1" "0 \<le> sockfd x" for q ev1
    using that registeredD(4) [OF conn_invD(1) [OF inv] ev(1) that(2)] ev(2) by auto
  have out: "outq g (kern e') = outq g (kern (env w))" for g
    using logged_streams(1) [OF os_contractD(3) [OF os]] by (simp add: e'_def)
  have ke: "kern e' = snd (sys_epoll_ctl os (epoller ev) CtlDel (ev_fd ev) m (kern (env w)))"
    using logged_cases [of "sys_epoll_ctl os (epoller ev) CtlDel (ev_fd ev) m" "env w" "''epoll_ctl error''"]
    by (metis e'_def snd_conv)
  show ?thesis
    using that [of e'] destroy reg1 unused out d(2) ke ev by (simp add: w1_def m_def)
qed

lemma dispose_spec:
  assumes os: "os_contract os inq outq interest" and inv: "conn_inv interest w"
    and c: "conns w c = Some x"
  obtains w' where "res_bind (destroy os c w) (delete_conn os c) = Inr w'" "conn_inv interest w'"
    "frame c (conn_event x) w w'" "conns w' c = None" "evs w' (conn_event x) = None"
    "\<And>g. outq g (kern (env w')) = outq g (kern (env w))"
    "0 \<le> sockfd x \<Longrightarrow> logs (env w') = logs (env w)"
    "kern (env w') = (let k = snd (sys_epoll_ctl os (loop_ep w (conn_loop x)) CtlDel (sockfd x)
        (events (the (evs w (conn_event x))), conn_event x) (kern (env w)))
      in if sockfd x \<noteq> 0 then sys_close os (sockfd x) k else k)"
    "closed_conns w' = closed_conns w"
proof -
  obtain e' where d: "destroy os c w = Inr (w\<lparr>conns := (conns w)(c \<mapsto> x\<lparr>conn_state := CLOSED\<rparr>), evs := (evs w)(conn_event x := None), env := e'\<rparr>)"
    "registered interest (w\<lparr>conns := (conns w)(c \<mapsto> x\<lparr>conn_state := CLOSED\<rparr>), evs := (evs w)(conn_event x := None), env := e'\<rparr>)"
    "\<And>q ev1. q \<noteq> conn_event x \<Longrightarrow> evs w q = Some ev1 \<Longrightarrow> 0 \<le> sockfd x \<Longrightarrow> ev_fd ev1 \<noteq> sockfd x"
    "\<And>g. outq g (kern e') = outq g (kern (env w))" "0 \<le> sockfd x \<Longrightarrow> logs e' = logs (env w)"
    "kern e' = snd (sys_epoll_ctl os (loop_ep w (conn_loop x)) CtlDel (sockfd x)
        (events (the (evs w (conn_event x))), conn_event x) (kern (env w)))"
    using destroy_spec [OF os inv c] by metis
  define w1 where "w1 = w\<lparr>conns := (conns w)(c \<mapsto> x\<lparr>conn_state := CLOSED\<rparr>), evs := (evs w)(conn_event x := None), env := e'\<rparr>"
  define w' where "w' = (let w2 = w1\<lparr>conns := (conns w1)(c := None)\<rparr> in
    if sockfd x \<noteq> 0 then w2\<lparr>env := (env w2)\<lparr>kern := sys_close os (sockfd x) (kern (env w2))\<rparr>\<rparr> else w2)"
  have del: "delete_conn os c w1 = Inr w'"
    by (simp add: delete_conn_def return_object_def w1_def w'_def Let_def)
  have reg1: "registered interest w1" using d(2) by (simp add: w1_def)
  have unused: "ev_fd ev1 \<noteq> sockfd x" if "evs w1 q = Some ev1" "0 \<le> sockfd x" for q ev1
    using that d(3) by (auto simp: w1_def split: if_splits)
  have reg': "registered interest w'"
  proof (cases "sockfd x = 0")
    case True
    then show ?thesis by (intro registered_cong [OF reg1]) (simp_all add: w'_def)
  next
    case False
    then show ?thesis
      by (intro registered_close [OF os_contractD(3) [OF os] reg1 unused]) (simp_all add: w'_def)
  qed
  have fr: "frame c (conn_event x) w w'"
    by (simp add: frame_def w'_def w1_def Let_def)
  have gone: "conns w' c = None" "evs w' (conn_event x) = None"
    by (simp_all add: w'_def w1_def Let_def)
  have out: "outq g (kern (env w')) = outq g (kern (env w))" for g
    using d(4) frame_contractD(9) [OF os_contractD(3) [OF os]] by (simp add: w'_def w1_def Let_def)
  have rest: "0 \<le> sockfd x \<Longrightarrow> logs (env w') = logs (env w)" "kern (env w') = (let k = snd (sys_epoll_ctl os (loop_ep w (conn_loop x)) CtlDel (sockfd x)
        (events (the (evs w (conn_event x))), conn_event x) (kern (env w)))
      in if sockfd x \<noteq> 0 then sys_close os (sockfd x) k else k)"
    using d(5,6) by (simp_all add: w'_def w1_def Let_def)
  have closed: "closed_conns w' = closed_conns w" by (simp add: w'_def w1_def Let_def)
  show ?thesis
    by (rule that [OF _ conn_inv_frame_gone [OF inv c fr reg' gone] fr gone out rest closed])
      (simp_all add: d(1) w1_def [symmetric] del)
qed

text \<open>The connection is set aside, its descriptor stays open.\<close>

lemma retire_spec:
  assumes os: "os_contract os inq outq interest" and inv: "conn_inv interest w"
    and c: "conns w c = Some x"
  obtains w' where "res_bind (destroy os c w) (retire_conn c) = Inr w'" "conn_inv interest w'"
    "frame c (conn_event x) w w'" "conns w' c = None" "evs w' (conn_event x) = None"
    "closed_conns w' = (closed_conns w)(c \<mapsto> x\<lparr>conn_state := CLOSED\<rparr>)"
    "kern (env w') = snd (sys_epoll_ctl os (loop_ep w (conn_loop x)) CtlDel (sockfd x)
        (events (the (evs w (conn_event x))), conn_event x) (kern (env w)))"
proof -
  obtain e' where d: "destroy os c w = Inr (w\<lparr>conns := (conns w)(c \<mapsto> x\<lparr>conn_state := CLOSED\<rparr>), evs := (evs w)(conn_event x := None), env := e'\<rparr>)"
    "registered interest (w\<lparr>conns := (conns w)(c \<mapsto> x\<lparr>conn_state := CLOSED\<rparr>), evs := (evs w)(conn_event x := None), env := e'\<rparr>)"
    "kern e' = snd (sys_epoll_ctl os (loop_ep w (conn_loop x)) CtlDel (sockfd x)
        (events (the (evs w (conn_event x))), conn_event x) (kern (env w)))"
    using destroy_spec [OF os inv c] by metis
  define w' where "w' = w\<lparr>conns := (conns w)(c := None), evs := (evs w)(conn_event x := None), env := e',
    closed_conns := (closed_conns w)(c \<mapsto> x\<lparr>conn_state := CLOSED\<rparr>)\<rparr>"
  have reg: "registered interest w'" by (rule registered_cong [OF d(2)]) (simp_all add: w'_def)
  have fr: "frame c (conn_event x) w w'" and gone: "conns w' c = None" "evs w' (conn_event x) = None"
    by (simp_all add: frame_def w'_def)
  show ?thesis
    by (rule that [OF _ conn_inv_frame_gone [OF inv c fr reg gone] fr gone])
      (simp_all add: d(1,3) retire_conn_def w'_def)
qed

subsection \<open>Closing\<close>

text \<open>
  What is asked of a user callback: on a live connection it follows no dangling pointer, keeps the
  invariant and touches its connection only.
\<close>

definition callback_ok ::
  "(fd \<Rightarrow> 'k \<Rightarrow> (fd \<rightharpoonup> epoll_event)) \<Rightarrow>
     (conn_id \<Rightarrow> ('k, 'z) conn_world_scheme \<Rightarrow> ('k, 'z) conn_world_scheme res) \<Rightarrow> bool" where
  "callback_ok interest cb \<longleftrightarrow>
     (\<forall>w c x. conn_inv interest w \<longrightarrow> conns w c = Some x \<longrightarrow> conn_state x \<noteq> BLANK \<longrightarrow>
        cb c w \<noteq> Inl Use_after_free) \<and>
     (\<forall>w c x w'. conn_inv interest w \<longrightarrow> conns w c = Some x \<longrightarrow> conn_state x \<noteq> BLANK \<longrightarrow> cb c w = Inr w' \<longrightarrow>
        conn_inv interest w' \<and> frame c (conn_event x) w w' \<and>
        (case conns w' c of
           None \<Rightarrow> evs w' (conn_event x) = None
         | Some x' \<Rightarrow> conn_event x' = conn_event x \<and> sockfd x' = sockfd x \<and> conn_loop x' = conn_loop x \<and>
             conn_state x' \<noteq> BLANK))"

text \<open>A close callback moreover leaves the connection to its caller to delete.\<close>

definition close_callback_ok ::
  "(fd \<Rightarrow> 'k \<Rightarrow> (fd \<rightharpoonup> epoll_event)) \<Rightarrow>
     (conn_id \<Rightarrow> ('k, 'z) conn_world_scheme \<Rightarrow> ('k, 'z) conn_world_scheme res) \<Rightarrow> bool" where
  "close_callback_ok interest cb \<longleftrightarrow>
     callback_ok interest cb \<and> (\<forall>w c w'. cb c w = Inr w' \<longrightarrow> conns w' c \<noteq> None)"

lemma callback_ok_live:
  "callback_ok interest cb \<Longrightarrow> conn_inv interest w \<Longrightarrow> conns w c = Some x \<Longrightarrow> conn_state x \<noteq> BLANK \<Longrightarrow>
     cb c w \<noteq> Inl Use_after_free"
  unfolding callback_ok_def by blast

lemma callback_okD:
  assumes "callback_ok interest cb" and "conn_inv interest w" and "conns w c = Some x"
    and "conn_state x \<noteq> BLANK" and "cb c w = Inr w'"
  shows "conn_inv interest w'" "frame c (conn_event x) w w'"
    "conns w' c = None \<Longrightarrow> evs w' (conn_event x) = None"
    "conns w' c = Some x' \<Longrightarrow> conn_event x' = conn_event x \<and> sockfd x' = sockfd x \<and>
       conn_loop x' = conn_loop x \<and> conn_state x' \<noteq> BLANK"
proof -
  have *: "conn_inv interest w' \<and> frame c (conn_event x) w w' \<and>
        (case conns w' c of None \<Rightarrow> evs w' (conn_event x) = None
         | Some x' \<Rightarrow> conn_event x' = conn_event x \<and> sockfd x' = sockfd x \<and> conn_loop x' = conn_loop x \<and>
             conn_state x' \<noteq> BLANK)"
    using assms unfolding callback_ok_def by blast
  then show "conn_inv interest w'" "frame c (conn_event x) w w'"
    "conns w' c = None \<Longrightarrow> evs w' (conn_event x) = None"
    "conns w' c = Some x' \<Longrightarrow> conn_event x' = conn_event x \<and> sockfd x' = sockfd x \<and>
       conn_loop x' = conn_loop x \<and> conn_state x' \<noteq> BLANK"
    by auto
qed

lemma close_pending:
  assumes os: "os_contract os inq outq interest" and inv: "conn_inv interest w"
    and c: "conns w c = Some x" and st: "conn_state x \<noteq> BLANK"
    and ne: "contents (writeBuffer x) \<noteq> []"
  obtains w' ev' where "close_common os dispose cb c w = Inr w'" "conn_inv interest w'"
    "frame c (conn_event x) w w'" "conns w' c = Some (x\<lparr>isWillClose := True\<rparr>)"
    "evs w' (conn_event x) = Some ev'" "isWritable ev'" "\<not> isReadable ev'"
    "writeCallback ev' = Some (Cb_send_nonblock c)"
    "\<And>g. outq g (kern (env w')) = outq g (kern (env w))" "0 \<le> sockfd x \<Longrightarrow> logs (env w') = logs (env w)"
proof -
  from event_of [OF inv c] obtain ev where ev: "evs w (conn_event x) = Some ev" "ev_fd ev = sockfd x"
    "epoller ev = loop_ep w (conn_loop x)" "buf_inv (readBuffer x)" "buf_inv (writeBuffer x)"
    "c < next_conn w" "isWritable ev" "writeCallback ev = Some (Cb_send_nonblock c)" "cb_own c ev"
    using st ne by metis
  have rb: "0 < readableBytes (writeBuffer x)"
    using ne length_contents [OF ev(5)] by (metis length_greater_0_conv)
  define fl where "fl = EPOLLIN OR EPOLLPRI"
  obtain e' where e': "set_mask os fl (conn_event x) False w =
        Inr (w\<lparr>evs := (evs w)(conn_event x \<mapsto> set_flag fl False ev), env := e'\<rparr>)"
      "registered interest (w\<lparr>evs := (evs w)(conn_event x \<mapsto> set_flag fl False ev), env := e'\<rparr>)"
      "0 \<le> ev_fd ev \<Longrightarrow> logs e' = logs (env w)"
      "e' = logged ''in updateEvent, epoll_ctl error. {}''
         (sys_epoll_ctl os (epoller ev) CtlMod (ev_fd ev) (events (set_flag fl False ev), conn_event x)) (env w)"
    using set_mask_registered [OF os_contractD(2) [OF os] conn_invD(1) [OF inv] ev(1)] by metis
  define w1 where "w1 = w\<lparr>evs := (evs w)(conn_event x \<mapsto> set_flag fl False ev), env := e'\<rparr>"
  have w1: "conns w1 c = Some x" "evs w1 (conn_event x) = Some (set_flag fl False ev)"
    "frame c (conn_event x) w w1" "0 \<le> sockfd x \<Longrightarrow> logs (env w1) = logs (env w)"
    using c e'(3) ev(2) by (simp_all add: w1_def frame_def)
  have out1: "outq g (kern (env w1)) = outq g (kern (env w))" for g
    using logged_streams(1) [OF os_contractD(3) [OF os]] by (simp add: w1_def e'(4))
  have fl: "isWritable (set_flag fl False ev) = isWritable ev" "\<not> isReadable (set_flag fl False ev)"
    by (simp_all add: fl_def)
  have reg1: "registered interest w1" using e'(2) by (simp add: w1_def)
  have "close_common os dispose cb c w = send_flag os c True w1"
    using c rb e'(1) by (simp add: close_common_def setReadable_def fl_def [symmetric] w1_def)
  moreover have "isWritable (set_flag fl False ev) \<Longrightarrow>
      writeCallback (set_flag fl False ev) = Some (Cb_send_nonblock c)"
    using ev(8) by simp
  ultimately show ?thesis
  proof (rule_tac send_flag_spec [OF os reg1 w1(1,2) rb, where l = True])
    fix w' ev'
    assume f: "send_flag os c True w1 = Inr w'" "frame c (conn_event x) w1 w'"
        "conns w' c = Some (x\<lparr>isWillClose := True\<rparr>)" "evs w' (conn_event x) = Some ev'"
        "isWritable ev'" "writeCallback ev' = Some (Cb_send_nonblock c)"
        "ev_fd ev' = ev_fd (set_flag fl False ev)" "epoller ev' = epoller (set_flag fl False ev)"
        "isReadable ev' = isReadable (set_flag fl False ev)"
        "cb_own c (set_flag fl False ev) \<Longrightarrow> cb_own c ev'" "registered interest w'" "\<And>g. outq g (kern (env w')) = outq g (kern (env w1))"
        "0 \<le> ev_fd (set_flag fl False ev) \<Longrightarrow> logs (env w') = logs (env w1)"
      and eq: "close_common os dispose cb c w = send_flag os c True w1"
    have fr: "frame c (conn_event x) w w'" using frame_trans [OF w1(3) f(2)] .
    have "conn_ok w' c (x\<lparr>isWillClose := True\<rparr>)"
      using ev f(4-8,10) ne frameD(3,4) [OF fr] by (simp add: conn_ok_def)
    then have "conn_inv interest w'" using conn_inv_frame [OF inv c fr f(11,3)] by simp
    then show ?thesis
      using eq f fr fl(2) out1 w1(4) ev(2) by (intro that [of w' ev']) simp_all
  qed auto
qed

text \<open>Disposing of a destroyed connection, in any of the ways the builds have.\<close>

definition disposes ::
  "'k os \<Rightarrow> (fd \<Rightarrow> 'k \<Rightarrow> (fd \<rightharpoonup> epoll_event)) \<Rightarrow>
     (conn_id \<Rightarrow> ('k, 'z) conn_world_scheme \<Rightarrow> ('k, 'z) conn_world_scheme res) \<Rightarrow> bool" where
  "disposes os interest dispose \<longleftrightarrow>
     (\<forall>w c x. conn_inv interest w \<longrightarrow> conns w c = Some x \<longrightarrow>
        (\<exists>w'. res_bind (destroy os c w) (dispose c) = Inr w' \<and> conn_inv interest w' \<and>
           frame c (conn_event x) w w' \<and> conns w' c = None \<and> evs w' (conn_event x) = None))"

lemma disposesD:
  assumes "disposes os interest dispose" and "conn_inv interest w" and "conns w c = Some x"
  obtains w' where "res_bind (destroy os c w) (dispose c) = Inr w'" "conn_inv interest w'"
    "frame c (conn_event x) w w'" "conns w' c = None" "evs w' (conn_event x) = None"
  using assms unfolding disposes_def by metis

lemma delete_disposes:
  "os_contract os inq outq interest \<Longrightarrow> disposes os interest (delete_conn os)"
  unfolding disposes_def using dispose_spec by metis

lemma retire_disposes:
  "os_contract os inq outq interest \<Longrightarrow> disposes os interest retire_conn"
  unfolding disposes_def using retire_spec by metis

lemma close_drained:
  assumes dis: "disposes os interest dispose" and inv: "conn_inv interest w"
    and c: "conns w c = Some x" and st: "conn_state x \<noteq> BLANK" and empty: "contents (writeBuffer x) = []"
    and cb: "\<And>f. cb = Some f \<Longrightarrow> close_callback_ok interest f"
    and run: "close_common os dispose cb c w = Inr w'"
  shows "conn_inv interest w'" "frame c (conn_event x) w w'" "conns w' c = None"
    "evs w' (conn_event x) = None"
proof -
  have bi: "buf_inv (writeBuffer x)" using event_of [OF inv c] by metis
  have rb: "readableBytes (writeBuffer x) = 0"
    using empty length_contents [OF bi] by simp
  obtain w1 x1 where w1: "(case cb of None \<Rightarrow> Inr w | Some f \<Rightarrow> f c w) = Inr w1"
    "res_bind (destroy os c w1) (dispose c) = Inr w'"
    "conn_inv interest w1" "frame c (conn_event x) w w1" "conns w1 c = Some x1" "conn_event x1 = conn_event x"
  proof (cases cb)
    case None
    then show ?thesis
      using run c rb inv by (intro that [of w x]) (simp_all add: close_common_def)
  next
    case (Some f)
    with run c rb obtain w1 where w1: "f c w = Inr w1" "res_bind (destroy os c w1) (dispose c) = Inr w'"
      by (auto simp: close_common_def)
    have f: "callback_ok interest f" "conns w1 c \<noteq> None"
      using cb [OF Some] w1(1) by (auto simp: close_callback_ok_def)
    then obtain x1 where "conns w1 c = Some x1" by auto
    then show ?thesis
      using that [of w1 x1] w1 callback_okD [OF f(1) inv c st w1(1)] Some by auto
  qed
  obtain w2 where w2: "res_bind (destroy os c w1) (dispose c) = Inr w2" "conn_inv interest w2"
    "frame c (conn_event x1) w1 w2" "conns w2 c = None" "evs w2 (conn_event x1) = None"
    using disposesD [OF dis w1(3,5)] by metis
  then have "w2 = w'" using w1(2) by simp
  then show "conn_inv interest w'" "frame c (conn_event x) w w'" "conns w' c = None"
    "evs w' (conn_event x) = None"
    using w2 frame_trans [OF w1(4)] w1(6) by auto
qed

lemma close_common_live:
  assumes os: "os_contract os inq outq interest" and dis: "disposes os interest dispose" and inv: "conn_inv interest w"
    and c: "conns w c = Some x" and st: "conn_state x \<noteq> BLANK"
    and cb: "\<And>f. cb = Some f \<Longrightarrow> close_callback_ok interest f"
  shows "close_common os dispose cb c w \<noteq> Inl Use_after_free"
proof (cases "contents (writeBuffer x) = []")
  case False
  obtain w' where "close_common os dispose cb c w = Inr w'"
    using close_pending [OF os inv c st False, of dispose cb] by metis
  then show ?thesis by simp
next
  case True
  have bi: "buf_inv (writeBuffer x)" using event_of [OF inv c] by metis
  have rb: "readableBytes (writeBuffer x) = 0"
    using True length_contents [OF bi] by simp
  have eq: "close_common os dispose cb c w = res_bind (case cb of None \<Rightarrow> Inr w | Some f \<Rightarrow> f c w)
      (\<lambda>w1. res_bind (destroy os c w1) (dispose c))"
    using c rb by (simp add: close_common_def)
  show ?thesis
  proof (cases cb)
    case None
    obtain w' where "res_bind (destroy os c w) (dispose c) = Inr w'"
      using disposesD [OF dis inv c] by metis
    then show ?thesis using eq None by simp
  next
    case (Some f)
    have ok: "callback_ok interest f" "\<And>w'. f c w = Inr w' \<Longrightarrow> conns w' c \<noteq> None"
      using cb [OF Some] by (auto simp: close_callback_ok_def)
    show ?thesis
    proof (cases "f c w")
      case (Inl e)
      then show ?thesis
        using callback_ok_live [OF ok(1) inv c st] Some eq by simp
    next
      case (Inr w1)
      then obtain x1 where x1: "conns w1 c = Some x1" using ok(2) by blast
      obtain w' where "res_bind (destroy os c w1) (dispose c) = Inr w'"
        using disposesD [OF dis callback_okD(1) [OF ok(1) inv c st Inr] x1] by metis
      then show ?thesis using Some eq Inr by simp
    qed
  qed
qed

subsection \<open>The contract of \<open>TcpSource::closeConnection\<close>\<close>

text \<open>
  What a connection relies on when it calls the virtual function: with data to send the
  connection stays, marked to be closed; without, it is gone and its event with it.  \<open>env_ok\<close> is
  what the provider assumes of the operating system and the user's callbacks.  The lemmas say
  what follows for \<open>sendNonblock\<close>, for every provider.
\<close>

text \<open>Is writability asked for on an event?\<close>

definition asks_output :: "('k, 'z) conn_world_scheme \<Rightarrow> event_id \<Rightarrow> bool" where
  "asks_output w p \<longleftrightarrow> (case evs w p of None \<Rightarrow> False | Some ev \<Rightarrow> isWritable ev)"

text \<open>
  The event loop running \<open>sendNonblock\<close> of one connection, at most \<open>n\<close> times: as long as the connection lives and its
  event asks for writability.
\<close>

fun flush ::
  "'k os \<Rightarrow> (conn_id \<Rightarrow> ('k, 'z) conn_world_scheme \<Rightarrow> ('k, 'z) conn_world_scheme res) \<Rightarrow>
     conn_id \<Rightarrow> nat \<Rightarrow> ('k, 'z) conn_world_scheme \<Rightarrow> ('k, 'z) conn_world_scheme res" where
  "flush os close c 0 w = Inr w"
| "flush os close c (Suc n) w =
     (case conns w c of
        None \<Rightarrow> Inr w
      | Some x \<Rightarrow>
          if asks_output w (conn_event x) then res_bind (send_nonblock os close c w) (flush os close c n) else Inr w)"

text \<open>What the kernel answers to the writes of these runs: counts, and errors such as \<open>EAGAIN\<close> or \<open>EPIPE\<close>.\<close>

fun write_answers ::
  "'k os \<Rightarrow> (conn_id \<Rightarrow> ('k, 'z) conn_world_scheme \<Rightarrow> ('k, 'z) conn_world_scheme res) \<Rightarrow>
     conn_id \<Rightarrow> nat \<Rightarrow> ('k, 'z) conn_world_scheme \<Rightarrow> wr_answer list" where
  "write_answers os close c 0 w = []"
| "write_answers os close c (Suc n) w =
     (case conns w c of
        None \<Rightarrow> []
      | Some x \<Rightarrow>
          if asks_output w (conn_event x)
          then fst (sys_write os (sockfd x) (contents (writeBuffer x)) (kern (env w))) #
            (case send_nonblock os close c w of Inl _ \<Rightarrow> [] | Inr w' \<Rightarrow> write_answers os close c n w')
          else [])"

fun wr_taken :: "wr_answer \<Rightarrow> nat" where
  "wr_taken (WrBytes n) = n"
| "wr_taken (WrErr e) = 0"

definition taken :: "wr_answer list \<Rightarrow> nat" where
  "taken as = sum_list (map wr_taken as)"

definition refused :: "wr_answer list \<Rightarrow> bool" where
  "refused as \<longleftrightarrow> (\<exists>e. WrErr e \<in> set as)"

lemma taken_simps [simp]: "taken [] = 0" "taken (a # as) = wr_taken a + taken as"
  by (simp_all add: taken_def)

lemma refused_simps [simp]:
  "\<not> refused []" "refused (WrErr e # as)" "refused (WrBytes n # as) \<longleftrightarrow> refused as"
  by (auto simp: refused_def)

text \<open>
  What becomes of \<open>data\<close>, the bytes the connection \<open>x\<close> has still to send in \<open>w\<close>, after \<open>n\<close> runs.  A write that fails
  ends the program in the assertion of \<open>retrieve\<close>.  Otherwise the kernel has been given a prefix, exactly the bytes
  it has taken; the rest waits, and writability is asked for while there is a rest; a connection marked to be closed is
  closed when nothing is left, and not before, and is gone with its event when the close returns.
  When no write takes nothing, as many runs as there are bytes are enough.
\<close>

definition delivery ::
  "'k os \<Rightarrow> (fd \<Rightarrow> 'k \<Rightarrow> bytes) \<Rightarrow> (fd \<Rightarrow> 'k \<Rightarrow> (fd \<rightharpoonup> epoll_event)) \<Rightarrow>
     (conn_id \<Rightarrow> ('k, 'z) conn_world_scheme \<Rightarrow> ('k, 'z) conn_world_scheme res) \<Rightarrow> conn_id \<Rightarrow> tcp_conn \<Rightarrow>
     ('k, 'z) conn_world_scheme \<Rightarrow> nat \<Rightarrow> bool" where
  "delivery os outq interest close c x w n \<longleftrightarrow>
     (let data = contents (writeBuffer x); as = write_answers os close c n w; m = taken as in
      if refused as then flush os close c n w = Inl Assert_failed
      else m \<le> length data \<and> (length data \<le> n \<longrightarrow> WrBytes 0 \<notin> set as \<longrightarrow> m = length data) \<and>
        (\<exists>w' y. flush os close c n w = (if m = length data \<and> isWillClose x then close c w' else Inr w') \<and>
           conn_inv interest w' \<and> frame c (conn_event x) w w' \<and> conns w' c = Some y \<and>
           y = x\<lparr>writeBuffer := writeBuffer y\<rparr> \<and> contents (writeBuffer y) = drop m data \<and>
           outq (sockfd x) (kern (env w')) = outq (sockfd x) (kern (env w)) @ take m data \<and>
           asks_input w' (conn_event x) = asks_input w (conn_event x) \<and>
           (asks_output w' (conn_event x) \<longleftrightarrow> m < length data) \<and>
           (m = length data \<longrightarrow> isWillClose x \<longrightarrow> (\<forall>w3. close c w' = Inr w3 \<longrightarrow>
              conns w3 c = None \<and> evs w3 (conn_event x) = None \<and> conn_inv interest w3))))"

lemma deliveryE:
  assumes "delivery os outq interest close c x w n"
  obtains (refused) "refused (write_answers os close c n w)" "flush os close c n w = Inl Assert_failed"
  | (sent) m w' y where "\<not> refused (write_answers os close c n w)" "m = taken (write_answers os close c n w)"
      "m \<le> length (contents (writeBuffer x))"
      "length (contents (writeBuffer x)) \<le> n \<Longrightarrow> WrBytes 0 \<notin> set (write_answers os close c n w) \<Longrightarrow>
         m = length (contents (writeBuffer x))"
      "flush os close c n w = (if m = length (contents (writeBuffer x)) \<and> isWillClose x then close c w' else Inr w')"
      "conn_inv interest w'" "frame c (conn_event x) w w'" "conns w' c = Some y"
      "y = x\<lparr>writeBuffer := writeBuffer y\<rparr>" "contents (writeBuffer y) = drop m (contents (writeBuffer x))"
      "outq (sockfd x) (kern (env w')) = outq (sockfd x) (kern (env w)) @ take m (contents (writeBuffer x))"
      "asks_input w' (conn_event x) = asks_input w (conn_event x)"
      "asks_output w' (conn_event x) \<longleftrightarrow> m < length (contents (writeBuffer x))"
      "\<And>w3. m = length (contents (writeBuffer x)) \<Longrightarrow> isWillClose x \<Longrightarrow> close c w' = Inr w3 \<Longrightarrow>
         conns w3 c = None \<and> evs w3 (conn_event x) = None \<and> conn_inv interest w3"
proof (cases "refused (write_answers os close c n w)")
  case True
  then show ?thesis using refused assms by (simp add: delivery_def Let_def)
next
  case False
  then show ?thesis using assms by (auto simp: delivery_def Let_def intro!: sent)
qed

lemma asks_output_iff:
  assumes "conn_inv interest w" and "conns w c = Some x" and "conn_state x \<noteq> BLANK"
  shows "asks_output w (conn_event x) \<longleftrightarrow> contents (writeBuffer x) \<noteq> []"
  using event_of [OF assms(1,2)] assms(3) by (metis asks_output_def option.simps(5))

locale tcp_source =
  fixes os :: "'k os"
    and inq outq :: "fd \<Rightarrow> 'k \<Rightarrow> bytes"
    and interest :: "fd \<Rightarrow> 'k \<Rightarrow> (fd \<rightharpoonup> epoll_event)"
    and env_ok :: bool
    and close :: "conn_id \<Rightarrow> ('k, 'z) conn_world_scheme \<Rightarrow> ('k, 'z) conn_world_scheme res"
  assumes env_os: "env_ok \<Longrightarrow> os_contract os inq outq interest"
    and close_keeps: "env_ok \<Longrightarrow> conn_inv interest w \<Longrightarrow> conns w c = Some x \<Longrightarrow> conn_state x \<noteq> BLANK \<Longrightarrow>
      contents (writeBuffer x) \<noteq> [] \<Longrightarrow> close c w = Inr w' \<Longrightarrow>
      conn_inv interest w' \<and> frame c (conn_event x) w w' \<and> conns w' c = Some (x\<lparr>isWillClose := True\<rparr>) \<and>
      outq (sockfd x) (kern (env w')) = outq (sockfd x) (kern (env w))"
    and close_drops: "env_ok \<Longrightarrow> conn_inv interest w \<Longrightarrow> conns w c = Some x \<Longrightarrow> conn_state x \<noteq> BLANK \<Longrightarrow>
      contents (writeBuffer x) = [] \<Longrightarrow> close c w = Inr w' \<Longrightarrow>
      conn_inv interest w' \<and> frame c (conn_event x) w w' \<and> conns w' c = None \<and> evs w' (conn_event x) = None"
    and close_live: "env_ok \<Longrightarrow> conn_inv interest w \<Longrightarrow> conns w c = Some x \<Longrightarrow> conn_state x \<noteq> BLANK \<Longrightarrow>
      close c w \<noteq> Inl Use_after_free"
begin

lemma send_nonblock_live:
  assumes ok: env_ok and inv: "conn_inv interest w" and c: "conns w c = Some x"
    and st: "conn_state x \<noteq> BLANK"
  shows "send_nonblock os close c w \<noteq> Inl Use_after_free"
proof -
  have bi: "buf_inv (writeBuffer x)" using event_of [OF inv c] by metis
  obtain a k where wr: "sys_write os (sockfd x) (contents (writeBuffer x)) (kern (env w)) = (a, k)"
    by fastforce
  show ?thesis
  proof (cases a)
    case (WrErr e)
    with send_nonblock_error [of w c x os e k close] c bi wr show ?thesis by simp
  next
    case (WrBytes n)
    obtain w1 x1 where f:
      "send_nonblock os close c w = (if contents (writeBuffer x1) = [] \<and> isWillClose x then close c w1 else Inr w1)"
      "conn_inv interest w1" "conns w1 c = Some x1" "x1 = x\<lparr>writeBuffer := writeBuffer x1\<rparr>"
      using send_nonblock_flush [OF env_os [OF ok] inv c st wr [unfolded WrBytes], of close] by metis
    have "conn_state x1 = conn_state x" by (subst f(4)) simp
    then show ?thesis using f(1) close_live [OF ok f(2,3)] st by simp
  qed
qed

text \<open>A run of \<open>sendNonblock\<close> that returns keeps the invariant and the other connections.\<close>

lemma send_nonblock_keeps:
  assumes ok: env_ok and inv: "conn_inv interest w" and c: "conns w c = Some x"
    and st: "conn_state x \<noteq> BLANK" and run: "send_nonblock os close c w = Inr w'"
  shows "conn_inv interest w' \<and> frame c (conn_event x) w w' \<and>
    (conns w' c = None \<longrightarrow> isWillClose x \<and> evs w' (conn_event x) = None) \<and>
    (\<forall>y. conns w' c = Some y \<longrightarrow> conn_state y \<noteq> BLANK)"
proof -
  have bi: "buf_inv (writeBuffer x)" using event_of [OF inv c] by metis
  obtain a k where wr: "sys_write os (sockfd x) (contents (writeBuffer x)) (kern (env w)) = (a, k)"
    by fastforce
  show ?thesis
  proof (cases a)
    case (WrErr e)
    with send_nonblock_error [of w c x os e k close] c bi wr run show ?thesis by simp
  next
    case (WrBytes n)
    obtain w1 x1 where f:
      "send_nonblock os close c w = (if contents (writeBuffer x1) = [] \<and> isWillClose x then close c w1 else Inr w1)"
      "conn_inv interest w1" "frame c (conn_event x) w w1" "conns w1 c = Some x1"
      "x1 = x\<lparr>writeBuffer := writeBuffer x1\<rparr>"
      using send_nonblock_flush [OF env_os [OF ok] inv c st wr [unfolded WrBytes], of close] by metis
    have p: "conn_event x1 = conn_event x" by (subst f(5)) simp
    have st1: "conn_state x1 \<noteq> BLANK" using st by (subst f(5)) simp
    show ?thesis
    proof (cases "contents (writeBuffer x1) = [] \<and> isWillClose x")
      case True
      then have "close c w1 = Inr w'" using run f(1) by simp
      then show ?thesis
        using close_drops [OF ok f(2,4)] True p st1 frame_trans [OF f(3)] by auto
    next
      case False
      then have "w' = w1" using run f(1) by (metis sum.inject(2))
      then show ?thesis using f st1 by simp
    qed
  qed
qed

lemma drain:
  assumes ok: env_ok
  shows "conn_inv interest w \<Longrightarrow> conns w c = Some x \<Longrightarrow> conn_state x \<noteq> BLANK \<Longrightarrow>
    contents (writeBuffer x) \<noteq> [] \<or> \<not> isWillClose x \<Longrightarrow> delivery os outq interest close c x w n"
proof (induction n arbitrary: w x)
  case 0
  then show ?case using asks_output_iff [of interest w c x] by (auto simp: delivery_def Let_def)
next
  case (Suc n)
  note inv = Suc.prems(1) and c = Suc.prems(2) and st = Suc.prems(3)
  let ?data = "contents (writeBuffer x)"
  have asks: "asks_output w (conn_event x) \<longleftrightarrow> ?data \<noteq> []" using asks_output_iff [OF inv c st] .
  show ?case
  proof (cases "?data = []")
    case True
    then have "write_answers os close c (Suc n) w = []" "flush os close c (Suc n) w = Inr w"
      using c asks by simp_all
    then show ?thesis using inv c True Suc.prems(4) asks by (simp add: delivery_def Let_def)
  next
    case False
    obtain a k where wr: "sys_write os (sockfd x) ?data (kern (env w)) = (a, k)" by fastforce
    have step: "flush os close c (Suc n) w = res_bind (send_nonblock os close c w) (flush os close c n)"
      "write_answers os close c (Suc n) w =
         a # (case send_nonblock os close c w of Inl _ \<Rightarrow> [] | Inr w' \<Rightarrow> write_answers os close c n w')"
      using c asks False wr by simp_all
    show ?thesis
    proof (cases a)
      case (WrErr e)
      have "buf_inv (writeBuffer x)" using event_of [OF inv c] by metis
      then have "send_nonblock os close c w = Inl Assert_failed" using send_nonblock_error [OF c] wr WrErr by blast
      then show ?thesis using step WrErr by (simp add: delivery_def Let_def)
    next
      case (WrBytes j)
      obtain w1 x1 where f:
        "send_nonblock os close c w = (if contents (writeBuffer x1) = [] \<and> isWillClose x then close c w1 else Inr w1)"
        "conn_inv interest w1" "frame c (conn_event x) w w1" "conns w1 c = Some x1"
        "x1 = x\<lparr>writeBuffer := writeBuffer x1\<rparr>"
        "?data = take j ?data @ contents (writeBuffer x1)" "j \<le> length ?data"
        "outq (sockfd x) (kern (env w1)) = outq (sockfd x) (kern (env w)) @ take j ?data"
        "asks_input w1 (conn_event x) = asks_input w (conn_event x)"
        using send_nonblock_flush [OF env_os [OF ok] inv c st wr [unfolded WrBytes], of close] by metis
      have x1: "conn_event x1 = conn_event x" "sockfd x1 = sockfd x" "conn_state x1 = conn_state x"
        "isWillClose x1 = isWillClose x"
        by (subst f(5), simp)+
      have st1: "conn_state x1 \<noteq> BLANK" using st x1(3) by simp
      have rest: "contents (writeBuffer x1) = drop j ?data"
        using f(6) by (metis append_take_drop_id same_append_eq)
      show ?thesis
      proof (cases "contents (writeBuffer x1) = [] \<and> isWillClose x")
        case True
        have j: "j = length ?data" using True rest f(7) by simp
        have run: "send_nonblock os close c w = close c w1" using f(1) True by simp
        have gone: "conns w2 c = None" if "close c w1 = Inr w2" for w2
          using close_drops [OF ok f(2,4) st1 _ that] True by simp
        have over: "flush os close c n w2 = Inr w2" "write_answers os close c n w2 = []" if "conns w2 c = None" for w2
          using that by (cases n; simp)+
        have "flush os close c (Suc n) w = close c w1"
          using step(1) run gone over(1) by (cases "close c w1") simp_all
        moreover have "write_answers os close c (Suc n) w = [WrBytes j]"
          using step(2) run gone over(2) WrBytes by (cases "close c w1") simp_all
        moreover have "\<not> asks_output w1 (conn_event x)" using asks_output_iff [OF f(2,4) st1] True x1(1) by simp
        moreover have "conns w3 c = None \<and> evs w3 (conn_event x) = None \<and> conn_inv interest w3" if "close c w1 = Inr w3" for w3
          using close_drops [OF ok f(2,4) st1 _ that] True x1(1) by simp
        ultimately show ?thesis
          using True j f x1 by (auto simp: delivery_def Let_def)
      next
        case False
        have run: "send_nonblock os close c w = Inr w1" using f(1) False by simp
        let ?as = "write_answers os close c n w1" and ?m = "taken (write_answers os close c n w1)"
        have sn: "flush os close c (Suc n) w = flush os close c n w1" "write_answers os close c (Suc n) w = WrBytes j # ?as"
          using step run WrBytes by simp_all
        have IH: "delivery os outq interest close c x1 w1 n"
          by (rule Suc.IH [OF f(2,4) st1]) (use False x1(4) in auto)
        from IH show ?thesis
        proof (cases rule: deliveryE)
          case refused
          then show ?thesis using sn by (simp add: delivery_def Let_def)
        next
          case (sent m w' y)
          have len: "length (contents (writeBuffer x1)) = length ?data - j" using rest by simp
          have all: "(m = length (contents (writeBuffer x1))) = (j + m = length ?data)" using len f(7) sent(3) by linarith
          have "j + m \<le> length ?data" using sent(3) len f(7) by linarith
          moreover have "j + m = length ?data" if "length ?data \<le> Suc n" "WrBytes 0 \<notin> set (WrBytes j # ?as)"
          proof -
            have "0 < j" "WrBytes 0 \<notin> set ?as" using that(2) by auto
            moreover from this have "length (contents (writeBuffer x1)) \<le> n" using that(1) len by linarith
            ultimately show ?thesis using sent(4) all by simp
          qed
          moreover have "flush os close c (Suc n) w = (if j + m = length ?data \<and> isWillClose x then close c w' else Inr w')"
            using sn(1) sent(5) all x1(4) by simp
          moreover have "y = x\<lparr>writeBuffer := writeBuffer y\<rparr>" by (subst sent(9), subst f(5)) simp
          moreover have "contents (writeBuffer y) = drop (j + m) ?data" using sent(10) rest by (simp add: add.commute)
          moreover have "outq (sockfd x) (kern (env w')) = outq (sockfd x) (kern (env w)) @ take (j + m) ?data"
            using sent(11) f(8) x1(2) rest by (simp add: take_add)
          moreover have "taken (write_answers os close c (Suc n) w) = j + m" "\<not> refused (write_answers os close c (Suc n) w)"
            using sn(2) sent(1,2) by simp_all
          moreover have "asks_output w' (conn_event x) \<longleftrightarrow> j + m < length ?data" using sent(13) x1(1) len f(7) by auto
          moreover have "conns w3 c = None \<and> evs w3 (conn_event x) = None \<and> conn_inv interest w3"
            if "j + m = length ?data" "isWillClose x" "close c w' = Inr w3" for w3
            using sent(14) [OF _ _ that(3)] that(1,2) all x1(1,4) by simp
          ultimately show ?thesis
            using sent(6,8,12) frame_trans [OF f(3)] sent(7) x1(1) f(9) sn(2) unfolding delivery_def Let_def
            by (intro iffD2 [OF if_not_P]) auto
        qed
      qed
    qed
  qed
qed

end

end
