(* ===== verification/Pool.thy ===== *)
theory Pool imports Connection "HOL-Library.Multiset" begin

section \<open>EventLoopPool.h: which loop a connection goes to, and starting the helper threads\<close>

text \<open>
  A pool knows the main loop and a fixed vector of \<open>MAX_THREADS\<close> helper loops, of which the first
  \<open>realSize\<close> are run by a thread each.  \<open>getNextPool\<close> hands them out in turn.  Starting the threads
  is a small protocol over a mutex, a condition variable and the counter \<open>cnt\<close>; it is theory
  \<open>PoolStart\<close>.
\<close>

subsection \<open>State and the choice of a loop\<close>

record pool =
  single_loop :: loop_id
  loops :: "loop_id list"
  threads :: nat
  nextIndex :: nat
  realSize :: nat

text \<open>The constructor: one default-constructed loop per possible thread, no thread yet.\<close>

definition new_pool :: "loop_id \<Rightarrow> loop_id list \<Rightarrow> pool" where
  "new_pool single ls = \<lparr>single_loop = single, loops = ls, threads = 0, nextIndex = 0, realSize = 0\<rparr>"

definition getNextPool :: "pool \<Rightarrow> (loop_id \<times> pool) res" where
  "getNextPool p =
     (if threads p = 0 then Inr (single_loop p, p)
      else if realSize p = 0 then Inl Div_by_zero
      else
        let nextIdx = nextIndex p mod realSize p;
            p' = p\<lparr>nextIndex := sz_add (nextIndex p) 1\<rparr> in
        if nextIdx < length (loops p) then Inr (loops p ! nextIdx, p') else Inl Out_of_bounds)"

text \<open>\<open>setHelperThreadsNumAndStart\<close> up to the wait: \<open>MAX_THREADS\<close> is the size of the vector.\<close>

definition start_helpers :: "nat \<Rightarrow> pool \<Rightarrow> pool res" where
  "start_helpers nums p =
     (if nums \<le> length (loops p)
      then Inr (p\<lparr>realSize := nums, threads := threads p + nums\<rparr>)
      else Inl Assert_failed)"

text \<open>The loops chosen by \<open>k\<close> calls in a row.\<close>

fun choices :: "nat \<Rightarrow> pool \<Rightarrow> (loop_id list \<times> pool) res" where
  "choices 0 p = Inr ([], p)"
| "choices (Suc k) p =
     res_bind (getNextPool p) (\<lambda>(l, p1). res_bind (choices k p1) (\<lambda>(ls, p2). Inr (l # ls, p2)))"

definition pool_ok :: "pool \<Rightarrow> bool" where
  "pool_ok p \<longleftrightarrow> 0 < threads p \<and> 0 < realSize p \<and> realSize p \<le> length (loops p) \<and> nextIndex p < 2 ^ 64"

lemma getNextPool_ok:
  assumes "pool_ok p"
  shows "getNextPool p = Inr (loops p ! (nextIndex p mod realSize p), p\<lparr>nextIndex := sz_add (nextIndex p) 1\<rparr>)"
    and "pool_ok (p\<lparr>nextIndex := sz_add (nextIndex p) 1\<rparr>)"
proof -
  have "nextIndex p mod realSize p < realSize p" using assms by (simp add: pool_ok_def)
  then have "nextIndex p mod realSize p < length (loops p)" using assms by (simp add: pool_ok_def)
  then show "getNextPool p = Inr (loops p ! (nextIndex p mod realSize p), p\<lparr>nextIndex := sz_add (nextIndex p) 1\<rparr>)"
    using assms by (simp add: getNextPool_def pool_ok_def Let_def)
  show "pool_ok (p\<lparr>nextIndex := sz_add (nextIndex p) 1\<rparr>)"
    using assms by (simp add: pool_ok_def sz_add_def)
qed

lemma choices_eq:
  "pool_ok p \<Longrightarrow> nextIndex p + k < 2 ^ 64 \<Longrightarrow>
     choices k p = Inr (map (\<lambda>i. loops p ! (i mod realSize p)) [nextIndex p ..< nextIndex p + k],
                        p\<lparr>nextIndex := nextIndex p + k\<rparr>)"
proof (induction k arbitrary: p)
  case 0
  then show ?case by simp
next
  case (Suc k)
  have add: "sz_add (nextIndex p) 1 = Suc (nextIndex p)"
    using Suc.prems(2) by (simp add: sz_add_exact)
  note g = getNextPool_ok [OF Suc.prems(1), unfolded add]
  define p1 where "p1 = p\<lparr>nextIndex := Suc (nextIndex p)\<rparr>"
  have "choices k p1 = Inr (map (\<lambda>i. loops p1 ! (i mod realSize p1)) [nextIndex p1 ..< nextIndex p1 + k],
      p1\<lparr>nextIndex := nextIndex p1 + k\<rparr>)"
    using g(2) Suc.prems(2) by (intro Suc.IH) (simp_all add: p1_def)
  then show ?case
    using g(1) by (simp add: p1_def upt_rec [of "nextIndex p"])
qed

lemma mset_shift_mod:
  "0 < r \<Longrightarrow> mset (map (\<lambda>i. i mod r) [n ..< n + r]) = mset [0 ..< (r::nat)]"
proof (induction n)
  case 0
  have "map (\<lambda>i. i mod r) [0 ..< r] = [0 ..< r]" by (intro map_idI) simp
  then show ?case by simp
next
  case (Suc n)
  have "[n ..< n + r] = n # [Suc n ..< n + r]" using Suc.prems by (simp add: upt_rec)
  moreover have "[Suc n ..< Suc n + r] = [Suc n ..< n + r] @ [n + r]" using Suc.prems by simp
  ultimately have "mset (map (\<lambda>i. i mod r) [Suc n ..< Suc n + r]) = mset (map (\<lambda>i. i mod r) [n ..< n + r])"
    by simp
  then show ?case using Suc by simp
qed

lemma mset_round:
  assumes "0 < r" "r \<le> length ls"
  shows "mset (map (\<lambda>i. ls ! (i mod r)) [n ..< n + r]) = mset (take r ls)"
proof -
  have "mset (map (\<lambda>i. ls ! (i mod r)) [n ..< n + r]) = image_mset ((!) ls) (mset (map (\<lambda>i. i mod r) [n ..< n + r]))"
    by (simp add: image_mset.compositionality comp_def)
  also have "\<dots> = image_mset ((!) ls) (mset [0 ..< r])" by (simp only: mset_shift_mod [OF assms(1)])
  also have "\<dots> = mset (map ((!) ls) [0 ..< r])" by simp
  also have "map ((!) ls) [0 ..< r] = take r ls"
    using assms(2) by (intro nth_equalityI) simp_all
  finally show ?thesis .
qed

subsection \<open>Properties of the choice\<close>

text \<open>
  The choice is fair: once helper threads run, any \<open>realSize\<close> consecutive connections go to
  each of the running helper loops exactly once (as long as the counter does not wrap), and never
  to a loop no thread runs.
\<close>

theorem getNextPool_fair:
  assumes "pool_ok p" and "nextIndex p + realSize p < 2 ^ 64"
  shows "\<exists>ls p'. choices (realSize p) p = Inr (ls, p') \<and> mset ls = mset (take (realSize p) (loops p)) \<and>
    pool_ok p' \<and> nextIndex p' = nextIndex p + realSize p"
proof -
  have r: "0 < realSize p" "realSize p \<le> length (loops p)" using assms(1) by (simp_all add: pool_ok_def)
  show ?thesis
    using choices_eq [OF assms] mset_round [OF r, of "nextIndex p"] assms by (simp add: pool_ok_def)
qed

theorem getNextPool_fair_witness:
  "choices 3 \<lparr>single_loop = 9, loops = [10, 11, 12, 13], threads = 3, nextIndex = 4, realSize = 3\<rparr> =
     Inr ([11, 12, 10], \<lparr>single_loop = 9, loops = [10, 11, 12, 13], threads = 3, nextIndex = 7, realSize = 3\<rparr>) \<and>
   mset [11, 12, 10] = mset (take 3 [10, 11, 12, 13 :: nat])"
proof -
  let ?p = "\<lparr>single_loop = 9, loops = [10, 11, 12, 13], threads = 3, nextIndex = 4, realSize = 3\<rparr>"
  have ok: "pool_ok ?p" by (simp add: pool_ok_def)
  have "choices (Suc (Suc (Suc 0))) ?p = Inr ([11, 12, 10], ?p\<lparr>nextIndex := 7\<rparr>)"
    by (simp add: getNextPool_def sz_add_def Let_def)
  then have "choices 3 ?p = Inr ([11, 12, 10], ?p\<lparr>nextIndex := 7\<rparr>)"
    by (simp only: numeral_3_eq_3)
  then show ?thesis using getNextPool_fair [OF ok] by simp
qed

text \<open>
  A pool just constructed and started with \<open>n\<close> helper threads: none, and every connection goes
  to the main loop; up to \<open>MAX_THREADS\<close>, and the choice is never an error; more, and the assertion
  fails.
\<close>

theorem start_then_choose:
  assumes "length ls < 2 ^ 64"
  shows "case start_helpers n (new_pool l ls) of
      Inl e \<Rightarrow> e = Assert_failed \<and> length ls < n
    | Inr p \<Rightarrow> n \<le> length ls \<and>
        (if n = 0 then getNextPool p = Inr (l, p)
         else pool_ok p \<and> (\<exists>i p'. i < n \<and> getNextPool p = Inr (ls ! i, p') \<and> pool_ok p'))"
proof (cases "n = 0 \<or> length ls < n")
  case True
  then show ?thesis by (auto simp: start_helpers_def new_pool_def getNextPool_def)
next
  case False
  then have ok: "pool_ok (\<lparr>single_loop = l, loops = ls, threads = n, nextIndex = 0, realSize = n\<rparr>)"
    by (simp add: pool_ok_def)
  show ?thesis
    using False getNextPool_ok [OF ok] ok
    by (auto simp: start_helpers_def new_pool_def intro!: exI [of _ 0])
qed

theorem start_then_choose_witness:
  "getNextPool (projr (start_helpers 2 (new_pool 9 [10, 11, 12]))) =
     Inr (10, \<lparr>single_loop = 9, loops = [10, 11, 12], threads = 2, nextIndex = 1, realSize = 2\<rparr>) \<and>
   start_helpers 4 (new_pool 9 [10, 11, 12]) = Inl Assert_failed"
proof -
  have len: "length [10, 11, 12 :: nat] < 2 ^ 64" by simp
  have "getNextPool (projr (start_helpers 2 (new_pool 9 [10, 11, 12]))) =
     Inr (10, \<lparr>single_loop = 9, loops = [10, 11, 12], threads = 2, nextIndex = 1, realSize = 2\<rparr>)"
    by (simp add: start_helpers_def new_pool_def getNextPool_def sz_add_def)
  moreover have "start_helpers 4 (new_pool 9 [10, 11, 12]) = Inl Assert_failed"
    using start_then_choose [OF len, of 4 9]
    by (simp add: start_helpers_def new_pool_def)
  ultimately show ?thesis by simp
qed

end
