(* ===== verification/Decimal.thy ===== *)
theory Decimal imports Prelude begin

section \<open>Decimal numbers in text: \<open>to_string\<close>, \<open>stoull\<close>, \<open>atoi\<close>\<close>

text \<open>
  The parts of the C and C++ libraries with which the sources print and read numbers:
  \<open>std::to_string\<close>, \<open>std::stoull\<close> in base 10 (leading white space, an optional sign, digits;
  two exceptions) and \<open>atoi\<close>.
\<close>

definition is_space :: "char \<Rightarrow> bool" where
  "is_space c \<longleftrightarrow> c = CHR 0x20 \<or> (9 \<le> (of_char c :: nat) \<and> (of_char c :: nat) \<le> 13)"

definition is_digit :: "char \<Rightarrow> bool" where
  "is_digit c \<longleftrightarrow> 48 \<le> (of_char c :: nat) \<and> (of_char c :: nat) \<le> 57"

definition digit_val :: "char \<Rightarrow> nat" where
  "digit_val c = of_char c - 48"

definition dec_value :: "string \<Rightarrow> nat" where
  "dec_value ds = foldl (\<lambda>a c. a * 10 + digit_val c) 0 ds"

fun to_string :: "nat \<Rightarrow> string" where
  "to_string n = (if n < 10 then [char_of (48 + n)] else to_string (n div 10) @ [char_of (48 + n mod 10)])"

declare to_string.simps [simp del]

datatype stoull_error = Invalid_argument | Out_of_range

text \<open>The value and the number of characters used.\<close>

definition split_sign :: "string \<Rightarrow> bool \<times> nat \<times> string" where
  "split_sign s =
     (case s of
        c # rest \<Rightarrow>
          if c = CHR ''-'' then (True, 1, rest)
          else if c = CHR ''+'' then (False, 1, rest) else (False, 0, s)
      | [] \<Rightarrow> (False, 0, s))"

definition stoull :: "string \<Rightarrow> stoull_error + (nat \<times> nat)" where
  "stoull s =
     (let ws = takeWhile is_space s;
          (neg, sg, rest) = split_sign (dropWhile is_space s);
          ds = takeWhile is_digit rest;
          v = dec_value ds in
      if ds = [] then Inl Invalid_argument
      else if v \<ge> 2 ^ 64 then Inl Out_of_range
      else Inr (if neg then (2 ^ 64 - v) mod 2 ^ 64 else v, length ws + sg + length ds))"

text \<open>\<open>atoi\<close>: 0 without digits; in range the value (out of range is undefined in C).\<close>

definition atoi :: "string \<Rightarrow> int" where
  "atoi s =
     (let (neg, sg, rest) = split_sign (dropWhile is_space s);
          v = int (dec_value (takeWhile is_digit rest)) in
      if neg then - v else v)"

lemma digit_char: "d < 10 \<Longrightarrow> is_digit (char_of (48 + d))" "d < 10 \<Longrightarrow> digit_val (char_of (48 + d)) = d"
  by (simp_all add: is_digit_def digit_val_def)

lemma to_string_digits: "c \<in> set (to_string n) \<Longrightarrow> is_digit c"
proof (induction n rule: to_string.induct)
  case (1 n)
  show ?case
  proof (cases "n < 10")
    case True
    then show ?thesis using "1.prems" digit_char(1) by (auto simp: to_string.simps [of n])
  next
    case False
    then show ?thesis using 1 digit_char(1) [of "n mod 10"] by (auto simp: to_string.simps [of n])
  qed
qed

lemma to_string_nonempty [simp]: "to_string n \<noteq> []"
  by (subst to_string.simps) simp

lemma dec_value_append: "dec_value (s @ [c]) = dec_value s * 10 + digit_val c"
  by (simp add: dec_value_def)

lemma dec_value_to_string [simp]: "dec_value (to_string n) = n"
proof (induction n rule: to_string.induct)
  case (1 n)
  show ?case
  proof (cases "n < 10")
    case True
    then show ?thesis using digit_char(2) [of n] by (simp add: to_string.simps [of n] dec_value_def)
  next
    case False
    then show ?thesis
      using 1 digit_char(2) [of "n mod 10"] by (simp add: to_string.simps [of n] dec_value_append)
  qed
qed

lemma is_digit_not_space: "is_digit c \<Longrightarrow> \<not> is_space c"
  by (auto simp: is_digit_def is_space_def)

lemma is_digit_not_sign: "is_digit c \<Longrightarrow> c \<noteq> CHR ''-'' \<and> c \<noteq> CHR ''+''"
  by (auto simp: is_digit_def)

lemma split_sign_digits:
  "ds \<noteq> [] \<Longrightarrow> is_digit (hd ds) \<Longrightarrow> split_sign ds = (False, 0, ds)"
  by (cases ds) (simp_all add: split_sign_def is_digit_not_sign)

lemma all_digits:
  assumes "ds \<noteq> []" and "\<And>c. c \<in> set ds \<Longrightarrow> is_digit c"
  shows "takeWhile is_space ds = []" "dropWhile is_space ds = ds" "takeWhile is_digit ds = ds"
    "split_sign ds = (False, 0, ds)"
  using assms is_digit_not_space split_sign_digits [of ds] by (cases ds; auto)+

text \<open>A block of digits is read as its value and used up completely.\<close>

lemma stoull_digits:
  assumes "ds \<noteq> []" and "\<And>c. c \<in> set ds \<Longrightarrow> is_digit c" and "dec_value ds < 2 ^ 64"
  shows "stoull ds = Inr (dec_value ds, length ds)"
  unfolding stoull_def using assms(1,3) by (simp add: all_digits [OF assms(1,2)] Let_def)

lemma atoi_digits:
  assumes "ds \<noteq> []" and "\<And>c. c \<in> set ds \<Longrightarrow> is_digit c"
  shows "atoi ds = int (dec_value ds)"
  unfolding atoi_def by (simp add: all_digits [OF assms] Let_def)

end
