(* ===== verification/Codec.thy ===== *)
theory Codec imports Buffer Decimal begin

section \<open>Codec.h: is there a complete message in the read buffer?\<close>

text \<open>
  A codec looks at the read buffer of a connection before the message callback runs.  The four
  built-in models are the constructors of \<open>codec\<close> (with their parameter), the last one is a codec
  made from a user function.  \<open>check\<close> returns the verdict with the buffer, into which the HTTP
  model writes, and the lines logged.
\<close>

datatype codec =
    HTTP_MODEL nat
  | LENGTH_DATA_MODEL nat
  | FIXED_LENGTH_MODEL nat
  | UNLIMITED_MODEL
  | User_codec "buffer \<Rightarrow> bool"

definition CRLFCRLF :: bytes where
  "CRLFCRLF = [CHR 0x0D, CHR 0x0A, CHR 0x0D, CHR 0x0A]"

definition length_data_default_callback :: "buffer \<Rightarrow> nat \<Rightarrow> bool \<times> log_entry list" where
  "length_data_default_callback b length_size =
     (if readableBytes b < length_size then (False, [])
      else
        let (data_len, lg) =
          (case stoull (block_at (vec b) (peek b) length_size) of
             Inr (v, handle_size) \<Rightarrow>
               (v, if handle_size \<noteq> length_size then [Info ''stoull error.''] else [])
           | Inl _ \<Rightarrow> (0, [Info ''stoull exception caught.''])) in
        (\<not> sz_sub (readableBytes b) length_size < data_len, lg))"

definition fixed_length_default_callback :: "buffer \<Rightarrow> nat \<Rightarrow> bool" where
  "fixed_length_default_callback b requiredBytes \<longleftrightarrow> readableBytes b > requiredBytes"

definition http_request_default_callback :: "buffer \<Rightarrow> nat \<Rightarrow> bool \<times> buffer" where
  "http_request_default_callback b flags =
     (case findStr b CRLFCRLF of
        None \<Rightarrow> (False, b)
      | Some pc \<Rightarrow> (True, b\<lparr>vec := (vec b)[pc + 3 := CHR 0x00]\<rparr>))"

fun codec_check :: "codec \<Rightarrow> buffer \<Rightarrow> bool \<times> buffer \<times> log_entry list" where
  "codec_check (HTTP_MODEL d) b = (let (r, b') = http_request_default_callback b d in (r, b', []))"
| "codec_check (LENGTH_DATA_MODEL d) b = (let (r, lg) = length_data_default_callback b d in (r, b, lg))"
| "codec_check (FIXED_LENGTH_MODEL d) b = (fixed_length_default_callback b d, b, [])"
| "codec_check UNLIMITED_MODEL b = (True, b, [])"
| "codec_check (User_codec f) b = (f b, b, [])"

subsection \<open>What a verdict means\<close>

lemma block_at_peek:
  "buf_inv b \<Longrightarrow> n \<le> readableBytes b \<Longrightarrow> block_at (vec b) (peek b) n = take n (contents b)"
  using peek_bytes_take by (simp add: peek_bytes_def)

lemma contents_update:
  assumes inv: "buf_inv b" and i: "i < length (contents b)"
  shows "contents (b\<lparr>vec := (vec b)[readIndex b + i := z]\<rparr>) = (contents b)[i := z]"
    and "buf_inv (b\<lparr>vec := (vec b)[readIndex b + i := z]\<rparr>)"
proof -
  show "buf_inv (b\<lparr>vec := (vec b)[readIndex b + i := z]\<rparr>)"
    using inv by (simp add: buf_inv_def)
  show "contents (b\<lparr>vec := (vec b)[readIndex b + i := z]\<rparr>) = (contents b)[i := z]"
    using i by (simp add: contents_def drop_update_swap take_update_swap)
qed

lemma codec_check_keeps:
  assumes inv: "buf_inv b" and run: "codec_check cd b = (r, b', lg)"
  shows "buf_inv b'" and "length (contents b') = length (contents b)"
    and "readIndex b' = readIndex b" and "writeIndex b' = writeIndex b"
proof -
  have "buf_inv b' \<and> length (contents b') = length (contents b) \<and>
      readIndex b' = readIndex b \<and> writeIndex b' = writeIndex b"
  proof (cases cd)
    case (HTTP_MODEL d)
    show ?thesis
    proof (cases "findStr b CRLFCRLF")
      case None
      with run HTTP_MODEL inv show ?thesis by (simp add: http_request_default_callback_def)
    next
      case (Some pc)
      then obtain i where i: "pc = readIndex b + i" "i + length CRLFCRLF \<le> length (contents b)"
        using findStr_cases(2) [OF inv] by blast
      then have "b' = b\<lparr>vec := (vec b)[readIndex b + (i + 3) := CHR 0x00]\<rparr>"
        using run HTTP_MODEL Some by (auto simp: http_request_default_callback_def add.assoc)
      moreover have "i + 3 < length (contents b)" using i(2) by (simp add: CRLFCRLF_def)
      ultimately show ?thesis using contents_update [OF inv, of "i + 3" "CHR 0x00"] by simp
    qed
  next
    case (LENGTH_DATA_MODEL d)
    with run inv show ?thesis by (auto split: prod.splits)
  qed (use run inv in auto)
  then show "buf_inv b'" "length (contents b') = length (contents b)"
    "readIndex b' = readIndex b" "writeIndex b' = writeIndex b" by auto
qed

subsection \<open>Properties\<close>

text \<open>
  With a header of \<open>n\<close> digits in front, \<open>LENGTH_DATA_MODEL n\<close> says yes exactly when the buffer
  holds the header and as many bytes behind it as the header says; it changes nothing and logs
  nothing.
\<close>

theorem length_data_frame:
  assumes "buf_inv b" and "contents b = hdr @ rest" and "hdr \<noteq> []"
    and "\<And>c. c \<in> set hdr \<Longrightarrow> is_digit c" and "dec_value hdr < 2 ^ 64"
  shows "codec_check (LENGTH_DATA_MODEL (length hdr)) b = (dec_value hdr \<le> length rest, b, [])"
proof -
  have rb: "readableBytes b = length hdr + length rest"
    using length_contents [OF assms(1)] assms(2) by simp
  have "readableBytes b < 2 ^ 64" using buf_inv_bounds [OF assms(1)] by (simp add: readable_eq [OF assms(1)])
  then have "sz_sub (readableBytes b) (length hdr) = length rest" using rb by (simp add: sz_sub_exact)
  moreover have "block_at (vec b) (peek b) (length hdr) = hdr"
    using assms(2) rb by (simp add: block_at_peek [OF assms(1)])
  ultimately show ?thesis
    using rb by (auto simp: length_data_default_callback_def stoull_digits [OF assms(3-5)])
qed

theorem length_data_frame_witness:
  "codec_check (LENGTH_DATA_MODEL 2) \<lparr>vec = ''xx03abc'', readIndex = 2, writeIndex = 7\<rparr> =
     (True, \<lparr>vec = ''xx03abc'', readIndex = 2, writeIndex = 7\<rparr>, [])"
proof -
  let ?b = "\<lparr>vec = ''xx03abc'', readIndex = 2, writeIndex = 7\<rparr>"
  have inv: "buf_inv ?b" by (simp add: buf_inv_def vec_max_def)
  have con: "contents ?b = ''03'' @ ''abc''" by (simp add: contents_def)
  have dig: "is_digit c" if "c \<in> set ''03''" for c using that by (auto simp: is_digit_def)
  have val: "dec_value ''03'' = 3" by (simp add: dec_value_def digit_val_def)
  have "codec_check (LENGTH_DATA_MODEL (length ''03'')) ?b = (dec_value ''03'' \<le> length ''abc'', ?b, [])"
    by (rule length_data_frame [OF inv con _ dig]) (simp_all add: val)
  moreover have "length ''03'' = 2" "length ''abc'' = 3" by simp_all
  ultimately show ?thesis by (simp only: val order_refl)
qed

text \<open>
  A header that is no number (\<open>stoull\<close> throws) is taken for length zero: \<open>LENGTH_DATA_MODEL\<close>
  then reports a complete message as soon as the header's bytes are there, and logs a line.
\<close>

theorem length_data_malformed:
  assumes "buf_inv b" and "n \<le> length (contents b)" and "stoull (take n (contents b)) = Inl err"
  shows "codec_check (LENGTH_DATA_MODEL n) b = (True, b, [Info ''stoull exception caught.''])"
proof -
  have n: "n \<le> readableBytes b" using assms(2) by (simp add: length_contents [OF assms(1)])
  then have "block_at (vec b) (peek b) n = take n (contents b)" by (rule block_at_peek [OF assms(1)])
  then show ?thesis using n assms(3) by (simp add: length_data_default_callback_def)
qed

theorem length_data_malformed_witness:
  "codec_check (LENGTH_DATA_MODEL 2) \<lparr>vec = ''xxzz'', readIndex = 2, writeIndex = 4\<rparr> =
     (True, \<lparr>vec = ''xxzz'', readIndex = 2, writeIndex = 4\<rparr>, [Info ''stoull exception caught.''])"
proof -
  let ?b = "\<lparr>vec = ''xxzz'', readIndex = 2, writeIndex = 4\<rparr>"
  have inv: "buf_inv ?b" by (simp add: buf_inv_def vec_max_def)
  have con: "contents ?b = ''zz''" by (simp add: contents_def)
  have err: "stoull (take 2 (contents ?b)) = Inl Invalid_argument"
    by (simp add: con stoull_def split_sign_def is_space_def is_digit_def)
  show ?thesis using length_data_malformed [OF inv _ err] con by simp
qed

text \<open>
  \<open>HTTP_MODEL\<close> says yes exactly when the data holds an empty line; it then overwrites the last
  byte of the first one with a null character and leaves every other byte, so that the text up to
  there is a C string; otherwise it changes nothing.
\<close>

theorem http_check:
  assumes "buf_inv b"
  shows "case codec_check (HTTP_MODEL d) b of (ok, b', lg) \<Rightarrow> lg = [] \<and> buf_inv b' \<and>
      (if ok then \<exists>i. occurs_at (contents b) CRLFCRLF i \<and> (\<forall>j<i. \<not> occurs_at (contents b) CRLFCRLF j) \<and>
                   i + 3 < length (contents b) \<and> contents b' = (contents b)[i + 3 := CHR 0x00]
       else b' = b \<and> (\<forall>i. \<not> occurs_at (contents b) CRLFCRLF i))"
proof (cases "findStr b CRLFCRLF")
  case None
  then show ?thesis
    using findStr_cases(1) [OF assms] assms by (simp add: http_request_default_callback_def)
next
  case (Some p)
  obtain i where i: "p = readIndex b + i" "occurs_at (contents b) CRLFCRLF i"
    "i + length CRLFCRLF \<le> length (contents b)" "\<forall>j<i. \<not> occurs_at (contents b) CRLFCRLF j"
    using findStr_cases(2) [OF assms Some] by blast
  have "i + 3 < length (contents b)" using i(3) by (simp add: CRLFCRLF_def)
  then show ?thesis
    using i Some contents_update [OF assms, of "i + 3" "CHR 0x00"]
    by (auto simp: http_request_default_callback_def add.assoc)
qed

theorem http_check_witness:
  "case codec_check (HTTP_MODEL 0) \<lparr>vec = ''a'' @ CRLFCRLF @ ''b'', readIndex = 0, writeIndex = 6\<rparr> of
     (ok, b', lg) \<Rightarrow> ok \<and> contents b' = ''a'' @ [CHR 0x0D, CHR 0x0A, CHR 0x0D, CHR 0x00] @ ''b''"
proof -
  let ?b = "\<lparr>vec = ''a'' @ CRLFCRLF @ ''b'', readIndex = 0, writeIndex = 6\<rparr>"
  have inv: "buf_inv ?b" by (simp add: buf_inv_def vec_max_def CRLFCRLF_def)
  have "codec_check (HTTP_MODEL 0) ?b = (True, ?b\<lparr>vec := ''a'' @ [CHR 0x0D, CHR 0x0A, CHR 0x0D, CHR 0x00] @ ''b''\<rparr>, [])"
    by (simp add: http_request_default_callback_def findStr_def buffer_eval CRLFCRLF_def)
  then show ?thesis using http_check [OF inv, of 0] by (simp add: contents_def)
qed

text \<open>
  \<open>FIXED_LENGTH_MODEL n\<close> says yes when more than \<open>n\<close> bytes are readable; a message of exactly
  the fixed length, although complete, is not delivered until the first byte of the next one is
  there.
\<close>

theorem fixed_length_check:
  assumes "buf_inv b"
  shows "codec_check (FIXED_LENGTH_MODEL n) b = (n < length (contents b), b, [])"
  by (simp add: fixed_length_default_callback_def length_contents [OF assms])

theorem fixed_length_check_witness:
  "codec_check (FIXED_LENGTH_MODEL 4) \<lparr>vec = ''abcde'', readIndex = 0, writeIndex = 4\<rparr> =
     (False, \<lparr>vec = ''abcde'', readIndex = 0, writeIndex = 4\<rparr>, [])"
proof -
  let ?b = "\<lparr>vec = ''abcde'', readIndex = 0, writeIndex = 4\<rparr>"
  have inv: "buf_inv ?b" by (simp add: buf_inv_def vec_max_def)
  show ?thesis using fixed_length_check [OF inv, of 4] by (simp add: contents_def)
qed

end
