(* ===== verification/Register.thy ===== *)
theory Register imports Connection begin

section \<open>Registering connections and callbacks: lemmas shared by the sources of connections\<close>

text \<open>
  A server, a \<open>TcpClient\<close> and a \<open>FreeServerClient\<close> all make an event for a descriptor, a connection for
  the event, set callbacks and ask for input or for writability.  The lemmas describe each of these steps
  on a world that satisfies the invariant, with the world they leave written out.
\<close>

subsection \<open>A new event with a new connection\<close>

text \<open>The world after \<open>Event::make\<close> and \<open>TcpConnection::makeHeapObject\<close> for descriptor \<open>f\<close> on loop \<open>l\<close>.\<close>

definition with_conn :: "fd \<Rightarrow> loop_id \<Rightarrow> 'k env \<Rightarrow> ('k, 'z) conn_world_scheme \<Rightarrow> ('k, 'z) conn_world_scheme" where
  "with_conn f l e w =
     w\<lparr>evs := (evs w)(next_ev w \<mapsto> new_event f (loop_ep w l)), next_ev := Suc (next_ev w),
       conns := (conns w)(next_conn w \<mapsto> new_conn (next_ev w) f l), next_conn := Suc (next_conn w), env := e\<rparr>"

lemma with_conn_sel [simp]:
  "evs (with_conn f l e w) = (evs w)(next_ev w \<mapsto> new_event f (loop_ep w l))"
  "conns (with_conn f l e w) = (conns w)(next_conn w \<mapsto> new_conn (next_ev w) f l)"
  "next_ev (with_conn f l e w) = Suc (next_ev w)" "next_conn (with_conn f l e w) = Suc (next_conn w)"
  "env (with_conn f l e w) = e" "loop_ep (with_conn f l e w) = loop_ep w"
  "localEventLoop (with_conn f l e w) = localEventLoop w"
  "conn_world.more (with_conn f l e w) = conn_world.more w"
  by (simp_all add: with_conn_def)

lemma new_conn_sel [simp]:
  "sockfd (new_conn p f l) = f" "conn_event (new_conn p f l) = p" "conn_loop (new_conn p f l) = l"
  "conn_state (new_conn p f l) = ESTABLISHED" "isWillClose (new_conn p f l) = False"
  "contents (readBuffer (new_conn p f l)) = []" "contents (writeBuffer (new_conn p f l)) = []"
  "conn_data (new_conn p f l) = None" "destoryCallback (new_conn p f l) = None"
  "buf_inv (readBuffer (new_conn p f l))" "buf_inv (writeBuffer (new_conn p f l))"
  using new_buffer_inv [of IO_BUFFER_SIZE] by (simp_all add: new_conn_def IO_BUFFER_SIZE_def vec_max_def)

lemma new_conn_established [simp]: "(new_conn p f l)\<lparr>conn_state := ESTABLISHED\<rparr> = new_conn p f l"
  by (simp add: new_conn_def)

lemma new_event_sel [simp]:
  "ev_fd (new_event f ep) = f" "epoller (new_event f ep) = ep" "events (new_event f ep) = 0"
  "\<not> isWritable (new_event f ep)" "\<not> isReadable (new_event f ep)"
  "readCallback (new_event f ep) = None" "writeCallback (new_event f ep) = None"
  by (simp_all add: new_event_def isWritable_def isReadable_def)

lemma make_conn_spec:
  assumes os: "os_contract os inq outq interest" and inv: "conn_inv interest w"
    and fresh: "\<And>ep. interest ep (kern (env w)) f = None"
  obtains w1 e where "make_event os f (loop_ep w l) w = Inr (next_ev w, w1)"
    "makeHeapObject os (next_ev w) l w1 = Inr (next_conn w, with_conn f l e w)"
    "conn_inv interest (with_conn f l e w)" "\<And>g. outq g (kern e) = outq g (kern (env w))"
proof -
  note os' = os_contractD [OF os]
  obtain e1 where e1: "make_event os f (loop_ep w l) w = Inr (next_ev w,
      w\<lparr>evs := (evs w)(next_ev w \<mapsto> new_event f (loop_ep w l)), next_ev := Suc (next_ev w), env := e1\<rparr>)"
    "registered interest
       (w\<lparr>evs := (evs w)(next_ev w \<mapsto> new_event f (loop_ep w l)), next_ev := Suc (next_ev w), env := e1\<rparr>)"
    "e1 = logged ''in addEvent, epoll_ctl error'' (sys_epoll_ctl os (loop_ep w l) CtlAdd f (0, next_ev w)) (env w)"
    using make_event_registered [OF os'(2) conn_invD(1) [OF inv] fresh] by metis
  define w1 where "w1 = w\<lparr>evs := (evs w)(next_ev w \<mapsto> new_event f (loop_ep w l)), next_ev := Suc (next_ev w), env := e1\<rparr>"
  define e where "e = setNonblock os f e1"
  have mk: "makeHeapObject os (next_ev w) l w1 = Inr (next_conn w, with_conn f l e w)"
    by (simp add: makeHeapObject_def get_new_object_def w1_def e_def with_conn_def)
  have reg: "registered interest (with_conn f l e w)"
    by (rule registered_cong [OF e1(2)]) (simp_all add: e_def logged_streams(4) [OF os'(3)])
  have "conn_ok (with_conn f l e w) (next_conn w) (new_conn (next_ev w) f l)"
    by (simp add: conn_ok_def cb_free_own)
  then have "conn_inv interest (with_conn f l e w)"
    by (intro conn_inv_add [OF inv reg]) simp_all
  moreover have "outq g (kern e) = outq g (kern (env w))" for g
    by (simp add: e_def e1(3) logged_streams [OF os'(3)])
  ultimately show ?thesis using that [of w1 e] e1(1) mk by (simp add: w1_def)
qed

text \<open>The invariant speaks of the heaps and the interest lists only.\<close>

lemma conn_inv_same:
  assumes inv: "conn_inv interest w"
    and w': "conns w' = conns w" "evs w' = evs w" "next_ev w' = next_ev w" "next_conn w' = next_conn w"
      "loop_ep w' = loop_ep w" "\<And>ep. interest ep (kern (env w')) = interest ep (kern (env w))"
  shows "conn_inv interest w'"
proof -
  have "registered interest w'"
    by (rule registered_cong [OF conn_invD(1) [OF inv]]) (simp_all add: w')
  then show ?thesis using inv by (simp add: conn_inv_def conn_ok_def w')
qed

text \<open>Different connections have different descriptors, unless a call for one has failed.\<close>

lemma open_fds_differ:
  assumes inv: "conn_inv interest w" and "conns w c = Some x" "conns w d = Some y" "c \<noteq> d"
    and "0 \<le> sockfd x"
  shows "sockfd y \<noteq> sockfd x"
proof -
  obtain ev where ev: "evs w (conn_event x) = Some ev" "ev_fd ev = sockfd x" using event_of [OF inv assms(2)] by metis
  obtain ev' where ev': "evs w (conn_event y) = Some ev'" "ev_fd ev' = sockfd y" using event_of [OF inv assms(3)] by metis
  have "conn_event y \<noteq> conn_event x" using conn_invD(3) [OF inv assms(2,3)] assms(4) by auto
  then show ?thesis using registeredD(4) [OF conn_invD(1) [OF inv] ev(1) ev'(1)] ev(2) ev'(2) assms(5) by auto
qed

subsection \<open>Callbacks and masks\<close>

lemma registered_callback:
  "registered interest w \<Longrightarrow> evs w p = Some ev \<Longrightarrow> ev_fd ev' = ev_fd ev \<Longrightarrow> epoller ev' = epoller ev \<Longrightarrow>
     events ev' = events ev \<Longrightarrow> registered interest (w\<lparr>evs := (evs w)(p \<mapsto> ev')\<rparr>)"
  by (erule registered_cong) simp_all

text \<open>Asking for input, or for writability, with a callback set before.\<close>

lemma mask_after_callback:
  assumes os: "os_contract os inq outq interest" and reg: "registered interest w" and ev: "evs w p = Some ev"
    and ev': "ev_fd ev' = ev_fd ev" "epoller ev' = epoller ev" "events ev' = events ev"
  obtains e where
    "set_mask os fl p on (w\<lparr>evs := (evs w)(p \<mapsto> ev')\<rparr>) =
       Inr (w\<lparr>evs := (evs w)(p \<mapsto> set_flag fl on ev'), env := e\<rparr>)"
    "registered interest (w\<lparr>evs := (evs w)(p \<mapsto> set_flag fl on ev'), env := e\<rparr>)"
    "0 \<le> ev_fd ev \<Longrightarrow> logs e = logs (env w)" "\<And>g. outq g (kern e) = outq g (kern (env w))"
proof -
  let ?w = "w\<lparr>evs := (evs w)(p \<mapsto> ev')\<rparr>"
  have reg1: "registered interest ?w" using registered_callback [OF reg ev ev'] .
  obtain e where e: "set_mask os fl p on ?w = Inr (?w\<lparr>evs := (evs ?w)(p \<mapsto> set_flag fl on ev'), env := e\<rparr>)"
    "registered interest (?w\<lparr>evs := (evs ?w)(p \<mapsto> set_flag fl on ev'), env := e\<rparr>)" "0 \<le> ev_fd ev' \<Longrightarrow> logs e = logs (env ?w)"
    "e = logged ''in updateEvent, epoll_ctl error. {}''
         (sys_epoll_ctl os (epoller ev') CtlMod (ev_fd ev') (events (set_flag fl on ev'), p)) (env ?w)"
    using set_mask_registered [OF os_contractD(2) [OF os] reg1, of p ev' fl on] by auto
  have "outq g (kern e) = outq g (kern (env w))" for g
    by (simp add: e(4) logged_streams [OF os_contractD(3) [OF os]])
  then show ?thesis using e(1-3) ev'(1) by (intro that [of e]) simp_all
qed

lemma ask_input:
  assumes os: "os_contract os inq outq interest" and reg: "registered interest w" and ev: "evs w p = Some ev"
  obtains e where
    "res_bind (setReadCallback p cb w) (setReadable os p True) =
       Inr (w\<lparr>evs := (evs w)(p \<mapsto> set_flag (EPOLLIN OR EPOLLPRI) True (ev\<lparr>readCallback := Some cb\<rparr>)), env := e\<rparr>)"
    "registered interest
       (w\<lparr>evs := (evs w)(p \<mapsto> set_flag (EPOLLIN OR EPOLLPRI) True (ev\<lparr>readCallback := Some cb\<rparr>)), env := e\<rparr>)"
    "0 \<le> ev_fd ev \<Longrightarrow> logs e = logs (env w)" "\<And>g. outq g (kern e) = outq g (kern (env w))"
  using mask_after_callback [OF os reg ev, of "ev\<lparr>readCallback := Some cb\<rparr>"] ev
  by (simp add: setReadCallback_def setReadable_def) metis

lemma ask_output:
  assumes os: "os_contract os inq outq interest" and reg: "registered interest w" and ev: "evs w p = Some ev"
  obtains e where
    "res_bind (setWriteCallback p cb w) (setWritable os p True) =
       Inr (w\<lparr>evs := (evs w)(p \<mapsto> set_flag EPOLLOUT True (ev\<lparr>writeCallback := Some cb\<rparr>)), env := e\<rparr>)"
    "registered interest (w\<lparr>evs := (evs w)(p \<mapsto> set_flag EPOLLOUT True (ev\<lparr>writeCallback := Some cb\<rparr>)), env := e\<rparr>)"
    "0 \<le> ev_fd ev \<Longrightarrow> logs e = logs (env w)" "\<And>g. outq g (kern e) = outq g (kern (env w))"
  using mask_after_callback [OF os reg ev, of "ev\<lparr>writeCallback := Some cb\<rparr>"] ev
  by (simp add: setWriteCallback_def setWritable_def) metis

text \<open>The event of a connection changes: the invariant stays when the event still fits the connection.\<close>

lemma conn_inv_event:
  assumes inv: "conn_inv interest w" and c: "conns w c = Some x" and ev: "evs w (conn_event x) = Some ev"
    and w': "w' = w\<lparr>evs := (evs w)(conn_event x \<mapsto> ev'), env := e\<rparr>" and reg: "registered interest w'"
    and fits: "ev_fd ev' = ev_fd ev" "epoller ev' = epoller ev" "cb_own c ev'"
      "conn_state x \<noteq> BLANK \<Longrightarrow> (isWritable ev' \<longleftrightarrow> contents (writeBuffer x) \<noteq> []) \<and>
         (isWritable ev' \<longrightarrow> writeCallback ev' = Some (Cb_send_nonblock c))"
  shows "conn_inv interest w'" and "frame c (conn_event x) w w'"
proof -
  show fr: "frame c (conn_event x) w w'" by (simp add: w' frame_def)
  obtain ev0 where "evs w (conn_event x) = Some ev0" "ev_fd ev0 = sockfd x" "epoller ev0 = loop_ep w (conn_loop x)"
    "buf_inv (readBuffer x)" "buf_inv (writeBuffer x)" "c < next_conn w"
    using event_of [OF inv c] by metis
  then have "conn_ok w' c x" using fits ev by (simp add: conn_ok_def w')
  then show "conn_inv interest w'"
    using conn_inv_frame [OF inv c fr reg, of x] c by (simp add: w')
qed

text \<open>A connection that asks for input with its message callback.\<close>

lemma listening_conn:
  assumes os: "os_contract os inq outq interest" and inv: "conn_inv interest w" and c: "conns w c = Some x"
    and ev: "evs w (conn_event x) = Some ev"
  obtains w' ev' where
    "res_bind (setReadCallback (conn_event x) (Cb_conn_msg c) w) (setReadable os (conn_event x) True) = Inr w'"
    "conn_inv interest w'" "frame c (conn_event x) w w'" "conns w' = conns w"
    "evs w' = (evs w)(conn_event x \<mapsto> ev')" "isReadable ev'" "isWritable ev' = isWritable ev"
    "readCallback ev' = Some (Cb_conn_msg c)" "writeCallback ev' = writeCallback ev"
    "ev_fd ev' = ev_fd ev" "epoller ev' = epoller ev"
    "\<And>g. outq g (kern (env w')) = outq g (kern (env w))" "0 \<le> ev_fd ev \<Longrightarrow> logs (env w') = logs (env w)"
proof -
  let ?ev = "set_flag (EPOLLIN OR EPOLLPRI) True (ev\<lparr>readCallback := Some (Cb_conn_msg c)\<rparr>)"
  obtain e where e:
    "res_bind (setReadCallback (conn_event x) (Cb_conn_msg c) w) (setReadable os (conn_event x) True) =
       Inr (w\<lparr>evs := (evs w)(conn_event x \<mapsto> ?ev), env := e\<rparr>)"
    "registered interest (w\<lparr>evs := (evs w)(conn_event x \<mapsto> ?ev), env := e\<rparr>)"
    "0 \<le> ev_fd ev \<Longrightarrow> logs e = logs (env w)" "\<And>g. outq g (kern e) = outq g (kern (env w))"
    using ask_input [OF os conn_invD(1) [OF inv] ev, of "Cb_conn_msg c"] by metis
  obtain ev0 where ev0: "evs w (conn_event x) = Some ev0"
    "conn_state x \<noteq> BLANK \<Longrightarrow> isWritable ev0 \<longleftrightarrow> contents (writeBuffer x) \<noteq> []"
    "conn_state x \<noteq> BLANK \<Longrightarrow> isWritable ev0 \<Longrightarrow> writeCallback ev0 = Some (Cb_send_nonblock c)" "cb_own c ev0"
    using event_of [OF inv c] by metis
  have wr: "isWritable ?ev = isWritable ev"
    by (simp only: isWritable_set_flag) (simp add: isWritable_def)
  have rd: "isReadable ?ev" by (simp only: isReadable_set_flag)
  note k = conn_inv_event [OF inv c ev refl e(2)]
  have "conn_inv interest (w\<lparr>evs := (evs w)(conn_event x \<mapsto> ?ev), env := e\<rparr>)"
    by (rule k(1)) (use ev0 ev wr in \<open>simp_all del: isWritable_set_flag\<close>)
  moreover have "frame c (conn_event x) w (w\<lparr>evs := (evs w)(conn_event x \<mapsto> ?ev), env := e\<rparr>)"
    by (simp add: frame_def)
  ultimately show ?thesis
    using e wr rd by (intro that [of "w\<lparr>evs := (evs w)(conn_event x \<mapsto> ?ev), env := e\<rparr>" ?ev]) simp_all
qed

subsection \<open>Reading\<close>

text \<open>What every message callback begins with: one \<open>readFromSocket\<close> of the connection.\<close>

lemma read_step:
  assumes os: "os_contract os inq outq interest" and inv: "conn_inv interest w" and c: "conns w c = Some x"
  obtains (no_memory) "read_from_socket os (sockfd x) (env w) (readBuffer x) default_maxBytes = Some (Inl Length_error)"
    | (got) n b e where
        "read_from_socket os (sockfd x) (env w) (readBuffer x) default_maxBytes = Some (Inr (n, b, e))"
        "buf_inv b" "\<And>ep. interest ep (kern e) = interest ep (kern (env w))"
        "outq (sockfd x) (kern e) = outq (sockfd x) (kern (env w))"
        "contents b @ inq (sockfd x) (kern e) = contents (readBuffer x) @ inq (sockfd x) (kern (env w))"
        "n \<le> 0 \<Longrightarrow> contents b = contents (readBuffer x)"
proof -
  note os' = os_contractD [OF os]
  have bi: "buf_inv (readBuffer x)" using event_of [OF inv c] by metis
  obtain r where r: "read_from_socket os (sockfd x) (env w) (readBuffer x) default_maxBytes = Some r"
    "read_result_ok inq outq (sockfd x) (readBuffer x) (env w) r"
    using read_from_socket_total [OF os'(1) bi, of default_maxBytes "sockfd x" "env w"]
    by (auto simp: request_ok_def default_maxBytes_def)
  show ?thesis
  proof (cases r)
    case (Inl err)
    then show ?thesis using r by (intro no_memory) (simp add: read_result_ok_def)
  next
    case (Inr t)
    obtain n b e where t: "t = (n, b, e)" by (cases t)
    have "interest ep (kern e) = interest ep (kern (env w))" for ep
      using read_from_socket_interest [OF os'(3)] r(1) Inr t by blast
    then show ?thesis using r Inr t by (intro got [of n b e]) (simp_all add: read_result_ok_def)
  qed
qed

text \<open>
  What a handler of a connection may do: follow no dangling pointer, and when it returns, keep the invariant,
  the other connections and events; a connection that is gone has taken its event with it.
\<close>

definition safe_outcome ::
  "(fd \<Rightarrow> 'k \<Rightarrow> (fd \<rightharpoonup> epoll_event)) \<Rightarrow> conn_id \<Rightarrow> event_id \<Rightarrow> ('k, 'z) conn_world_scheme \<Rightarrow>
     ('k, 'z) conn_world_scheme res \<Rightarrow> bool" where
  "safe_outcome interest c p w r \<longleftrightarrow>
     r \<noteq> Inl Use_after_free \<and>
     (\<forall>w'. r = Inr w' \<longrightarrow> conn_inv interest w' \<and> frame c p w w' \<and> (conns w' c = None \<longrightarrow> evs w' p = None) \<and>
        (\<forall>y. conns w' c = Some y \<longrightarrow> conn_state y \<noteq> BLANK))"

lemma safe_outcome_frame: "frame c p w w1 \<Longrightarrow> safe_outcome interest c p w1 r \<Longrightarrow> safe_outcome interest c p w r"
  unfolding safe_outcome_def using frame_trans by metis

lemma safe_outcome_done:
  "conn_inv interest w' \<Longrightarrow> frame c p w w' \<Longrightarrow> conns w' c = Some y \<Longrightarrow> conn_state y \<noteq> BLANK \<Longrightarrow>
     safe_outcome interest c p w (Inr w')"
  by (simp add: safe_outcome_def)

lemma safe_outcome_error: "e \<noteq> Use_after_free \<Longrightarrow> safe_outcome interest c p w (Inl e)"
  by (simp add: safe_outcome_def)

lemma callback_safe:
  assumes "callback_ok interest cb" "conn_inv interest w" "conns w c = Some x" "conn_state x \<noteq> BLANK"
  shows "safe_outcome interest c (conn_event x) w (cb c w)"
  unfolding safe_outcome_def using callback_ok_live [OF assms] callback_okD [OF assms] by blast

text \<open>A callback after which the code goes on with the connection.\<close>

lemma safe_outcome_bind:
  assumes cb: "close_callback_ok interest cb" and inv: "conn_inv interest w" and c: "conns w c = Some x"
    and st: "conn_state x \<noteq> BLANK"
    and rest: "\<And>w1 y. conn_inv interest w1 \<Longrightarrow> conns w1 c = Some y \<Longrightarrow> conn_event y = conn_event x \<Longrightarrow>
      conn_state y \<noteq> BLANK \<Longrightarrow> safe_outcome interest c (conn_event x) w1 (rest w1)"
  shows "safe_outcome interest c (conn_event x) w (res_bind (cb c w) rest)"
proof -
  have ok: "callback_ok interest cb" using cb by (simp add: close_callback_ok_def)
  show ?thesis
  proof (cases "cb c w")
    case (Inl e)
    then show ?thesis using callback_ok_live [OF ok inv c st] by (simp add: safe_outcome_def)
  next
    case (Inr w1)
    have "conns w1 c \<noteq> None" using cb Inr unfolding close_callback_ok_def by blast
    then obtain y where y: "conns w1 c = Some y" by auto
    note d = callback_okD [OF ok inv c st Inr]
    have "safe_outcome interest c (conn_event x) w1 (rest w1)" using rest [OF d(1) y] d(4) [OF y] by simp
    then show ?thesis using Inr safe_outcome_frame [OF d(2)] by simp
  qed
qed

subsection \<open>Sources of connections that close as \<open>close_common\<close> says\<close>

text \<open>
  The \<open>closeConnection\<close> of server and clients differ in what they assert and in the close callback they
  run.  Whatever these are, the contract of \<open>tcp_source\<close> holds.
\<close>

locale closing_source =
  fixes os :: "'k os"
    and inq outq :: "fd \<Rightarrow> 'k \<Rightarrow> bytes"
    and interest :: "fd \<Rightarrow> 'k \<Rightarrow> (fd \<rightharpoonup> epoll_event)"
    and env_ok :: bool
    and dispose :: "conn_id \<Rightarrow> ('k, 'z) conn_world_scheme \<Rightarrow> ('k, 'z) conn_world_scheme res"
    and close :: "conn_id \<Rightarrow> ('k, 'z) conn_world_scheme \<Rightarrow> ('k, 'z) conn_world_scheme res"
    and closeCb :: "tcp_conn \<Rightarrow> (conn_id \<Rightarrow> ('k, 'z) conn_world_scheme \<Rightarrow> ('k, 'z) conn_world_scheme res) option"
  assumes source_os: "env_ok \<Longrightarrow> os_contract os inq outq interest"
    and source_cb: "env_ok \<Longrightarrow> closeCb x = Some f \<Longrightarrow> close_callback_ok interest f"
    and source_dispose: "env_ok \<Longrightarrow> disposes os interest dispose"
    and source_close: "conns w c = Some x \<Longrightarrow> close c w = close_common os dispose (closeCb x) c w \<or> close c w = Inl Assert_failed"
begin

lemma close_runs: "conns w c = Some x \<Longrightarrow> close c w = Inr w' \<Longrightarrow> close_common os dispose (closeCb x) c w = Inr w'"
  using source_close by (metis Inl_Inr_False)

end

sublocale closing_source \<subseteq> tcp_source os inq outq interest env_ok close
proof unfold_locales
  show "os_contract os inq outq interest" if env_ok
    using that by (rule source_os)
next
  fix w :: "('k, 'z) conn_world_scheme" and c x w'
  assume *: env_ok "conn_inv interest w" "conns w c = Some x" "conn_state x \<noteq> BLANK"
    "contents (writeBuffer x) \<noteq> []" "close c w = Inr w'"
  from close_pending [OF source_os [OF *(1)] *(2-5), of dispose "closeCb x"] close_runs [OF *(3,6)]
  show "conn_inv interest w' \<and> frame c (conn_event x) w w' \<and> conns w' c = Some (x\<lparr>isWillClose := True\<rparr>) \<and>
      outq (sockfd x) (kern (env w')) = outq (sockfd x) (kern (env w))"
    by (metis sum.inject(2))
next
  fix w :: "('k, 'z) conn_world_scheme" and c x w'
  assume *: env_ok "conn_inv interest w" "conns w c = Some x" "conn_state x \<noteq> BLANK"
    "contents (writeBuffer x) = []" "close c w = Inr w'"
  have cb: "close_callback_ok interest f" if "closeCb x = Some f" for f using source_cb [OF *(1) that] .
  from close_drained [OF source_dispose [OF *(1)] *(2-5) cb close_runs [OF *(3,6)]]
  show "conn_inv interest w' \<and> frame c (conn_event x) w w' \<and> conns w' c = None \<and> evs w' (conn_event x) = None"
    by blast
next
  fix w :: "('k, 'z) conn_world_scheme" and c x
  assume *: env_ok "conn_inv interest w" "conns w c = Some x" "conn_state x \<noteq> BLANK"
  have cb: "close_callback_ok interest f" if "closeCb x = Some f" for f using source_cb [OF *(1) that] .
  from close_common_live [OF source_os [OF *(1)] source_dispose [OF *(1)] *(2-4) cb] source_close [OF *(3)]
  show "close c w \<noteq> Inl Use_after_free" by auto
qed

text \<open>What the three cases of a close have in common.\<close>

context closing_source
begin

lemma close_keeps_inv:
  assumes ok: env_ok and inv: "conn_inv interest w" and c: "conns w c = Some x" and st: "conn_state x \<noteq> BLANK"
    and run: "close c w = Inr w'"
  shows "conn_inv interest w' \<and> frame c (conn_event x) w w' \<and>
    (conns w' c = None \<longrightarrow> evs w' (conn_event x) = None) \<and>
    (\<forall>y. conns w' c = Some y \<longrightarrow> conn_state y \<noteq> BLANK)"
proof (cases "contents (writeBuffer x) = []")
  case True
  then show ?thesis using close_drops [OF ok inv c st _ run] by simp
next
  case False
  then show ?thesis using close_keeps [OF ok inv c st _ run] st by auto
qed

lemma close_safe:
  assumes "env_ok" "conn_inv interest w" "conns w c = Some x" "conn_state x \<noteq> BLANK"
  shows "safe_outcome interest c (conn_event x) w (close c w)"
  unfolding safe_outcome_def using close_live [OF assms] close_keeps_inv [OF assms] by blast

lemma send_safe:
  assumes "env_ok" "conn_inv interest w" "conns w c = Some x" "conn_state x \<noteq> BLANK"
  shows "safe_outcome interest c (conn_event x) w (send_nonblock os close c w)"
  unfolding safe_outcome_def using send_nonblock_live [OF assms] send_nonblock_keeps [OF assms] by blast

end

end
