(* ===== verification/Dispatch.thy ===== *)
theory Dispatch imports Register begin

section \<open>EventLoop.h: a pass of the loop, whoever's callbacks it runs\<close>

text \<open>
  Polling and running the callbacks of what was polled.  A callback may delete events and connections, its own
  among them, that is polled as well.  The locale \<open>dispatcher\<close> says what the callbacks of a component must keep
  for a pass never to follow a dangling pointer; servers interpret it.
\<close>

subsection \<open>Operations\<close>

text \<open>
  The body of \<open>EventLoop::start\<close>'s loop over the polled events.  \<open>run p cb\<close> is a call of the closure \<open>cb\<close> registered
  with the event at \<open>p\<close>; what closures of most components carry does not depend on the event.
\<close>

fun handle_events_at ::
  "(event_id \<Rightarrow> callback \<Rightarrow> ('k, 'z) world_scheme \<Rightarrow> ('k, 'z) world_scheme res) \<Rightarrow> event_id list \<Rightarrow>
     ('k, 'z) world_scheme \<Rightarrow> ('k, 'z) world_scheme res" where
  "handle_events_at run [] w = Inr w"
| "handle_events_at run (p # ps) w =
     res_bind (deref (evs w) p) (\<lambda>ev.
       res_bind (case handle ev of None \<Rightarrow> Inr w | Some cb \<Rightarrow> run p cb w) (handle_events_at run ps))"

text \<open>Poll, then handle what was reported.\<close>

definition loop_pass_at ::
  "(event_id \<Rightarrow> callback \<Rightarrow> ('k, 'z) world_scheme \<Rightarrow> ('k, 'z) world_scheme res) \<Rightarrow> (errno + epoll_event list) \<Rightarrow>
     ('k, 'z) world_scheme \<Rightarrow> ('k, 'z) world_scheme res" where
  "loop_pass_at run answer w = res_bind (poll answer w) (\<lambda>(ps, w1). handle_events_at run ps w1)"

abbreviation handle_events ::
  "(callback \<Rightarrow> ('k, 'z) world_scheme \<Rightarrow> ('k, 'z) world_scheme res) \<Rightarrow> event_id list \<Rightarrow>
     ('k, 'z) world_scheme \<Rightarrow> ('k, 'z) world_scheme res" where
  "handle_events run \<equiv> handle_events_at (\<lambda>_. run)"

abbreviation loop_pass ::
  "(callback \<Rightarrow> ('k, 'z) world_scheme \<Rightarrow> ('k, 'z) world_scheme res) \<Rightarrow> (errno + epoll_event list) \<Rightarrow>
     ('k, 'z) world_scheme \<Rightarrow> ('k, 'z) world_scheme res" where
  "loop_pass run \<equiv> loop_pass_at (\<lambda>_. run)"

subsection \<open>What callbacks leave alone\<close>

text \<open>No live event is deleted (except perhaps \<open>p\<close>).\<close>

definition keeps_events :: "event_id set \<Rightarrow> ('k, 'z) world_scheme \<Rightarrow> ('k, 'z) world_scheme \<Rightarrow> bool" where
  "keeps_events ps w w' \<longleftrightarrow> (\<forall>q. q \<notin> ps \<longrightarrow> evs w q \<noteq> None \<longrightarrow> evs w' q \<noteq> None)"

lemma keeps_events_trans:
  "keeps_events ps w w1 \<Longrightarrow> keeps_events qs w1 w2 \<Longrightarrow> keeps_events (ps \<union> qs) w w2"
  by (simp add: keeps_events_def)

lemma keeps_events_frame: "frame c p w w' \<Longrightarrow> keeps_events {p} w w'"
  by (simp add: keeps_events_def frame_def)

text \<open>A callback that names a connection is run on that connection's event only.\<close>

lemma handle_named:
  "handle ev = Some cb \<Longrightarrow> names_conn cb d \<Longrightarrow> d \<in> named_conns ev"
  unfolding handle_def named_conns_def by (auto split: if_splits)

text \<open>A callback that names a connection is run on that connection's event only.\<close>

lemma named_owner:
  assumes inv: "conn_inv interest w" and ev: "evs w p = Some ev" and d: "d \<in> named_conns ev"
  obtains x where "conns w d = Some x" "conn_event x = p"
proof -
  have "\<not> cb_free ev" using d by (auto simp: cb_free_def)
  then obtain c x where x: "conns w c = Some x" "conn_event x = p"
    using conn_invD(4) [OF inv ev] by blast
  then have "cb_own c ev" using event_of [OF inv x(1)] ev by (metis option.inject)
  then have "d = c" using d by (auto simp: cb_own_def)
  with x show ?thesis using that by blast
qed

subsection \<open>What is polled\<close>

text \<open>
  What \<open>epoll_wait\<close> documents: it reports registered descriptors, each at most once.
\<close>

definition wait_answer_ok ::
  "(fd \<Rightarrow> 'k \<Rightarrow> (fd \<rightharpoonup> epoll_event)) \<Rightarrow> fd \<Rightarrow> 'k \<Rightarrow> (errno + epoll_event list) \<Rightarrow> bool" where
  "wait_answer_ok interest ep k answer \<longleftrightarrow>
     (\<forall>es. answer = Inr es \<longrightarrow> distinct (map snd es) \<and>
        (\<forall>x\<in>set es. \<exists>f m. interest ep k f = Some (m, snd x)))"

text \<open>The mask of a poll is no part of the invariant.\<close>

definition same_but_revents :: "('k, 'z) world_scheme \<Rightarrow> (event_id \<rightharpoonup> event) \<Rightarrow> bool" where
  "same_but_revents w es \<longleftrightarrow>
     (\<forall>p. map_option (\<lambda>ev. ev\<lparr>revents := 0\<rparr>) (es p) = map_option (\<lambda>ev. ev\<lparr>revents := 0\<rparr>) (evs w p))"

lemma same_but_revents_cases:
  assumes "same_but_revents w es"
  shows "evs w p = Some ev \<Longrightarrow> \<exists>ev'. es p = Some ev' \<and> ev'\<lparr>revents := 0\<rparr> = ev\<lparr>revents := 0\<rparr>"
    and "es p = Some ev' \<Longrightarrow> \<exists>ev. evs w p = Some ev \<and> ev'\<lparr>revents := 0\<rparr> = ev\<lparr>revents := 0\<rparr>"
proof -
  have same: "map_option (\<lambda>ev. ev\<lparr>revents := 0\<rparr>) (es p) = map_option (\<lambda>ev. ev\<lparr>revents := 0\<rparr>) (evs w p)"
    using assms unfolding same_but_revents_def by blast
  show "evs w p = Some ev \<Longrightarrow> \<exists>ev'. es p = Some ev' \<and> ev'\<lparr>revents := 0\<rparr> = ev\<lparr>revents := 0\<rparr>"
    using same by (cases "es p") auto
  show "es p = Some ev' \<Longrightarrow> \<exists>ev. evs w p = Some ev \<and> ev'\<lparr>revents := 0\<rparr> = ev\<lparr>revents := 0\<rparr>"
    using same by (cases "evs w p") auto
qed

lemma conn_inv_revents:
  assumes inv: "conn_inv interest w" and same: "same_but_revents w es"
  shows "conn_inv interest (w\<lparr>evs := es\<rparr>)"
proof -
  note fwd = same_but_revents_cases(1) [OF same] and bwd = same_but_revents_cases(2) [OF same]
  have eq: "ev_fd ev' = ev_fd ev" "epoller ev' = epoller ev" "events ev' = events ev"
      "writeCallback ev' = writeCallback ev" "named_conns ev' = named_conns ev"
    if "ev'\<lparr>revents := 0\<rparr> = ev\<lparr>revents := 0\<rparr>" for ev ev' :: event
    using that by (cases ev, cases ev', simp add: named_conns_def)+
  have reg: "registered interest (w\<lparr>evs := es\<rparr>)"
  proof (rule registered_cong [OF conn_invD(1) [OF inv]])
    fix p
    show "map_option (\<lambda>ev. (ev_fd ev, epoller ev, events ev)) (evs (w\<lparr>evs := es\<rparr>) p)
        = map_option (\<lambda>ev. (ev_fd ev, epoller ev, events ev)) (evs w p)"
    proof (cases "evs w p")
      case None
      then have "es p = None" using bwd [of p] by (cases "es p") auto
      then show ?thesis using None by simp
    next
      case (Some ev)
      from fwd [OF this] obtain ev' where ev': "es p = Some ev'" "ev'\<lparr>revents := 0\<rparr> = ev\<lparr>revents := 0\<rparr>" by blast
      show ?thesis by (simp add: Some ev'(1) eq [OF ev'(2)])
    qed
  qed simp_all
  have ok: "conn_ok (w\<lparr>evs := es\<rparr>) c x" if cx: "conns w c = Some x" for c x
  proof -
    from conn_invD(2) [OF inv cx] obtain ev where ev: "evs w (conn_event x) = Some ev" "ev_fd ev = sockfd x"
      "epoller ev = loop_ep w (conn_loop x)" "buf_inv (readBuffer x)" "buf_inv (writeBuffer x)"
      "c < next_conn w" "cb_own c ev" "conn_state x \<noteq> BLANK \<longrightarrow>
           (isWritable ev \<longleftrightarrow> contents (writeBuffer x) \<noteq> []) \<and>
           (isWritable ev \<longrightarrow> writeCallback ev = Some (Cb_send_nonblock c))"
      by (auto simp: conn_ok_def)
    from fwd [OF ev(1)] obtain ev' where ev': "es (conn_event x) = Some ev'" "ev'\<lparr>revents := 0\<rparr> = ev\<lparr>revents := 0\<rparr>"
      by blast
    show ?thesis
      using ev eq [OF ev'(2)] ev'(1) by (simp add: conn_ok_def isWritable_def cb_own_def)
  qed
  have free: "cb_free ev'" if p: "es p = Some ev'" "\<And>c x. conns w c = Some x \<Longrightarrow> conn_event x \<noteq> p" for p ev'
  proof -
    from bwd [OF p(1)] obtain ev where ev: "evs w p = Some ev" "ev'\<lparr>revents := 0\<rparr> = ev\<lparr>revents := 0\<rparr>" by blast
    then show ?thesis using conn_invD(4) [OF inv ev(1)] p(2) eq(5) [OF ev(2)] by (auto simp: cb_free_def)
  qed
  show ?thesis
    unfolding conn_inv_def
  proof (intro conjI allI impI, goal_cases)
    case 1
    show ?case by (rule reg)
  next
    case (2 c x)
    then show ?case using ok [of c x] by simp
  next
    case (3 p ev)
    then show ?case using free [of p ev] by simp
  next
    case (4 c d x y)
    then show ?case using conn_invD(3) [OF inv, of c x d y] by simp
  qed
qed

subsection \<open>The contract of a component's callbacks\<close>

locale dispatcher =
  fixes interest :: "fd \<Rightarrow> 'k \<Rightarrow> (fd \<rightharpoonup> epoll_event)"
    and inv :: "('k, 'z) conn_world_scheme \<Rightarrow> bool"
    and run :: "event_id \<Rightarrow> callback \<Rightarrow> ('k, 'z) conn_world_scheme \<Rightarrow> ('k, 'z) conn_world_scheme res"
    and env_ok :: bool
  assumes inv_registered: "inv w \<Longrightarrow> registered interest w"
    and inv_revents: "inv w \<Longrightarrow> same_but_revents w es \<Longrightarrow> inv (w\<lparr>evs := es\<rparr>)"
    and inv_log: "inv w \<Longrightarrow> inv (w\<lparr>env := add_log l (env w)\<rparr>)"
    and run_keeps: "env_ok \<Longrightarrow> inv w \<Longrightarrow> evs w p = Some ev \<Longrightarrow> handle ev = Some cb \<Longrightarrow>
      run p cb w \<noteq> Inl Use_after_free \<and> (\<forall>w'. run p cb w = Inr w' \<longrightarrow> inv w' \<and> keeps_events {p} w w')"
begin

lemma batch_keeps:
  assumes env_ok
  shows "inv w \<Longrightarrow> distinct ps \<Longrightarrow> \<forall>p\<in>set ps. evs w p \<noteq> None \<Longrightarrow>
    handle_events_at run ps w \<noteq> Inl Use_after_free \<and> (\<forall>w'. handle_events_at run ps w = Inr w' \<longrightarrow> inv w')"
proof (induction ps arbitrary: w)
  case Nil
  then show ?case by simp
next
  case (Cons p ps)
  then obtain ev where ev: "evs w p = Some ev" by auto
  show ?case
  proof (cases "handle ev")
    case None
    then show ?thesis using Cons ev by simp
  next
    case (Some cb)
    note s = run_keeps [OF assms Cons.prems(1) ev Some]
    show ?thesis
    proof (cases "run p cb w")
      case (Inl err)
      then show ?thesis using s ev Some by simp
    next
      case (Inr w1)
      with s have w1: "inv w1" "keeps_events {p} w w1" by blast+
      have "\<forall>q\<in>set ps. evs w1 q \<noteq> None"
        using Cons.prems(2,3) w1(2) unfolding keeps_events_def by auto
      from Cons.IH [OF w1(1) _ this] Cons.prems(2) show ?thesis using ev Some Inr by simp
    qed
  qed
qed

text \<open>A pass follows live pointers only and keeps the invariant.\<close>

lemma pass_keeps:
  assumes ok: env_ok and inv: "inv w" and answer: "wait_answer_ok interest ep (kern (env w)) answer"
  shows "loop_pass_at run answer w \<noteq> Inl Use_after_free \<and> (\<forall>w'. loop_pass_at run answer w = Inr w' \<longrightarrow> inv w')"
proof (cases answer)
  case (Inl err)
  then show ?thesis using inv inv_log [OF inv] by (simp add: loop_pass_at_def poll_def)
next
  case (Inr es)
  have live: "evs w (snd x) \<noteq> None" if mem: "x \<in> set es" for x
  proof -
    obtain f m where "interest ep (kern (env w)) f = Some (m, snd x)"
      using answer Inr mem unfolding wait_answer_ok_def by blast
    then show ?thesis using registeredD(3) [OF inv_registered [OF inv]] by fastforce
  qed
  obtain es' where es': "store_revents es (evs w) = Inr (map snd es, es')" "same_but_revents w es'"
    using store_revents_live [of es "evs w", OF live] unfolding same_but_revents_def by blast
  have inv': "inv (w\<lparr>evs := es'\<rparr>)"
    by (rule inv_revents [OF inv es'(2)])
  have "\<forall>p\<in>set (map snd es). evs (w\<lparr>evs := es'\<rparr>) p \<noteq> None"
    using live same_but_revents_cases(1) [OF es'(2)] by fastforce
  moreover have "distinct (map snd es)" using answer Inr by (simp add: wait_answer_ok_def)
  ultimately show ?thesis
    using batch_keeps [OF ok inv', of "map snd es"] by (simp add: loop_pass_at_def poll_def Inr es'(1))
qed

end

end
