(* ===== verification/TcpServer.thy ===== *)
theory TcpServer imports Pool Codec Dispatch begin

section \<open>TcpServer.h: accepting, reading, closing\<close>

text \<open>
  The handlers a \<open>TcpServer\<close> registers with its event loops: \<open>acceptCallback\<close> on the listening
  descriptor, \<open>preConnMsgCallback\<close> on every connection, and its \<open>closeConnection\<close>.  User callbacks
  are functions on the world, absent when the user has not set them.  (The default build; the one with
  \<open>IDLE_CONNECTIONS_MANAGER\<close> is in theory \<open>IdleServer\<close>.)
\<close>

record 'k server_world = "'k conn_world" +
  pool :: pool

type_synonym 'k sworld = "'k server_world"
type_synonym 'k cb = "conn_id \<Rightarrow> 'k sworld \<Rightarrow> 'k sworld res"

record 'k server =
  listenfd :: fd
  codec :: codec
  connMsgCallback :: "'k cb option"
  connEstaCallback :: "'k cb option"
  connCloseCallback :: "'k cb option"

text \<open>A server on the descriptor \<open>f\<close> before the user has set anything, and the functions that set the callbacks.\<close>

definition bare_server :: "fd \<Rightarrow> codec \<Rightarrow> 'k server" where
  "bare_server f cd = \<lparr>listenfd = f, codec = cd, connMsgCallback = None, connEstaCallback = None,
     connCloseCallback = None\<rparr>"

definition setConnMsgCallback :: "'k cb \<Rightarrow> 'k server \<Rightarrow> 'k server" where
  "setConnMsgCallback callback srv = srv\<lparr>connMsgCallback := Some callback\<rparr>"

definition setConnEstaCallback :: "'k cb \<Rightarrow> 'k server \<Rightarrow> 'k server" where
  "setConnEstaCallback callback srv = srv\<lparr>connEstaCallback := Some callback\<rparr>"

definition setConnCloseCallback :: "'k cb \<Rightarrow> 'k server \<Rightarrow> 'k server" where
  "setConnCloseCallback callback srv = srv\<lparr>connCloseCallback := Some callback\<rparr>"

subsection \<open>Closing\<close>

text \<open>
  The assertions: the running thread's loop is the one recorded in the connection's \<open>data\<close>, and no
  destroy callback is passed.
\<close>

definition closeConnection ::
  "'k os \<Rightarrow> 'k server \<Rightarrow> conn_id \<Rightarrow> nat option \<Rightarrow> 'k sworld \<Rightarrow> 'k sworld res" where
  "closeConnection os srv c destoryCb w =
     res_bind (deref (conns w) c) (\<lambda>x.
       if conn_data x \<noteq> Some (localEventLoop w) then Inl Assert_failed
       else if destoryCb \<noteq> None then Inl Assert_failed
       else close_common os (delete_conn os) (connCloseCallback srv) c w)"

text \<open>\<open>TcpConnection::activeClose\<close> on a connection of this server.\<close>

definition activeClose :: "'k os \<Rightarrow> 'k server \<Rightarrow> conn_id \<Rightarrow> 'k sworld \<Rightarrow> 'k sworld res" where
  "activeClose os srv c w =
     res_bind (deref (conns w) c) (\<lambda>x. closeConnection os srv c (destoryCallback x) w)"

subsection \<open>A message\<close>

definition preConnMsgCallback :: "'k os \<Rightarrow> 'k server \<Rightarrow> conn_id \<Rightarrow> 'k sworld \<Rightarrow> 'k sworld res" where
  "preConnMsgCallback os srv c w =
     res_bind (deref (conns w) c) (\<lambda>x0.
       let x = x0\<lparr>conn_data := Some (localEventLoop w)\<rparr> in
       case read_from_socket os (sockfd x) (env w) (readBuffer x) default_maxBytes of
         None \<Rightarrow> Inl Does_not_return
       | Some r \<Rightarrow>
           res_bind r (\<lambda>(n, b, e).
             let w1 = (upd_conn c (x\<lparr>readBuffer := b\<rparr>) w)\<lparr>env := e\<rparr> in
             if n = 0 then closeConnection os srv c None w1
             else if n < 0 then
               closeConnection os srv c None (w1\<lparr>env := add_log (Sys ''read from socket error'') (env w1)\<rparr>)
             else
               (case codec_check (codec srv) b of
                  (ok, b', lg) \<Rightarrow>
                    let w2 = (upd_conn c (x\<lparr>readBuffer := b'\<rparr>) w1)
                               \<lparr>env := (env w1)\<lparr>logs := logs (env w1) @ lg\<rparr>\<rparr> in
                    if ok then
                      (case connMsgCallback srv of
                         None \<Rightarrow> Inl Bad_function_call
                       | Some f \<Rightarrow> f c w2)
                    else Inr w2)))"

subsection \<open>Accepting\<close>

text \<open>
  One pass of the loop in \<open>acceptCallback\<close>: the result \<open>False\<close> leaves the loop.  \<open>Socket::accept\<close> keeps quiet
  about four errors and logs the others.
\<close>

definition transient :: "errno \<Rightarrow> bool" where
  "transient e \<longleftrightarrow> e = EAGAIN \<or> e = EWOULDBLOCK \<or> e = EPROTO \<or> e = ECONNABORTED"

definition socket_accept :: "'k os \<Rightarrow> fd \<Rightarrow> 'k env \<Rightarrow> fd \<times> 'k env" where
  "socket_accept os f e =
     (case sys_accept os f (kern e) of
        (Inr connfd, k) \<Rightarrow> (connfd, e\<lparr>kern := k\<rparr>)
      | (Inl err, k) \<Rightarrow>
          (- 1, if transient err then e\<lparr>kern := k\<rparr> else add_log (Sys ''accept error'') (e\<lparr>kern := k\<rparr>)))"

definition new_connection :: "'k os \<Rightarrow> 'k server \<Rightarrow> fd \<Rightarrow> 'k sworld \<Rightarrow> (conn_id \<times> 'k sworld) res" where
  "new_connection os srv connfd w =
     res_bind (getNextPool (pool w)) (\<lambda>(ownerEventLoop, p).
       res_bind (make_event os connfd (loop_ep w ownerEventLoop) (w\<lparr>pool := p\<rparr>)) (\<lambda>(connEvent, w1).
         res_bind (makeHeapObject os connEvent ownerEventLoop w1) (\<lambda>(newConn, w2).
           res_bind (setReadCallback connEvent (Cb_conn_msg newConn) w2) (\<lambda>w3.
             res_bind (setReadable os connEvent True w3) (\<lambda>w4. Inr (newConn, w4))))))"

definition accept_pass :: "'k os \<Rightarrow> 'k server \<Rightarrow> 'k sworld \<Rightarrow> (bool \<times> 'k sworld) res" where
  "accept_pass os srv w =
     (let (connfd, e) = socket_accept os (listenfd srv) (env w); w0 = w\<lparr>env := e\<rparr> in
      if connfd \<le> 0 then Inr (False, w0)
      else
        res_bind (new_connection os srv connfd w0) (\<lambda>(newConn, w1).
          case connEstaCallback srv of
            None \<Rightarrow> Inr (True, w1)
          | Some f \<Rightarrow> res_bind (f newConn w1) (\<lambda>w2. Inr (True, w2))))"

partial_function (option) acceptCallback :: "'k os \<Rightarrow> 'k server \<Rightarrow> 'k sworld \<Rightarrow> 'k sworld res option" where
  "acceptCallback os srv w =
     (case accept_pass os srv w of
        Inl err \<Rightarrow> Some (Inl err)
      | Inr r \<Rightarrow> if fst r then acceptCallback os srv (snd r) else Some (Inr (snd r)))"

subsection \<open>Dispatch\<close>

text \<open>
  The event loop calling one of the callbacks a server registers.  The callbacks of timers, of the
  wake-up descriptor and of clients' connects are other components' (\<open>rest\<close>).
\<close>

definition server_callback ::
  "'k os \<Rightarrow> 'k server \<Rightarrow> (callback \<Rightarrow> 'k sworld \<Rightarrow> 'k sworld res) \<Rightarrow> callback \<Rightarrow> 'k sworld \<Rightarrow> 'k sworld res" where
  "server_callback os srv rest cb w =
     (case cb of
        Cb_accept \<Rightarrow> (case acceptCallback os srv w of None \<Rightarrow> Inl Does_not_return | Some r \<Rightarrow> r)
      | Cb_conn_msg c \<Rightarrow> preConnMsgCallback os srv c w
      | Cb_send_nonblock c \<Rightarrow> send_nonblock os (activeClose os srv) c w
      | _ \<Rightarrow> rest cb w)"

subsection \<open>The server keeps the contract of \<open>TcpSource\<close>\<close>

text \<open>What the server assumes of its surroundings: the kernel's contract and well-behaved callbacks.\<close>

definition server_env_ok ::
  "'k os \<Rightarrow> (fd \<Rightarrow> 'k \<Rightarrow> bytes) \<Rightarrow> (fd \<Rightarrow> 'k \<Rightarrow> bytes) \<Rightarrow> (fd \<Rightarrow> 'k \<Rightarrow> (fd \<rightharpoonup> epoll_event)) \<Rightarrow>
     'k server \<Rightarrow> bool" where
  "server_env_ok os inq outq interest srv \<longleftrightarrow>
     os_contract os inq outq interest \<and>
     (\<forall>f. connMsgCallback srv = Some f \<longrightarrow> callback_ok interest f) \<and>
     (\<forall>f. connEstaCallback srv = Some f \<longrightarrow> callback_ok interest f) \<and>
     (\<forall>f. connCloseCallback srv = Some f \<longrightarrow> close_callback_ok interest f)"

lemma server_env_okD:
  assumes "server_env_ok os inq outq interest srv"
  shows "os_contract os inq outq interest"
    and "connMsgCallback srv = Some f \<Longrightarrow> callback_ok interest f"
    and "connEstaCallback srv = Some f \<Longrightarrow> callback_ok interest f"
    and "connCloseCallback srv = Some f \<Longrightarrow> close_callback_ok interest f"
  using assms by (simp_all add: server_env_ok_def)

lemma bare_server_sel [simp]:
  "listenfd (bare_server f cd) = f" "codec (bare_server f cd) = cd" "connMsgCallback (bare_server f cd) = None"
  "connEstaCallback (bare_server f cd) = None" "connCloseCallback (bare_server f cd) = None"
  by (simp_all add: bare_server_def)

text \<open>A server keeps its part of the contract as long as it is given callbacks that keep theirs.\<close>

lemma server_env_ok_build:
  "os_contract os inq outq interest \<Longrightarrow> server_env_ok os inq outq interest (bare_server f cd)"
  "server_env_ok os inq outq interest srv \<Longrightarrow> callback_ok interest cb \<Longrightarrow>
     server_env_ok os inq outq interest (setConnMsgCallback cb srv)"
  "server_env_ok os inq outq interest srv \<Longrightarrow> callback_ok interest cb \<Longrightarrow>
     server_env_ok os inq outq interest (setConnEstaCallback cb srv)"
  "server_env_ok os inq outq interest srv \<Longrightarrow> close_callback_ok interest cb \<Longrightarrow>
     server_env_ok os inq outq interest (setConnCloseCallback cb srv)"
  by (simp_all add: server_env_ok_def setConnMsgCallback_def setConnEstaCallback_def setConnCloseCallback_def)

lemma closeConnection_cases:
  assumes "conns w c = Some x"
  obtains (bad_thread) "closeConnection os srv c cb w = Inl Assert_failed"
    | (runs) "conn_data x = Some (localEventLoop w)" "cb = None"
        "closeConnection os srv c cb w = close_common os (delete_conn os) (connCloseCallback srv) c w"
  using assms that
  by (cases "conn_data x = Some (localEventLoop w) \<and> cb = None") (auto simp: closeConnection_def)

lemma activeClose_eq:
  "conns w c = Some x \<Longrightarrow> activeClose os srv c w = closeConnection os srv c (destoryCallback x) w"
  by (simp add: activeClose_def)

text \<open>Closing directly, and closing by \<open>activeClose\<close>.\<close>

interpretation server_close: closing_source os inq outq interest "server_env_ok os inq outq interest srv" "delete_conn os"
  "\<lambda>c. closeConnection os srv c cb" "\<lambda>x. connCloseCallback srv" for os inq outq interest srv cb
proof unfold_locales
  fix w :: "'a sworld" and c x
  assume "conns w c = Some x"
  then show "closeConnection os srv c cb w = close_common os (delete_conn os) (connCloseCallback srv) c w \<or>
      closeConnection os srv c cb w = Inl Assert_failed"
    by (cases rule: closeConnection_cases [of w c x os srv cb]) simp_all
qed (rule server_env_okD delete_disposes, (assumption | erule server_env_okD(1))+)+

interpretation server_source: closing_source os inq outq interest "server_env_ok os inq outq interest srv" "delete_conn os"
  "activeClose os srv" "\<lambda>x. connCloseCallback srv" for os inq outq interest srv
proof unfold_locales
  fix w :: "'a sworld" and c x
  assume c: "conns w c = Some x"
  then show "activeClose os srv c w = close_common os (delete_conn os) (connCloseCallback srv) c w \<or>
      activeClose os srv c w = Inl Assert_failed"
    using server_close.source_close [OF c] by (simp add: activeClose_eq)
qed (rule server_env_okD delete_disposes, (assumption | erule server_env_okD(1))+)+

subsection \<open>What a readable event does\<close>

text \<open>
  The read buffer and the thread mark of one connection change, nothing else: its invariant and that
  of the world stay.
\<close>

lemma conn_inv_received:
  assumes inv: "conn_inv interest w" and c: "conns w c = Some x" and st: "conn_state x \<noteq> BLANK"
    and b: "buf_inv b" and e: "\<And>ep. interest ep (kern e) = interest ep (kern (env w))"
    and w1: "w1 = (upd_conn c (x\<lparr>conn_data := d, readBuffer := b\<rparr>) w)\<lparr>env := e\<rparr>"
  shows "conn_inv interest w1" "frame c (conn_event x) w w1"
    "conns w1 c = Some (x\<lparr>conn_data := d, readBuffer := b\<rparr>)"
proof -
  show fr: "frame c (conn_event x) w w1" and c1: "conns w1 c = Some (x\<lparr>conn_data := d, readBuffer := b\<rparr>)"
    by (simp_all add: w1 upd_conn_def frame_def)
  have reg: "registered interest w1"
    by (rule registered_cong [OF conn_invD(1) [OF inv]]) (simp_all add: w1 upd_conn_def e)
  obtain ev where ev: "evs w (conn_event x) = Some ev" "ev_fd ev = sockfd x"
    "epoller ev = loop_ep w (conn_loop x)" "buf_inv (readBuffer x)" "buf_inv (writeBuffer x)"
    "c < next_conn w" "isWritable ev \<longleftrightarrow> contents (writeBuffer x) \<noteq> []"
    "isWritable ev \<Longrightarrow> writeCallback ev = Some (Cb_send_nonblock c)" "cb_own c ev"
    using event_of [OF inv c] st by metis
  have "conn_ok w1 c (x\<lparr>conn_data := d, readBuffer := b\<rparr>)"
    using ev b by (simp add: conn_ok_def w1 upd_conn_def)
  then show "conn_inv interest w1"
    using conn_inv_frame [OF inv c fr reg c1] by simp
qed

lemma preConnMsg_cases:
  assumes ok: "server_env_ok os inq outq interest srv" and inv: "conn_inv interest w"
    and c: "conns w c = Some x" and st: "conn_state x \<noteq> BLANK"
  obtains (no_memory) "preConnMsgCallback os srv c w = Inl Length_error"
    | (closing) w1 x1 where "preConnMsgCallback os srv c w = closeConnection os srv c None w1"
        "conn_inv interest w1" "frame c (conn_event x) w w1" "conns w1 c = Some x1"
        "x1 = x\<lparr>conn_data := Some (localEventLoop w), readBuffer := readBuffer x1\<rparr>"
        "contents (readBuffer x1) = contents (readBuffer x)"
        "outq (sockfd x) (kern (env w1)) = outq (sockfd x) (kern (env w))"
    | (received) w1 x1 b v lg where
        "preConnMsgCallback os srv c w =
           (if v then (case connMsgCallback srv of None \<Rightarrow> Inl Bad_function_call | Some f \<Rightarrow> f c w1) else Inr w1)"
        "conn_inv interest w1" "frame c (conn_event x) w w1" "conns w1 c = Some x1"
        "x1 = x\<lparr>conn_data := Some (localEventLoop w), readBuffer := readBuffer x1\<rparr>"
        "codec_check (codec srv) b = (v, readBuffer x1, lg)" "buf_inv b"
        "contents b @ inq (sockfd x) (kern (env w1)) = contents (readBuffer x) @ inq (sockfd x) (kern (env w))"
        "outq (sockfd x) (kern (env w1)) = outq (sockfd x) (kern (env w))"
proof -
  let ?x = "x\<lparr>conn_data := Some (localEventLoop w)\<rparr>"
  note os = os_contractD [OF server_env_okD(1) [OF ok]]
  have bi: "buf_inv (readBuffer x)" using event_of [OF inv c] by metis
  obtain r where r: "read_from_socket os (sockfd x) (env w) (readBuffer x) default_maxBytes = Some r"
    "read_result_ok inq outq (sockfd x) (readBuffer x) (env w) r"
    using read_from_socket_total [OF os(1) bi, of default_maxBytes "sockfd x" "env w"]
    by (auto simp: request_ok_def default_maxBytes_def)
  show ?thesis
  proof (cases r)
    case (Inl err)
    then show ?thesis
      using r c by (intro no_memory) (simp add: preConnMsgCallback_def read_result_ok_def Let_def)
  next
    case (Inr t)
    obtain n b e where t: "t = (n, b, e)" by (cases t)
    have i: "interest ep (kern e) = interest ep (kern (env w))" for ep
      using read_from_socket_interest [OF os(3)] r(1) Inr t by blast
    have b: "buf_inv b" "outq (sockfd x) (kern e) = outq (sockfd x) (kern (env w))"
      "contents b @ inq (sockfd x) (kern e) = contents (readBuffer x) @ inq (sockfd x) (kern (env w))"
      "n \<le> 0 \<Longrightarrow> contents b = contents (readBuffer x)"
      using r(2) Inr t by (simp_all add: read_result_ok_def)
    define y where "y = x\<lparr>conn_data := Some (localEventLoop w), readBuffer := b\<rparr>"
    define w1 where "w1 = (upd_conn c y w)\<lparr>env := e\<rparr>"
    consider "n = 0" | "n < 0" | "0 < n" by linarith
    then show ?thesis
    proof cases
      case 1
      note k = conn_inv_received [OF inv c st b(1) i w1_def [unfolded y_def]]
      have "preConnMsgCallback os srv c w = closeConnection os srv c None w1"
        using c r(1) Inr t 1 by (simp add: preConnMsgCallback_def w1_def y_def Let_def)
      then show ?thesis
        using k b 1 by (intro closing [of w1 y]) (simp_all add: y_def w1_def)
    next
      case 2
      define w2 where "w2 = w1\<lparr>env := add_log (Sys ''read from socket error'') e\<rparr>"
      have w2: "w2 = (upd_conn c y w)\<lparr>env := add_log (Sys ''read from socket error'') e\<rparr>"
        by (simp add: w2_def w1_def)
      have i2: "interest ep (kern (add_log (Sys ''read from socket error'') e)) = interest ep (kern (env w))" for ep
        by (simp add: i)
      note k = conn_inv_received [OF inv c st b(1) i2 w2 [unfolded y_def]]
      have "preConnMsgCallback os srv c w = closeConnection os srv c None w2"
        using c r(1) Inr t 2 by (simp add: preConnMsgCallback_def w2_def w1_def y_def Let_def)
      then show ?thesis
        using k b 2 by (intro closing [of w2 y]) (simp_all add: y_def w2_def)
    next
      case 3
      obtain v b' lg where cd: "codec_check (codec srv) b = (v, b', lg)" by (metis prod_cases3)
      have b': "buf_inv b'" using codec_check_keeps(1) [OF b(1) cd] .
      define z where "z = x\<lparr>conn_data := Some (localEventLoop w), readBuffer := b'\<rparr>"
      define w2 where "w2 = (upd_conn c z w)\<lparr>env := e\<lparr>logs := logs e @ lg\<rparr>\<rparr>"
      have i2: "interest ep (kern (e\<lparr>logs := logs e @ lg\<rparr>)) = interest ep (kern (env w))" for ep
        by (simp add: i)
      note k = conn_inv_received [OF inv c st b' i2 w2_def [unfolded z_def]]
      have "preConnMsgCallback os srv c w =
          (if v then (case connMsgCallback srv of None \<Rightarrow> Inl Bad_function_call | Some f \<Rightarrow> f c w2) else Inr w2)"
        using c r(1) Inr t 3 cd by (simp add: preConnMsgCallback_def w2_def z_def upd_conn_def Let_def split: option.split)
      then show ?thesis
        using k b cd by (intro received [of v w2 z b lg]) (simp_all add: z_def w2_def)
    qed
  qed
qed

text \<open>The two consequences every caller needs.\<close>

lemma preConnMsg_live:
  assumes "server_env_ok os inq outq interest srv" and "conn_inv interest w"
    and "conns w c = Some x" and "conn_state x \<noteq> BLANK"
  shows "preConnMsgCallback os srv c w \<noteq> Inl Use_after_free"
  using assms
proof (cases rule: preConnMsg_cases)
  case (closing w1 x1)
  have "conn_state x1 \<noteq> BLANK" using assms(4) by (subst closing(5)) simp
  then show ?thesis using server_close.close_live [OF assms(1) closing(2,4)] closing(1) by simp
next
  case (received w1 x1 b v lg)
  have "conn_state x1 \<noteq> BLANK" using assms(4) by (subst received(5)) simp
  then show ?thesis
    using callback_ok_live [OF server_env_okD(2) [OF assms(1)] received(2,4)] received(1)
    by (auto split: option.splits)
qed simp

lemma preConnMsg_keeps:
  assumes "server_env_ok os inq outq interest srv" and "conn_inv interest w"
    and "conns w c = Some x" and "conn_state x \<noteq> BLANK"
    and run: "preConnMsgCallback os srv c w = Inr w'"
  shows "conn_inv interest w' \<and> frame c (conn_event x) w w' \<and>
    (\<forall>x'. conns w' c = Some x' \<longrightarrow> conn_state x' \<noteq> BLANK)"
  using assms(1-4)
proof (cases rule: preConnMsg_cases)
  case no_memory
  then show ?thesis using run by simp
next
  case (closing w1 x1)
  have x1: "conn_state x1 \<noteq> BLANK" "conn_event x1 = conn_event x"
    using assms(4) by (subst closing(5), simp)+
  have cl: "closeConnection os srv c None w1 = Inr w'" using run closing(1) by simp
  show ?thesis
    using server_close.close_keeps_inv [OF assms(1) closing(2,4) x1(1) cl] frame_trans [OF closing(3)] x1(2) by auto
next
  case (received w1 x1 b v lg)
  have x1: "conn_state x1 \<noteq> BLANK" "conn_event x1 = conn_event x"
    using assms(4) by (subst received(5), simp)+
  show ?thesis
  proof (cases v)
    case False
    then show ?thesis using received run x1 by simp
  next
    case True
    with received(1) run obtain f where f: "connMsgCallback srv = Some f" "f c w1 = Inr w'"
      by (auto split: option.splits)
    from callback_okD [OF server_env_okD(2) [OF assms(1) f(1)] received(2,4) x1(1) f(2)]
    show ?thesis using frame_trans [OF received(3)] x1(2) by auto
  qed
qed

subsection \<open>Accepting keeps the invariant\<close>

definition server_inv :: "(fd \<Rightarrow> 'k \<Rightarrow> (fd \<rightharpoonup> epoll_event)) \<Rightarrow> ('k, 'z) conn_world_scheme \<Rightarrow> bool" where
  "server_inv interest w \<longleftrightarrow>
     conn_inv interest w \<and> (\<forall>c x. conns w c = Some x \<longrightarrow> conn_state x \<noteq> BLANK)"

lemma conn_inv_pool: "conn_inv interest (w\<lparr>pool := p\<rparr>) = conn_inv interest w"
proof -
  have "registered interest (w\<lparr>pool := p\<rparr>) = registered interest w"
    by (simp add: registered_def)
  then show ?thesis by (simp add: conn_inv_def conn_ok_def)
qed

lemma server_invD:
  assumes "server_inv interest w"
  shows "conn_inv interest w" and "conns w c = Some x \<Longrightarrow> conn_state x \<noteq> BLANK"
  using assms unfolding server_inv_def by blast+

text \<open>
  A new connection: established, with empty buffers, on the chosen loop; its event, new as well,
  asks for input with the message callback of that connection.
\<close>

lemma new_connection_spec:
  assumes os: "os_contract os inq outq interest" and inv: "server_inv interest w"
    and fresh: "\<And>ep. interest ep (kern (env w)) f = None"
    and pool: "getNextPool (pool w) = Inr (l, p)"
  obtains w' ev where "new_connection os srv f w = Inr (next_conn w, w')" "server_inv interest w'"
    "conns w' = (conns w)(next_conn w \<mapsto> new_conn (next_ev w) f l)"
    "evs w' = (evs w)(next_ev w \<mapsto> ev)" "next_ev w' = Suc (next_ev w)" "next_conn w' = Suc (next_conn w)"
    "isReadable ev" "\<not> isWritable ev" "readCallback ev = Some (Cb_conn_msg (next_conn w))"
    "ev_fd ev = f" "epoller ev = loop_ep w l" "loop_ep w' = loop_ep w"
    "localEventLoop w' = localEventLoop w" "pool w' = p"
proof -
  let ?c = "next_conn w" and ?x = "new_conn (next_ev w) f l"
  define w0 where "w0 = w\<lparr>pool := p\<rparr>"
  have w0: "evs w0 = evs w" "env w0 = env w" "next_ev w0 = next_ev w" "conns w0 = conns w"
    "next_conn w0 = next_conn w" "loop_ep w0 = loop_ep w" "localEventLoop w0 = localEventLoop w" "pool w0 = p"
    by (simp_all add: w0_def)
  have inv0: "conn_inv interest w0" using server_invD(1) [OF inv] by (simp add: w0_def conn_inv_pool)
  have fresh0: "interest ep (kern (env w0)) f = None" for ep using fresh by (simp add: w0)
  obtain w1 e where mk: "make_event os f (loop_ep w0 l) w0 = Inr (next_ev w0, w1)"
    "makeHeapObject os (next_ev w0) l w1 = Inr (next_conn w0, with_conn f l e w0)"
    "conn_inv interest (with_conn f l e w0)"
    using make_conn_spec [OF os inv0 fresh0] by metis
  have x: "conns (with_conn f l e w0) ?c = Some ?x" "evs (with_conn f l e w0) (conn_event ?x) = Some (new_event f (loop_ep w l))"
    by (simp_all add: w0)
  obtain w' ev where w': "res_bind (setReadCallback (next_ev w) (Cb_conn_msg ?c) (with_conn f l e w0))
      (setReadable os (next_ev w) True) = Inr w'"
    "conn_inv interest w'" "frame ?c (next_ev w) (with_conn f l e w0) w'" "conns w' = conns (with_conn f l e w0)"
    "evs w' = (evs (with_conn f l e w0))(next_ev w \<mapsto> ev)" "isReadable ev" "isWritable ev = isWritable (new_event f (loop_ep w l))"
    "readCallback ev = Some (Cb_conn_msg ?c)" "ev_fd ev = ev_fd (new_event f (loop_ep w l))"
    "epoller ev = epoller (new_event f (loop_ep w l))"
    using listening_conn [OF os mk(3) x] by (metis new_conn_sel(2))
  have run: "new_connection os srv f w = Inr (?c, w')"
    using pool mk(1,2) w'(1) by (auto simp: new_connection_def w0_def [symmetric] w0)
  have "server_inv interest w'"
    using server_invD(2) [OF inv] w'(2,4) by (auto simp: server_inv_def w0 split: if_splits)
  moreover have "pool w' = p"
    using frameD(7) [OF w'(3)] w0(8) by (cases w'; cases w0) simp
  ultimately show ?thesis
    using run w' frameD [OF w'(3)] by (intro that [of w' ev]) (simp_all add: w0)
qed

lemma server_inv_frame:
  assumes "server_inv interest w" and "conn_inv interest w'" and "frame c p w w'"
    and "\<And>x. conns w' c = Some x \<Longrightarrow> conn_state x \<noteq> BLANK"
  shows "server_inv interest w'"
  unfolding server_inv_def
proof (intro conjI allI impI)
  fix d y assume "conns w' d = Some y"
  then show "conn_state y \<noteq> BLANK"
    using assms(4) server_invD(2) [OF assms(1)] frameD(1) [OF assms(3)] by (cases "d = c") auto
qed (rule assms(2))

lemma socket_accept_cases:
  assumes os: "frame_contract os inq outq interest" and run: "socket_accept os f e = (c, e')"
  shows "interest ep (kern e') = interest ep (kern e)" and "0 < c \<Longrightarrow> interest ep (kern e') c = None"
    and "0 < c \<Longrightarrow> \<exists>k. sys_accept os f (kern e) = (Inr c, k) \<and> e' = e\<lparr>kern := k\<rparr>"
proof -
  obtain a k where ac: "sys_accept os f (kern e) = (a, k)" by fastforce
  have k: "kern e' = k" using run ac by (auto simp: socket_accept_def split: sum.splits if_splits)
  then show i: "interest ep (kern e') = interest ep (kern e)"
    using frame_contractD(3) [OF os ac] by simp
  assume "0 < c"
  then have "a = Inr c" using run ac by (auto simp: socket_accept_def split: sum.splits if_splits)
  then show "interest ep (kern e') c = None" "\<exists>k. sys_accept os f (kern e) = (Inr c, k) \<and> e' = e\<lparr>kern := k\<rparr>"
    using frame_contractD(10) [OF os, of f "kern e" c k ep] ac i run by (auto simp: socket_accept_def)
qed

lemma server_inv_env:
  assumes "server_inv interest w" and "\<And>ep. interest ep (kern e) = interest ep (kern (env w))"
  shows "server_inv interest (w\<lparr>env := e\<rparr>)"
proof -
  note inv = server_invD(1) [OF assms(1)]
  have "registered interest (w\<lparr>env := e\<rparr>)"
    by (rule registered_cong [OF conn_invD(1) [OF inv]]) (simp_all add: assms(2))
  then show ?thesis
    using assms(1) inv by (auto simp: server_inv_def conn_inv_def conn_ok_def)
qed

lemma getNextPool_errors: "getNextPool p = Inl e \<Longrightarrow> e = Div_by_zero \<or> e = Out_of_bounds"
  by (auto simp: getNextPool_def Let_def split: if_splits)

lemma accept_pass_ok:
  assumes ok: "server_env_ok os inq outq interest srv" and inv: "server_inv interest w"
  shows "accept_pass os srv w \<noteq> Inl Use_after_free"
    and "accept_pass os srv w = Inr (go, w') \<Longrightarrow> server_inv interest w' \<and> keeps_events {} w w'"
proof -
  note os = server_env_okD(1) [OF ok]
  obtain f e where acc: "socket_accept os (listenfd srv) (env w) = (f, e)" by fastforce
  note a = socket_accept_cases [OF os_contractD(3) [OF os] acc]
  define w0 where "w0 = w\<lparr>env := e\<rparr>"
  have inv0: "server_inv interest w0" using server_inv_env [OF inv] a(1) by (simp add: w0_def)
  have "accept_pass os srv w \<noteq> Inl Use_after_free \<and>
      (\<forall>go w'. accept_pass os srv w = Inr (go, w') \<longrightarrow> server_inv interest w' \<and> keeps_events {} w w')"
  proof (cases "f \<le> 0")
    case True
    then show ?thesis using acc inv0 by (simp add: accept_pass_def w0_def keeps_events_def)
  next
    case False
    then have fresh: "interest ep (kern (env w0)) f = None" for ep using a(2) by (simp add: w0_def)
    show ?thesis
    proof (cases "getNextPool (pool w0)")
      case (Inl err)
      then have "accept_pass os srv w = Inl err"
        using acc False by (simp add: accept_pass_def w0_def new_connection_def)
      then show ?thesis using getNextPool_errors [OF Inl] by auto
    next
      case (Inr lp)
      obtain l p where lp: "getNextPool (pool w0) = Inr (l, p)" using Inr by (cases lp) simp
      obtain w1 ev where n: "new_connection os srv f w0 = Inr (next_conn w0, w1)" "server_inv interest w1"
        "conns w1 = (conns w0)(next_conn w0 \<mapsto> new_conn (next_ev w0) f l)"
        "evs w1 = (evs w0)(next_ev w0 \<mapsto> ev)"
        using new_connection_spec [OF os inv0 fresh lp, of srv] by metis
      have old: "evs w (next_ev w0) = None"
        using registeredD(1) [OF conn_invD(1) [OF server_invD(1) [OF inv]], of "next_ev w0"]
        by (cases "evs w (next_ev w0)") (auto simp: w0_def)
      have k1: "keeps_events {} w w1" by (simp add: keeps_events_def n(4) w0_def)
      have c1: "conns w1 (next_conn w0) = Some (new_conn (next_ev w0) f l)" by (simp add: n(3))
      have st: "conn_state (new_conn (next_ev w0) f l) \<noteq> BLANK" by (simp add: new_conn_def)
      have pass: "accept_pass os srv w = (case connEstaCallback srv of None \<Rightarrow> Inr (True, w1)
          | Some g \<Rightarrow> res_bind (g (next_conn w0) w1) (\<lambda>w2. Inr (True, w2)))"
        using acc False n(1) by (simp add: accept_pass_def w0_def split: option.split)
      show ?thesis
      proof (cases "connEstaCallback srv")
        case None
        then show ?thesis using pass n(2) k1 by simp
      next
        case (Some g)
        note g = server_env_okD(3) [OF ok Some]
        have live: "g (next_conn w0) w1 \<noteq> Inl Use_after_free"
          using callback_ok_live [OF g server_invD(1) [OF n(2)] c1 st] .
        show ?thesis
        proof (cases "g (next_conn w0) w1")
          case (Inl err)
          then show ?thesis using pass Some live by simp
        next
          case (Inr w2)
          note d = callback_okD [OF g server_invD(1) [OF n(2)] c1 st Inr]
          have "server_inv interest w2"
            using server_inv_frame [OF n(2) d(1,2)] d(4) by blast
          moreover have "keeps_events {} w w2"
            using keeps_events_trans [OF k1 keeps_events_frame [OF d(2)]] old
            by (simp add: keeps_events_def new_conn_def) (metis option.distinct(1))
          ultimately show ?thesis using pass Some Inr by simp
        qed
      qed
    qed
  qed
  then show "accept_pass os srv w \<noteq> Inl Use_after_free"
    "accept_pass os srv w = Inr (go, w') \<Longrightarrow> server_inv interest w' \<and> keeps_events {} w w'" by auto
qed

lemma acceptCallback_ok:
  assumes ok: "server_env_ok os inq outq interest srv" and "server_inv interest w"
    and run: "acceptCallback os srv w = Some r"
  shows "r \<noteq> Inl Use_after_free" and "r = Inr w' \<Longrightarrow> server_inv interest w' \<and> keeps_events {} w w'"
proof -
  have "os' = os \<and> srv' = srv \<and> server_inv interest w0 \<longrightarrow>
      r \<noteq> Inl Use_after_free \<and> (\<forall>w'. r = Inr w' \<longrightarrow> server_inv interest w' \<and> keeps_events {} w0 w')"
    if "acceptCallback os' srv' w0 = Some r" for os' srv' w0 r
  proof (rule acceptCallback.raw_induct [where P = "\<lambda>os' srv' w0 r. os' = os \<and> srv' = srv \<and>
      server_inv interest w0 \<longrightarrow> r \<noteq> Inl Use_after_free \<and>
      (\<forall>w'. r = Inr w' \<longrightarrow> server_inv interest w' \<and> keeps_events {} w0 w')", OF _ that], goal_cases)
    case (1 rec os' srv' w0 r)
    show ?case
    proof (intro impI, elim conjE)
      assume same: "os' = os" "srv' = srv" and inv: "server_inv interest w0"
      show "r \<noteq> Inl Use_after_free \<and> (\<forall>w'. r = Inr w' \<longrightarrow> server_inv interest w' \<and> keeps_events {} w0 w')"
      proof (cases "accept_pass os srv w0")
        case (Inl err)
        then show ?thesis using 1(2) same accept_pass_ok(1) [OF ok inv] by auto
      next
        case (Inr t)
        obtain go w1 where t: "t = (go, w1)" by (cases t)
        note p = accept_pass_ok(2) [OF ok inv Inr [unfolded t]]
        show ?thesis
        proof (cases go)
          case False
          then show ?thesis using 1(2) same Inr t p by auto
        next
          case True
          then have "rec os srv w1 = Some r" using 1(2) same Inr t by simp
          from 1(1) [OF this] p have "r \<noteq> Inl Use_after_free \<and>
              (\<forall>w'. r = Inr w' \<longrightarrow> server_inv interest w' \<and> keeps_events {} w1 w')" by blast
          then show ?thesis using p keeps_events_trans [of "{}" w0 w1 "{}"] by auto
        qed
      qed
    qed
  qed
  from this [OF run] show "r \<noteq> Inl Use_after_free"
    "r = Inr w' \<Longrightarrow> server_inv interest w' \<and> keeps_events {} w w'"
    using assms(2) by - blast+
qed

text \<open>
  What accepting has done so far, from \<open>w\<close> to \<open>w'\<close>, when the user has set no callback for new
  connections: the old connections are as they were, every new one is established, with empty
  buffers, on an event that asks for input and hands it to that connection.
\<close>

definition new_conn_ready :: "'k sworld \<Rightarrow> conn_id \<Rightarrow> bool" where
  "new_conn_ready w c \<longleftrightarrow> (\<exists>x ev. conns w c = Some x \<and> conn_state x = ESTABLISHED \<and>
     contents (readBuffer x) = [] \<and> contents (writeBuffer x) = [] \<and>
     evs w (conn_event x) = Some ev \<and> ev_fd ev = sockfd x \<and> isReadable ev \<and> \<not> isWritable ev \<and>
     readCallback ev = Some (Cb_conn_msg c) \<and> epoller ev = loop_ep w (conn_loop x))"

definition accepted :: "'k sworld \<Rightarrow> 'k sworld \<Rightarrow> bool" where
  "accepted w w' \<longleftrightarrow> next_conn w \<le> next_conn w' \<and> (\<forall>c < next_conn w. conns w' c = conns w c) \<and>
     (\<forall>c. next_conn w \<le> c \<longrightarrow> c < next_conn w' \<longrightarrow> new_conn_ready w' c) \<and>
     (\<forall>q < next_ev w. evs w' q = evs w q) \<and> next_ev w \<le> next_ev w' \<and> loop_ep w' = loop_ep w"

lemma accepted_refl: "conns w' = conns w \<Longrightarrow> evs w' = evs w \<Longrightarrow> next_conn w' = next_conn w \<Longrightarrow>
    next_ev w' = next_ev w \<Longrightarrow> loop_ep w' = loop_ep w \<Longrightarrow> accepted w w'"
  by (simp add: accepted_def)

lemma accepted_trans:
  assumes "accepted w w1" and "accepted w1 w2" and inv: "conn_inv interest w1"
  shows "accepted w w2"
proof -
  have "new_conn_ready w2 c" if "next_conn w \<le> c" "c < next_conn w1" for c
  proof -
    have r: "new_conn_ready w1 c" using assms(1) that by (simp add: accepted_def)
    then obtain x ev where x: "conns w1 c = Some x" "evs w1 (conn_event x) = Some ev"
      by (auto simp: new_conn_ready_def)
    have "conns w2 c = Some x" "evs w2 (conn_event x) = Some ev"
      using assms(2) that(2) x registeredD(1) [OF conn_invD(1) [OF inv] x(2)] by (simp_all add: accepted_def)
    then show ?thesis using r x assms(2) by (auto simp: new_conn_ready_def accepted_def)
  qed
  then have "new_conn_ready w2 c" if "next_conn w \<le> c" "c < next_conn w2" for c
    using that assms(2) by (cases "c < next_conn w1") (simp_all add: accepted_def)
  moreover have "conns w2 c = conns w c" if "c < next_conn w" for c
    using assms(1,2) that by (simp add: accepted_def)
  moreover have "evs w2 q = evs w q" if "q < next_ev w" for q
    using assms(1,2) that by (simp add: accepted_def)
  ultimately show ?thesis
    using assms(1,2) unfolding accepted_def by (intro conjI allI impI) simp_all
qed

lemma accept_pass_accepts:
  assumes ok: "server_env_ok os inq outq interest srv" and inv: "server_inv interest w"
    and none: "connEstaCallback srv = None" and run: "accept_pass os srv w = Inr (go, w')"
  shows "accepted w w'"
    and "go \<longleftrightarrow> (\<exists>c k. sys_accept os (listenfd srv) (kern (env w)) = (Inr c, k) \<and> 0 < c)"
proof -
  note os = server_env_okD(1) [OF ok]
  obtain f e where acc: "socket_accept os (listenfd srv) (env w) = (f, e)" by fastforce
  note a = socket_accept_cases [OF os_contractD(3) [OF os] acc]
  define w0 where "w0 = w\<lparr>env := e\<rparr>"
  have inv0: "server_inv interest w0" using server_inv_env [OF inv] a(1) by (simp add: w0_def)
  have "accepted w w' \<and> (go \<longleftrightarrow> 0 < f)"
  proof (cases "f \<le> 0")
    case True
    then show ?thesis using acc run by (auto simp: accept_pass_def w0_def intro: accepted_refl)
  next
    case False
    then have fresh: "interest ep (kern (env w0)) f = None" for ep using a(2) by (simp add: w0_def)
    have "\<exists>c. new_connection os srv f w0 = Inr (c, w') \<and> go"
      using acc False run none by (auto simp: accept_pass_def w0_def)
    then obtain c where n: "new_connection os srv f w0 = Inr (c, w')" "go" by blast
    then obtain l p where lp: "getNextPool (pool w0) = Inr (l, p)"
      by (auto simp: new_connection_def)
    obtain w1 ev where n1: "new_connection os srv f w0 = Inr (next_conn w0, w1)"
      "conns w1 = (conns w0)(next_conn w0 \<mapsto> new_conn (next_ev w0) f l)"
      "evs w1 = (evs w0)(next_ev w0 \<mapsto> ev)" "next_ev w1 = Suc (next_ev w0)" "next_conn w1 = Suc (next_conn w0)"
      "isReadable ev" "\<not> isWritable ev" "readCallback ev = Some (Cb_conn_msg (next_conn w0))"
      "ev_fd ev = f" "epoller ev = loop_ep w0 l" "loop_ep w1 = loop_ep w0"
      using new_connection_spec [OF os inv0 fresh lp, of srv] by metis
    have "w' = w1" using n(1) n1(1) by simp
    have "new_conn_ready w1 (next_conn w0)"
      using n1 by (simp add: new_conn_ready_def)
    moreover have "next_conn w0 = next_conn w" "next_ev w0 = next_ev w" "conns w0 = conns w" "evs w0 = evs w"
      "loop_ep w0 = loop_ep w"
      by (simp_all add: w0_def)
    ultimately show ?thesis
      using n1 False n(2) \<open>w' = w1\<close> by (auto simp: accepted_def less_Suc_eq)
  qed
  moreover have "0 < f \<longleftrightarrow> (\<exists>c k. sys_accept os (listenfd srv) (kern (env w)) = (Inr c, k) \<and> 0 < c)"
    using acc by (cases "sys_accept os (listenfd srv) (kern (env w))"; cases "fst (sys_accept os (listenfd srv) (kern (env w)))")
      (auto simp: socket_accept_def)
  ultimately show "accepted w w'"
    "go \<longleftrightarrow> (\<exists>c k. sys_accept os (listenfd srv) (kern (env w)) = (Inr c, k) \<and> 0 < c)" by auto
qed

text \<open>
  The queue of a listening socket: \<open>pending f k\<close> connections wait on \<open>f\<close>.  A successful \<open>accept\<close>
  takes one of them and returns a descriptor other than 0, a failing one takes none, \<open>EAGAIN\<close> says that none is
  waiting, the other calls made while accepting do not touch the queue.
\<close>

definition backlog_contract :: "'k os \<Rightarrow> (fd \<Rightarrow> 'k \<Rightarrow> nat) \<Rightarrow> bool" where
  "backlog_contract os pending \<longleftrightarrow>
     (\<forall>f k c k'. sys_accept os f k = (Inr c, k') \<longrightarrow> 0 < c \<and> pending f k = Suc (pending f k')) \<and>
     (\<forall>f k e k'. sys_accept os f k = (Inl e, k') \<longrightarrow>
        pending f k' = pending f k \<and> (e = EAGAIN \<longrightarrow> pending f k = 0)) \<and>
     (\<forall>ep op f ev k a k' g. sys_epoll_ctl os ep op f ev k = (a, k') \<longrightarrow> pending g k' = pending g k) \<and>
     (\<forall>f k a k' g. sys_getfl os f k = (a, k') \<longrightarrow> pending g k' = pending g k) \<and>
     (\<forall>f fl k a k' g. sys_setfl os f fl k = (a, k') \<longrightarrow> pending g k' = pending g k)"

lemma backlog_contractD:
  assumes "backlog_contract os pending" and "sys_accept os f k = (Inr c, k')"
  shows "0 < c \<and> pending f k = Suc (pending f k')"
proof -
  have "\<forall>f k c k'. sys_accept os f k = (Inr c, k') \<longrightarrow> 0 < c \<and> pending f k = Suc (pending f k')"
    using assms(1) by (simp add: backlog_contract_def)
  then show ?thesis using assms(2) by blast
qed

lemma backlog_kept:
  assumes "backlog_contract os pending" and "sys_accept os f k = (Inl e, k')"
  shows "pending f k' = pending f k" and "e = EAGAIN \<Longrightarrow> pending f k = 0"
proof -
  have "\<forall>f k e k'. sys_accept os f k = (Inl e, k') \<longrightarrow> pending f k' = pending f k \<and> (e = EAGAIN \<longrightarrow> pending f k = 0)"
    using assms(1) by (simp add: backlog_contract_def)
  then show "pending f k' = pending f k" and "e = EAGAIN \<Longrightarrow> pending f k = 0" using assms(2) by blast+
qed

lemma backlog_logged:
  assumes "backlog_contract os pending"
  shows "pending g (kern (logged msg (sys_epoll_ctl os ep op f m) e)) = pending g (kern e)"
    and "pending g (kern (setNonblock os f e)) = pending g (kern e)"
proof -
  show "pending g (kern (logged msg (sys_epoll_ctl os ep op f m) e)) = pending g (kern e)"
    using assms unfolding backlog_contract_def by (metis logged_cases)
  obtain r k where r: "sys_getfl os f (kern e) = (r, k)" by fastforce
  then have k: "pending g k = pending g (kern e)" using assms unfolding backlog_contract_def by blast
  have "pending g (kern (logged m (sys_setfl os f fl) e')) = pending g (kern e')" for m fl e'
    using assms unfolding backlog_contract_def by (metis logged_cases)
  then show "pending g (kern (setNonblock os f e)) = pending g (kern e)"
    using r k by (cases r) (simp_all add: setNonblock_def)
qed

lemma new_connection_pending:
  assumes "backlog_contract os pending" and "new_connection os srv f w = Inr (c, w')"
  shows "pending g (kern (env w')) = pending g (kern (env w))"
  using assms(2)
  by (auto simp: new_connection_def make_event_def get_new_object_def add_event_def makeHeapObject_def
      setReadCallback_def setReadable_def set_mask_def update_event_def Let_def
      backlog_logged [OF assms(1)])

lemma getNextPool_total:
  assumes "threads p = 0 \<or> pool_ok p"
  obtains l p' where "getNextPool p = Inr (l, p')" "threads p' = 0 \<or> pool_ok p'"
proof (cases "threads p = 0")
  case True
  then show ?thesis by (intro that [of "single_loop p" p]) (simp_all add: getNextPool_def)
next
  case False
  with assms have "pool_ok p" by simp
  then show ?thesis using getNextPool_ok that by blast
qed

subsection \<open>A whole batch of events\<close>

text \<open>What is asked of the callbacks of other components that share the loop.\<close>

definition others_ok ::
  "(fd \<Rightarrow> 'k \<Rightarrow> (fd \<rightharpoonup> epoll_event)) \<Rightarrow> (callback \<Rightarrow> 'k sworld \<Rightarrow> 'k sworld res) \<Rightarrow> bool" where
  "others_ok interest rest \<longleftrightarrow>
     (\<forall>cb w. server_inv interest w \<longrightarrow> rest cb w \<noteq> Inl Use_after_free \<and>
        (\<forall>w'. rest cb w = Inr w' \<longrightarrow> server_inv interest w' \<and> keeps_events {} w w'))"

lemma server_callback_ok:
  assumes ok: "server_env_ok os inq outq interest srv" and others: "others_ok interest rest"
    and inv: "server_inv interest w" and ev: "evs w p = Some ev" and cb: "handle ev = Some cb"
  shows "server_callback os srv rest cb w \<noteq> Inl Use_after_free \<and>
    (\<forall>w'. server_callback os srv rest cb w = Inr w' \<longrightarrow> server_inv interest w' \<and> keeps_events {p} w w')"
proof -
  have up: "keeps_events {} w w' \<Longrightarrow> keeps_events {p} w w'" for w' by (simp add: keeps_events_def)
  note ci = server_invD(1) [OF inv]
  have rest: ?thesis if "server_callback os srv rest cb w = rest cb w"
    using others inv up that unfolding others_ok_def by metis
  show ?thesis
  proof (cases cb)
    case Cb_accept
    show ?thesis
    proof (cases "acceptCallback os srv w")
      case (Some r)
      then show ?thesis
        using acceptCallback_ok [OF ok inv Some] up Cb_accept by (auto simp: server_callback_def)
    qed (simp add: server_callback_def Cb_accept)
  next
    case (Cb_conn_msg c)
    then obtain x where x: "conns w c = Some x" "conn_event x = p"
      using named_owner [OF ci ev, of c] handle_named [OF cb, of c] by auto
    note st = server_invD(2) [OF inv x(1)]
    have eq: "server_callback os srv rest cb w = preConnMsgCallback os srv c w"
      by (simp add: server_callback_def Cb_conn_msg)
    show ?thesis
    proof (intro conjI allI impI)
      show "server_callback os srv rest cb w \<noteq> Inl Use_after_free"
        using preConnMsg_live [OF ok ci x(1) st] eq by simp
      fix w' assume "server_callback os srv rest cb w = Inr w'"
      then have k: "conn_inv interest w'" "frame c p w w'" "\<And>y. conns w' c = Some y \<Longrightarrow> conn_state y \<noteq> BLANK"
        using preConnMsg_keeps [OF ok ci x(1) st] eq x(2) by auto
      show "server_inv interest w'" by (rule server_inv_frame [OF inv k])
      show "keeps_events {p} w w'" by (rule keeps_events_frame [OF k(2)])
    qed
  next
    case (Cb_send_nonblock c)
    then obtain x where x: "conns w c = Some x" "conn_event x = p"
      using named_owner [OF ci ev, of c] handle_named [OF cb, of c] by auto
    note st = server_invD(2) [OF inv x(1)]
    have eq: "server_callback os srv rest cb w = send_nonblock os (activeClose os srv) c w"
      by (simp add: server_callback_def Cb_send_nonblock)
    show ?thesis
    proof (intro conjI allI impI)
      show "server_callback os srv rest cb w \<noteq> Inl Use_after_free"
        using server_source.send_nonblock_live [OF ok ci x(1) st] eq by simp
      fix w' assume "server_callback os srv rest cb w = Inr w'"
      then have run: "send_nonblock os (activeClose os srv) c w = Inr w'" using eq by simp
      have k: "conn_inv interest w'" "frame c p w w'" "\<And>y. conns w' c = Some y \<Longrightarrow> conn_state y \<noteq> BLANK"
        using server_source.send_nonblock_keeps [OF ok ci x(1) st run] x(2) by auto
      show "server_inv interest w'" by (rule server_inv_frame [OF inv k])
      show "keeps_events {p} w w'" by (rule keeps_events_frame [OF k(2)])
    qed
  qed (rule rest, simp add: server_callback_def)+
qed

end
