(* ===== verification/ServerCorrect.thy ===== *)
theory ServerCorrect imports TcpServer begin

section \<open>What a server guarantees\<close>

text \<open>
  The properties of the server's handlers taken together: a pass of the event loop follows no
  dangling pointer, data handed to \<open>send\<close> reaches the kernel whether or not the connection is closed
  behind it, connections are accepted with the right registration.
\<close>

subsection \<open>A server with one connection, for the witnesses\<close>

text \<open>
  Connection 0 on descriptor 7, its event at address 0, loop 1 with epoll instance 3; \<open>out\<close> is
  waiting to be sent, the kernel holds \<open>k\<close>'s streams.
\<close>

definition demo_mask :: "bytes \<Rightarrow> u32" where
  "demo_mask out = (if out = [] then 0x003 else 0x007)"

definition demo_event :: "bytes \<Rightarrow> event" where
  "demo_event out = \<lparr>ev_fd = 7, events = demo_mask out, revents = 0, epoller = 3,
     readCallback = Some (Cb_conn_msg 0), writeCallback = Some (Cb_send_nonblock 0),
     errorCallback = None, closeCallback = None\<rparr>"

definition demo_conn :: "bytes \<Rightarrow> tcp_conn" where
  "demo_conn out = (new_conn 0 7 1)\<lparr>conn_data := Some 1,
     writeBuffer := \<lparr>vec = out, readIndex = 0, writeIndex = length out\<rparr>\<rparr>"

definition demo_world :: "sim \<Rightarrow> bytes \<Rightarrow> sim sworld" where
  "demo_world k out =
     \<lparr>env = \<lparr>kern = k\<lparr>sim_reg := [((3, 7), (demo_mask out, 0))]\<rparr>, logs = []\<rparr>,
      evs = [0 \<mapsto> demo_event out], next_ev = 1, conns = [0 \<mapsto> demo_conn out], next_conn = 1,
      loop_ep = (\<lambda>_. 3), localEventLoop = 1, closed_conns = Map.empty, pool = new_pool 1 []\<rparr>"

definition demo_server :: "codec \<Rightarrow> sim cb option \<Rightarrow> sim server" where
  "demo_server cd msg = \<lparr>listenfd = 4, codec = cd, connMsgCallback = msg, connEstaCallback = None,
     connCloseCallback = None\<rparr>"

lemma demo_world_sel [simp]:
  "conns (demo_world k out) = [0 \<mapsto> demo_conn out]" "evs (demo_world k out) = [0 \<mapsto> demo_event out]"
  "next_conn (demo_world k out) = 1" "next_ev (demo_world k out) = 1" "localEventLoop (demo_world k out) = 1"
  "env (demo_world k out) = \<lparr>kern = k\<lparr>sim_reg := [((3, 7), (demo_mask out, 0))]\<rparr>, logs = []\<rparr>"
  by (simp_all add: demo_world_def)

lemma demo_conn_sel [simp]:
  "conn_state (demo_conn out) = ESTABLISHED" "contents (writeBuffer (demo_conn out)) = out"
  "contents (readBuffer (demo_conn out)) = []" "sockfd (demo_conn out) = 7" "conn_event (demo_conn out) = 0"
  "conn_data (demo_conn out) = Some 1" "destoryCallback (demo_conn out) = None"
  "isWillClose (demo_conn out) = False"
  by (simp_all add: demo_conn_def new_conn_def contents_def new_buffer_def)

lemma demo_server_sel [simp]:
  "codec (demo_server cd msg) = cd" "connMsgCallback (demo_server cd msg) = msg"
  "connEstaCallback (demo_server cd msg) = None" "connCloseCallback (demo_server cd msg) = None"
  "listenfd (demo_server cd msg) = 4"
  by (simp_all add: demo_server_def)

lemma demo_server_inv:
  assumes "length out \<le> vec_max"
  shows "server_inv sim_interest (demo_world k out)"
proof -
  have i: "sim_interest ep (k\<lparr>sim_reg := [((3, 7), (demo_mask out, 0))]\<rparr>) f =
      (if ep = 3 \<and> f = 7 then Some (demo_mask out, 0) else None)" for ep f
    by (auto simp: sim_interest_def)
  have reg: "registered sim_interest (demo_world k out)"
    by (auto simp: registered_def i demo_event_def split: if_splits)
  have ok: "conn_ok (demo_world k out) 0 (demo_conn out)"
    using assms by (auto simp: conn_ok_def demo_event_def isWritable_def demo_mask_def mask_defs
        cb_own_def named_conns_def demo_world_def demo_conn_def new_conn_def contents_def buf_inv_def
        new_buffer_def IO_BUFFER_SIZE_def vec_max_def names_conn_def)
  have "conn_inv sim_interest (demo_world k out)"
    using reg ok by (auto simp: conn_inv_def split: if_splits)
  then show ?thesis by (auto simp: server_inv_def split: if_splits)
qed

lemma demo_env_ok:
  "(\<And>f. msg = Some f \<Longrightarrow> callback_ok sim_interest f) \<Longrightarrow>
     server_env_ok drip_os sim_inq sim_outq sim_interest (demo_server cd msg)"
  by (simp add: server_env_ok_def drip_os_contract)

text \<open>\<open>drip_os\<close> takes one byte of whatever it is offered, so no write of its runs fails or takes nothing.\<close>

lemma drip_answers:
  assumes ok: "server_env_ok drip_os inq outq interest srv" and inv: "conn_inv interest w" and c: "conns w c = Some x"
    and st: "conn_state x \<noteq> BLANK" and last: "contents (writeBuffer x) \<noteq> [] \<or> \<not> isWillClose x"
  shows "set (write_answers drip_os (activeClose drip_os srv) c n w) \<subseteq> {WrBytes 1}"
  using inv c st last
proof (induction n arbitrary: w x)
  case (Suc n)
  note asks = asks_output_iff [OF Suc.prems(1-3)]
  show ?case
  proof (cases "contents (writeBuffer x) = []")
    case True
    then show ?thesis using asks Suc.prems(2) by simp
  next
    case False
    let ?close = "activeClose drip_os srv"
    have wr: "sys_write drip_os (sockfd x) (contents (writeBuffer x)) (kern (env w)) =
        (WrBytes 1, snd (sim_drip (sockfd x) (contents (writeBuffer x)) (kern (env w))))"
      using False by (simp add: sim_drip_def min_def Suc_le_eq)
    have fst_wr: "fst (sim_drip (sockfd x) (contents (writeBuffer x)) (kern (env w))) = WrBytes 1"
      using False by (simp add: sim_drip_def min_def Suc_le_eq)
    obtain w1 x1 where f:
      "send_nonblock drip_os ?close c w = (if contents (writeBuffer x1) = [] \<and> isWillClose x then ?close c w1 else Inr w1)"
      "conn_inv interest w1" "conns w1 c = Some x1" "x1 = x\<lparr>writeBuffer := writeBuffer x1\<rparr>"
      using send_nonblock_flush [OF server_env_okD(1) [OF ok] Suc.prems(1-3) wr, of ?close] by metis
    have x1: "conn_state x1 \<noteq> BLANK" "isWillClose x1 = isWillClose x" by (subst f(4), use Suc.prems(3) in simp)+
    have rest: "set (write_answers drip_os ?close c n w2) \<subseteq> {WrBytes 1}" if run: "send_nonblock drip_os ?close c w = Inr w2" for w2
    proof (cases "contents (writeBuffer x1) = [] \<and> isWillClose x")
      case True
      then have "conns w2 c = None" using server_source.close_drops [OF ok f(2,3) x1(1)] f(1) run by simp
      then show ?thesis by (cases n) simp_all
    next
      case go_on: False
      then have "w2 = w1" using f(1) run by (metis sum.inject(2))
      then show ?thesis using Suc.IH [OF f(2,3) x1(1)] go_on x1(2) by auto
    qed
    show ?thesis
      using asks False Suc.prems(2) fst_wr rest by (cases "send_nonblock drip_os ?close c w") simp_all
  qed
qed simp

lemma drip_delivers:
  assumes "server_env_ok drip_os inq outq interest srv" and "conn_inv interest w" and "conns w c = Some x"
    and "conn_state x \<noteq> BLANK" and "contents (writeBuffer x) \<noteq> [] \<or> \<not> isWillClose x"
    and "n = length (contents (writeBuffer x))"
  shows "\<not> refused (write_answers drip_os (activeClose drip_os srv) c n w)"
    and "taken (write_answers drip_os (activeClose drip_os srv) c n w) = length (contents (writeBuffer x))"
proof -
  have s: "set (write_answers drip_os (activeClose drip_os srv) c n w) \<subseteq> {WrBytes 1}" by (rule drip_answers [OF assms(1-5)])
  then show r: "\<not> refused (write_answers drip_os (activeClose drip_os srv) c n w)" by (auto simp: refused_def)
  have "delivery drip_os outq interest (activeClose drip_os srv) c x w n"
    by (rule server_source.drain [OF assms(1-5)])
  then show "taken (write_answers drip_os (activeClose drip_os srv) c n w) = length (contents (writeBuffer x))"
    using r s assms(6) by (cases rule: deliveryE) auto
qed

subsection \<open>A pass of the loop\<close>

text \<open>The server's callbacks keep its invariant, whatever else is polled: the laws of \<open>dispatcher\<close>.\<close>

interpretation server_loop: dispatcher interest "server_inv interest" "\<lambda>_. server_callback os srv rest"
  "server_env_ok os inq outq interest srv \<and> others_ok interest rest" for os inq outq interest srv rest
proof unfold_locales
  fix w :: "'a sworld"
  show "registered interest w" if "server_inv interest w" using conn_invD(1) [OF server_invD(1) [OF that]] .
  show "server_inv interest (w\<lparr>evs := es\<rparr>)" if "server_inv interest w" "same_but_revents w es" for es
    using conn_inv_revents [OF server_invD(1) [OF that(1)] that(2)] server_invD(2) [OF that(1)] by (simp add: server_inv_def)
  show "server_inv interest (w\<lparr>env := add_log l (env w)\<rparr>)" if "server_inv interest w" for l
    by (rule server_inv_env [OF that]) simp
  show "server_callback os srv rest cb w \<noteq> Inl Use_after_free \<and>
      (\<forall>w'. server_callback os srv rest cb w = Inr w' \<longrightarrow> server_inv interest w' \<and> keeps_events {p} w w')"
    if "server_env_ok os inq outq interest srv \<and> others_ok interest rest" "server_inv interest w" "evs w p = Some ev" "handle ev = Some cb"
    for p ev cb using server_callback_ok that by blast
qed

text \<open>
  C1: whatever the kernel reports, a pass of a server's event loop never follows the address of an
  event or a connection that has been deleted, although handlers delete both, and the invariant of
  the server holds again after it.
\<close>

theorem loop_pass_safe:
  assumes "server_env_ok os inq outq interest srv" and "others_ok interest rest"
    and "server_inv interest w" and "wait_answer_ok interest ep (kern (env w)) answer"
  shows "loop_pass (server_callback os srv rest) answer w \<noteq> Inl Use_after_free \<and>
    (\<forall>w'. loop_pass (server_callback os srv rest) answer w = Inr w' \<longrightarrow> server_inv interest w')"
  using server_loop.pass_keeps [OF _ assms(3,4)] assms(1,2) by blast

theorem loop_pass_safe_witness:
  "loop_pass (server_callback drip_os (demo_server UNLIMITED_MODEL None) (\<lambda>cb. Inr))
     (Inr [(EPOLLIN, 0)]) (demo_world (sim_init\<lparr>sim_rd := \<lambda>_. [RdBytes []]\<rparr>) ''hi'') \<noteq> Inl Use_after_free"
proof -
  let ?w = "demo_world (sim_init\<lparr>sim_rd := \<lambda>_. [RdBytes []]\<rparr>) ''hi''"
  have "others_ok sim_interest (\<lambda>cb. Inr)" by (simp add: others_ok_def keeps_events_def)
  moreover have "wait_answer_ok sim_interest 3 (kern (env ?w)) (Inr [(EPOLLIN, 0)])"
    by (auto simp: wait_answer_ok_def sim_interest_def)
  moreover have "server_inv sim_interest ?w" by (rule demo_server_inv) (simp add: vec_max_def)
  ultimately show ?thesis
    using loop_pass_safe [OF demo_env_ok, of None] by simp
qed

subsection \<open>Delivery\<close>

lemma deferred_close:
  assumes "server_env_ok os inq outq interest srv" and "conn_inv interest w" and "conns w c = Some x"
    and "conn_state x \<noteq> BLANK" and "contents (writeBuffer x) \<noteq> []"
    and "conn_data x = Some (localEventLoop w)" and "destoryCallback x = None"
  shows "\<exists>w1. closeConnection os srv c None w = Inr w1 \<and> conns w1 c = Some (x\<lparr>isWillClose := True\<rparr>) \<and>
    outq (sockfd x) (kern (env w1)) = outq (sockfd x) (kern (env w)) \<and>
    (\<forall>n. delivery os outq interest (activeClose os srv) c (x\<lparr>isWillClose := True\<rparr>) w1 n \<and>
      (connCloseCallback srv = None \<and> \<not> refused (write_answers os (activeClose os srv) c n w1) \<and>
         taken (write_answers os (activeClose os srv) c n w1) = length (contents (writeBuffer x)) \<longrightarrow>
       (\<exists>w2. flush os (activeClose os srv) c n w1 = Inr w2 \<and> conns w2 c = None \<and>
          outq (sockfd x) (kern (env w2)) = outq (sockfd x) (kern (env w)) @ contents (writeBuffer x))))"
proof -
  note os = server_env_okD(1) [OF assms(1)]
  let ?x = "x\<lparr>isWillClose := True\<rparr>"
  have "closeConnection os srv c None w = close_common os (delete_conn os) (connCloseCallback srv) c w"
    using assms(3,6) by (simp add: closeConnection_def)
  then obtain w1 where w1: "closeConnection os srv c None w = Inr w1" "conn_inv interest w1"
    "frame c (conn_event x) w w1" "conns w1 c = Some ?x"
    "outq (sockfd x) (kern (env w1)) = outq (sockfd x) (kern (env w))"
    using close_pending [OF os assms(2-5), of "delete_conn os" "connCloseCallback srv"] by metis
  have d: "delivery os outq interest (activeClose os srv) c ?x w1 n" for n
    by (rule server_source.drain [OF assms(1) w1(2,4)]) (use assms(4,5) in simp_all)
  have "\<exists>w2. flush os (activeClose os srv) c n w1 = Inr w2 \<and> conns w2 c = None \<and>
      outq (sockfd x) (kern (env w2)) = outq (sockfd x) (kern (env w)) @ contents (writeBuffer x)"
    if all: "connCloseCallback srv = None" "\<not> refused (write_answers os (activeClose os srv) c n w1)"
      "taken (write_answers os (activeClose os srv) c n w1) = length (contents (writeBuffer x))" for n
    using d [of n]
  proof (cases rule: deliveryE)
    case (sent m w2 y)
    have y: "conn_data y = Some (localEventLoop w2)" "destoryCallback y = None"
      by (subst sent(9), use assms(6,7) frameD(6) [OF w1(3)] frameD(6) [OF sent(7)] in simp)+
    have "readableBytes (writeBuffer y) = 0"
      using event_of [OF sent(6,8)] length_contents sent(10) all(3) sent(2) by (metis drop_all list.size(3) nle_le tcp_conn.select_convs(2) tcp_conn.surjective tcp_conn.update_convs(6))
    then have close: "activeClose os srv c w2 = res_bind (destroy os c w2) (delete_conn os c)"
      using sent(8) y all(1) by (simp add: activeClose_def closeConnection_def close_common_def)
    obtain w3 where w3: "activeClose os srv c w2 = Inr w3" "conns w3 c = None"
      "outq (sockfd x) (kern (env w3)) = outq (sockfd x) (kern (env w2))"
      using dispose_spec [OF os sent(6,8)] close by metis
    then show ?thesis using sent(2,5,11) all(3) w1(5) by simp
  qed (use all in simp)
  then show ?thesis using w1(1,4,5) d by blast
qed

text \<open>
  C6: closing a connection that still has data to send loses none of it, whatever the kernel answers: the connection
  stays and is marked; after any number of runs of \<open>sendNonblock\<close> the kernel has been given exactly the bytes its writes
  have taken, in order; the connection is closed when these are all the bytes, not before, and when that close returns
  the connection and its event are gone (without a close callback it does return).  A write that fails, with \<open>EAGAIN\<close>
  or any other error, ends the program instead.  Unless a write takes nothing, as many runs as bytes are enough.
\<close>

theorem deferred_close_delivers:
  assumes "server_env_ok os inq outq interest srv" and "conn_inv interest w" and "conns w c = Some x"
    and "conn_state x \<noteq> BLANK" and "contents (writeBuffer x) \<noteq> []"
    and "conn_data x = Some (localEventLoop w)" and "destoryCallback x = None"
  shows "\<exists>w1. closeConnection os srv c None w = Inr w1 \<and> conns w1 c = Some (x\<lparr>isWillClose := True\<rparr>) \<and>
    outq (sockfd x) (kern (env w1)) = outq (sockfd x) (kern (env w)) \<and>
    (\<forall>n. delivery os outq interest (activeClose os srv) c (x\<lparr>isWillClose := True\<rparr>) w1 n \<and>
      (connCloseCallback srv = None \<and> \<not> refused (write_answers os (activeClose os srv) c n w1) \<and>
         taken (write_answers os (activeClose os srv) c n w1) = length (contents (writeBuffer x)) \<longrightarrow>
       (\<exists>w2. flush os (activeClose os srv) c n w1 = Inr w2 \<and> conns w2 c = None \<and>
          outq (sockfd x) (kern (env w2)) = outq (sockfd x) (kern (env w)) @ contents (writeBuffer x))))"
  using assms by (rule deferred_close)

theorem deferred_close_delivers_witness:
  "\<exists>w1 w2. closeConnection drip_os (demo_server UNLIMITED_MODEL None) 0 None (demo_world sim_init ''hi'') = Inr w1 \<and>
     flush drip_os (activeClose drip_os (demo_server UNLIMITED_MODEL None)) 0 2 w1 = Inr w2 \<and>
     sim_out (kern (env w2)) 7 = ''hi'' \<and> conns w2 0 = None"
proof -
  let ?w = "demo_world sim_init ''hi''" and ?srv = "demo_server UNLIMITED_MODEL None"
  have inv: "conn_inv sim_interest ?w"
    by (rule server_invD(1) [OF demo_server_inv]) (simp add: vec_max_def)
  have c: "conns ?w 0 = Some (demo_conn ''hi'')" by simp
  have ok: "server_env_ok drip_os sim_inq sim_outq sim_interest ?srv" by (rule demo_env_ok) simp
  let ?x = "(demo_conn ''hi'')\<lparr>isWillClose := True\<rparr>"
  from deferred_close_delivers [OF ok inv c] obtain w1 where w1: "closeConnection drip_os ?srv 0 None ?w = Inr w1" "conns w1 0 = Some ?x"
    "\<And>n. \<not> refused (write_answers drip_os (activeClose drip_os ?srv) 0 n w1) \<Longrightarrow>
       taken (write_answers drip_os (activeClose drip_os ?srv) 0 n w1) = 2 \<Longrightarrow>
       \<exists>w2. flush drip_os (activeClose drip_os ?srv) 0 n w1 = Inr w2 \<and> conns w2 0 = None \<and> sim_out (kern (env w2)) 7 = ''hi''"
    by (auto simp: sim_outq_def)
  have inv1: "conn_inv sim_interest w1"
    using server_close.close_keeps [OF ok inv c _ _ w1(1)] by simp
  note d = drip_delivers [OF ok inv1 w1(2), of 2]
  obtain w2 where "flush drip_os (activeClose drip_os ?srv) 0 2 w1 = Inr w2" "conns w2 0 = None"
    "sim_out (kern (env w2)) 7 = ''hi''"
    using w1(3) [of 2] d by auto
  then show ?thesis using w1(1) by blast
qed

text \<open>
  C18: data passed to \<open>send\<close> on an established connection waits behind the data already waiting, and after any number of
  runs of \<open>sendNonblock\<close> the kernel has been given, behind what it had, exactly the bytes its writes have taken of
  both, in order; the rest still waits, and writability is asked for as long as there is a rest.  The connection stays.
  A write that fails, with \<open>EAGAIN\<close> or any other error, ends the program instead; unless a write takes nothing, as many
  runs as bytes are enough.
\<close>

theorem send_delivers:
  assumes "server_env_ok os inq outq interest srv" and "conn_inv interest w" and "conns w c = Some x"
    and "conn_state x \<noteq> BLANK" and "s \<noteq> []" and "length s \<le> vec_max"
  shows "case send_data os c s w of
      Inl err \<Rightarrow> err = Length_error
    | Inr w1 \<Rightarrow> \<exists>x1. conns w1 c = Some x1 \<and> x1 = x\<lparr>writeBuffer := writeBuffer x1, isWillClose := False\<rparr> \<and>
        contents (writeBuffer x1) = contents (writeBuffer x) @ s \<and>
        outq (sockfd x) (kern (env w1)) = outq (sockfd x) (kern (env w)) \<and>
        (\<forall>n. delivery os outq interest (activeClose os srv) c x1 w1 n)"
proof -
  have "s \<noteq> [] \<or> contents (writeBuffer x) \<noteq> []" using assms(5) by simp
  from server_env_okD(1) [OF assms(1)] assms(2-4,6) this show ?thesis
  proof (cases rule: send_data_spec)
    case too_long
    then show ?thesis by simp
  next
    case (sent w1 x1)
    have x1: "conn_state x1 \<noteq> BLANK" "\<not> isWillClose x1"
      by (subst sent(7), use assms(4) in simp)+
    have "delivery os outq interest (activeClose os srv) c x1 w1 n" for n
      by (rule server_source.drain [OF assms(1) sent(2,4)]) (use x1 in simp_all)
    then show ?thesis using sent(1,4,5,7,8) by auto
  qed
qed

theorem send_delivers_witness:
  "\<exists>w1 w2. send_data drip_os 0 ''lo'' (demo_world sim_init ''hel'') = Inr w1 \<and>
     flush drip_os (activeClose drip_os (demo_server UNLIMITED_MODEL None)) 0 5 w1 = Inr w2 \<and>
     sim_out (kern (env w2)) 7 = ''hello''"
proof -
  let ?w = "demo_world sim_init ''hel''" and ?srv = "demo_server UNLIMITED_MODEL None"
  have inv: "conn_inv sim_interest ?w"
    by (rule server_invD(1) [OF demo_server_inv]) (simp add: vec_max_def)
  have c: "conns ?w 0 = Some (demo_conn ''hel'')" by simp
  have ok: "server_env_ok drip_os sim_inq sim_outq sim_interest ?srv" by (rule demo_env_ok) simp
  have s: "length ''lo'' \<le> vec_max" by (simp add: vec_max_def)
  have "\<exists>w1. send_data drip_os 0 ''lo'' ?w = Inr w1"
    by (simp add: send_data_def demo_conn_def new_conn_def buffer_eval upd_conn_def send_flag_def
        demo_event_def demo_mask_def isWritable_def mask_defs)
  then obtain w1 where w1: "send_data drip_os 0 ''lo'' ?w = Inr w1" by blast
  obtain x1 where x1: "conns w1 0 = Some x1" "x1 = (demo_conn ''hel'')\<lparr>writeBuffer := writeBuffer x1, isWillClose := False\<rparr>"
    "contents (writeBuffer x1) = ''hello''" "sim_out (kern (env w1)) 7 = []"
    "\<And>n. delivery drip_os sim_outq sim_interest (activeClose drip_os ?srv) 0 x1 w1 n"
    using send_delivers [OF ok inv c _ _ s] w1 by (auto simp: sim_outq_def)
  have y: "conn_state x1 \<noteq> BLANK" "\<not> isWillClose x1" "sockfd x1 = 7" by (subst x1(2), simp)+
  have inv1: "conn_inv sim_interest w1"
    using x1(5) [of 0] by (cases rule: deliveryE) (use y(2) in \<open>auto split: if_splits\<close>)
  note d = drip_delivers [OF ok inv1 x1(1) y(1), of 5]
  have "\<exists>w2. flush drip_os (activeClose drip_os ?srv) 0 5 w1 = Inr w2 \<and> sim_out (kern (env w2)) 7 = ''hello''"
    using x1(5) [of 5]
    by (cases rule: deliveryE) (use d x1(3,4) y(2,3) in \<open>simp_all add: sim_outq_def\<close>)
  then show ?thesis using w1 by blast
qed

subsection \<open>Accepting\<close>



subsection \<open>Errors of sending and closing\<close>

text \<open>
  When \<open>write\<close> fails in \<open>sendNonblock\<close>, the program ends: also for \<open>EAGAIN\<close>, which the code means
  to ignore, the result \<open>-1\<close> is passed to \<open>retrieve\<close> as an unsigned length and its assertion fails.
\<close>

theorem write_error_aborts:
  assumes "conn_inv interest w" and "conns w c = Some x"
    and "sys_write os (sockfd x) (contents (writeBuffer x)) (kern (env w)) = (WrErr err, k)"
  shows "send_nonblock os close c w = Inl Assert_failed"
proof -
  have "buf_inv (writeBuffer x)" using event_of [OF assms(1,2)] by metis
  from send_nonblock_error [OF assms(2) this assms(3)] show ?thesis .
qed

theorem write_error_aborts_witness:
  "send_nonblock sim_os (activeClose sim_os (demo_server UNLIMITED_MODEL None)) 0
     (demo_world (sim_init\<lparr>sim_wr := \<lambda>_. [WrErr EAGAIN]\<rparr>) ''hi'') = Inl Assert_failed"
proof -
  let ?w = "demo_world (sim_init\<lparr>sim_wr := \<lambda>_. [WrErr EAGAIN]\<rparr>) ''hi''"
  have inv: "conn_inv sim_interest ?w"
    by (rule server_invD(1) [OF demo_server_inv]) (simp add: vec_max_def)
  have c: "conns ?w 0 = Some (demo_conn ''hi'')" by simp
  have wr: "sys_write sim_os (sockfd (demo_conn ''hi'')) (contents (writeBuffer (demo_conn ''hi''))) (kern (env ?w)) =
      (WrErr EAGAIN, (kern (env ?w))\<lparr>sim_wr := (\<lambda>_. [WrErr EAGAIN])(7 := [])\<rparr>)"
    by (simp add: sim_write_def)
  show ?thesis by (rule write_error_aborts [OF inv c wr])
qed

text \<open>
  A \<open>send\<close> on a connection that is being closed cancels the close.  However the runs of \<open>sendNonblock\<close> go that the
  kernel does not refuse, the connection is still there, not marked to be closed, and asks for no input; when
  everything is sent it asks for no output either: no event will ever close it.
\<close>

theorem send_cancels_close:
  assumes "server_env_ok os inq outq interest srv" and "conn_inv interest w" and "conns w c = Some x"
    and "conn_state x \<noteq> BLANK" and "contents (writeBuffer x) \<noteq> []" and "s \<noteq> []" and "length s \<le> vec_max"
    and "closeConnection os srv c None w = Inr w1" and "send_data os c s w1 = Inr w2"
    and "\<not> refused (write_answers os (activeClose os srv) c n w2)"
  shows "\<exists>w3 x3. flush os (activeClose os srv) c n w2 = Inr w3 \<and> conns w3 c = Some x3 \<and>
    \<not> isWillClose x3 \<and> \<not> asks_input w3 (conn_event x) \<and>
    (asks_output w3 (conn_event x) \<longleftrightarrow> contents (writeBuffer x3) \<noteq> [])"
proof -
  note os = server_env_okD(1) [OF assms(1)]
  let ?x = "x\<lparr>isWillClose := True\<rparr>"
  have "close_common os (delete_conn os) (connCloseCallback srv) c w = Inr w1"
    using assms(3,8) by (auto simp: closeConnection_def split: if_splits)
  then obtain ev where w1: "conn_inv interest w1" "conns w1 c = Some ?x"
    "evs w1 (conn_event x) = Some ev" "\<not> isReadable ev"
    using close_pending [OF os assms(2-5), of "delete_conn os" "connCloseCallback srv"] by (metis sum.inject(2))
  have st: "conn_state ?x \<noteq> BLANK" using assms(4) by simp
  obtain x2 where w2: "conn_inv interest w2" "conns w2 c = Some x2"
    "contents (writeBuffer x2) = contents (writeBuffer ?x) @ s"
    "x2 = ?x\<lparr>writeBuffer := writeBuffer x2, isWillClose := False\<rparr>"
    "asks_input w2 (conn_event ?x) = asks_input w1 (conn_event ?x)"
    using send_data_spec [OF os w1(1,2) st assms(7)] assms(6,9) by (metis sum.inject(2) sum.distinct(1))
  have x2: "conn_event x2 = conn_event x" "conn_state x2 \<noteq> BLANK" "\<not> isWillClose x2"
    by (subst w2(4), use assms(4) in simp)+
  have "delivery os outq interest (activeClose os srv) c x2 w2 n"
    by (rule server_source.drain [OF assms(1) w2(1,2) x2(2)]) (use x2(3) in simp)
  then show ?thesis
  proof (cases rule: deliveryE)
    case (sent m w3 y)
    have y: "\<not> isWillClose y" by (subst sent(9)) (use x2(3) in simp)
    have "asks_output w3 (conn_event x) \<longleftrightarrow> contents (writeBuffer y) \<noteq> []" using sent(3,10,13) x2(1) by auto
    moreover have "\<not> asks_input w3 (conn_event x)"
      using sent(12) w2(5) w1(3,4) x2(1) by (simp add: asks_input_def)
    ultimately show ?thesis using sent(5,8) x2(3) y by auto
  qed (use assms(10) in simp)
qed

theorem send_cancels_close_witness:
  "\<exists>w1 w2 w3 x3. closeConnection drip_os (demo_server UNLIMITED_MODEL None) 0 None (demo_world sim_init ''hi'') = Inr w1 \<and>
     send_data drip_os 0 ''!'' w1 = Inr w2 \<and>
     flush drip_os (activeClose drip_os (demo_server UNLIMITED_MODEL None)) 0 0 w2 = Inr w3 \<and>
     conns w3 0 = Some x3 \<and> \<not> isWillClose x3"
proof -
  let ?w = "demo_world sim_init ''hi''" and ?srv = "demo_server UNLIMITED_MODEL None"
  have inv: "conn_inv sim_interest ?w"
    by (rule server_invD(1) [OF demo_server_inv]) (simp add: vec_max_def)
  have c: "conns ?w 0 = Some (demo_conn ''hi'')" by simp
  have ok: "server_env_ok drip_os sim_inq sim_outq sim_interest ?srv" by (rule demo_env_ok) simp
  have s: "length ''!'' \<le> vec_max" by (simp add: vec_max_def)
  have "\<exists>w1 w2. closeConnection drip_os ?srv 0 None ?w = Inr w1 \<and> send_data drip_os 0 ''!'' w1 = Inr w2"
    by (simp add: closeConnection_def close_common_def setReadable_def set_mask_def update_event_def
        send_data_def demo_conn_def new_conn_def buffer_eval upd_conn_def send_flag_def set_flag_def
        demo_event_def demo_mask_def isWritable_def mask_defs)
  then obtain w1 w2 where run: "closeConnection drip_os ?srv 0 None ?w = Inr w1" "send_data drip_os 0 ''!'' w1 = Inr w2"
    by blast
  show ?thesis
    using send_cancels_close [OF ok inv c _ _ _ s run, of 0] run by auto
qed

text \<open>
  \<open>activeClose\<close> before the first message on a connection (for example in the callback for new
  connections) ends the program: the thread mark the assertion compares is set by the message
  handler only.
\<close>

theorem early_close_aborts:
  assumes "conns w c = Some x" and "conn_data x = None"
  shows "activeClose os srv c w = Inl Assert_failed"
  using assms by (simp add: activeClose_def closeConnection_def)

theorem early_close_aborts_witness:
  "activeClose sim_os (demo_server UNLIMITED_MODEL None) 0
     ((demo_world sim_init [])\<lparr>conns := [0 \<mapsto> new_conn 0 7 1]\<rparr>) = Inl Assert_failed"
  by (rule early_close_aborts [where x = "new_conn 0 7 1"]) (simp, simp add: new_conn_def)

end
