(* ===== verification/InAddr.thy ===== *)
theory InAddr imports Decimal OS begin

section \<open>InAddr.h: socket addresses\<close>

text \<open>
  An \<open>InAddr\<close> is made from a port and an address in text, from the two joined by a colon, or from
  their binary forms, and prints itself in the joined form.  \<open>inet_pton\<close> and \<open>inet_ntop\<close> are written
  down for IPv4 as their manual page has them.  The properties: printing and parsing are inverse;
  what happens to port numbers that do not fit; and what a text without a colon is taken for.
\<close>

type_synonym u16 = "16 word"
type_synonym u8 = "8 word"

subsection \<open>The C library's part\<close>

text \<open>The four bytes of an address, as they lie in memory (network order).\<close>

datatype in_addr = In_addr u8 u8 u8 u8

definition AF_INET :: u16 where "AF_INET = 2"
definition AF_INET6 :: u16 where "AF_INET6 = 10"

text \<open>On a little-endian machine the conversions between host and network order swap the bytes.\<close>

definition htons :: "u16 \<Rightarrow> u16" where
  "htons x = or (push_bit 8 x) (drop_bit 8 x)"

definition ntohs :: "u16 \<Rightarrow> u16" where
  "ntohs x = or (push_bit 8 x) (drop_bit 8 x)"

fun split_on :: "char \<Rightarrow> string \<Rightarrow> string list" where
  "split_on d [] = [[]]"
| "split_on d (c # cs) = (if c = d then [] # split_on d cs else (c # hd (split_on d cs)) # tl (split_on d cs))"

definition parse_octet :: "string \<Rightarrow> u8 option" where
  "parse_octet s =
     (if s \<noteq> [] \<and> length s \<le> 3 \<and> list_all is_digit s \<and> dec_value s \<le> 255
      then Some (of_nat (dec_value s)) else None)"

definition parse_quad :: "string \<Rightarrow> in_addr option" where
  "parse_quad s =
     (case map parse_octet (split_on (CHR ''.'') s) of
        [Some a, Some b, Some c, Some d] \<Rightarrow> Some (In_addr a b c d)
      | _ \<Rightarrow> None)"

fun print_quad :: "in_addr \<Rightarrow> string" where
  "print_quad (In_addr a b c d) =
     to_string (unat a) @ ''.'' @ to_string (unat b) @ ''.'' @ to_string (unat c) @ ''.'' @ to_string (unat d)"

definition c_str :: "string \<Rightarrow> string" where
  "c_str s = takeWhile (\<lambda>c. c \<noteq> CHR 0x00) s"

text \<open>\<open>std::string::find_first_of\<close> (for one character) and \<open>substr\<close> within bounds.\<close>

definition npos :: nat where
  "npos = 2 ^ 64 - 1"

definition find_first_of :: "char \<Rightarrow> string \<Rightarrow> nat" where
  "find_first_of d s = (if d \<in> set s then length (takeWhile (\<lambda>c. c \<noteq> d) s) else npos)"

definition substr :: "string \<Rightarrow> nat \<Rightarrow> nat \<Rightarrow> string" where
  "substr s pos len = take len (drop pos s)"

subsection \<open>The class\<close>

record sockaddr =
  sa_family :: u16
  sin_port :: u16
  sin_addr :: in_addr

definition getIp :: "string \<Rightarrow> string" where
  "getIp ip_port = substr ip_port 0 (find_first_of (CHR '':'') ip_port)"

definition getPort :: "string \<Rightarrow> string" where
  "getPort ip_port = substr ip_port (sz_add (find_first_of (CHR '':'') ip_port) 1) npos"

text \<open>\<open>initAddr\<close>: zeroes, then the members; an unknown family is logged.\<close>

definition initAddr :: "u16 \<Rightarrow> in_addr \<Rightarrow> u16 \<Rightarrow> sockaddr \<times> log_entry list" where
  "initAddr port addr fam =
     (let z = \<lparr>sa_family = fam, sin_port = 0, sin_addr = In_addr 0 0 0 0\<rparr> in
      if fam = AF_INET then (z\<lparr>sin_port := port, sin_addr := addr\<rparr>, [])
      else if fam = AF_INET6 then (z, [])
      else (z, [Fatal ''unrecognized sa_family: {}'']))"

text \<open>
  \<open>init\<close>: the number is cut to 16 bits; the result of \<open>inet_pton\<close> is not looked at, so a text that is
  no address leaves the variable as it was (\<open>junk\<close>).  For IPv6 \<open>inet_pton\<close> stores 16 bytes into the
  four of the variable (\<open>valid6\<close> says which texts it accepts); for other families it stores nothing.
\<close>

definition init_text ::
  "(string \<Rightarrow> bool) \<Rightarrow> in_addr \<Rightarrow> string \<Rightarrow> string \<Rightarrow> u16 \<Rightarrow> (sockaddr \<times> log_entry list) res" where
  "init_text valid6 junk port ip fam =
     (let portNum = word_of_int (atoi (c_str port)) :: u16 in
      if portNum = 0 then Inl Assert_failed
      else if fam = AF_INET6 \<and> valid6 (c_str ip) then Inl Out_of_bounds
      else
        let addr = (if fam = AF_INET then (case parse_quad (c_str ip) of None \<Rightarrow> junk | Some a \<Rightarrow> a) else junk) in
        Inr (initAddr (htons portNum) addr fam))"

definition init_ip_port :: "(string \<Rightarrow> bool) \<Rightarrow> in_addr \<Rightarrow> string \<Rightarrow> u16 \<Rightarrow> (sockaddr \<times> log_entry list) res" where
  "init_ip_port valid6 junk ip_port fam = init_text valid6 junk (getPort ip_port) (getIp ip_port) fam"

text \<open>For a family other than \<open>AF_INET\<close> the text buffer is read without having been written.\<close>

definition ipPortStr :: "sockaddr \<Rightarrow> string res" where
  "ipPortStr s =
     (if sa_family s = AF_INET
      then Inr (print_quad (sin_addr s) @ '':'' @ to_string (unat (ntohs (sin_port s))))
      else Inl Out_of_bounds)"

subsection \<open>Lemmas\<close>

lemma ntohs_htons [simp]: "ntohs (htons x) = x"
  by (rule bit_word_eqI) (auto simp: ntohs_def htons_def bit_simps)

lemma split_on_free: "d \<notin> set s \<Longrightarrow> split_on d s = [s]"
  by (induction s) auto

lemma split_on_append: "d \<notin> set s \<Longrightarrow> split_on d (s @ d # t) = s # split_on d t"
  by (induction s) auto

lemma digits_free: "\<not> is_digit c \<Longrightarrow> c \<notin> set (to_string n)"
  using to_string_digits by blast

lemma not_digits [simp]: "\<not> is_digit (CHR ''.'')" "\<not> is_digit (CHR '':'')" "\<not> is_digit (CHR 0x00)"
  by (simp_all add: is_digit_def)

lemma to_string_short: "n \<le> 255 \<Longrightarrow> length (to_string n) \<le> 3"
proof -
  assume n: "n \<le> 255"
  have 1: "length (to_string m) = 1" if "m < 10" for m using that by (subst to_string.simps) simp
  have 2: "length (to_string m) \<le> 2" if "m < 100" for m
    using that 1 [of "m div 10"] 1 [of m] by (cases "m < 10") (simp_all add: to_string.simps [of m])
  show ?thesis
    using n 2 [of "n div 10"] 2 [of n] by (cases "n < 100") (simp_all add: to_string.simps [of n])
qed

lemma u8_bound: "unat (a :: u8) < 256"
  by (rule order_less_le_trans [OF unsigned_less]) simp

lemma u16_bound: "unat (a :: u16) < 65536"
  by (rule order_less_le_trans [OF unsigned_less]) simp

lemma parse_octet_print [simp]: "parse_octet (to_string (unat (a :: u8))) = Some a"
proof -
  have "unat a \<le> 255" using u8_bound [of a] by simp
  then show ?thesis
    using to_string_short to_string_digits
    by (simp add: parse_octet_def list_all_iff)
qed

lemma parse_quad_print [simp]: "parse_quad (print_quad a) = Some a"
  by (cases a) (simp add: parse_quad_def split_on_append split_on_free digits_free)

lemma print_quad_free: "c \<noteq> CHR ''.'' \<Longrightarrow> \<not> is_digit c \<Longrightarrow> c \<notin> set (print_quad a)"
  by (cases a) (simp add: digits_free)

lemma ip_port_parts:
  assumes "CHR '':'' \<notin> set ip" and "length ip < npos"
  shows "getIp (ip @ '':'' @ port) = ip"
    and "length port \<le> npos \<Longrightarrow> getPort (ip @ '':'' @ port) = port"
proof -
  have t: "takeWhile (\<lambda>c. c \<noteq> CHR '':'') (ip @ CHR '':'' # port) = ip"
    using assms(1) by (subst takeWhile_append2) auto
  then have f: "find_first_of (CHR '':'') (ip @ '':'' @ port) = length ip"
    by (simp add: find_first_of_def)
  then show "getIp (ip @ '':'' @ port) = ip" by (simp add: getIp_def substr_def)
  have "sz_add (length ip) 1 = length ip + 1" using assms(2) by (simp add: sz_add_def npos_def)
  then show "length port \<le> npos \<Longrightarrow> getPort (ip @ '':'' @ port) = port"
    unfolding getPort_def f by (simp add: substr_def)
qed

lemma no_colon:
  assumes "CHR '':'' \<notin> set s" and "length s \<le> npos"
  shows "getIp s = s" and "getPort s = s"
proof -
  have "find_first_of (CHR '':'') s = npos" using assms(1) by (simp add: find_first_of_def)
  then show "getIp s = s" "getPort s = s"
    using assms(2) by (simp_all add: getIp_def getPort_def substr_def sz_add_def npos_def)
qed

lemma c_str_free: "CHR 0x00 \<notin> set s \<Longrightarrow> c_str s = s"
  by (auto simp: c_str_def takeWhile_eq_all_conv)

lemma atoi_print [simp]: "atoi (to_string n) = int n"
  using atoi_digits [of "to_string n"] to_string_digits by simp

lemma to_string_length: "n < 2 ^ k \<Longrightarrow> length (to_string n) \<le> Suc k"
proof (induction n arbitrary: k rule: to_string.induct)
  case (1 n)
  show ?case
  proof (cases "n < 10")
    case False
    then obtain j where j: "k = Suc j" using 1(2) by (cases k) auto
    then have "n div 10 < 2 ^ j" using 1(2) by simp
    then show ?thesis using 1(1) [OF False] False j by (simp add: to_string.simps [of n])
  qed (simp add: to_string.simps [of n])
qed

subsection \<open>Properties\<close>

text \<open>
  C34: an address printed by \<open>ipPortStr\<close> and parsed again is the same address: for every IPv4 address
  and every port but 0 the constructor yields that address and that port in network order, and
  prints the same text.
\<close>

theorem inaddr_round_trip:
  assumes "port \<noteq> 0"
  shows "\<exists>s. init_ip_port valid6 junk (print_quad a @ '':'' @ to_string (unat port)) AF_INET = Inr (s, []) \<and>
    sin_addr s = a \<and> ntohs (sin_port s) = port \<and>
    ipPortStr s = Inr (print_quad a @ '':'' @ to_string (unat port))"
proof -
  let ?ip = "print_quad a" and ?port = "to_string (unat port)"
  have short: "length (to_string (unat b)) \<le> 9" for b :: u8
    using to_string_length [of "unat b" 8] u8_bound [of b] by simp
  have lip: "length ?ip < npos"
  proof (cases a)
    case (In_addr b1 b2 b3 b4)
    then show ?thesis using short [of b1] short [of b2] short [of b3] short [of b4] by (simp add: npos_def)
  qed
  have lport: "length ?port \<le> npos"
    using to_string_length [of "unat port" 16] u16_bound [of port] by (simp add: npos_def)
  have col: "CHR '':'' \<notin> set ?ip" by (simp add: print_quad_free)
  note parts = ip_port_parts [OF col lip, of ?port]
  have c: "c_str ?ip = ?ip" "c_str ?port = ?port"
    by (simp_all add: c_str_free print_quad_free digits_free)
  have "init_ip_port valid6 junk (?ip @ '':'' @ ?port) AF_INET =
      Inr (initAddr (htons port) a AF_INET)"
    unfolding init_ip_port_def parts(1) parts(2) [OF lport] init_text_def c
    using assms by (simp add: AF_INET_def AF_INET6_def)
  then show ?thesis by (simp add: initAddr_def ipPortStr_def Let_def)
qed

theorem inaddr_round_trip_witness:
  "\<exists>s. init_ip_port (\<lambda>_. False) (In_addr 9 9 9 9)
      (print_quad (In_addr 127 0 0 1) @ '':'' @ to_string (unat (6667 :: u16))) AF_INET = Inr (s, []) \<and>
     sin_addr s = In_addr 127 0 0 1 \<and> ntohs (sin_port s) = 6667"
  using inaddr_round_trip [of 6667 "\<lambda>_. False" "In_addr 9 9 9 9" "In_addr 127 0 0 1"] by auto

text \<open>
  A port number is cut to its low 16 bits without a word; the assertion catches exactly the
  numbers of which nothing is left.
\<close>

theorem inaddr_port_cut:
  assumes "n < 2 ^ 31"
  shows "(65536 dvd n \<longrightarrow> init_text valid6 junk (to_string n) ip AF_INET = Inl Assert_failed) \<and>
    (\<not> 65536 dvd n \<longrightarrow> (\<exists>s. init_text valid6 junk (to_string n) ip AF_INET = Inr (s, []) \<and>
       unat (ntohs (sin_port s)) = n mod 65536))"
proof -
  have c: "c_str (to_string n) = to_string n" by (simp add: c_str_free digits_free)
  have w: "unat (of_nat n :: u16) = n mod 65536" by (simp add: unat_of_nat)
  then have z: "(of_nat n :: u16) = 0 \<longleftrightarrow> 65536 dvd n"
    by (metis dvd_imp_mod_0 mod_0_imp_dvd unat_eq_zero)
  have "init_text valid6 junk (to_string n) ip AF_INET =
      (if (of_nat n :: u16) = 0 then Inl Assert_failed
       else Inr (initAddr (htons (of_nat n))
         (case parse_quad (c_str ip) of None \<Rightarrow> junk | Some a \<Rightarrow> a) AF_INET))"
    by (simp add: init_text_def c Let_def AF_INET_def AF_INET6_def)
  then show ?thesis using w z by (simp add: initAddr_def Let_def)
qed

theorem inaddr_port_cut_witness:
  "init_text (\<lambda>_. False) (In_addr 0 0 0 0) (to_string 65536) ''0.0.0.0'' AF_INET = Inl Assert_failed \<and>
   (\<exists>s. init_text (\<lambda>_. False) (In_addr 0 0 0 0) (to_string 70000) ''0.0.0.0'' AF_INET = Inr (s, []) \<and>
     unat (ntohs (sin_port s)) = 4464)"
  using inaddr_port_cut [of 65536 "\<lambda>_. False" "In_addr 0 0 0 0" "''0.0.0.0''"]
    inaddr_port_cut [of 70000 "\<lambda>_. False" "In_addr 0 0 0 0" "''0.0.0.0''"]
  by auto

text \<open>
  A text without a colon is taken both for the port and for the address.  A bare port number, as
  one of the examples passes it, is no address, so the address is whatever the variable held.
\<close>

theorem inaddr_bare_port:
  assumes "0 < n" and "n < 65536"
  shows "\<exists>s. init_ip_port valid6 junk (to_string n) AF_INET = Inr (s, []) \<and>
    unat (ntohs (sin_port s)) = n \<and> sin_addr s = junk"
proof -
  have len: "length (to_string n) \<le> npos"
    using to_string_length [of n 16] assms(2) by (simp add: npos_def)
  have col: "CHR '':'' \<notin> set (to_string n)" by (simp add: digits_free)
  note parts = no_colon [OF col len]
  have c: "c_str (to_string n) = to_string n" by (simp add: c_str_free digits_free)
  have w: "unat (of_nat n :: u16) = n" using assms(2) by (simp add: unat_of_nat)
  then have z: "(of_nat n :: u16) \<noteq> 0" using assms(1) by (metis neq0_conv unat_0)
  have "parse_quad (to_string n) = None"
    by (simp add: parse_quad_def split_on_free digits_free split: option.split)
  then have "init_ip_port valid6 junk (to_string n) AF_INET = Inr (initAddr (htons (of_nat n)) junk AF_INET)"
    unfolding init_ip_port_def parts init_text_def c using z by (simp add: AF_INET_def AF_INET6_def)
  then show ?thesis using w by (simp add: initAddr_def Let_def)
qed

theorem inaddr_bare_port_witness:
  "\<exists>s. init_ip_port (\<lambda>_. False) (In_addr 7 7 7 7) (to_string 12345) AF_INET = Inr (s, []) \<and>
     unat (ntohs (sin_port s)) = 12345 \<and> sin_addr s = In_addr 7 7 7 7"
  using inaddr_bare_port [of 12345 "\<lambda>_. False" "In_addr 7 7 7 7"] by simp

end
