(* ===== verification/Socket.thy ===== *)
theory Socket imports InAddr begin

section \<open>Socket: one system call per operation\<close>

text \<open>
  A \<open>Socket\<close> owns a descriptor; its operations wrap one system call each, log a failure and go on.  The
  calls are a parameter, a record of functions beside the calls of \<open>'k os\<close>.  Every operation works on the
  environment of a handler; nothing here fails in the sense of \<open>res\<close>, and the lemmas say what a failing
  call leaves behind.
\<close>

subsection \<open>The calls\<close>

datatype sock_opt = TCP_NODELAY | SO_REUSEADDR | SO_REUSEPORT | SO_LINGER_0 | TCP_QUICKACK

record 'k sock_os =
  sys_socket :: "'k \<Rightarrow> (errno + fd) \<times> 'k"
  sys_connect :: "fd \<Rightarrow> sockaddr \<Rightarrow> 'k \<Rightarrow> errno option \<times> 'k"
  sys_bind :: "fd \<Rightarrow> sockaddr \<Rightarrow> 'k \<Rightarrow> errno option \<times> 'k"
  sys_listen :: "fd \<Rightarrow> nat \<Rightarrow> 'k \<Rightarrow> errno option \<times> 'k"
  sys_shutdown :: "fd \<Rightarrow> 'k \<Rightarrow> errno option \<times> 'k"
  sys_setsockopt :: "fd \<Rightarrow> sock_opt \<Rightarrow> 'k \<Rightarrow> errno option \<times> 'k"
  sys_so_error :: "fd \<Rightarrow> 'k \<Rightarrow> (errno + int) \<times> 'k"
  sys_getsockname :: "fd \<Rightarrow> 'k \<Rightarrow> (errno + sockaddr) \<times> 'k"
  sys_getpeername :: "fd \<Rightarrow> 'k \<Rightarrow> (errno + sockaddr) \<times> 'k"

subsection \<open>The class\<close>

definition makeNewSocket :: "'k sock_os \<Rightarrow> 'k env \<Rightarrow> fd \<times> 'k env" where
  "makeNewSocket sos e =
     (case sys_socket sos (kern e) of
        (Inr f, k) \<Rightarrow> (f, e\<lparr>kern := k\<rparr>)
      | (Inl err, k) \<Rightarrow> (- 1, add_log (Sys ''socket error'') (e\<lparr>kern := k\<rparr>)))"

text \<open>The destructor; a descriptor of 0 marks a socket that has been moved from.\<close>

definition close_socket :: "'k os \<Rightarrow> fd \<Rightarrow> 'k env \<Rightarrow> 'k env" where
  "close_socket os f e = (if f \<noteq> 0 then e\<lparr>kern := sys_close os f (kern e)\<rparr> else e)"

text \<open>
  \<open>localInAddr\<close>, \<open>peerInAddr\<close>: when the call fails the address is built from what the variable held
  (\<open>junk\<close>).
\<close>

definition addr_of_call ::
  "string \<Rightarrow> sockaddr \<Rightarrow> ('k \<Rightarrow> (errno + sockaddr) \<times> 'k) \<Rightarrow> 'k env \<Rightarrow> sockaddr \<times> 'k env" where
  "addr_of_call msg junk call e =
     (let (r, k) = call (kern e); e1 = e\<lparr>kern := k\<rparr>;
          (s, e2) = (case r of Inl _ \<Rightarrow> (junk, add_log (Sys msg) e1) | Inr s \<Rightarrow> (s, e1));
          (a, lg) = initAddr (sin_port s) (sin_addr s) (sa_family s) in
      (a, e2\<lparr>logs := logs e2 @ lg\<rparr>))"

definition localInAddr :: "'k sock_os \<Rightarrow> sockaddr \<Rightarrow> fd \<Rightarrow> 'k env \<Rightarrow> sockaddr \<times> 'k env" where
  "localInAddr sos junk f = addr_of_call ''getsockname error'' junk (sys_getsockname sos f)"

definition peerInAddr :: "'k sock_os \<Rightarrow> sockaddr \<Rightarrow> fd \<Rightarrow> 'k env \<Rightarrow> sockaddr \<times> 'k env" where
  "peerInAddr sos junk f = addr_of_call ''getpeername error'' junk (sys_getpeername sos f)"

definition bindAddr :: "'k sock_os \<Rightarrow> fd \<Rightarrow> sockaddr \<Rightarrow> 'k env \<Rightarrow> 'k env" where
  "bindAddr sos f a = logged ''bind error in sockfd {}'' (sys_bind sos f a)"

definition sock_listen :: "'k sock_os \<Rightarrow> fd \<Rightarrow> nat \<Rightarrow> 'k env \<Rightarrow> 'k env" where
  "sock_listen sos f backlog = logged ''listen error'' (sys_listen sos f backlog)"

definition sock_shutdown :: "'k sock_os \<Rightarrow> fd \<Rightarrow> 'k env \<Rightarrow> 'k env" where
  "sock_shutdown sos f = logged ''shutdown error'' (sys_shutdown sos f)"

definition setTcpNoDelay :: "'k sock_os \<Rightarrow> fd \<Rightarrow> 'k env \<Rightarrow> 'k env" where
  "setTcpNoDelay sos f = logged ''setsockopt TCP_NODELAY error'' (sys_setsockopt sos f TCP_NODELAY)"

definition setReuseAddr :: "'k sock_os \<Rightarrow> fd \<Rightarrow> 'k env \<Rightarrow> 'k env" where
  "setReuseAddr sos f = logged ''setsockopt SO_REUSEADDR error'' (sys_setsockopt sos f SO_REUSEADDR)"

definition setReusePort :: "'k sock_os \<Rightarrow> fd \<Rightarrow> 'k env \<Rightarrow> 'k env" where
  "setReusePort sos f = logged ''setsockopt SO_REUSEPORT error'' (sys_setsockopt sos f SO_REUSEPORT)"

definition setQuickAck :: "'k sock_os \<Rightarrow> fd \<Rightarrow> 'k env \<Rightarrow> 'k env" where
  "setQuickAck sos f = logged ''setsockopt error'' (sys_setsockopt sos f TCP_QUICKACK)"

text \<open>\<open>resetClose\<close> returns the descriptor the socket is left with.\<close>

definition resetClose :: "'k os \<Rightarrow> 'k sock_os \<Rightarrow> fd \<Rightarrow> 'k env \<Rightarrow> fd \<times> 'k env" where
  "resetClose os sos f e =
     (let e1 = logged ''setsockopt SO_LINGER error'' (sys_setsockopt sos f SO_LINGER_0) e in
      (0, e1\<lparr>kern := sys_close os f (kern e1)\<rparr>))"

definition sock_connect :: "'k sock_os \<Rightarrow> fd \<Rightarrow> sockaddr \<Rightarrow> 'k env \<Rightarrow> 'k env" where
  "sock_connect sos f a e =
     (case sys_connect sos f a (kern e) of
        (Some err, k) \<Rightarrow>
          if err \<noteq> EINPROGRESS then add_log (Sys ''connect error'') (e\<lparr>kern := k\<rparr>) else e\<lparr>kern := k\<rparr>
      | (None, k) \<Rightarrow> e\<lparr>kern := k\<rparr>)"

text \<open>\<open>checkHasError\<close>: when the call fails the variable holds what it held (\<open>junk\<close>).\<close>

definition checkHasError :: "'k sock_os \<Rightarrow> int \<Rightarrow> fd \<Rightarrow> 'k env \<Rightarrow> bool \<times> 'k env" where
  "checkHasError sos junk f e =
     (case sys_so_error sos f (kern e) of
        (Inr err, k) \<Rightarrow> (err \<noteq> 0, e\<lparr>kern := k\<rparr>)
      | (Inl _, k) \<Rightarrow> (junk \<noteq> 0, add_log (Sys ''setsockopt error'') (e\<lparr>kern := k\<rparr>)))"

subsection \<open>The contract of the calls\<close>

text \<open>
  What the sources rely on: the calls on sockets change no interest list and take no byte from and
  give no byte to a stream; a descriptor \<open>socket\<close> returns is in use nowhere.
\<close>

definition sock_contract ::
  "'k sock_os \<Rightarrow> (fd \<Rightarrow> 'k \<Rightarrow> bytes) \<Rightarrow> (fd \<Rightarrow> 'k \<Rightarrow> (fd \<rightharpoonup> epoll_event)) \<Rightarrow> bool" where
  "sock_contract sos outq interest \<longleftrightarrow>
     (\<forall>k a k' ep g. sys_socket sos k = (a, k') \<longrightarrow> interest ep k' = interest ep k \<and> outq g k' = outq g k) \<and>
     (\<forall>f ad k a k' ep g. sys_connect sos f ad k = (a, k') \<longrightarrow> interest ep k' = interest ep k \<and> outq g k' = outq g k) \<and>
     (\<forall>f ad k a k' ep g. sys_bind sos f ad k = (a, k') \<longrightarrow> interest ep k' = interest ep k \<and> outq g k' = outq g k) \<and>
     (\<forall>f n k a k' ep g. sys_listen sos f n k = (a, k') \<longrightarrow> interest ep k' = interest ep k \<and> outq g k' = outq g k) \<and>
     (\<forall>f opt k a k' ep g. sys_setsockopt sos f opt k = (a, k') \<longrightarrow> interest ep k' = interest ep k \<and> outq g k' = outq g k) \<and>
     (\<forall>f k a k' ep g. sys_so_error sos f k = (a, k') \<longrightarrow> interest ep k' = interest ep k \<and> outq g k' = outq g k) \<and>
     (\<forall>k f k' ep. sys_socket sos k = (Inr f, k') \<longrightarrow> interest ep k f = None)"

lemma sock_contractD:
  assumes "sock_contract sos outq interest"
  shows "sys_socket sos k = (a, k') \<Longrightarrow> interest ep k' = interest ep k"
    and "sys_connect sos f ad k = (r, k') \<Longrightarrow> interest ep k' = interest ep k"
    and "sys_bind sos f ad k = (r, k') \<Longrightarrow> interest ep k' = interest ep k"
    and "sys_listen sos f n k = (r, k') \<Longrightarrow> interest ep k' = interest ep k"
    and "sys_setsockopt sos f opt k = (r, k') \<Longrightarrow> interest ep k' = interest ep k"
    and "sys_so_error sos f k = (q, k') \<Longrightarrow> interest ep k' = interest ep k"
    and "sys_so_error sos f k = (q, k') \<Longrightarrow> outq g k' = outq g k"
    and "sys_socket sos k = (Inr f, k') \<Longrightarrow> interest ep k f = None"
  using assms unfolding sock_contract_def by - (elim conjE, metis)+

lemma logged_interest:
  assumes "\<And>k r k'. call k = (r, k') \<Longrightarrow> interest ep k' = interest ep k"
  shows "interest ep (kern (logged msg call e)) = interest ep (kern e)"
proof -
  obtain r k' where r: "call (kern e) = (r, k')" by fastforce
  then have "interest ep k' = interest ep (kern e)" by (rule assms)
  then show ?thesis using r by (cases r) (simp_all add: logged_def)
qed

lemma socket_interest:
  assumes sos: "sock_contract sos outq interest"
  shows "interest ep (kern (sock_connect sos f a e)) = interest ep (kern e)"
    and "makeNewSocket sos e = (g, e') \<Longrightarrow> interest ep (kern e') = interest ep (kern e)"
    and "interest ep (kern (bindAddr sos f a e)) = interest ep (kern e)"
    and "interest ep (kern (sock_listen sos f n e)) = interest ep (kern e)"
    and "interest ep (kern (setReuseAddr sos f e)) = interest ep (kern e)"
    and "interest ep (kern (setReusePort sos f e)) = interest ep (kern e)"
    and "checkHasError sos junk f e = (er, e') \<Longrightarrow> interest ep (kern e') = interest ep (kern e)"
    and "checkHasError sos junk f e = (er, e') \<Longrightarrow> outq g (kern e') = outq g (kern e)"
proof -
  note d = sock_contractD [OF sos]
  show "interest ep (kern (sock_connect sos f a e)) = interest ep (kern e)"
    using d(2) by (fastforce simp: sock_connect_def split: prod.splits option.splits)
  show "makeNewSocket sos e = (g, e') \<Longrightarrow> interest ep (kern e') = interest ep (kern e)"
    using d(1) by (fastforce simp: makeNewSocket_def split: prod.splits sum.splits)
  show "checkHasError sos junk f e = (er, e') \<Longrightarrow> interest ep (kern e') = interest ep (kern e)"
    using d(6) by (fastforce simp: checkHasError_def split: prod.splits sum.splits)
  show "checkHasError sos junk f e = (er, e') \<Longrightarrow> outq g (kern e') = outq g (kern e)"
    using d(7) by (fastforce simp: checkHasError_def split: prod.splits sum.splits)
qed (unfold bindAddr_def sock_listen_def setReuseAddr_def setReusePort_def,
    (rule logged_interest, erule sock_contractD [OF sos])+)

text \<open>A \<open>Socket\<close> whose descriptor could not be made is \<open>-1\<close>; the failure is one line of the log.\<close>

lemma makeNewSocket_cases:
  obtains (made) f k where "sys_socket sos (kern e) = (Inr f, k)" "makeNewSocket sos e = (f, e\<lparr>kern := k\<rparr>)"
    | (failed) err k where "sys_socket sos (kern e) = (Inl err, k)"
        "makeNewSocket sos e = (- 1, add_log (Sys ''socket error'') (e\<lparr>kern := k\<rparr>))"
proof -
  obtain r k where r: "sys_socket sos (kern e) = (r, k)" by fastforce
  then show ?thesis
    using made failed by (cases r) (simp_all add: makeNewSocket_def)
qed

text \<open>Made or not, the descriptor of a new socket is in no interest list: \<open>-1\<close> never is.\<close>

lemma makeNewSocket_fresh:
  assumes sos: "sock_contract sos outq interest" and neg: "\<And>ep. interest ep (kern e) (- 1) = None"
    and run: "makeNewSocket sos e = (f, e')"
  shows "interest ep (kern e') f = None"
proof (cases rule: makeNewSocket_cases [of sos e])
  case (made g k)
  then show ?thesis using run sock_contractD(1,8) [OF sos made(1)] by simp
next
  case (failed err k)
  then show ?thesis using run sock_contractD(1) [OF sos failed(1)] neg by simp
qed

subsection \<open>The calls on the small kernel\<close>

text \<open>
  \<open>socket\<close> returns the least positive descriptor above all that are registered or closed; connections are
  in progress until \<open>SO_ERROR\<close> reports \<open>err\<close>; everything else succeeds.
\<close>

definition sim_socket :: "sim \<Rightarrow> (errno + fd) \<times> sim" where
  "sim_socket k = (Inr (1 + fold max (map (snd \<circ> fst) (sim_reg k) @ sim_closed k) 4), k)"

definition sim_sock_os :: "int \<Rightarrow> sim sock_os" where
  "sim_sock_os err = \<lparr>sys_socket = sim_socket, sys_connect = (\<lambda>f a k. (Some EINPROGRESS, k)),
     sys_bind = (\<lambda>f a k. (None, k)), sys_listen = (\<lambda>f n k. (None, k)), sys_shutdown = (\<lambda>f k. (None, k)),
     sys_setsockopt = (\<lambda>f opt k. (None, k)), sys_so_error = (\<lambda>f k. (Inr err, k)),
     sys_getsockname = (\<lambda>f k. (Inl EBADF, k)), sys_getpeername = (\<lambda>f k. (Inl EBADF, k))\<rparr>"

lemma le_fold_max: "(a :: int) \<le> fold max xs a" "x \<in> set xs \<Longrightarrow> x \<le> fold max xs a"
proof (induction xs arbitrary: a)
  case (Cons y ys)
  { case 1 show ?case using Cons.IH(1) [of "max y a"] by simp }
  { case 2 then show ?case using Cons.IH(1) [of "max y a"] Cons.IH(2) [of "max y a"] by auto }
qed simp_all

lemma sim_sock_contract: "sock_contract (sim_sock_os err) sim_outq sim_interest"
proof -
  have "map_of (sim_reg k) (ep, 1 + fold max (map (snd \<circ> fst) (sim_reg k) @ sim_closed k) 4) = None" for k ep
  proof (rule ccontr)
    let ?f = "1 + fold max (map (snd \<circ> fst) (sim_reg k) @ sim_closed k) 4"
    assume "\<not> ?thesis"
    then obtain ev where "((ep, ?f), ev) \<in> set (sim_reg k)" using map_of_SomeD by fastforce
    then have "?f \<in> set (map (snd \<circ> fst) (sim_reg k) @ sim_closed k)" by force
    from le_fold_max(2) [OF this, of 4] show False by simp
  qed
  then show ?thesis
    by (auto simp: sock_contract_def sim_sock_os_def sim_socket_def sim_interest_def)
qed

end
