(* ===== verification/TcpClient.thy ===== *)
theory TcpClient imports ServerCorrect Socket begin

section \<open>TcpClient.h: connecting without waiting\<close>

text \<open>
  A \<open>TcpClient\<close> makes a socket, starts a connection that does not block, and registers two callbacks:
  the message callback, and on writability one that looks at \<open>SO_ERROR\<close> to learn how the attempt ended.
  Until then the connection is \<open>BLANK\<close>.  The sockets stay in the vector \<open>clients_\<close> for as long as the
  client lives.
\<close>

subsection \<open>State\<close>

record 'k client_world = "'k conn_world" +
  cpool :: pool
  clients :: "fd list"

type_synonym 'k cworld = "'k client_world"
type_synonym 'k ccb = "conn_id \<Rightarrow> 'k cworld \<Rightarrow> 'k cworld res"

record 'k tcp_client =
  cl_codec :: codec
  cl_connEsta :: "'k ccb option"
  cl_connMsg :: "'k ccb option"
  cl_connClose :: "'k ccb option"
  cl_connError :: "'k ccb option"

text \<open>An optional callback that is run when it is set.\<close>

definition run_if_set ::
  "(conn_id \<Rightarrow> ('k, 'z) conn_world_scheme \<Rightarrow> ('k, 'z) conn_world_scheme res) option \<Rightarrow> conn_id \<Rightarrow>
     ('k, 'z) conn_world_scheme \<Rightarrow> ('k, 'z) conn_world_scheme res" where
  "run_if_set cb c w = (case cb of None \<Rightarrow> Inr w | Some f \<Rightarrow> f c w)"

text \<open>\<open>setState\<close>.\<close>

definition set_state ::
  "conn_id \<Rightarrow> conn_state \<Rightarrow> ('k, 'z) conn_world_scheme \<Rightarrow> ('k, 'z) conn_world_scheme res" where
  "set_state c s w = res_bind (deref (conns w) c) (\<lambda>x. Inr (upd_conn c (x\<lparr>conn_state := s\<rparr>) w))"

subsection \<open>Closing\<close>

definition client_closeConnection ::
  "'k os \<Rightarrow> 'k tcp_client \<Rightarrow> conn_id \<Rightarrow> nat option \<Rightarrow> 'k cworld \<Rightarrow> 'k cworld res" where
  "client_closeConnection os cl c destoryCb w =
     (if destoryCb \<noteq> None then Inl Assert_failed else close_common os (delete_conn os) (cl_connClose cl) c w)"

definition client_activeClose :: "'k os \<Rightarrow> 'k tcp_client \<Rightarrow> conn_id \<Rightarrow> 'k cworld \<Rightarrow> 'k cworld res" where
  "client_activeClose os cl c w =
     res_bind (deref (conns w) c) (\<lambda>x. client_closeConnection os cl c (destoryCallback x) w)"

subsection \<open>The callbacks of a connection\<close>

definition client_message :: "'k os \<Rightarrow> 'k tcp_client \<Rightarrow> conn_id \<Rightarrow> 'k cworld \<Rightarrow> 'k cworld res" where
  "client_message os cl c w =
     res_bind (deref (conns w) c) (\<lambda>x.
       case read_from_socket os (sockfd x) (env w) (readBuffer x) default_maxBytes of
         None \<Rightarrow> Inl Does_not_return
       | Some r \<Rightarrow>
           res_bind r (\<lambda>(n, b, e).
             let w1 = (upd_conn c (x\<lparr>readBuffer := b\<rparr>) w)\<lparr>env := e\<rparr> in
             if n = 0 then client_closeConnection os cl c None w1
             else if n < 0 then
               res_bind (run_if_set (cl_connError cl) c w1) (\<lambda>w2.
                 client_closeConnection os cl c None (w2\<lparr>env := add_log (Sys ''read error'') (env w2)\<rparr>))
             else
               (case codec_check (cl_codec cl) b of
                  (ok, b', lg) \<Rightarrow>
                    let w2 = (upd_conn c (x\<lparr>readBuffer := b'\<rparr>) w)\<lparr>env := e\<lparr>logs := logs e @ lg\<rparr>\<rparr> in
                    if ok then (case cl_connMsg cl of None \<Rightarrow> Inl Bad_function_call | Some f \<Rightarrow> f c w2)
                    else Inr w2)))"

text \<open>
  The callback on writability (\<open>junk\<close>: what the variable for \<open>SO_ERROR\<close> holds if the call fails).  The
  interest in writability is dropped after the user's callback has run.
\<close>

definition client_check_connect ::
  "'k os \<Rightarrow> 'k sock_os \<Rightarrow> int \<Rightarrow> 'k tcp_client \<Rightarrow> conn_id \<Rightarrow> 'k cworld \<Rightarrow> 'k cworld res" where
  "client_check_connect os sos junk cl c w =
     res_bind (deref (conns w) c) (\<lambda>x.
       let (bad, e) = checkHasError sos junk (sockfd x) (env w); w1 = w\<lparr>env := e\<rparr> in
       if bad then client_closeConnection os cl c None w1
       else
         res_bind (run_if_set (cl_connEsta cl) c w1) (\<lambda>w2.
           res_bind (deref (conns w2) c) (\<lambda>x2.
             res_bind (setWritable os (conn_event x2) False w2) (set_state c ESTABLISHED))))"

text \<open>What a loop runs for the callbacks of a client's connections.\<close>

definition client_callback ::
  "'k os \<Rightarrow> 'k sock_os \<Rightarrow> int \<Rightarrow> 'k tcp_client \<Rightarrow> (callback \<Rightarrow> 'k cworld \<Rightarrow> 'k cworld res) \<Rightarrow>
     callback \<Rightarrow> 'k cworld \<Rightarrow> 'k cworld res" where
  "client_callback os sos junk cl rest cb w =
     (case cb of
        Cb_conn_msg c \<Rightarrow> client_message os cl c w
      | Cb_send_nonblock c \<Rightarrow> send_nonblock os (client_activeClose os cl) c w
      | Cb_check_connect c \<Rightarrow> client_check_connect os sos junk cl c w
      | _ \<Rightarrow> rest cb w)"

subsection \<open>Connecting\<close>

definition client_connect ::
  "'k os \<Rightarrow> 'k sock_os \<Rightarrow> sockaddr \<Rightarrow> 'k cworld \<Rightarrow> (conn_id \<times> 'k cworld) res" where
  "client_connect os sos addr w =
     (let (f, e) = makeNewSocket sos (env w);
          w1 = w\<lparr>clients := clients w @ [f], env := sock_connect sos f addr (setNonblock os f e)\<rparr> in
      res_bind (getNextPool (cpool w1)) (\<lambda>(l, p).
        res_bind (make_event os f (loop_ep w1 l) (w1\<lparr>cpool := p\<rparr>)) (\<lambda>(ev, w2).
          res_bind (makeHeapObject os ev l w2) (\<lambda>(c, w3).
            res_bind (set_state c BLANK w3) (\<lambda>w4.
              res_bind (res_bind (setReadCallback ev (Cb_conn_msg c) w4) (setReadable os ev True)) (\<lambda>w5.
                res_bind (res_bind (setWriteCallback ev (Cb_check_connect c) w5) (setWritable os ev True)) (\<lambda>w6.
                  Inr (c, w6))))))))"

text \<open>The destructor of the client: that of \<open>clients_\<close> closes the descriptors.\<close>

definition destroy_client :: "'k os \<Rightarrow> 'k cworld \<Rightarrow> 'k cworld" where
  "destroy_client os w = w\<lparr>env := fold (close_socket os) (clients w) (env w), clients := []\<rparr>"

subsection \<open>The client keeps the contract of \<open>TcpSource\<close>\<close>

definition client_env_ok ::
  "'k os \<Rightarrow> (fd \<Rightarrow> 'k \<Rightarrow> bytes) \<Rightarrow> (fd \<Rightarrow> 'k \<Rightarrow> bytes) \<Rightarrow> (fd \<Rightarrow> 'k \<Rightarrow> (fd \<rightharpoonup> epoll_event)) \<Rightarrow>
     'k tcp_client \<Rightarrow> bool" where
  "client_env_ok os inq outq interest cl \<longleftrightarrow>
     os_contract os inq outq interest \<and>
     (\<forall>f. cl_connMsg cl = Some f \<longrightarrow> callback_ok interest f) \<and>
     (\<forall>f. cl_connError cl = Some f \<longrightarrow> close_callback_ok interest f) \<and>
     (\<forall>f. cl_connClose cl = Some f \<longrightarrow> close_callback_ok interest f)"

lemma client_env_okD:
  assumes "client_env_ok os inq outq interest cl"
  shows "os_contract os inq outq interest"
    and "cl_connMsg cl = Some f \<Longrightarrow> callback_ok interest f"
    and "cl_connError cl = Some f \<Longrightarrow> close_callback_ok interest f"
    and "cl_connClose cl = Some f \<Longrightarrow> close_callback_ok interest f"
  using assms by (simp_all add: client_env_ok_def)

interpretation client_close: closing_source os inq outq interest "client_env_ok os inq outq interest cl" "delete_conn os"
  "\<lambda>c. client_closeConnection os cl c cb" "\<lambda>x. cl_connClose cl" for os inq outq interest cl cb
  by unfold_locales (auto simp: client_closeConnection_def dest: client_env_okD intro: delete_disposes)

interpretation client_source: closing_source os inq outq interest "client_env_ok os inq outq interest cl" "delete_conn os"
  "client_activeClose os cl" "\<lambda>x. cl_connClose cl" for os inq outq interest cl
  by unfold_locales
    (auto simp: client_activeClose_def client_closeConnection_def dest: client_env_okD intro: delete_disposes)

subsection \<open>A message\<close>

lemma client_message_cases:
  assumes ok: "client_env_ok os inq outq interest cl" and inv: "conn_inv interest w"
    and c: "conns w c = Some x" and st: "conn_state x \<noteq> BLANK"
  obtains (no_memory) "client_message os cl c w = Inl Length_error"
    | (closing) w1 x1 where "client_message os cl c w = client_closeConnection os cl c None w1"
        "conn_inv interest w1" "frame c (conn_event x) w w1" "conns w1 c = Some x1"
        "conn_event x1 = conn_event x" "conn_state x1 \<noteq> BLANK"
    | (failing) w1 x1 where "client_message os cl c w = res_bind (run_if_set (cl_connError cl) c w1) (\<lambda>w2.
           client_closeConnection os cl c None (w2\<lparr>env := add_log (Sys ''read error'') (env w2)\<rparr>))"
        "conn_inv interest w1" "frame c (conn_event x) w w1" "conns w1 c = Some x1"
        "conn_event x1 = conn_event x" "conn_state x1 \<noteq> BLANK"
    | (received) w1 x1 v where
        "client_message os cl c w =
           (if v then (case cl_connMsg cl of None \<Rightarrow> Inl Bad_function_call | Some f \<Rightarrow> f c w1) else Inr w1)"
        "conn_inv interest w1" "frame c (conn_event x) w w1" "conns w1 c = Some x1"
        "conn_event x1 = conn_event x" "conn_state x1 \<noteq> BLANK"
  using client_env_okD(1) [OF ok] inv c
proof (cases rule: read_step)
  case no_memory
  then show ?thesis using that(1) c by (simp add: client_message_def)
next
  case (got n b e)
  define w1 where "w1 = (upd_conn c (x\<lparr>readBuffer := b\<rparr>) w)\<lparr>env := e\<rparr>"
  have w1': "w1 = (upd_conn c (x\<lparr>conn_data := conn_data x, readBuffer := b\<rparr>) w)\<lparr>env := e\<rparr>" by (simp add: w1_def)
  note k = conn_inv_received [OF inv c st got(2,3) w1']
  consider "n = 0" | "n < 0" | "0 < n" by linarith
  then show ?thesis
  proof cases
    case 1
    have "client_message os cl c w = client_closeConnection os cl c None w1"
      using c got(1) 1 by (simp add: client_message_def w1_def Let_def)
    then show ?thesis using that(2) k st by simp
  next
    case 2
    have "client_message os cl c w = res_bind (run_if_set (cl_connError cl) c w1) (\<lambda>w2.
           client_closeConnection os cl c None (w2\<lparr>env := add_log (Sys ''read error'') (env w2)\<rparr>))"
      using c got(1) 2 by (simp add: client_message_def w1_def Let_def)
    then show ?thesis using that(3) k st by simp
  next
    case 3
    obtain v b' lg where cd: "codec_check (cl_codec cl) b = (v, b', lg)" by (metis prod_cases3)
    have b': "buf_inv b'" using codec_check_keeps(1) [OF got(2) cd] .
    define w2 where "w2 = (upd_conn c (x\<lparr>readBuffer := b'\<rparr>) w)\<lparr>env := e\<lparr>logs := logs e @ lg\<rparr>\<rparr>"
    have w2': "w2 = (upd_conn c (x\<lparr>conn_data := conn_data x, readBuffer := b'\<rparr>) w)\<lparr>env := e\<lparr>logs := logs e @ lg\<rparr>\<rparr>"
      by (simp add: w2_def)
    have i: "interest ep (kern (e\<lparr>logs := logs e @ lg\<rparr>)) = interest ep (kern (env w))" for ep by (simp add: got(3))
    note k2 = conn_inv_received [OF inv c st b' i w2']
    have "client_message os cl c w =
        (if v then (case cl_connMsg cl of None \<Rightarrow> Inl Bad_function_call | Some f \<Rightarrow> f c w2) else Inr w2)"
      using c got(1) 3 cd by (simp add: client_message_def w2_def Let_def split: option.split)
    then show ?thesis using that(4) k2 st by simp
  qed
qed

lemma client_message_safe:
  assumes ok: "client_env_ok os inq outq interest cl" and inv: "conn_inv interest w"
    and c: "conns w c = Some x" and st: "conn_state x \<noteq> BLANK"
  shows "client_message os cl c w \<noteq> Inl Use_after_free \<and>
    (\<forall>w'. client_message os cl c w = Inr w' \<longrightarrow> conn_inv interest w' \<and> frame c (conn_event x) w w' \<and>
       (conns w' c = None \<longrightarrow> evs w' (conn_event x) = None) \<and>
       (\<forall>y. conns w' c = Some y \<longrightarrow> conn_state y \<noteq> BLANK))"
  using ok inv c st
proof (cases rule: client_message_cases)
  case no_memory
  then show ?thesis by simp
next
  case (closing w1 x1)
  show ?thesis
    using client_close.close_live [OF ok closing(2,4,6), of None]
      client_close.close_keeps_inv [OF ok closing(2,4,6), of None] closing(1,5) frame_trans [OF closing(3)]
    by auto
next
  case (failing w1 x1)
  show ?thesis
  proof (cases "run_if_set (cl_connError cl) c w1")
    case (Inl e)
    have "e \<noteq> Use_after_free"
    proof (cases "cl_connError cl")
      case None
      then show ?thesis using Inl by (simp add: run_if_set_def)
    next
      case (Some f)
      have "callback_ok interest f" using client_env_okD(3) [OF ok Some] by (simp add: close_callback_ok_def)
      from callback_ok_live [OF this failing(2,4,6)] show ?thesis using Inl Some by (simp add: run_if_set_def)
    qed
    then show ?thesis using failing(1) Inl by simp
  next
    case (Inr w2)
    obtain x2 where x2: "conn_inv interest w2" "frame c (conn_event x) w1 w2" "conns w2 c = Some x2"
      "conn_event x2 = conn_event x" "conn_state x2 \<noteq> BLANK"
    proof (cases "cl_connError cl")
      case None
      then show ?thesis using Inr that [of x1] failing by (simp add: run_if_set_def)
    next
      case (Some f)
      then have f: "callback_ok interest f" "conns w2 c \<noteq> None" "f c w1 = Inr w2"
        using client_env_okD(3) [OF ok Some] Inr by (auto simp: close_callback_ok_def run_if_set_def)
      then obtain x2 where "conns w2 c = Some x2" by auto
      then show ?thesis using callback_okD [OF f(1) failing(2,4,6) f(3)] failing(5) that [of x2] by simp
    qed
    define w3 where "w3 = w2\<lparr>env := add_log (Sys ''read error'') (env w2)\<rparr>"
    have inv3: "conn_inv interest w3" by (rule conn_inv_same [OF x2(1)]) (simp_all add: w3_def)
    have fr3: "frame c (conn_event x) w1 w3" using x2(2) by (simp add: w3_def frame_def)
    have c3: "conns w3 c = Some x2" using x2(3) by (simp add: w3_def)
    have "client_message os cl c w = client_closeConnection os cl c None w3"
      using failing(1) Inr by (simp add: w3_def)
    then show ?thesis
      using client_close.close_live [OF ok inv3 c3 x2(5), of None]
        client_close.close_keeps_inv [OF ok inv3 c3 x2(5), of None] x2(4)
        frame_trans [OF frame_trans [OF failing(3) fr3]] by auto
  qed
next
  case (received w1 x1 v)
  show ?thesis
  proof (cases "v \<and> cl_connMsg cl \<noteq> None")
    case False
    then show ?thesis using received by auto
  next
    case True
    then obtain f where f: "v" "cl_connMsg cl = Some f" by auto
    note cb = client_env_okD(2) [OF ok f(2)]
    have run: "client_message os cl c w = f c w1" using received(1) f by simp
    show ?thesis
      using callback_ok_live [OF cb received(2,4,6)] callback_okD [OF cb received(2,4,6)] received(5)
        frame_trans [OF received(3)] unfolding run by metis
  qed
qed

subsection \<open>Connecting\<close>

lemma client_connect_spec:
  assumes os: "os_contract os inq outq interest" and sos: "sock_contract sos outq interest"
    and inv: "conn_inv interest w" and pool: "getNextPool (cpool w) = Inr (l, p)"
    and sock: "sys_socket sos (kern (env w)) = (Inr f, k)"
  obtains w' ev x where "client_connect os sos addr w = Inr (next_conn w, w')" "conn_inv interest w'"
    "x = (new_conn (next_ev w) f l)\<lparr>conn_state := BLANK\<rparr>"
    "conns w' = (conns w)(next_conn w \<mapsto> x)" "evs w' = (evs w)(next_ev w \<mapsto> ev)"
    "isReadable ev" "isWritable ev" "readCallback ev = Some (Cb_conn_msg (next_conn w))"
    "writeCallback ev = Some (Cb_check_connect (next_conn w))" "ev_fd ev = f" "epoller ev = loop_ep w l"
    "clients w' = clients w @ [f]" "cpool w' = p"
proof -
  let ?c = "next_conn w" and ?p = "next_ev w" and ?x = "(new_conn (next_ev w) f l)\<lparr>conn_state := BLANK\<rparr>"
  define e where "e = (env w)\<lparr>kern := k\<rparr>"
  define w1 where "w1 = w\<lparr>clients := clients w @ [f], env := sock_connect sos f addr (setNonblock os f e), cpool := p\<rparr>"
  have mk_sock: "makeNewSocket sos (env w) = (f, e)" using sock by (simp add: makeNewSocket_def e_def)
  have i1: "interest ep (kern (env w1)) = interest ep (kern (env w))" for ep
    using socket_interest(1) [OF sos, of ep f addr] socket_interest(2) [OF sos mk_sock]
      logged_streams(4) [OF os_contractD(3) [OF os]]
    by (simp add: w1_def)
  have inv1: "conn_inv interest w1" by (rule conn_inv_same [OF inv]) (simp_all add: i1, simp_all add: w1_def)
  have fresh: "interest ep (kern (env w1)) f = None" for ep
    using i1 sock_contractD(8) [OF sos sock] socket_interest(2) [OF sos mk_sock] by (simp add: e_def)
  have w1: "next_ev w1 = ?p" "next_conn w1 = ?c" "loop_ep w1 = loop_ep w" "evs w1 = evs w" "conns w1 = conns w"
    "clients w1 = clients w @ [f]" "cpool w1 = p"
    by (simp_all add: w1_def)
  obtain w2 e3 where mk: "make_event os f (loop_ep w1 l) w1 = Inr (?p, w2)"
    "makeHeapObject os ?p l w2 = Inr (?c, with_conn f l e3 w1)" "conn_inv interest (with_conn f l e3 w1)"
    using make_conn_spec [OF os inv1 fresh, of l] w1(1,2) by metis
  define w4 where "w4 = upd_conn ?c ?x (with_conn f l e3 w1)"
  have st: "set_state ?c BLANK (with_conn f l e3 w1) = Inr w4" by (simp add: set_state_def w4_def w1)
  have x4: "conns w4 = (conns w)(?c \<mapsto> ?x)" "evs w4 = (evs w)(?p \<mapsto> new_event f (loop_ep w l))"
    "loop_ep w4 = loop_ep w" "clients w4 = clients w @ [f]" "cpool w4 = p"
    by (simp_all add: w4_def upd_conn_def w1) (simp_all add: with_conn_def w1)
  have inv4: "conn_inv interest w4"
  proof (rule conn_inv_frame [OF mk(3), of ?c "new_conn ?p f l"])
    show "registered interest w4"
      by (rule registered_cong [OF conn_invD(1) [OF mk(3)]]) (simp_all add: w4_def upd_conn_def)
    show "conn_ok w4 ?c ?x"
      by (simp add: conn_ok_def x4 cb_free_own) (simp add: w4_def upd_conn_def w1)
  qed (simp_all add: w4_def upd_conn_def w1 frame_def)
  have c4: "conns w4 ?c = Some ?x" "evs w4 (conn_event ?x) = Some (new_event f (loop_ep w l))"
    by (simp_all add: x4)
  obtain w5 ev5 where w5: "res_bind (setReadCallback (conn_event ?x) (Cb_conn_msg ?c) w4)
      (setReadable os (conn_event ?x) True) = Inr w5" "conn_inv interest w5" "frame ?c (conn_event ?x) w4 w5"
    "conns w5 = conns w4" "evs w5 = (evs w4)(conn_event ?x \<mapsto> ev5)" "isReadable ev5"
    "readCallback ev5 = Some (Cb_conn_msg ?c)"
    "ev_fd ev5 = ev_fd (new_event f (loop_ep w l))" "epoller ev5 = epoller (new_event f (loop_ep w l))"
    using listening_conn [OF os inv4 c4] by metis
  have c5: "conns w5 ?c = Some ?x" "evs w5 (conn_event ?x) = Some ev5" using w5(4,5) c4(1) by simp_all
  let ?ev = "set_flag EPOLLOUT True (ev5\<lparr>writeCallback := Some (Cb_check_connect ?c)\<rparr>)"
  obtain e6 where w6: "res_bind (setWriteCallback (conn_event ?x) (Cb_check_connect ?c) w5)
      (setWritable os (conn_event ?x) True) = Inr (w5\<lparr>evs := (evs w5)(conn_event ?x \<mapsto> ?ev), env := e6\<rparr>)"
    "registered interest (w5\<lparr>evs := (evs w5)(conn_event ?x \<mapsto> ?ev), env := e6\<rparr>)"
    using ask_output [OF os conn_invD(1) [OF w5(2)] c5(2), of "Cb_check_connect ?c"] by metis
  define w6' where "w6' = w5\<lparr>evs := (evs w5)(conn_event ?x \<mapsto> ?ev), env := e6\<rparr>"
  have own: "cb_own ?c ev5" using event_of [OF w5(2) c5(1)] c5(2) by (metis option.inject)
  have inv6: "conn_inv interest w6'"
    by (rule conn_inv_event(1) [OF w5(2) c5 w6'_def]) (use w6(2) own in \<open>auto simp: w6'_def cb_own_def named_conns_def\<close>)
  have flags: "isWritable ?ev" "isReadable ?ev"
    using w5(6) isReadable_set_flag(1) [of True "ev5\<lparr>writeCallback := Some (Cb_check_connect ?c)\<rparr>"]
    by (simp_all only: isWritable_set_flag) (simp add: isReadable_def)
  have run: "client_connect os sos addr w = Inr (?c, w6')"
    using pool mk(1,2) st w5(1) w6(1) mk_sock
    by (simp add: client_connect_def w1_def Let_def w6'_def)
  have ext: "clients w6' = clients w @ [f]" "cpool w6' = p"
    using frameD(7) [OF w5(3)] x4(4,5) by (cases w5; cases w4; simp add: w6'_def)+
  show ?thesis
    using run inv6 flags w5(4-9) ext
    by (intro that [of w6' ?x ?ev]) (simp_all add: w6'_def x4 del: isReadable_set_flag isWritable_set_flag)
qed

text \<open>The end of an attempt that has succeeded.\<close>

lemma check_connect_eq:
  assumes c: "conns w c = Some x" and good: "checkHasError sos junk (sockfd x) (env w) = (False, e)"
    and esta: "run_if_set (cl_connEsta cl) c (w\<lparr>env := e\<rparr>) = Inr w2"
    and c2: "conns w2 c = Some x2" "evs w2 (conn_event x2) = Some ev"
  shows "client_check_connect os sos junk cl c w =
    Inr (upd_conn c (x2\<lparr>conn_state := ESTABLISHED\<rparr>)
      (w2\<lparr>evs := (evs w2)(conn_event x2 \<mapsto> set_flag EPOLLOUT False ev),
          env := logged ''in updateEvent, epoll_ctl error. {}''
            (sys_epoll_ctl os (epoller ev) CtlMod (ev_fd ev) (events (set_flag EPOLLOUT False ev), conn_event x2)) (env w2)\<rparr>))"
  using assms by (simp add: client_check_connect_def setWritable_def set_mask_eq set_state_def)

lemma check_connect_keeps:
  assumes os: "os_contract os inq outq interest" and sos: "sock_contract sos outq interest"
    and inv: "conn_inv interest w" and c: "conns w c = Some x" "contents (writeBuffer x) = []"
    and ev: "evs w (conn_event x) = Some ev"
    and good: "sys_so_error sos (sockfd x) (kern (env w)) = (Inr 0, k)" and none: "cl_connEsta cl = None"
  obtains w' where "client_check_connect os sos junk cl c w = Inr w'" "conn_inv interest w'"
    "conns w' = (conns w)(c \<mapsto> x\<lparr>conn_state := ESTABLISHED\<rparr>)"
    "evs w' = (evs w)(conn_event x \<mapsto> set_flag EPOLLOUT False ev)"
proof -
  define e where "e = (env w)\<lparr>kern := k\<rparr>"
  define w2 where "w2 = w\<lparr>env := e\<rparr>"
  have er: "checkHasError sos junk (sockfd x) (env w) = (False, e)" using good by (simp add: checkHasError_def e_def)
  have inv2: "conn_inv interest w2"
    by (rule conn_inv_same [OF inv]) (simp_all add: w2_def socket_interest(7) [OF sos er])
  have c2: "conns w2 c = Some x" "evs w2 (conn_event x) = Some ev" using c(1) ev by (simp_all add: w2_def)
  let ?ev = "set_flag EPOLLOUT False ev"
  obtain e3 where e3: "registered interest (w2\<lparr>evs := (evs w2)(conn_event x \<mapsto> ?ev), env := e3\<rparr>)"
    "e3 = logged ''in updateEvent, epoll_ctl error. {}''
      (sys_epoll_ctl os (epoller ev) CtlMod (ev_fd ev) (events ?ev, conn_event x)) (env w2)"
    using set_mask_registered [OF os_contractD(2) [OF os] conn_invD(1) [OF inv2] c2(2), of EPOLLOUT False] by metis
  define w' where "w' = upd_conn c (x\<lparr>conn_state := ESTABLISHED\<rparr>) (w2\<lparr>evs := (evs w2)(conn_event x \<mapsto> ?ev), env := e3\<rparr>)"
  have run: "client_check_connect os sos junk cl c w = Inr w'"
    using check_connect_eq [OF c(1) er _ c2, of cl os] none by (simp add: run_if_set_def w'_def e3(2) w2_def)
  have nw: "\<not> isWritable ?ev" by (simp only: isWritable_set_flag) simp
  obtain ev0 where ev0: "evs w2 (conn_event x) = Some ev0" "ev_fd ev0 = sockfd x" "epoller ev0 = loop_ep w2 (conn_loop x)"
    "buf_inv (readBuffer x)" "buf_inv (writeBuffer x)" "c < next_conn w2" "cb_own c ev0"
    using event_of [OF inv2 c2(1)] by metis
  have "conn_inv interest w'"
  proof (rule conn_inv_frame [OF inv2 c2(1), of _ "x\<lparr>conn_state := ESTABLISHED\<rparr>"])
    show "registered interest w'"
      by (rule registered_cong [OF e3(1)]) (simp_all add: w'_def upd_conn_def)
    show "conn_ok w' c (x\<lparr>conn_state := ESTABLISHED\<rparr>)"
      using ev0 c2(2) c(2) nw by (simp add: conn_ok_def w'_def upd_conn_def del: isWritable_set_flag)
  qed (simp_all add: w'_def upd_conn_def frame_def)
  then show ?thesis using run by (intro that [of w']) (simp_all add: w'_def upd_conn_def w2_def)
qed

text \<open>Sending where the event already asks for writability: the data waits, nothing else changes.\<close>

lemma send_data_waiting:
  assumes c: "conns w c = Some x" and bi: "buf_inv (writeBuffer x)" and ev: "evs w (conn_event x) = Some ev" "isWritable ev"
    and s: "s \<noteq> []" "length s \<le> writableBytes (writeBuffer x)"
  obtains b lg where "send_data os c s w = Inr (upd_conn c (x\<lparr>writeBuffer := b, isWillClose := False\<rparr>)
      (w\<lparr>env := (env w)\<lparr>logs := lg\<rparr>\<rparr>))" "buf_inv b" "contents b = contents (writeBuffer x) @ s"
proof -
  have "writableBytes (writeBuffer x) \<le> vec_max"
    using bi by (auto simp: writable_eq buf_inv_def)
  then have "length s \<le> vec_max" using s(2) by simp
  with bi show ?thesis
  proof (cases rule: buf_append_cases)
    case (appended b)
    have rb: "0 < readableBytes b" using length_contents [OF appended(2)] appended(3) s(1) by (cases s) simp_all
    define lg where "lg = logs (env w) @ (if conn_state x \<noteq> ESTABLISHED
      then [Fatal ''connection closed, can't send data!''] else [])"
    have "send_data os c s w = Inr (upd_conn c (x\<lparr>writeBuffer := b, isWillClose := False\<rparr>) (w\<lparr>env := (env w)\<lparr>logs := lg\<rparr>\<rparr>))"
      using c ev rb appended(1) by (simp add: send_data_def send_flag_def upd_conn_def lg_def add_log_def Let_def)
    then show ?thesis using that appended(2,3) by blast
  next
    case too_long
    then show ?thesis using s(2) by simp
  qed
qed

subsection \<open>A client for the witnesses\<close>

definition demo_client :: "sim \<Rightarrow> bytes \<Rightarrow> sim cworld" where
  "demo_client k out =
     \<lparr>env = \<lparr>kern = k\<lparr>sim_reg := [((3, 7), (demo_mask out, 0))]\<rparr>, logs = []\<rparr>,
      evs = [0 \<mapsto> demo_event out], next_ev = 1, conns = [0 \<mapsto> demo_conn out], next_conn = 1,
      loop_ep = (\<lambda>_. 3), localEventLoop = 1, closed_conns = Map.empty, cpool = new_pool 1 [], clients = [7]\<rparr>"

definition plain_client :: "sim ccb option \<Rightarrow> sim ccb option \<Rightarrow> sim tcp_client" where
  "plain_client esta msg = \<lparr>cl_codec = UNLIMITED_MODEL, cl_connEsta = esta, cl_connMsg = msg, cl_connClose = None,
     cl_connError = None\<rparr>"

definition demo_addr :: sockaddr where
  "demo_addr = \<lparr>sa_family = AF_INET, sin_port = htons 12345, sin_addr = In_addr 127 0 0 1\<rparr>"

lemma demo_client_inv:
  assumes "length out \<le> vec_max"
  shows "conn_inv sim_interest (demo_client k out)"
  by (rule conn_inv_same [OF server_invD(1) [OF demo_server_inv [OF assms]]])
    (simp_all add: demo_client_def demo_world_def)

text \<open>The same client while its connection is still being made, for which it waits.\<close>

definition blank_client :: "sim cworld" where
  "blank_client =
     (demo_client sim_init [])\<lparr>conns := [0 \<mapsto> (demo_conn [])\<lparr>conn_state := BLANK\<rparr>],
        evs := [0 \<mapsto> (demo_event ''x'')\<lparr>writeCallback := Some (Cb_check_connect 0)\<rparr>],
        env := \<lparr>kern = sim_init\<lparr>sim_reg := [((3, 7), (7, 0))]\<rparr>, logs = []\<rparr>\<rparr>"

lemma blank_client_sel [simp]:
  "conns blank_client = [0 \<mapsto> (demo_conn [])\<lparr>conn_state := BLANK\<rparr>]"
  "evs blank_client = [0 \<mapsto> (demo_event ''x'')\<lparr>writeCallback := Some (Cb_check_connect 0)\<rparr>]"
  "env blank_client = \<lparr>kern = sim_init\<lparr>sim_reg := [((3, 7), (7, 0))]\<rparr>, logs = []\<rparr>"
  "clients blank_client = [7]" "next_conn blank_client = 1" "next_ev blank_client = 1" "loop_ep blank_client l = 3"
  by (simp_all add: blank_client_def demo_client_def)

lemma demo_conn_bufs:
  "readBuffer (demo_conn out) = new_buffer IO_BUFFER_SIZE"
  "writeBuffer (demo_conn out) = \<lparr>vec = out, readIndex = 0, writeIndex = length out\<rparr>" "conn_loop (demo_conn out) = 1"
  by (simp_all add: demo_conn_def new_conn_def)

lemma blank_client_inv: "conn_inv sim_interest blank_client"
proof -
  have i: "sim_interest ep (sim_init\<lparr>sim_reg := [((3, 7), (7, 0))]\<rparr>) f =
      (if ep = 3 \<and> f = 7 then Some (7, 0) else None)" for ep f
    by (auto simp: sim_interest_def)
  have reg: "registered sim_interest blank_client"
    by (auto simp: registered_def i demo_event_def demo_mask_def split: if_splits)
  have ok: "conn_ok blank_client 0 ((demo_conn [])\<lparr>conn_state := BLANK\<rparr>)"
    by (auto simp: conn_ok_def demo_event_def cb_own_def named_conns_def demo_conn_bufs buf_inv_def
        new_buffer_def IO_BUFFER_SIZE_def vec_max_def names_conn_def)
  show ?thesis using reg ok by (auto simp: conn_inv_def split: if_splits)
qed

subsection \<open>Properties\<close>

text \<open>
  The two callbacks a loop runs for an established connection of a client are safe: whatever the kernel
  answers they follow no dangling pointer, and when they return the invariant holds, no other connection and
  no other event has changed, and a connection that is gone has taken its event with it.
\<close>

theorem client_callbacks_safe:
  assumes ok: "client_env_ok os inq outq interest cl" and inv: "conn_inv interest w"
    and c: "conns w c = Some x" and st: "conn_state x \<noteq> BLANK"
    and cb: "cb = Cb_conn_msg c \<or> cb = Cb_send_nonblock c"
  shows "client_callback os sos junk cl rest cb w \<noteq> Inl Use_after_free \<and>
    (\<forall>w'. client_callback os sos junk cl rest cb w = Inr w' \<longrightarrow>
       conn_inv interest w' \<and> frame c (conn_event x) w w' \<and>
       (conns w' c = None \<longrightarrow> evs w' (conn_event x) = None) \<and>
       (\<forall>y. conns w' c = Some y \<longrightarrow> conn_state y \<noteq> BLANK))"
proof (cases "cb = Cb_conn_msg c")
  case True
  then show ?thesis using client_message_safe [OF ok inv c st] by (simp add: client_callback_def)
next
  case False
  then have "client_callback os sos junk cl rest cb w = send_nonblock os (client_activeClose os cl) c w"
    using cb by (simp add: client_callback_def)
  then show ?thesis
    using client_source.send_nonblock_live [OF ok inv c st] client_source.send_nonblock_keeps [OF ok inv c st]
    by simp
qed

theorem client_callbacks_safe_witness:
  "client_callback sim_os (sim_sock_os 0) 0 (plain_client None None) (\<lambda>cb. Inr) (Cb_conn_msg 0)
     (demo_client (sim_init\<lparr>sim_rd := \<lambda>_. [RdBytes []]\<rparr>) ''hi'') \<noteq> Inl Use_after_free"
proof -
  let ?w = "demo_client (sim_init\<lparr>sim_rd := \<lambda>_. [RdBytes []]\<rparr>) ''hi''"
  have "client_env_ok sim_os sim_inq sim_outq sim_interest (plain_client None None)"
    by (simp add: client_env_ok_def plain_client_def sim_os_contract)
  moreover have "conn_inv sim_interest ?w" by (rule demo_client_inv) (simp add: vec_max_def)
  moreover have "conns ?w 0 = Some (demo_conn ''hi'')" by (simp add: demo_client_def)
  ultimately show ?thesis
    using client_callbacks_safe [of sim_os sim_inq sim_outq sim_interest "plain_client None None" ?w 0 "demo_conn ''hi''"
        "Cb_conn_msg 0" "sim_sock_os 0" 0 "\<lambda>cb. Inr"] by simp
qed



text \<open>
  What the user sends in the callback for established connections is not sent.  The data goes to the
  write buffer of a connection that waits for writability already; then the callback that found the
  connection established drops the interest in writability, and nothing will run \<open>sendNonblock\<close>: the
  invariant of established connections does not hold.
\<close>

theorem client_early_send_lost:
  assumes inv: "conn_inv interest w" and c: "conns w c = Some x" and empty: "contents (writeBuffer x) = []"
    and ev: "evs w (conn_event x) = Some ev" "isWritable ev"
    and good: "sys_so_error sos (sockfd x) (kern (env w)) = (Inr 0, k)"
    and esta: "cl_connEsta cl = Some (\<lambda>c w. send_data os c s w)"
    and s: "s \<noteq> []" "length s \<le> writableBytes (writeBuffer x)"
  shows "\<exists>w' x' ev'. client_check_connect os sos junk cl c w = Inr w' \<and> conns w' c = Some x' \<and>
    conn_state x' = ESTABLISHED \<and> contents (writeBuffer x') = s \<and>
    evs w' (conn_event x') = Some ev' \<and> \<not> isWritable ev' \<and> \<not> conn_inv interest w'"
proof -
  define w2 where "w2 = w\<lparr>env := (env w)\<lparr>kern := k\<rparr>\<rparr>"
  have bi: "buf_inv (writeBuffer x)" using event_of [OF inv c] by metis
  have c2: "conns w2 c = Some x" "evs w2 (conn_event x) = Some ev" using c ev by (simp_all add: w2_def)
  obtain b lg where send: "send_data os c s w2 = Inr (upd_conn c (x\<lparr>writeBuffer := b, isWillClose := False\<rparr>)
      (w2\<lparr>env := (env w2)\<lparr>logs := lg\<rparr>\<rparr>))" "contents b = s"
    using send_data_waiting [OF c2(1) bi c2(2) ev(2) s] empty by (metis append_Nil)
  define w3 where "w3 = upd_conn c (x\<lparr>writeBuffer := b, isWillClose := False\<rparr>) (w2\<lparr>env := (env w2)\<lparr>logs := lg\<rparr>\<rparr>)"
  let ?x = "x\<lparr>writeBuffer := b, isWillClose := False\<rparr>" and ?ev = "set_flag EPOLLOUT False ev"
  have er: "checkHasError sos junk (sockfd x) (env w) = (False, (env w)\<lparr>kern := k\<rparr>)"
    using good by (simp add: checkHasError_def)
  have c3: "conns w3 c = Some ?x" "evs w3 (conn_event ?x) = Some ev" using c2 by (simp_all add: w3_def upd_conn_def)
  obtain w' where w': "client_check_connect os sos junk cl c w = Inr w'"
    "conns w' c = Some (?x\<lparr>conn_state := ESTABLISHED\<rparr>)" "evs w' (conn_event x) = Some ?ev"
    using check_connect_eq [OF c er _ c3, of cl os] esta send(1)
    by (simp add: run_if_set_def w2_def w3_def upd_conn_def)
  have nw: "\<not> isWritable ?ev" by (simp only: isWritable_set_flag) simp
  have "\<not> conn_ok w' c (?x\<lparr>conn_state := ESTABLISHED\<rparr>)"
    using w'(3) nw send(2) s(1) by (simp add: conn_ok_def del: isWritable_set_flag)
  then have "\<not> conn_inv interest w'" using conn_invD(2) w'(2) by metis
  then show ?thesis
    using w' nw send(2) by (intro exI [of _ w'] exI [of _ "?x\<lparr>conn_state := ESTABLISHED\<rparr>"] exI [of _ ?ev])
      (simp del: isWritable_set_flag)
qed

theorem client_early_send_lost_witness:
  "\<exists>w' x' ev'. client_check_connect sim_os (sim_sock_os 0) 0 (plain_client (Some (\<lambda>c w. send_data sim_os c ''hello'' w)) None)
      0 (blank_client\<lparr>conns := [0 \<mapsto> (new_conn 0 7 1)\<lparr>conn_state := BLANK\<rparr>]\<rparr>) = Inr w' \<and>
    conns w' 0 = Some x' \<and> contents (writeBuffer x') = ''hello'' \<and> evs w' (conn_event x') = Some ev' \<and> \<not> isWritable ev'"
proof -
  let ?x = "(new_conn 0 7 1)\<lparr>conn_state := BLANK\<rparr>"
  let ?w = "blank_client\<lparr>conns := [0 \<mapsto> ?x]\<rparr>"
  let ?ev = "(demo_event ''x'')\<lparr>writeCallback := Some (Cb_check_connect 0)\<rparr>"
  have inv: "conn_inv sim_interest ?w"
    by (rule conn_inv_update [OF blank_client_inv, of 0 "(demo_conn [])\<lparr>conn_state := BLANK\<rparr>" _ ?x])
      (auto simp: conn_ok_def demo_event_def cb_own_def named_conns_def names_conn_def
        intro!: registered_cong [OF conn_invD(1) [OF blank_client_inv]])
  have c: "conns ?w 0 = Some ?x" "contents (writeBuffer ?x) = []" by simp_all
  have ev: "evs ?w (conn_event ?x) = Some ?ev" "isWritable ?ev"
    by (simp_all add: isWritable_def demo_event_def demo_mask_def mask_defs)
  have good: "sys_so_error (sim_sock_os 0) (sockfd ?x) (kern (env ?w)) = (Inr 0, kern (env ?w))"
    by (simp add: sim_sock_os_def)
  have s: "''hello'' \<noteq> []" "length ''hello'' \<le> writableBytes (writeBuffer ?x)"
    by (simp_all add: new_conn_def new_buffer_def writableBytes_def IO_BUFFER_SIZE_def sz_sub_def)
  have esta: "cl_connEsta (plain_client (Some (\<lambda>c w. send_data sim_os c ''hello'' w)) None) =
      Some (\<lambda>c w. send_data sim_os c ''hello'' w)"
    by (simp add: plain_client_def)
  from client_early_send_lost [OF inv c ev good esta s, where junk = 0] show ?thesis by blast
qed

text \<open>
  An attempt that fails, and what is left of it.  The close callback apart, the connection and its event
  are gone and the invariant holds; its descriptor, closed with it, is still in \<open>clients_\<close>, and the
  destructor of the client closes it again (whatever it names by then).  \<open>closes f k\<close> counts the calls
  \<open>close(f)\<close> the kernel has seen.
\<close>

definition counts_closes :: "'k os \<Rightarrow> 'k sock_os \<Rightarrow> fd \<Rightarrow> ('k \<Rightarrow> nat) \<Rightarrow> bool" where
  "counts_closes os sos f closes \<longleftrightarrow>
     (\<forall>k. closes (sys_close os f k) = Suc (closes k)) \<and> (\<forall>g k. closes k \<le> closes (sys_close os g k)) \<and>
     (\<forall>ep op g m k. closes (snd (sys_epoll_ctl os ep op g m k)) = closes k) \<and>
     (\<forall>g k. closes (snd (sys_so_error sos g k)) = closes k)"

lemma counts_close_socket:
  assumes "counts_closes os sos f closes"
  shows "closes (kern e) \<le> closes (kern (close_socket os g e))"
    and "f \<noteq> 0 \<Longrightarrow> closes (kern (close_socket os f e)) = Suc (closes (kern e))"
  using assms by (simp_all add: counts_closes_def close_socket_def)

lemma counts_closes_fold:
  assumes n: "counts_closes os sos f closes"
  shows "closes (kern e) \<le> closes (kern (fold (close_socket os) fs e))"
    and "f \<in> set fs \<Longrightarrow> f \<noteq> 0 \<Longrightarrow> Suc (closes (kern e)) \<le> closes (kern (fold (close_socket os) fs e))"
proof (induction fs arbitrary: e)
  case (Cons g fs)
  { case 1
    show ?case using Cons.IH(1) [of "close_socket os g e"] counts_close_socket(1) [OF n, of e g] by simp }
  { case 2
    show ?case
    proof (cases "g = f")
      case True
      then show ?thesis using Cons.IH(1) [of "close_socket os g e"] counts_close_socket(2) [OF n 2(2), of e] by simp
    next
      case False
      then show ?thesis
        using Cons.IH(2) [of "close_socket os g e"] counts_close_socket(1) [OF n, of e g] 2 by simp
    qed }
qed simp_all

theorem client_closes_twice:
  assumes os: "os_contract os inq outq interest" and sos: "sock_contract sos outq interest"
    and inv: "conn_inv interest w" and c: "conns w c = Some x" "contents (writeBuffer x) = []"
    and f: "sockfd x \<in> set (clients w)" "sockfd x \<noteq> 0"
    and bad: "sys_so_error sos (sockfd x) (kern (env w)) = (Inr err, k)" "err \<noteq> 0"
    and none: "cl_connClose cl = None" and n: "counts_closes os sos (sockfd x) closes"
  shows "\<exists>w'. client_check_connect os sos junk cl c w = Inr w' \<and> conn_inv interest w' \<and>
    conns w' c = None \<and> evs w' (conn_event x) = None \<and> sockfd x \<in> set (clients w') \<and>
    closes (kern (env w)) + 2 \<le> closes (kern (env (destroy_client os w')))"
proof -
  define w1 where "w1 = w\<lparr>env := (env w)\<lparr>kern := k\<rparr>\<rparr>"
  have er: "checkHasError sos junk (sockfd x) (env w) = (True, (env w)\<lparr>kern := k\<rparr>)"
    using bad by (simp add: checkHasError_def)
  have inv1: "conn_inv interest w1"
    by (rule conn_inv_same [OF inv]) (simp_all add: w1_def sock_contractD(6) [OF sos bad(1)])
  have c1: "conns w1 c = Some x" using c(1) by (simp add: w1_def)
  have bi: "buf_inv (writeBuffer x)" using event_of [OF inv1 c1] by metis
  have rb: "readableBytes (writeBuffer x) = 0" using c(2) length_contents [OF bi] by simp
  obtain w' where w': "res_bind (destroy os c w1) (delete_conn os c) = Inr w'" "conn_inv interest w'"
    "frame c (conn_event x) w1 w'" "conns w' c = None" "evs w' (conn_event x) = None"
    "kern (env w') = (let k = snd (sys_epoll_ctl os (loop_ep w1 (conn_loop x)) CtlDel (sockfd x)
        (events (the (evs w1 (conn_event x))), conn_event x) (kern (env w1)))
      in if sockfd x \<noteq> 0 then sys_close os (sockfd x) k else k)"
    using dispose_spec [OF os inv1 c1] by metis
  have "client_check_connect os sos junk cl c w = close_common os (delete_conn os) None c w1"
    using c(1) er none by (simp add: client_check_connect_def client_closeConnection_def w1_def)
  also have "\<dots> = Inr w'" using c1 rb w'(1) by (simp add: close_common_def)
  finally have run: "client_check_connect os sos junk cl c w = Inr w'" .
  have cl: "clients w' = clients w" using frameD(7) [OF w'(3)] by (cases w'; cases w1; cases w) (simp add: w1_def)
  have "closes (kern (env w')) = Suc (closes k)"
    using w'(6) f(2) n by (simp add: counts_closes_def Let_def w1_def)
  moreover have "closes k = closes (kern (env w))"
    using n bad(1) unfolding counts_closes_def by (metis snd_conv)
  moreover have "Suc (closes (kern (env w'))) \<le> closes (kern (env (destroy_client os w')))"
    using counts_closes_fold(2) [OF n, of "clients w'" "env w'"] f cl by (simp add: destroy_client_def)
  ultimately show ?thesis using run w'(2,4,5) cl f by auto
qed

theorem client_closes_twice_witness:
  "\<exists>w'. client_check_connect sim_os (sim_sock_os 111) 0 (plain_client None None) 0 blank_client = Inr w' \<and>
    conns w' 0 = None \<and> 2 \<le> count_list (sim_closed (kern (env (destroy_client sim_os w')))) 7"
proof -
  let ?x = "(demo_conn [])\<lparr>conn_state := BLANK\<rparr>"
  have c: "conns blank_client 0 = Some ?x" "contents (writeBuffer ?x) = []" by simp_all
  have f: "sockfd ?x \<in> set (clients blank_client)" "sockfd ?x \<noteq> 0" by simp_all
  have bad: "sys_so_error (sim_sock_os 111) (sockfd ?x) (kern (env blank_client)) = (Inr 111, kern (env blank_client))"
    by (simp add: sim_sock_os_def)
  have none: "cl_connClose (plain_client None None) = None" by (simp add: plain_client_def)
  have "sim_closed (snd (sim_epoll_ctl ep op g m k)) = sim_closed k" for ep op g m k
    by (simp add: sim_epoll_ctl_def Let_def split: ctl_op.split)
  then have n: "counts_closes sim_os (sim_sock_os 111) (sockfd ?x) (\<lambda>k. count_list (sim_closed k) 7)"
    by (simp add: counts_closes_def sim_close_def sim_sock_os_def)
  from client_closes_twice [OF sim_os_contract sim_sock_contract blank_client_inv c f bad _ none n, where junk = 0]
  show ?thesis by (auto simp: sim_init_def)
qed

end
