(* ===== verification/FreeServerClient.thy ===== *)
theory FreeServerClient imports TcpClient begin

section \<open>FreeServerClient.h: servers and clients on one set of loops\<close>

text \<open>
  A \<open>FreeServerClient\<close> listens on any number of ports and makes any number of connections, each with its
  own codec and callbacks, which the closures it registers carry.  Here a closure is a \<open>callback\<close> of theory
  \<open>Event\<close>, what it carries is in the tables \<open>listen_port\<close> and \<open>conn_port\<close>, and the user's functions are
  named by numbers: \<open>user n\<close> for establishment and messages, \<open>keeper n\<close> for errors and destruction, after
  which the code goes on with the connection.  (The default build: \<open>IDLE_CONNECTIONS_MANAGER\<close> is not defined.)
\<close>

subsection \<open>State\<close>

record funcs =
  fs_codec :: codec
  establishedCb :: "nat option"
  messageCb :: "nat option"
  destoryCb :: "nat option"
  errorCb :: "nat option"

datatype port = Accepted funcs | Connected funcs

record 'k free_world = "'k conn_world" +
  fpool :: pool
  serverfds :: "fd list"
  clientfds :: "fd list"
  listen_port :: "event_id \<rightharpoonup> fd \<times> funcs"
  conn_port :: "conn_id \<rightharpoonup> port"

type_synonym 'k fworld = "'k free_world"
type_synonym 'k user = "nat \<Rightarrow> conn_id \<Rightarrow> 'k fworld \<Rightarrow> 'k fworld res"

text \<open>Calling an unset \<open>std::function\<close> throws \<open>bad_function_call\<close>.\<close>

definition call_func :: "'k user \<Rightarrow> nat option \<Rightarrow> conn_id \<Rightarrow> 'k fworld \<Rightarrow> 'k fworld res" where
  "call_func user n c w = (case n of None \<Rightarrow> Inl Bad_function_call | Some i \<Rightarrow> user i c w)"

subsection \<open>Closing\<close>

definition free_closeConnection ::
  "'k os \<Rightarrow> 'k user \<Rightarrow> conn_id \<Rightarrow> nat option \<Rightarrow> 'k fworld \<Rightarrow> 'k fworld res" where
  "free_closeConnection os keeper c destory w = close_common os (delete_conn os) (map_option keeper destory) c w"

definition free_activeClose :: "'k os \<Rightarrow> 'k user \<Rightarrow> conn_id \<Rightarrow> 'k fworld \<Rightarrow> 'k fworld res" where
  "free_activeClose os keeper c w =
     res_bind (deref (conns w) c) (\<lambda>x. free_closeConnection os keeper c (destoryCallback x) w)"

subsection \<open>Messages\<close>

text \<open>\<open>codec.check(connection)\<close>, then the user's function.\<close>

definition check_and_deliver ::
  "'k user \<Rightarrow> funcs \<Rightarrow> conn_id \<Rightarrow> 'k fworld \<Rightarrow> 'k fworld res" where
  "check_and_deliver user fu c w =
     res_bind (deref (conns w) c) (\<lambda>x.
       case codec_check (fs_codec fu) (readBuffer x) of
         (ok, b, lg) \<Rightarrow>
           let w1 = (upd_conn c (x\<lparr>readBuffer := b\<rparr>) w)\<lparr>env := (env w)\<lparr>logs := logs (env w) @ lg\<rparr>\<rparr> in
           if ok then call_func user (messageCb fu) c w1 else Inr w1)"

text \<open>
  A connection made by \<open>createClientConn\<close>: after an error nothing more is done.  An accepted connection: the
  error function must be set, and after it the connection is checked as if data had come.
\<close>

definition free_message :: "'k os \<Rightarrow> 'k user \<Rightarrow> 'k user \<Rightarrow> port \<Rightarrow> conn_id \<Rightarrow> 'k fworld \<Rightarrow> 'k fworld res" where
  "free_message os user keeper pt c w =
     res_bind (deref (conns w) c) (\<lambda>x.
       case read_from_socket os (sockfd x) (env w) (readBuffer x) default_maxBytes of
         None \<Rightarrow> Inl Does_not_return
       | Some r \<Rightarrow>
           res_bind r (\<lambda>(n, b, e).
             let w1 = (upd_conn c (x\<lparr>readBuffer := b\<rparr>) w)\<lparr>env := e\<rparr> in
             case pt of
               Connected fu \<Rightarrow>
                 if n = 0 then free_closeConnection os keeper c (destoryCb fu) w1
                 else if n < 0 then
                   res_bind (run_if_set (map_option keeper (errorCb fu)) c w1) (\<lambda>w2.
                     Inr (w2\<lparr>env := add_log (Sys ''read error'') (env w2)\<rparr>))
                 else if messageCb fu = None then Inr w1
                 else check_and_deliver user fu c w1
             | Accepted fu \<Rightarrow>
                 if n = 0 then free_closeConnection os keeper c (destoryCb fu) w1
                 else if n < 0 then
                   res_bind (call_func keeper (errorCb fu) c w1) (\<lambda>w2.
                     check_and_deliver user fu c (w2\<lparr>env := add_log (Sys ''readFromSocket error'') (env w2)\<rparr>))
                 else check_and_deliver user fu c w1))"

subsection \<open>Accepting\<close>

text \<open>What \<open>acceptCallback\<close> does for a descriptor.\<close>

definition free_take :: "'k os \<Rightarrow> 'k user \<Rightarrow> funcs \<Rightarrow> fd \<Rightarrow> 'k fworld \<Rightarrow> 'k fworld res" where
  "free_take os user fu connfd w0 =
     res_bind (getNextPool (fpool w0)) (\<lambda>(l, p).
       res_bind (make_event os connfd (loop_ep w0 l) (w0\<lparr>fpool := p\<rparr>)) (\<lambda>(ev, w1).
         res_bind (makeHeapObject os ev l w1) (\<lambda>(c, w2).
           res_bind (deref (conns w2) c) (\<lambda>x.
             let w3 = (upd_conn c (x\<lparr>destoryCallback := destoryCb fu\<rparr>) w2)
                        \<lparr>conn_port := (conn_port w2)(c \<mapsto> Accepted fu)\<rparr> in
             res_bind (res_bind (setReadCallback ev (Cb_conn_msg c) w3) (setReadable os ev True)) (\<lambda>w4.
               run_if_set (map_option user (establishedCb fu)) c w4)))))"

text \<open>An error that is not transient is logged, and the function goes on with the descriptor \<open>-1\<close>.\<close>

definition free_accept :: "'k os \<Rightarrow> 'k user \<Rightarrow> fd \<Rightarrow> funcs \<Rightarrow> 'k fworld \<Rightarrow> 'k fworld res" where
  "free_accept os user lfd fu w =
     (case sys_accept os lfd (kern (env w)) of
        (Inr connfd, k) \<Rightarrow> free_take os user fu connfd (w\<lparr>env := (env w)\<lparr>kern := k\<rparr>\<rparr>)
      | (Inl err, k) \<Rightarrow>
          if transient err then Inr (w\<lparr>env := (env w)\<lparr>kern := k\<rparr>\<rparr>)
          else free_take os user fu (- 1) (w\<lparr>env := add_log (Sys ''accept error'') ((env w)\<lparr>kern := k\<rparr>)\<rparr>))"

text \<open>What a loop runs for the event \<open>p\<close>.\<close>

definition free_callback ::
  "'k os \<Rightarrow> 'k user \<Rightarrow> 'k user \<Rightarrow> (callback \<Rightarrow> 'k fworld \<Rightarrow> 'k fworld res) \<Rightarrow> event_id \<Rightarrow> callback \<Rightarrow>
     'k fworld \<Rightarrow> 'k fworld res" where
  "free_callback os user keeper rest p cb w =
     (case cb of
        Cb_accept \<Rightarrow> (case listen_port w p of Some (lfd, fu) \<Rightarrow> free_accept os user lfd fu w | None \<Rightarrow> rest cb w)
      | Cb_conn_msg c \<Rightarrow> (case conn_port w c of Some pt \<Rightarrow> free_message os user keeper pt c w | None \<Rightarrow> rest cb w)
      | Cb_send_nonblock c \<Rightarrow> send_nonblock os (free_activeClose os keeper) c w
      | _ \<Rightarrow> rest cb w)"

subsection \<open>Ports and connections\<close>

definition createServerPort :: "'k os \<Rightarrow> 'k sock_os \<Rightarrow> sockaddr \<Rightarrow> funcs \<Rightarrow> 'k fworld \<Rightarrow> 'k fworld res" where
  "createServerPort os sos addr fu w =
     (let (f, e) = makeNewSocket sos (env w);
          e1 = sock_listen sos f 4096 (setNonblock os f (bindAddr sos f addr (setReuseAddr sos f e)));
          w1 = w\<lparr>serverfds := serverfds w @ [f], env := e1\<rparr> in
      res_bind (make_event os f (loop_ep w1 (single_loop (fpool w1))) w1) (\<lambda>(ev, w2).
        res_bind (setReadCallback ev Cb_accept (w2\<lparr>listen_port := (listen_port w2)(ev \<mapsto> (f, fu))\<rparr>))
          (setReadable os ev True)))"

definition createClientConn ::
  "'k os \<Rightarrow> 'k sock_os \<Rightarrow> 'k user \<Rightarrow> sockaddr \<Rightarrow> funcs \<Rightarrow> 'k fworld \<Rightarrow> (conn_id \<times> 'k fworld) res" where
  "createClientConn os sos user addr fu w =
     (let (f, e) = makeNewSocket sos (env w);
          w1 = w\<lparr>clientfds := clientfds w @ [f], env := sock_connect sos f addr e\<rparr>;
          l = single_loop (fpool w1) in
      res_bind (make_event os f (loop_ep w1 l) w1) (\<lambda>(ev, w2).
        res_bind (makeHeapObject os ev l w2) (\<lambda>(c, w3).
          res_bind (run_if_set (map_option user (establishedCb fu)) c w3) (\<lambda>w4.
            res_bind (res_bind (setReadCallback ev (Cb_conn_msg c) (w4\<lparr>conn_port := (conn_port w4)(c \<mapsto> Connected fu)\<rparr>))
                (setReadable os ev True)) (\<lambda>w5. Inr (c, w5))))))"

subsection \<open>The contract of \<open>TcpSource\<close>\<close>

definition free_env_ok ::
  "'k os \<Rightarrow> (fd \<Rightarrow> 'k \<Rightarrow> bytes) \<Rightarrow> (fd \<Rightarrow> 'k \<Rightarrow> bytes) \<Rightarrow> (fd \<Rightarrow> 'k \<Rightarrow> (fd \<rightharpoonup> epoll_event)) \<Rightarrow>
     'k user \<Rightarrow> 'k user \<Rightarrow> bool" where
  "free_env_ok os inq outq interest user keeper \<longleftrightarrow>
     os_contract os inq outq interest \<and> (\<forall>n. callback_ok interest (user n)) \<and>
     (\<forall>n. close_callback_ok interest (keeper n))"

lemma free_env_okD:
  assumes "free_env_ok os inq outq interest user keeper"
  shows "os_contract os inq outq interest" and "callback_ok interest (user n)"
    and "close_callback_ok interest (keeper n)"
  using assms by (simp_all add: free_env_ok_def)

interpretation free_close: closing_source os inq outq interest "free_env_ok os inq outq interest user keeper" "delete_conn os"
  "\<lambda>c. free_closeConnection os keeper c destory" "\<lambda>x. map_option keeper destory"
  for os inq outq interest user keeper destory
  by unfold_locales (auto simp: free_closeConnection_def dest: free_env_okD intro: delete_disposes)

interpretation free_source: closing_source os inq outq interest "free_env_ok os inq outq interest user keeper" "delete_conn os"
  "free_activeClose os keeper" "\<lambda>x. map_option keeper (destoryCallback x)" for os inq outq interest user keeper
  by unfold_locales (auto simp: free_activeClose_def free_closeConnection_def dest: free_env_okD intro: delete_disposes)

subsection \<open>A message is handled safely\<close>

lemma conn_inv_log:
  assumes inv: "conn_inv interest w" and c: "conns w c = Some x"
  shows "conn_inv interest (w\<lparr>env := (env w)\<lparr>logs := lg\<rparr>\<rparr>)" "frame c p w (w\<lparr>env := (env w)\<lparr>logs := lg\<rparr>\<rparr>)"
    "conns (w\<lparr>env := (env w)\<lparr>logs := lg\<rparr>\<rparr>) c = Some x"
  using c by (auto simp: frame_def intro: conn_inv_same [OF inv])

lemma check_and_deliver_safe:
  assumes ok: "free_env_ok os inq outq interest user keeper" and inv: "conn_inv interest w"
    and c: "conns w c = Some x" and st: "conn_state x \<noteq> BLANK"
  shows "safe_outcome interest c (conn_event x) w (check_and_deliver user fu c w)"
proof -
  obtain v b lg where cd: "codec_check (fs_codec fu) (readBuffer x) = (v, b, lg)" by (metis prod_cases3)
  have bi: "buf_inv (readBuffer x)" using event_of [OF inv c] by metis
  define e where "e = (env w)\<lparr>logs := logs (env w) @ lg\<rparr>"
  define w1 where "w1 = (upd_conn c (x\<lparr>conn_data := conn_data x, readBuffer := b\<rparr>) w)\<lparr>env := e\<rparr>"
  have i: "interest ep (kern e) = interest ep (kern (env w))" for ep by (simp add: e_def)
  note k = conn_inv_received [OF inv c st codec_check_keeps(1) [OF bi cd] i w1_def]
  have eq: "check_and_deliver user fu c w = (if v then call_func user (messageCb fu) c w1 else Inr w1)"
    using c cd by (simp add: check_and_deliver_def w1_def e_def Let_def upd_conn_def)
  have "safe_outcome interest c (conn_event x) w1 (if v then call_func user (messageCb fu) c w1 else Inr w1)"
    using callback_safe [OF free_env_okD(2) [OF ok] k(1,3)] safe_outcome_done [OF k(1) frame_refl k(3)] st
    by (auto simp: call_func_def safe_outcome_error split: option.split)
  then show ?thesis using eq safe_outcome_frame [OF k(2)] by simp
qed

lemma free_message_safe:
  assumes ok: "free_env_ok os inq outq interest user keeper" and inv: "conn_inv interest w"
    and c: "conns w c = Some x" and st: "conn_state x \<noteq> BLANK"
  shows "safe_outcome interest c (conn_event x) w (free_message os user keeper pt c w)"
  using free_env_okD(1) [OF ok] inv c
proof (cases rule: read_step)
  case no_memory
  then show ?thesis using c by (simp add: free_message_def safe_outcome_error)
next
  case (got n b e)
  define w1 where "w1 = (upd_conn c (x\<lparr>conn_data := conn_data x, readBuffer := b\<rparr>) w)\<lparr>env := e\<rparr>"
  note k = conn_inv_received [OF inv c st got(2,3) w1_def]
  let ?x = "x\<lparr>conn_data := conn_data x, readBuffer := b\<rparr>"
  have st1: "conn_state ?x \<noteq> BLANK" using st by simp
  have close: "safe_outcome interest c (conn_event x) w1 (free_closeConnection os keeper c d w1)" for d
    using free_close.close_safe [OF ok k(1,3) st1, of d] by simp
  have deliver: "safe_outcome interest c (conn_event x) w1 (check_and_deliver user fu c w1)" for fu
    using check_and_deliver_safe [OF ok k(1,3) st1, of fu] by simp
  have done_: "safe_outcome interest c (conn_event x) w1 (Inr w1)"
    using safe_outcome_done [OF k(1) frame_refl k(3) st1] by simp
  have logd: "safe_outcome interest c (conn_event x) w1 (Inr (w1\<lparr>env := add_log (Sys m) (env w1)\<rparr>))" for m
    using safe_outcome_done conn_inv_log [OF k(1,3)] st1 unfolding add_log_def by blast
  have err: "safe_outcome interest c (conn_event x) w1 (res_bind (keeper i c w1) r)"
    if "\<And>w2 y. conn_inv interest w2 \<Longrightarrow> conns w2 c = Some y \<Longrightarrow> conn_event y = conn_event x \<Longrightarrow>
      conn_state y \<noteq> BLANK \<Longrightarrow> safe_outcome interest c (conn_event x) w2 (r w2)" for i r
    using safe_outcome_bind [OF free_env_okD(3) [OF ok, of i] k(1,3) st1, of r] that by simp
  have after: "safe_outcome interest c (conn_event x) w2 (Inr (w2\<lparr>env := add_log (Sys m) (env w2)\<rparr>))"
    "safe_outcome interest c (conn_event x) w2 (check_and_deliver user fu c (w2\<lparr>env := add_log (Sys m) (env w2)\<rparr>))"
    if "conn_inv interest w2" "conns w2 c = Some y" "conn_event y = conn_event x" "conn_state y \<noteq> BLANK" for w2 y m fu
  proof -
    note l = conn_inv_log [OF that(1,2), where lg = "logs (env w2) @ [Sys m]", folded add_log_def]
    show "safe_outcome interest c (conn_event x) w2 (Inr (w2\<lparr>env := add_log (Sys m) (env w2)\<rparr>))"
      using safe_outcome_done [OF l that(4)] .
    show "safe_outcome interest c (conn_event x) w2 (check_and_deliver user fu c (w2\<lparr>env := add_log (Sys m) (env w2)\<rparr>))"
      using safe_outcome_frame [OF l(2) check_and_deliver_safe [OF ok l(1,3) that(4), of fu]] that(3) by simp
  qed
  have eq: "free_message os user keeper pt c w =
     (case pt of
        Connected fu \<Rightarrow>
          if n = 0 then free_closeConnection os keeper c (destoryCb fu) w1
          else if n < 0 then
            res_bind (run_if_set (map_option keeper (errorCb fu)) c w1) (\<lambda>w2.
              Inr (w2\<lparr>env := add_log (Sys ''read error'') (env w2)\<rparr>))
          else if messageCb fu = None then Inr w1
          else check_and_deliver user fu c w1
      | Accepted fu \<Rightarrow>
          if n = 0 then free_closeConnection os keeper c (destoryCb fu) w1
          else if n < 0 then
            res_bind (call_func keeper (errorCb fu) c w1) (\<lambda>w2.
              check_and_deliver user fu c (w2\<lparr>env := add_log (Sys ''readFromSocket error'') (env w2)\<rparr>))
          else check_and_deliver user fu c w1)"
    using c got(1) by (cases pt) (simp_all add: free_message_def w1_def Let_def)
  have "safe_outcome interest c (conn_event x) w1 (free_message os user keeper pt c w)"
    unfolding eq using close deliver done_ logd err after
    by (auto simp: run_if_set_def call_func_def safe_outcome_error split: port.split option.split)
  then show ?thesis using safe_outcome_frame [OF k(2)] by simp
qed

subsection \<open>Ports and connections that are made\<close>

text \<open>A port that has been created waits for connections with the accept callback, on the main loop.\<close>

lemma server_port_listens:
  assumes os: "os_contract os inq outq interest" and sos: "sock_contract sos outq interest"
    and reg: "registered interest w" and sock: "makeNewSocket sos (env w) = (f, e)"
  obtains w' ev where "createServerPort os sos addr fu w = Inr w'" "registered interest w'"
    "evs w' = (evs w)(next_ev w \<mapsto> ev)" "ev_fd ev = f" "epoller ev = loop_ep w (single_loop (fpool w))"
    "isReadable ev" "readCallback ev = Some Cb_accept" "listen_port w' (next_ev w) = Some (f, fu)"
    "serverfds w' = serverfds w @ [f]" "cb_free ev"
    "conns w' = conns w" "next_conn w' = next_conn w" "loop_ep w' = loop_ep w"
proof -
  define e1 where "e1 = sock_listen sos f 4096 (setNonblock os f (bindAddr sos f addr (setReuseAddr sos f e)))"
  define w1 where "w1 = w\<lparr>serverfds := serverfds w @ [f], env := e1\<rparr>"
  have nb: "interest ep (kern (setNonblock os f e')) = interest ep (kern e')" for ep e'
    using logged_streams(4) [OF os_contractD(3) [OF os]] by simp
  have i1: "interest ep (kern e1) = interest ep (kern (env w))" for ep
    by (simp only: e1_def socket_interest(3-5) [OF sos] nb socket_interest(2) [OF sos sock])
  have reg1: "registered interest w1" by (rule registered_cong [OF reg]) (simp_all add: w1_def i1)
  have fresh: "interest ep (kern (env w1)) f = None" for ep
    using makeNewSocket_fresh [OF sos _ sock] registeredD(5) [OF reg] socket_interest(2) [OF sos sock] i1 by (simp add: w1_def)
  let ?ep = "loop_ep w (single_loop (fpool w))"
  obtain e2 where mk: "make_event os f ?ep w1 = Inr (next_ev w1,
      w1\<lparr>evs := (evs w1)(next_ev w1 \<mapsto> new_event f ?ep), next_ev := Suc (next_ev w1), env := e2\<rparr>)"
    "registered interest (w1\<lparr>evs := (evs w1)(next_ev w1 \<mapsto> new_event f ?ep), next_ev := Suc (next_ev w1), env := e2\<rparr>)"
    using make_event_registered [OF os_contractD(2) [OF os] reg1 fresh] by metis
  define w2 where "w2 = w1\<lparr>evs := (evs w1)(next_ev w1 \<mapsto> new_event f ?ep), next_ev := Suc (next_ev w1), env := e2\<rparr>"
  define w3 where "w3 = w2\<lparr>listen_port := (listen_port w2)(next_ev w \<mapsto> (f, fu))\<rparr>"
  have reg3: "registered interest w3"
    by (rule registered_cong [OF mk(2)]) (simp_all add: w3_def w2_def)
  have ev3: "evs w3 (next_ev w) = Some (new_event f ?ep)" by (simp add: w3_def w2_def w1_def)
  let ?ev = "set_flag (EPOLLIN OR EPOLLPRI) True ((new_event f ?ep)\<lparr>readCallback := Some Cb_accept\<rparr>)"
  obtain e4 where w4: "res_bind (setReadCallback (next_ev w) Cb_accept w3) (setReadable os (next_ev w) True) =
      Inr (w3\<lparr>evs := (evs w3)(next_ev w \<mapsto> ?ev), env := e4\<rparr>)"
    "registered interest (w3\<lparr>evs := (evs w3)(next_ev w \<mapsto> ?ev), env := e4\<rparr>)"
    using ask_input [OF os reg3 ev3, of Cb_accept] by metis
  have "createServerPort os sos addr fu w = Inr (w3\<lparr>evs := (evs w3)(next_ev w \<mapsto> ?ev), env := e4\<rparr>)"
    using mk(1) w4(1) sock
    by (simp add: createServerPort_def w1_def w2_def w3_def e1_def Let_def)
  moreover have "isReadable ?ev" by (simp only: isReadable_set_flag)
  moreover have "cb_free ?ev" by (simp add: cb_free_def named_conns_def new_event_def)
  ultimately show ?thesis
    using w4(2) by (intro that [of "w3\<lparr>evs := (evs w3)(next_ev w \<mapsto> ?ev), env := e4\<rparr>" ?ev])
      (simp_all add: w3_def w2_def w1_def del: isReadable_set_flag)
qed

text \<open>
  \<open>createClientConn\<close> tells the user of an established connection whatever \<open>connect\<close> has answered: the failure
  is a line of the log.
\<close>

lemma client_conn_unchecked:
  assumes sock: "sys_socket sos (kern (env w)) = (Inr f, k)" and con: "sys_connect sos f addr k = (Some err, k1)"
    and err: "err \<noteq> EINPROGRESS" and esta: "establishedCb fu = Some n"
  shows "\<exists>w1 rest x. createClientConn os sos user addr fu w = res_bind (user n (next_conn w) w1) rest \<and>
    conns w1 (next_conn w) = Some x \<and> conn_state x = ESTABLISHED \<and> sockfd x = f"
  using assms
  by (simp add: createClientConn_def makeNewSocket_def sock_connect_def Let_def make_event_def get_new_object_def
      add_event_def makeHeapObject_def run_if_set_def)
    (rule exI, rule conjI, rule exI, rule refl, simp)

subsection \<open>Properties\<close>

text \<open>
  What a loop runs for an established connection of a \<open>FreeServerClient\<close>, accepted or made by it, is safe
  when the functions for errors and destruction leave the connection alone: no dangling pointer is followed,
  the invariant and everything that belongs to others stay, a connection that is gone has taken its event
  with it.
\<close>

theorem free_callbacks_safe:
  assumes ok: "free_env_ok os inq outq interest user keeper" and inv: "conn_inv interest w"
    and c: "conns w c = Some x" "conn_port w c = Some pt" and st: "conn_state x \<noteq> BLANK"
    and cb: "cb = Cb_conn_msg c \<or> cb = Cb_send_nonblock c"
  shows "safe_outcome interest c (conn_event x) w (free_callback os user keeper rest p cb w)"
proof (cases "cb = Cb_conn_msg c")
  case True
  then show ?thesis using free_message_safe [OF ok inv c(1) st] c(2) by (simp add: free_callback_def)
next
  case False
  then show ?thesis using free_source.send_safe [OF ok inv c(1) st] cb by (simp add: free_callback_def)
qed

text \<open>
  Accepting.  A descriptor that \<open>accept\<close> returns becomes an established connection with the destroy
  function of its port, on the loop whose turn it is, with an event that asks for input and runs the message
  callback of that port.
\<close>

theorem free_accepts:
  assumes os: "os_contract os inq outq interest" and inv: "conn_inv interest w"
    and acc: "sys_accept os lfd (kern (env w)) = (Inr f, k)" and pool: "getNextPool (fpool w) = Inr (l, p)"
    and none: "establishedCb fu = None"
  shows "\<exists>w' ev. free_accept os user lfd fu w = Inr w' \<and> conn_inv interest w' \<and>
    conns w' = (conns w)(next_conn w \<mapsto> (new_conn (next_ev w) f l)\<lparr>destoryCallback := destoryCb fu\<rparr>) \<and>
    conn_port w' (next_conn w) = Some (Accepted fu) \<and> evs w' = (evs w)(next_ev w \<mapsto> ev) \<and>
    ev_fd ev = f \<and> epoller ev = loop_ep w l \<and> isReadable ev \<and> \<not> isWritable ev \<and>
    readCallback ev = Some (Cb_conn_msg (next_conn w)) \<and> fpool w' = p"
proof -
  let ?c = "next_conn w" and ?p = "next_ev w"
  let ?x = "(new_conn ?p f l)\<lparr>destoryCallback := destoryCb fu\<rparr>"
  note fr = os_contractD(3) [OF os]
  define w1 where "w1 = w\<lparr>env := (env w)\<lparr>kern := k\<rparr>, fpool := p\<rparr>"
  have w1: "next_ev w1 = ?p" "next_conn w1 = ?c" "loop_ep w1 = loop_ep w" "evs w1 = evs w" "conns w1 = conns w"
    "conn_port w1 = conn_port w" "fpool w1 = p" by (simp_all add: w1_def)
  have inv1: "conn_inv interest w1"
    by (rule conn_inv_same [OF inv]) (simp_all add: w1_def frame_contractD(3) [OF fr acc])
  have fresh: "interest ep (kern (env w1)) f = None" for ep
    using frame_contractD(10) [OF fr acc] frame_contractD(3) [OF fr acc] by (simp add: w1_def)
  obtain w2 e where mk: "make_event os f (loop_ep w1 l) w1 = Inr (?p, w2)"
    "makeHeapObject os ?p l w2 = Inr (?c, with_conn f l e w1)" "conn_inv interest (with_conn f l e w1)"
    using make_conn_spec [OF os inv1 fresh, of l] w1(1,2) by metis
  define w3 where "w3 = (upd_conn ?c ?x (with_conn f l e w1))\<lparr>conn_port := (conn_port (with_conn f l e w1))(?c \<mapsto> Accepted fu)\<rparr>"
  have w3: "conns w3 = (conns w)(?c \<mapsto> ?x)" "evs w3 = (evs w)(?p \<mapsto> new_event f (loop_ep w l))"
    "conn_port w3 ?c = Some (Accepted fu)" "fpool w3 = p" "loop_ep w3 = loop_ep w"
    by (simp_all add: w3_def upd_conn_def w1) (simp_all add: with_conn_def w1)
  have inv3: "conn_inv interest w3"
  proof (rule conn_inv_update [OF mk(3), of ?c "new_conn ?p f l" _ ?x])
    show "registered interest w3"
      by (rule registered_cong [OF conn_invD(1) [OF mk(3)]]) (simp_all add: w3_def upd_conn_def)
    show "conn_ok w3 ?c ?x"
      by (simp add: conn_ok_def w3 cb_free_own) (simp add: w3_def upd_conn_def w1)
  qed (simp_all add: w3_def upd_conn_def w1)
  have c3: "conns w3 ?c = Some ?x" "evs w3 (conn_event ?x) = Some (new_event f (loop_ep w l))" by (simp_all add: w3)
  obtain w4 ev where w4: "res_bind (setReadCallback (conn_event ?x) (Cb_conn_msg ?c) w3)
      (setReadable os (conn_event ?x) True) = Inr w4" "conn_inv interest w4" "frame ?c (conn_event ?x) w3 w4"
    "conns w4 = conns w3" "evs w4 = (evs w3)(conn_event ?x \<mapsto> ev)" "isReadable ev"
    "isWritable ev = isWritable (new_event f (loop_ep w l))" "readCallback ev = Some (Cb_conn_msg ?c)"
    "ev_fd ev = ev_fd (new_event f (loop_ep w l))" "epoller ev = epoller (new_event f (loop_ep w l))"
    using listening_conn [OF os inv3 c3] by metis
  have run: "free_accept os user lfd fu w = Inr w4"
    using acc pool mk(1,2) w4(1) none
    by (simp add: free_accept_def free_take_def w1_def w3_def Let_def run_if_set_def)
  have "conn_port w4 = conn_port w3" "fpool w4 = fpool w3"
    using frameD(7) [OF w4(3)] by (cases w4; cases w3; simp)+
  then show ?thesis
    using run w4 w3 by (intro exI [of _ w4] exI [of _ ev]) simp
qed

text \<open>
  When \<open>accept\<close> fails with an error that is not transient, no descriptors left for one, the function
  logs it and goes on: it makes an event and a connection for the descriptor \<open>-1\<close> and tells the user of a
  new connection.
\<close>

theorem free_accept_goes_on:
  assumes acc: "sys_accept os lfd (kern (env w)) = (Inl err, k)" "\<not> transient err"
    and pool: "getNextPool (fpool w) = Inr (l, p)" and esta: "establishedCb fu = Some n"
  shows "\<exists>w1 x. free_accept os user lfd fu w = user n (next_conn w) w1 \<and> conns w1 (next_conn w) = Some x \<and>
    sockfd x = - 1 \<and> conn_state x = ESTABLISHED \<and> conn_port w1 (next_conn w) = Some (Accepted fu)"
  using assms
  by (simp add: free_accept_def free_take_def Let_def make_event_def get_new_object_def add_event_def makeHeapObject_def
      setReadCallback_def setReadable_def set_mask_def update_event_def run_if_set_def upd_conn_def)
    (rule exI, rule conjI, rule refl, simp)

text \<open>
  A function for errors that closes its connection, as \<open>activeClose\<close> would, makes the message callback of
  an accepted connection use what was freed: after a failing read the code goes on with the connection.
\<close>

theorem free_error_close_dangles:
  assumes ok: "free_env_ok os inq outq interest user keeper" and inv: "conn_inv interest w"
    and c: "conns w c = Some x" "contents (writeBuffer x) = []" "destoryCallback x = None"
    and st: "conn_state x \<noteq> BLANK"
    and rd: "read_from_socket os (sockfd x) (env w) (readBuffer x) default_maxBytes = Some (Inr (n, b, e))" "n < 0"
    and err: "errorCb fu = Some i" "closer i = free_activeClose os keeper"
  shows "free_message os user closer (Accepted fu) c w = Inl Use_after_free"
  using free_env_okD(1) [OF ok] inv c(1)
proof (cases rule: read_step)
  case no_memory
  then show ?thesis using rd(1) by simp
next
  case (got n' b' e')
  then have nb: "n' = n" "b' = b" "e' = e" using rd(1) by simp_all
  define w1 where "w1 = (upd_conn c (x\<lparr>conn_data := conn_data x, readBuffer := b\<rparr>) w)\<lparr>env := e\<rparr>"
  let ?x = "x\<lparr>conn_data := conn_data x, readBuffer := b\<rparr>"
  note k = conn_inv_received [OF inv c(1) st got(2,3) w1_def [folded nb], unfolded nb]
  have bi: "buf_inv (writeBuffer ?x)" using event_of [OF k(1,3)] by metis
  have rb: "readableBytes (writeBuffer x) = 0" using c(2) length_contents [OF bi] by simp
  obtain w2 where w2: "res_bind (destroy os c w1) (delete_conn os c) = Inr w2" "conns w2 c = None"
    using dispose_spec [OF free_env_okD(1) [OF ok] k(1,3)] by metis
  have "free_activeClose os keeper c w1 = Inr w2"
    using k(3) rb c(3) w2(1) by (simp add: free_activeClose_def free_closeConnection_def close_common_def)
  then show ?thesis
    using c(1) rd w2(2) err
    by (simp add: free_message_def call_func_def check_and_deliver_def w1_def)
qed

subsection \<open>Witnesses\<close>

text \<open>
  One accepted connection on descriptor 7 and a port on descriptor 4; the user's functions look at their connection and do nothing.
\<close>

definition demo_funcs :: funcs where
  "demo_funcs = \<lparr>fs_codec = UNLIMITED_MODEL, establishedCb = None, messageCb = Some 0, destoryCb = None, errorCb = Some 1\<rparr>"

definition demo_free :: "sim \<Rightarrow> bytes \<Rightarrow> sim fworld" where
  "demo_free k out =
     \<lparr>env = \<lparr>kern = k\<lparr>sim_reg := [((3, 7), (demo_mask out, 0))]\<rparr>, logs = []\<rparr>,
      evs = [0 \<mapsto> demo_event out], next_ev = 1, conns = [0 \<mapsto> demo_conn out], next_conn = 1,
      loop_ep = (\<lambda>_. 3), localEventLoop = 1, closed_conns = Map.empty, fpool = new_pool 1 [], serverfds = [4], clientfds = [],
      listen_port = Map.empty, conn_port = [0 \<mapsto> Accepted demo_funcs]\<rparr>"

definition idle_user :: "sim user" where
  "idle_user n c w = res_bind (deref (conns w) c) (\<lambda>x. Inr w)"

lemma demo_free_sel [simp]:
  "conns (demo_free k out) = [0 \<mapsto> demo_conn out]" "next_conn (demo_free k out) = 1" "next_ev (demo_free k out) = 1"
  "conn_port (demo_free k out) = [0 \<mapsto> Accepted demo_funcs]" "fpool (demo_free k out) = new_pool 1 []"
  "env (demo_free k out) = \<lparr>kern = k\<lparr>sim_reg := [((3, 7), (demo_mask out, 0))]\<rparr>, logs = []\<rparr>"
  by (simp_all add: demo_free_def)

lemma demo_free_inv:
  assumes "length out \<le> vec_max"
  shows "conn_inv sim_interest (demo_free k out)"
  by (rule conn_inv_same [OF server_invD(1) [OF demo_server_inv [OF assms]]])
    (simp_all add: demo_free_def demo_world_def)

lemma idle_env_ok: "free_env_ok sim_os sim_inq sim_outq sim_interest idle_user idle_user"
proof -
  have "close_callback_ok sim_interest (idle_user n)" for n
    by (auto simp: close_callback_ok_def callback_ok_def idle_user_def)
  then show ?thesis by (simp add: free_env_ok_def sim_os_contract close_callback_ok_def)
qed

theorem free_callbacks_safe_witness:
  "safe_outcome sim_interest 0 0 (demo_free (sim_init\<lparr>sim_rd := \<lambda>_. [RdErr ECONNRESET]\<rparr>) ''hi'')
     (free_callback sim_os idle_user idle_user (\<lambda>cb. Inr) 0 (Cb_conn_msg 0)
        (demo_free (sim_init\<lparr>sim_rd := \<lambda>_. [RdErr ECONNRESET]\<rparr>) ''hi''))"
proof -
  let ?w = "demo_free (sim_init\<lparr>sim_rd := \<lambda>_. [RdErr ECONNRESET]\<rparr>) ''hi''"
  have inv: "conn_inv sim_interest ?w" by (rule demo_free_inv) (simp add: vec_max_def)
  have c: "conns ?w 0 = Some (demo_conn ''hi'')" "conn_port ?w 0 = Some (Accepted demo_funcs)" by simp_all
  have st: "conn_state (demo_conn ''hi'') \<noteq> BLANK" by simp
  from free_callbacks_safe [OF idle_env_ok inv c st, of "Cb_conn_msg 0" "\<lambda>cb. Inr" 0]
  show ?thesis by simp
qed

theorem free_accepts_witness:
  "\<exists>w'. free_accept sim_os idle_user 4 demo_funcs (demo_free (sim_init\<lparr>sim_ready := \<lambda>_. [8]\<rparr>) []) = Inr w' \<and>
    conn_port w' 1 = Some (Accepted demo_funcs) \<and> (\<exists>x. conns w' 1 = Some x \<and> sockfd x = 8)"
proof -
  let ?k = "sim_init\<lparr>sim_ready := \<lambda>_. [8]\<rparr>"
  let ?w = "demo_free ?k []"
  have inv: "conn_inv sim_interest ?w" by (rule demo_free_inv) simp
  have acc: "sys_accept sim_os 4 (kern (env ?w)) =
      (Inr 8, ?k\<lparr>sim_reg := [((3, 7), (demo_mask [], 0))], sim_ready := (\<lambda>_. [8])(4 := [])\<rparr>)"
    by (simp add: sim_accept_def)
  have pool: "getNextPool (fpool ?w) = Inr (1, new_pool 1 [])" by (simp add: getNextPool_def new_pool_def)
  have none: "establishedCb demo_funcs = None" by (simp add: demo_funcs_def)
  from free_accepts [OF sim_os_contract inv acc pool none, of idle_user]
  obtain w' where "free_accept sim_os idle_user 4 demo_funcs ?w = Inr w'"
    "conns w' = (conns ?w)(next_conn ?w \<mapsto> (new_conn (next_ev ?w) 8 1)\<lparr>destoryCallback := destoryCb demo_funcs\<rparr>)"
    "conn_port w' (next_conn ?w) = Some (Accepted demo_funcs)" by blast
  then show ?thesis by simp
qed

theorem free_accept_goes_on_witness:
  "\<exists>w1 x. free_accept sim_os idle_user 4 (demo_funcs\<lparr>establishedCb := Some 0\<rparr>)
      (demo_free (sim_init\<lparr>sim_ready := \<lambda>_. [7]\<rparr>) []) = idle_user 0 1 w1 \<and> conns w1 1 = Some x \<and> sockfd x = - 1"
proof -
  let ?k = "sim_init\<lparr>sim_ready := \<lambda>_. [7]\<rparr>"
  let ?w = "demo_free ?k []" and ?fu = "demo_funcs\<lparr>establishedCb := Some 0\<rparr>"
  have acc: "sys_accept sim_os 4 (kern (env ?w)) = (Inl EMFILE, kern (env ?w))" "\<not> transient EMFILE"
    by (simp_all add: sim_accept_def transient_def)
  have pool: "getNextPool (fpool ?w) = Inr (1, new_pool 1 [])" by (simp add: getNextPool_def new_pool_def)
  have esta: "establishedCb ?fu = Some 0" by simp
  from free_accept_goes_on [OF acc pool esta, of idle_user] show ?thesis by auto
qed

theorem free_error_close_dangles_witness:
  "free_message sim_os idle_user (\<lambda>n. free_activeClose sim_os idle_user) (Accepted demo_funcs) 0
     (demo_free (sim_init\<lparr>sim_rd := \<lambda>_. [RdErr ECONNRESET]\<rparr>) []) = Inl Use_after_free"
proof -
  let ?w = "demo_free (sim_init\<lparr>sim_rd := \<lambda>_. [RdErr ECONNRESET]\<rparr>) []"
  have inv: "conn_inv sim_interest ?w" by (rule demo_free_inv) simp
  have c: "conns ?w 0 = Some (demo_conn [])" "contents (writeBuffer (demo_conn [])) = []"
    "destoryCallback (demo_conn []) = None" "conn_state (demo_conn []) \<noteq> BLANK" by simp_all
  have "make_room (new_buffer IO_BUFFER_SIZE) default_maxBytes = Inr (new_buffer IO_BUFFER_SIZE)"
    "writableBytes (new_buffer IO_BUFFER_SIZE) = 8192"
    by (simp_all add: make_room_def writableBytes_def new_buffer_def IO_BUFFER_SIZE_def sz_sub_def default_maxBytes_def)
  then have "\<exists>b e. read_from_socket sim_os (sockfd (demo_conn [])) (env ?w) (readBuffer (demo_conn [])) default_maxBytes =
      Some (Inr (- 1, b, e))"
    by (subst read_from_socket.simps) (simp add: demo_conn_bufs sim_read_def default_maxBytes_def)
  then obtain b e where rd: "read_from_socket sim_os (sockfd (demo_conn [])) (env ?w) (readBuffer (demo_conn []))
      default_maxBytes = Some (Inr (- 1, b, e))" by blast
  have err: "errorCb demo_funcs = Some 1" by (simp add: demo_funcs_def)
  show ?thesis
    by (rule free_error_close_dangles [OF idle_env_ok inv c rd _ err]) simp_all
qed

end
