(* ===== verification/Options.thy ===== *)
theory Options imports OS Decimal begin

section \<open>Options.h: limits of the process and of the kernel\<close>

text \<open>
  The limit on open files, read and raised by \<open>getrlimit\<close> and \<open>setrlimit\<close>, and the sizes of TCP buffers, set by a
  command run in a shell.  The calls are arguments.
\<close>

text \<open>\<open>get_limit\<close>: the current and the hard limit.  The current one is returned, both are logged.\<close>

definition getMaxFiles :: "('k \<Rightarrow> (nat \<times> nat) \<times> 'k) \<Rightarrow> 'k env \<Rightarrow> nat \<times> 'k env" where
  "getMaxFiles get_limit e =
     (let ((cur, mx), k) = get_limit (kern e) in (cur, add_log (Info ''cur: {}, max: {}'') (e\<lparr>kern := k\<rparr>)))"

text \<open>The limit becomes the hard limit, whatever \<open>files\<close> is; the result is returned.\<close>

definition setMaxFiles :: "('k \<Rightarrow> errno option \<times> 'k) \<Rightarrow> nat \<Rightarrow> 'k env \<Rightarrow> int \<times> 'k env" where
  "setMaxFiles raise_limit files e =
     (case raise_limit (kern e) of
        (None, k) \<Rightarrow> (0, e\<lparr>kern := k\<rparr>)
      | (Some _, k) \<Rightarrow> (- 1, e\<lparr>kern := k\<rparr>))"

text \<open>\<open>shell command\<close>: the result of \<open>system\<close>, negative when no shell could be run, else the status of the command.\<close>

definition run_command :: "(string \<Rightarrow> 'k \<Rightarrow> int \<times> 'k) \<Rightarrow> string \<Rightarrow> 'k env \<Rightarrow> 'k env" where
  "run_command shell command e =
     (let (n, k) = shell command (kern e); e1 = e\<lparr>kern := k\<rparr> in
      if n < 0 then add_log (Sys ''system error'') e1 else e1)"

definition setTcpRmem :: "(string \<Rightarrow> 'k \<Rightarrow> int \<times> 'k) \<Rightarrow> nat \<Rightarrow> 'k env \<Rightarrow> 'k env" where
  "setTcpRmem shell rmem = run_command shell (''sudo sysctl -w net.ipv4.tcp_rmem='' @ to_string rmem)"

definition setTcpWmem :: "(string \<Rightarrow> 'k \<Rightarrow> int \<times> 'k) \<Rightarrow> nat \<Rightarrow> 'k env \<Rightarrow> 'k env" where
  "setTcpWmem shell wmem = run_command shell (''sudo sysctl -w net.ipv4.tcp_wmem='' @ to_string wmem)"

text \<open>
  A command that runs and fails, because the user may not use \<open>sudo\<close> say, leaves no trace: only a shell that could
  not be run is logged.
\<close>

lemma failed_command_unnoticed:
  assumes "shell (''sudo sysctl -w net.ipv4.tcp_rmem='' @ to_string rmem) (kern e) = (n, k)" and "0 \<le> n"
  shows "setTcpRmem shell rmem e = e\<lparr>kern := k\<rparr>"
  using assms by (simp add: setTcpRmem_def run_command_def)

text \<open>The limit that is set does not depend on the number asked for.\<close>

lemma setMaxFiles_ignores: "setMaxFiles raise_limit m e = setMaxFiles raise_limit n e"
  by (simp add: setMaxFiles_def)

end
