(* ===== verification/ServerLife.thy ===== *)
theory ServerLife imports ServerCorrect Socket Options begin

section \<open>A \<open>TcpServer\<close> from its constructor to \<open>stop\<close>\<close>

text \<open>
  The constructor prepares the listening socket, initialises the main loop (whose eventfd gets an event of
  its own) and registers the accept callback; \<open>stop\<close> deletes the listening event.  The system calls only
  used here are arguments: \<open>eventfd\<close>, and \<open>raise_limit\<close>, the \<open>setrlimit\<close> of \<open>Options::setMaxFiles\<close>.
\<close>

subsection \<open>Operations\<close>

text \<open>
  \<open>EventLoop::init\<close> of loop \<open>l\<close>; \<open>already\<close>: the thread has a loop.  The result is the eventfd.
\<close>

definition init_event_loop ::
  "'k os \<Rightarrow> ('k \<Rightarrow> (errno + fd) \<times> 'k) \<Rightarrow> bool \<Rightarrow> loop_id \<Rightarrow> ('k, 'z) conn_world_scheme \<Rightarrow>
     (fd \<times> ('k, 'z) conn_world_scheme) res" where
  "init_event_loop os eventfd already l w =
     (let e0 = (if already then add_log (Fatal ''localEventLoop isn't nullptr!'') (env w) else env w);
          (r, k) = eventfd (kern e0);
          e1 = e0\<lparr>kern := k\<rparr>;
          (f, e2) = (case r of Inl _ \<Rightarrow> (- 1, add_log (Sys ''eventfd error'') e1) | Inr g \<Rightarrow> (g, e1));
          w1 = w\<lparr>localEventLoop := l, env := e2\<rparr> in
      res_bind (make_event os f (loop_ep w1 l) w1) (\<lambda>(p, w2).
        res_bind (res_bind (setReadCallback p Cb_wake_up w2) (setReadable os p True)) (\<lambda>w3. Inr (f, w3))))"

text \<open>The constructor; the result is the listening event.\<close>

definition new_tcp_server ::
  "'k os \<Rightarrow> 'k sock_os \<Rightarrow> ('k \<Rightarrow> (errno + fd) \<times> 'k) \<Rightarrow> ('k \<Rightarrow> errno option \<times> 'k) \<Rightarrow> bool \<Rightarrow> 'k server \<Rightarrow> sockaddr \<Rightarrow>
     loop_id \<Rightarrow> 'k sworld \<Rightarrow> (event_id \<times> 'k sworld) res" where
  "new_tcp_server os sos eventfd raise_limit already srv addr l w =
     (let (r, e) = setMaxFiles raise_limit 1048576 (env w);
          e1 = (if r < 0 then add_log (Sys ''getMaxFiles error'') e else e);
          f = listenfd srv;
          e2 = setNonblock os f (bindAddr sos f addr (setReusePort sos f (setReuseAddr sos f e1))) in
      res_bind (init_event_loop os eventfd already l (w\<lparr>env := e2\<rparr>)) (\<lambda>(_, w1).
        res_bind (make_event os f (loop_ep w1 l) w1) (\<lambda>(p, w2).
          res_bind (res_bind (setReadCallback p Cb_accept w2) (setReadable os p True)) (\<lambda>w3. Inr (p, w3)))))"

text \<open>\<open>start\<close>, up to the run of the main loop.\<close>

definition server_start :: "'k sock_os \<Rightarrow> 'k server \<Rightarrow> nat \<Rightarrow> 'k sworld \<Rightarrow> 'k sworld res" where
  "server_start sos srv nums w =
     (let w1 = w\<lparr>env := sock_listen sos (listenfd srv) 4096 (env w)\<rparr> in
      res_bind (start_helpers nums (pool w1)) (\<lambda>p. Inr (w1\<lparr>pool := p\<rparr>)))"

text \<open>\<open>stop\<close>, besides ending the loop: the listening event \<open>p\<close> is deleted.\<close>

definition server_stop :: "event_id \<Rightarrow> 'k sworld \<Rightarrow> 'k sworld res" where
  "server_stop p w = res_bind (return_object p (evs w)) (\<lambda>heap. Inr (w\<lparr>evs := heap\<rparr>))"

subsection \<open>Registering a callback for a descriptor of the server\<close>

lemma event_with_callback:
  assumes os: "os_contract os inq outq interest" and reg: "registered interest w"
    and fresh: "\<And>ep. interest ep (kern (env w)) f = None"
  obtains w1 ev e where "make_event os f ep w = Inr (next_ev w, w1)"
    "res_bind (setReadCallback (next_ev w) cb w1) (setReadable os (next_ev w) True) =
       Inr (w\<lparr>evs := (evs w)(next_ev w \<mapsto> ev), next_ev := Suc (next_ev w), env := e\<rparr>)"
    "registered interest (w\<lparr>evs := (evs w)(next_ev w \<mapsto> ev), next_ev := Suc (next_ev w), env := e\<rparr>)"
    "ev_fd ev = f" "epoller ev = ep" "isReadable ev" "readCallback ev = Some cb" "\<not> isWritable ev"
    "(\<And>c. \<not> names_conn cb c) \<Longrightarrow> cb_free ev"
proof -
  obtain e1 where mk: "make_event os f ep w = Inr (next_ev w,
      w\<lparr>evs := (evs w)(next_ev w \<mapsto> new_event f ep), next_ev := Suc (next_ev w), env := e1\<rparr>)"
    "registered interest (w\<lparr>evs := (evs w)(next_ev w \<mapsto> new_event f ep), next_ev := Suc (next_ev w), env := e1\<rparr>)"
    using make_event_registered [OF os_contractD(2) [OF os] reg fresh] by metis
  define w1 where "w1 = w\<lparr>evs := (evs w)(next_ev w \<mapsto> new_event f ep), next_ev := Suc (next_ev w), env := e1\<rparr>"
  let ?ev = "set_flag (EPOLLIN OR EPOLLPRI) True ((new_event f ep)\<lparr>readCallback := Some cb\<rparr>)"
  have reg1: "registered interest w1" "evs w1 (next_ev w) = Some (new_event f ep)" using mk(2) by (simp_all add: w1_def)
  obtain e where e: "res_bind (setReadCallback (next_ev w) cb w1) (setReadable os (next_ev w) True) =
      Inr (w1\<lparr>evs := (evs w1)(next_ev w \<mapsto> ?ev), env := e\<rparr>)"
    "registered interest (w1\<lparr>evs := (evs w1)(next_ev w \<mapsto> ?ev), env := e\<rparr>)"
    using ask_input [OF os reg1, of cb] by metis
  have fl: "isReadable ?ev" "\<not> isWritable ?ev"
    by (simp only: isReadable_set_flag, simp only: isWritable_set_flag) (simp add: isWritable_def)
  have eq: "w1\<lparr>evs := (evs w1)(next_ev w \<mapsto> ?ev), env := e\<rparr> =
      w\<lparr>evs := (evs w)(next_ev w \<mapsto> ?ev), next_ev := Suc (next_ev w), env := e\<rparr>"
    by (cases w) (simp add: w1_def)
  have "cb_free ?ev" if "\<And>c. \<not> names_conn cb c"
    using that by (auto simp: cb_free_def named_conns_def new_event_def)
  then show ?thesis
    using mk(1) e fl by (intro that [of w1 e ?ev])
      (simp_all add: w1_def [symmetric] eq del: isReadable_set_flag isWritable_set_flag)
qed

text \<open>Events that belong to no connection do not disturb the invariant of the connections.\<close>

lemma conn_inv_extend:
  assumes inv: "conn_inv interest w" and reg: "registered interest w'"
    and w': "conns w' = conns w" "next_conn w' = next_conn w" "loop_ep w' = loop_ep w"
    and old: "\<And>q ev. evs w q = Some ev \<Longrightarrow> evs w' q = Some ev"
    and new: "\<And>q ev. evs w q = None \<Longrightarrow> evs w' q = Some ev \<Longrightarrow> cb_free ev"
  shows "conn_inv interest w'"
proof -
  have "conn_ok w' c x" if "conns w c = Some x" for c x
    using conn_invD(2) [OF inv that] old w' unfolding conn_ok_def by metis
  moreover have "cb_free ev" if "evs w' p = Some ev" "\<And>c x. conns w c = Some x \<Longrightarrow> conn_event x \<noteq> p" for p ev
    using new [of p ev] conn_invD(4) [OF inv, of p] old [of p] that by (cases "evs w p") auto
  moreover have "c = d" if "conns w c = Some x" "conns w d = Some y" "conn_event x = conn_event y" for c d x y
    using conn_invD(3) [OF inv that] .
  ultimately show ?thesis using reg unfolding conn_inv_def w' by blast
qed

lemma fresh_next: "registered interest w \<Longrightarrow> evs w q = Some ev \<Longrightarrow> q < next_ev w"
  by (rule registeredD(1))

subsection \<open>The constructor\<close>

lemma new_tcp_server_spec:
  assumes os: "os_contract os inq outq interest" and sos: "sock_contract sos outq interest"
    and inv: "server_inv interest w"
    and evfd: "\<And>k. \<exists>f k'. eventfd k = (Inr f, k') \<and> f \<noteq> listenfd srv \<and>
      (\<forall>ep. interest ep k' = interest ep k \<and> interest ep k f = None)"
    and limit: "\<And>k ep. interest ep (snd (raise_limit k)) = interest ep k"
    and fresh: "\<And>ep. interest ep (kern (env w)) (listenfd srv) = None"
  shows "\<exists>w' wake ev. new_tcp_server os sos eventfd raise_limit already srv addr l w = Inr (Suc (next_ev w), w') \<and>
    server_inv interest w' \<and> conns w' = conns w \<and> loop_ep w' = loop_ep w \<and>
    evs w' = (evs w)(next_ev w \<mapsto> wake, Suc (next_ev w) \<mapsto> ev) \<and> localEventLoop w' = l \<and>
    readCallback wake = Some Cb_wake_up \<and> isReadable wake \<and> epoller wake = loop_ep w l \<and>
    readCallback ev = Some Cb_accept \<and> isReadable ev \<and> ev_fd ev = listenfd srv \<and> epoller ev = loop_ep w l"
proof -
  let ?f = "listenfd srv"
  obtain r e where lim: "setMaxFiles raise_limit 1048576 (env w) = (r, e)" by fastforce
  have i0: "interest ep (kern e) = interest ep (kern (env w))" for ep
    using lim limit [of ep "kern (env w)"] by (auto simp: setMaxFiles_def split: prod.splits option.splits)
  define e1 where "e1 = (if r < 0 then add_log (Sys ''getMaxFiles error'') e else e)"
  define e2 where "e2 = setNonblock os ?f (bindAddr sos ?f addr (setReusePort sos ?f (setReuseAddr sos ?f e1)))"
  have i2: "interest ep (kern e2) = interest ep (kern (env w))" for ep
  proof -
    have "interest ep (kern e2) = interest ep (kern (bindAddr sos ?f addr (setReusePort sos ?f (setReuseAddr sos ?f e1))))"
      by (simp add: e2_def logged_streams(4) [OF os_contractD(3) [OF os]])
    then show ?thesis by (simp add: socket_interest [OF sos] e1_def i0)
  qed
  define e3 where "e3 = (if already then add_log (Fatal ''localEventLoop isn't nullptr!'') e2 else e2)"
  have k3: "kern e3 = kern e2" by (simp add: e3_def)
  obtain g k where g: "eventfd (kern e3) = (Inr g, k)" "g \<noteq> ?f" "\<And>ep. interest ep k = interest ep (kern e3)"
    "\<And>ep. interest ep (kern e3) g = None" using evfd [of "kern e3"] by auto
  define w1 where "w1 = w\<lparr>localEventLoop := l, env := e3\<lparr>kern := k\<rparr>\<rparr>"
  have w1: "evs w1 = evs w" "next_ev w1 = next_ev w" "conns w1 = conns w" "next_conn w1 = next_conn w"
    "loop_ep w1 = loop_ep w" "localEventLoop w1 = l" by (simp_all add: w1_def)
  have i1: "interest ep (kern (env w1)) = interest ep (kern (env w))" for ep by (simp add: w1_def g(3) k3 i2)
  note inv0 = server_invD(1) [OF inv]
  have reg1: "registered interest w1"
    by (rule registered_cong [OF conn_invD(1) [OF inv0]]) (simp_all add: w1 i1)
  have fresh1: "interest ep (kern (env w1)) g = None" for ep using g(3,4) by (simp add: w1_def)
  obtain w2 wk e4 where wk: "make_event os g (loop_ep w1 l) w1 = Inr (next_ev w1, w2)"
    "res_bind (setReadCallback (next_ev w1) Cb_wake_up w2) (setReadable os (next_ev w1) True) =
       Inr (w1\<lparr>evs := (evs w1)(next_ev w1 \<mapsto> wk), next_ev := Suc (next_ev w1), env := e4\<rparr>)"
    "registered interest (w1\<lparr>evs := (evs w1)(next_ev w1 \<mapsto> wk), next_ev := Suc (next_ev w1), env := e4\<rparr>)"
    "ev_fd wk = g" "epoller wk = loop_ep w1 l" "isReadable wk" "readCallback wk = Some Cb_wake_up" "cb_free wk"
    using event_with_callback [OF os reg1 fresh1, of "loop_ep w1 l" Cb_wake_up] by (metis names_conn_simps(5))
  define w3 where "w3 = w1\<lparr>evs := (evs w)(next_ev w \<mapsto> wk), next_ev := Suc (next_ev w), env := e4\<rparr>"
  have reg3: "registered interest w3" using wk(3) by (simp add: w3_def w1)
  have fresh3: "interest ep (kern (env w3)) ?f = None" for ep
  proof (rule ccontr)
    assume "\<not> ?thesis"
    then obtain m q where "interest ep (kern (env w3)) ?f = Some (m, q)" by auto
    from registeredD(3,6) [OF reg3 this] obtain ev where "evs w3 q = Some ev" "ev_fd ev = ?f" "0 \<le> ?f" by blast
    then show False
      using wk(4) g(2) registeredD(2) [OF conn_invD(1) [OF inv0], of q ev] fresh
      by (auto simp: w3_def split: if_splits)
  qed
  have w3: "next_ev w3 = Suc (next_ev w)" "loop_ep w3 = loop_ep w" "evs w3 = (evs w)(next_ev w \<mapsto> wk)"
    by (simp_all add: w3_def w1)
  obtain w4 ev e5 where ev: "make_event os ?f (loop_ep w3 l) w3 = Inr (next_ev w3, w4)"
    "res_bind (setReadCallback (next_ev w3) Cb_accept w4) (setReadable os (next_ev w3) True) =
       Inr (w3\<lparr>evs := (evs w3)(next_ev w3 \<mapsto> ev), next_ev := Suc (next_ev w3), env := e5\<rparr>)"
    "registered interest (w3\<lparr>evs := (evs w3)(next_ev w3 \<mapsto> ev), next_ev := Suc (next_ev w3), env := e5\<rparr>)"
    "ev_fd ev = ?f" "epoller ev = loop_ep w3 l" "isReadable ev" "readCallback ev = Some Cb_accept" "cb_free ev"
    using event_with_callback [OF os reg3 fresh3, of "loop_ep w3 l" Cb_accept] by (metis names_conn_simps(4))
  define w5 where "w5 = w3\<lparr>evs := (evs w3)(next_ev w3 \<mapsto> ev), next_ev := Suc (next_ev w3), env := e5\<rparr>"
  have init: "init_event_loop os eventfd already l (w\<lparr>env := e2\<rparr>) = Inr (g, w3)"
    using wk(1,2) g(1) by (simp add: init_event_loop_def Let_def e3_def w1_def w3_def split: if_splits)
  have run: "new_tcp_server os sos eventfd raise_limit already srv addr l w = Inr (Suc (next_ev w), w5)"
    using lim init ev(1,2) w3(1)
    by (simp add: new_tcp_server_def Let_def e1_def [symmetric] e2_def [symmetric] w5_def)
  have evs5: "evs w5 = (evs w)(next_ev w \<mapsto> wk, Suc (next_ev w) \<mapsto> ev)" by (simp add: w5_def w3)
  have "conn_inv interest w5"
  proof (rule conn_inv_extend [OF inv0])
    show "registered interest w5" using ev(3) by (simp add: w5_def)
    show "evs w5 q = Some ev'" if "evs w q = Some ev'" for q ev'
      using that fresh_next [OF conn_invD(1) [OF inv0] that] by (simp add: evs5)
    show "cb_free ev'" if "evs w q = None" "evs w5 q = Some ev'" for q ev'
      using that wk(8) ev(8) by (auto simp: evs5 split: if_splits)
  qed (simp_all add: w5_def w3_def w1)
  then have "server_inv interest w5"
    using server_invD(2) [OF inv] by (auto simp: server_inv_def w5_def w3_def w1)
  then show ?thesis
    using run wk ev evs5 w3(2) w1(5)
    by - (rule exI [of _ w5], rule exI [of _ wk], rule exI [of _ ev], simp add: w5_def w3_def w1)
qed

subsection \<open>The surroundings of a constructor on the small kernel\<close>

definition demo_bind :: sockaddr where
  "demo_bind = \<lparr>sa_family = AF_INET, sin_port = htons 12345, sin_addr = In_addr 0 0 0 0\<rparr>"

lemma demo_eventfd:
  "\<exists>f k'. sim_socket k = (Inr f, k') \<and> f \<noteq> listenfd (demo_server cd msg) \<and>
     (\<forall>ep. sim_interest ep k' = sim_interest ep k \<and> sim_interest ep k f = None)"
proof -
  let ?f = "1 + fold max (map (snd \<circ> fst) (sim_reg k) @ sim_closed k) 4"
  have s: "sys_socket (sim_sock_os 0) k = (Inr ?f, k)" by (simp add: sim_sock_os_def sim_socket_def)
  have "sim_interest ep k ?f = None" for ep using sock_contractD(8) [OF sim_sock_contract s] .
  moreover have "?f \<noteq> 4" using le_fold_max(1) [of 4 "map (snd \<circ> fst) (sim_reg k) @ sim_closed k"] by simp
  moreover have "sim_socket k = (Inr ?f, k)" by (simp add: sim_socket_def)
  ultimately show ?thesis by auto
qed

lemma demo_fresh: "sim_interest ep (kern (env (demo_world k out))) (listenfd (demo_server cd msg)) = None"
  by (simp add: sim_interest_def)

subsection \<open>Properties\<close>

text \<open>
  C24: The constructor.  When the kernel answers as it documents, the server that has been made has two new
  events, for the eventfd of its loop and for the listening socket, both asking for input with their
  callbacks, on the loop's epoll instance, and the invariant of the server holds.
\<close>

theorem server_constructed:
  assumes os: "os_contract os inq outq interest" and sos: "sock_contract sos outq interest"
    and inv: "server_inv interest w"
    and evfd: "\<And>k. \<exists>f k'. eventfd k = (Inr f, k') \<and> f \<noteq> listenfd srv \<and>
      (\<forall>ep. interest ep k' = interest ep k \<and> interest ep k f = None)"
    and limit: "\<And>k ep. interest ep (snd (raise_limit k)) = interest ep k"
    and fresh: "\<And>ep. interest ep (kern (env w)) (listenfd srv) = None"
  shows "\<exists>w' wake ev. new_tcp_server os sos eventfd raise_limit already srv addr l w = Inr (Suc (next_ev w), w') \<and>
    server_inv interest w' \<and> conns w' = conns w \<and> loop_ep w' = loop_ep w \<and>
    evs w' = (evs w)(next_ev w \<mapsto> wake, Suc (next_ev w) \<mapsto> ev) \<and> localEventLoop w' = l \<and>
    readCallback wake = Some Cb_wake_up \<and> isReadable wake \<and> epoller wake = loop_ep w l \<and>
    readCallback ev = Some Cb_accept \<and> isReadable ev \<and> ev_fd ev = listenfd srv \<and> epoller ev = loop_ep w l"
  using assms by (rule new_tcp_server_spec)

theorem server_constructed_witness:
  "\<exists>w' ev. new_tcp_server sim_os (sim_sock_os 0) sim_socket (\<lambda>k. (None, k)) False (demo_server UNLIMITED_MODEL None)
      demo_bind 1 (demo_world sim_init []) = Inr (2, w') \<and>
    server_inv sim_interest w' \<and> evs w' 2 = Some ev \<and> readCallback ev = Some Cb_accept"
proof -
  let ?srv = "demo_server UNLIMITED_MODEL None" and ?w = "demo_world sim_init []"
  define raise where "raise = (\<lambda>k :: sim. (None :: errno option, k))"
  have limit: "sim_interest ep (snd (raise k)) = sim_interest ep k" for k ep by (simp add: raise_def)
  have inv: "server_inv sim_interest ?w" by (rule demo_server_inv) simp
  from server_constructed [OF sim_os_contract sim_sock_contract [of 0] inv demo_eventfd limit demo_fresh,
      where already = False and l = 1 and addr = demo_bind]
  obtain w' wake ev where w': "new_tcp_server sim_os (sim_sock_os 0) sim_socket raise False ?srv demo_bind 1 ?w =
      Inr (Suc (next_ev ?w), w')"
    "server_inv sim_interest w'" "evs w' = (evs ?w)(next_ev ?w \<mapsto> wake, Suc (next_ev ?w) \<mapsto> ev)"
    "readCallback ev = Some Cb_accept" by blast
  have "Suc (next_ev ?w) = 2" by simp
  then show ?thesis using w' unfolding raise_def by (metis fun_upd_same)
qed

text \<open>
  C40: \<open>stop\<close> deletes the listening event and leaves it in the epoll instance: the invariant that live events
  are the registered ones is broken, and a poll that reports the listening socket follows the dangling pointer.
\<close>

theorem server_stop_dangles:
  assumes inv: "server_inv interest w" and p: "evs w p = Some ev" "0 \<le> ev_fd ev" "\<forall>x \<in> ran (conns w). conn_event x \<noteq> p"
  shows "\<exists>w'. server_stop p w = Inr w' \<and> \<not> server_inv interest w' \<and>
    interest (epoller ev) (kern (env w')) (ev_fd ev) = Some (events ev, p) \<and>
    loop_pass run (Inr ((m, p) # rest)) w' = Inl Use_after_free"
proof -
  note reg = conn_invD(1) [OF server_invD(1) [OF inv]]
  define w' where "w' = w\<lparr>evs := (evs w)(p := None)\<rparr>"
  have "server_stop p w = Inr w'" using p(1) by (simp add: server_stop_def return_object_def w'_def)
  moreover have i: "interest (epoller ev) (kern (env w')) (ev_fd ev) = Some (events ev, p)"
    using registeredD(2) [OF reg p(1,2)] by (simp add: w'_def)
  moreover have "\<not> server_inv interest w'"
  proof
    assume "server_inv interest w'"
    from registeredD(3) [OF conn_invD(1) [OF server_invD(1) [OF this]] i] show False by (simp add: w'_def)
  qed
  moreover have "loop_pass run (Inr ((m, p) # rest)) w' = Inl Use_after_free"
    by (simp add: loop_pass_at_def poll_def w'_def)
  ultimately show ?thesis by blast
qed

text \<open>A server with a listening event at address 9.\<close>

definition listening_world :: "sim sworld" where
  "listening_world =
     (demo_world sim_init [])\<lparr>evs := [0 \<mapsto> demo_event [], 9 \<mapsto> (new_event 4 3)\<lparr>events := 3, readCallback := Some Cb_accept\<rparr>],
        next_ev := 10, env := \<lparr>kern = sim_init\<lparr>sim_reg := [((3, 4), (3, 9)), ((3, 7), (3, 0))]\<rparr>, logs = []\<rparr>\<rparr>"

lemma listening_world_inv: "server_inv sim_interest listening_world"
proof -
  have i: "sim_interest ep (sim_init\<lparr>sim_reg := [((3, 4), (3, 9)), ((3, 7), (3, 0))]\<rparr>) f =
      (if ep = 3 \<and> f = 4 then Some (3, 9) else if ep = 3 \<and> f = 7 then Some (3, 0) else None)" for ep f
    by (auto simp: sim_interest_def)
  have reg: "registered sim_interest listening_world"
    by (auto simp: registered_def i listening_world_def demo_event_def demo_mask_def new_event_def split: if_splits)
  have inv: "server_inv sim_interest (demo_world sim_init [])" by (rule demo_server_inv) simp
  have "conn_inv sim_interest listening_world"
    by (rule conn_inv_extend [OF server_invD(1) [OF inv] reg])
      (auto simp: listening_world_def demo_world_def cb_free_def named_conns_def names_conn_def new_event_def split: if_splits)
  then show ?thesis by (auto simp: server_inv_def listening_world_def split: if_splits)
qed

theorem server_stop_dangles_witness:
  "\<exists>w'. server_stop 9 listening_world = Inr w' \<and>
    loop_pass (server_callback sim_os (demo_server UNLIMITED_MODEL None) (\<lambda>cb. Inr)) (Inr [(EPOLLIN, 9)]) w' = Inl Use_after_free"
proof -
  have ev: "evs listening_world 9 = Some ((new_event 4 3)\<lparr>events := 3, readCallback := Some Cb_accept\<rparr>)"
    by (simp add: listening_world_def)
  have "\<forall>x \<in> ran (conns listening_world). conn_event x \<noteq> 9"
    by (auto simp: listening_world_def ran_def split: if_splits)
  moreover have "0 \<le> ev_fd ((new_event 4 3)\<lparr>events := 3, readCallback := Some Cb_accept\<rparr>)" by (simp add: new_event_def)
  ultimately show ?thesis using server_stop_dangles [OF listening_world_inv ev, where m = EPOLLIN and rest = "[]"
      and run = "server_callback sim_os (demo_server UNLIMITED_MODEL None) (\<lambda>cb. Inr)"] by blast
qed

end
