(* ===== verification/Lifetimes.thy ===== *)
theory Lifetimes imports Dispatch begin

section \<open>The lifetimes of connections and events, whatever the user sends and when\<close>

text \<open>
  The invariant of theory \<open>Connection\<close> also says when writability is asked for, which does not hold of a client whose
  user sends before the connection is established.  What is needed for no dangling pointer to be followed is
  less: \<open>heap_inv\<close>.  A connection of which it is all there is to say is one in state \<open>BLANK\<close>, so what has been shown
  of \<open>conn_inv\<close> is used on the world in which all connections are \<open>BLANK\<close>.
\<close>

subsection \<open>The invariant\<close>

definition alive :: "('k, 'z) conn_world_scheme \<Rightarrow> conn_id \<Rightarrow> tcp_conn \<Rightarrow> bool" where
  "alive w c x \<longleftrightarrow>
     c < next_conn w \<and> buf_inv (readBuffer x) \<and> buf_inv (writeBuffer x) \<and>
     (\<exists>ev. evs w (conn_event x) = Some ev \<and> ev_fd ev = sockfd x \<and>
        epoller ev = loop_ep w (conn_loop x) \<and> cb_own c ev)"

definition heap_inv ::
  "(fd \<Rightarrow> 'k \<Rightarrow> (fd \<rightharpoonup> epoll_event)) \<Rightarrow> ('k, 'z) conn_world_scheme \<Rightarrow> bool" where
  "heap_inv interest w \<longleftrightarrow>
     registered interest w \<and> (\<forall>c x. conns w c = Some x \<longrightarrow> alive w c x) \<and>
     (\<forall>p ev. evs w p = Some ev \<and> (\<forall>c x. conns w c = Some x \<longrightarrow> conn_event x \<noteq> p) \<longrightarrow> cb_free ev) \<and>
     (\<forall>c d x y. conns w c = Some x \<and> conns w d = Some y \<and> conn_event x = conn_event y \<longrightarrow> c = d)"

lemma conn_inv_heap: "conn_inv interest w \<Longrightarrow> heap_inv interest w"
  unfolding conn_inv_def heap_inv_def conn_ok_def alive_def by blast

definition blank :: "tcp_conn \<Rightarrow> tcp_conn" where
  "blank x = x\<lparr>conn_state := BLANK\<rparr>"

definition all_blank :: "('k, 'z) conn_world_scheme \<Rightarrow> ('k, 'z) conn_world_scheme" where
  "all_blank w = w\<lparr>conns := \<lambda>c. map_option blank (conns w c)\<rparr>"

lemma blank_sel [simp]:
  "readBuffer (blank x) = readBuffer x" "writeBuffer (blank x) = writeBuffer x" "conn_event (blank x) = conn_event x"
  "sockfd (blank x) = sockfd x" "conn_loop (blank x) = conn_loop x" "conn_state (blank x) = BLANK"
  "isWillClose (blank x) = isWillClose x"
  by (simp_all add: blank_def)

lemma all_blank_sel [simp]:
  "evs (all_blank w) = evs w" "next_ev (all_blank w) = next_ev w" "next_conn (all_blank w) = next_conn w"
  "loop_ep (all_blank w) = loop_ep w" "env (all_blank w) = env w" "closed_conns (all_blank w) = closed_conns w"
  "localEventLoop (all_blank w) = localEventLoop w" "conn_world.more (all_blank w) = conn_world.more w"
  "conns (all_blank w) c = map_option blank (conns w c)"
  "registered interest (all_blank w) = registered interest w"
  by (simp_all add: all_blank_def registered_def)

lemma conn_ok_blank [simp]: "conn_ok (all_blank w) c (blank x) = alive w c x"
  by (simp add: conn_ok_def alive_def)

lemma all_conns_blank:
  "(\<forall>c x. conns (all_blank w) c = Some x \<longrightarrow> P c x) \<longleftrightarrow> (\<forall>c x. conns w c = Some x \<longrightarrow> P c (blank x))"
  by (simp add: map_option_case split: option.split)

lemma heap_inv_blank: "heap_inv interest w \<longleftrightarrow> conn_inv interest (all_blank w)"
proof -
  have "(\<forall>c d x y. conns (all_blank w) c = Some x \<and> conns (all_blank w) d = Some y \<and> conn_event x = conn_event y \<longrightarrow> c = d) \<longleftrightarrow>
      (\<forall>c x. conns (all_blank w) c = Some x \<longrightarrow> (\<forall>d y. conns (all_blank w) d = Some y \<longrightarrow> conn_event x = conn_event y \<longrightarrow> c = d))"
    by blast
  also have "\<dots> \<longleftrightarrow> (\<forall>c d x y. conns w c = Some x \<and> conns w d = Some y \<and> conn_event x = conn_event y \<longrightarrow> c = d)"
    unfolding all_conns_blank blank_sel by blast
  finally show ?thesis
    unfolding heap_inv_def conn_inv_def all_conns_blank by simp
qed

lemma frame_blank: "frame c p w w' \<Longrightarrow> frame c p (all_blank w) (all_blank w')"
  by (simp add: frame_def)

lemma heap_registered: "heap_inv interest w \<Longrightarrow> registered interest w"
  by (simp add: heap_inv_def)

lemma heap_alive: "heap_inv interest w \<Longrightarrow> conns w c = Some x \<Longrightarrow> alive w c x"
  by (simp add: heap_inv_def)

lemma heap_event:
  assumes "heap_inv interest w" and "conns w c = Some x"
  obtains ev where "evs w (conn_event x) = Some ev" "ev_fd ev = sockfd x" "epoller ev = loop_ep w (conn_loop x)"
    "buf_inv (readBuffer x)" "buf_inv (writeBuffer x)" "c < next_conn w" "cb_own c ev"
  using heap_alive [OF assms] unfolding alive_def by blast

lemma alive_cong:
  assumes "alive w c x" and "evs w (conn_event x) = Some ev" and "next_conn w' = next_conn w" "loop_ep w' = loop_ep w"
    and "buf_inv (readBuffer x')" "buf_inv (writeBuffer x')" "conn_event x' = conn_event x" "sockfd x' = sockfd x"
      "conn_loop x' = conn_loop x"
    and "evs w' (conn_event x) = Some ev'" "ev_fd ev' = ev_fd ev" "epoller ev' = epoller ev" "cb_own c ev \<Longrightarrow> cb_own c ev'"
  shows "alive w' c x'"
  using assms by (auto simp: alive_def)

lemma heap_frame:
  assumes "heap_inv interest w" and "conns w c = Some x" and "frame c (conn_event x) w w'"
    and "registered interest w'" and "conns w' c = Some x'" and "conn_event x' = conn_event x" and "alive w' c x'"
  shows "heap_inv interest w'"
  using conn_inv_frame [of interest "all_blank w" c "blank x" "all_blank w'" "blank x'"] assms
  by (simp add: heap_inv_blank frame_blank)

lemma heap_same:
  assumes "heap_inv interest w"
    and "conns w' = conns w" "evs w' = evs w" "next_ev w' = next_ev w" "next_conn w' = next_conn w"
      "loop_ep w' = loop_ep w" "\<And>ep. interest ep (kern (env w')) = interest ep (kern (env w))"
  shows "heap_inv interest w'"
  using conn_inv_same [of interest "all_blank w" "all_blank w'"] assms
  by (simp add: heap_inv_blank) (simp add: all_blank_def)

lemma heap_revents: "heap_inv interest w \<Longrightarrow> same_but_revents w es \<Longrightarrow> heap_inv interest (w\<lparr>evs := es\<rparr>)"
  using conn_inv_revents [of interest "all_blank w" es]
  by (cases w) (simp add: heap_inv_blank same_but_revents_def all_blank_def)

text \<open>A new connection with a new event.\<close>

lemma heap_add:
  assumes inv: "heap_inv interest w" and reg: "registered interest w'"
    and w': "conns w' = (conns w)(next_conn w \<mapsto> x)" "evs w' = (evs w)(next_ev w \<mapsto> ev)"
      "loop_ep w' = loop_ep w" "next_conn w' = Suc (next_conn w)" "conn_event x = next_ev w"
    and ok: "alive w' (next_conn w) x"
  shows "heap_inv interest w'"
proof -
  have "conns (all_blank w') = (conns (all_blank w))(next_conn (all_blank w) \<mapsto> blank x)"
    by (rule ext) (simp add: w'(1))
  from conn_inv_add [of interest "all_blank w" "all_blank w'" "blank x", OF _ _ this] show ?thesis
    using inv reg w'(2-) ok by (simp add: heap_inv_blank)
qed

text \<open>A callback that names a connection is run on the event of a live connection.\<close>

lemma heap_owner:
  assumes "heap_inv interest w" and "evs w p = Some ev" and "handle ev = Some cb" and "names_conn cb d"
  obtains x where "conns w d = Some x" "conn_event x = p"
proof -
  have "conn_inv interest (all_blank w)" "evs (all_blank w) p = Some ev" using assms(1,2) by (simp_all add: heap_inv_blank)
  from named_owner [OF this handle_named [OF assms(3,4)]] obtain y where "conns (all_blank w) d = Some y" "conn_event y = p" .
  then show ?thesis using that by auto
qed

subsection \<open>What a handler of a connection may do\<close>

definition heap_outcome ::
  "(fd \<Rightarrow> 'k \<Rightarrow> (fd \<rightharpoonup> epoll_event)) \<Rightarrow> conn_id \<Rightarrow> event_id \<Rightarrow> ('k, 'z) conn_world_scheme \<Rightarrow>
     ('k, 'z) conn_world_scheme res \<Rightarrow> bool" where
  "heap_outcome interest c p w r \<longleftrightarrow> r \<noteq> Inl Use_after_free \<and>
     (\<forall>w'. r = Inr w' \<longrightarrow> heap_inv interest w' \<and> frame c p w w' \<and>
        (case conns w' c of None \<Rightarrow> evs w' p = None | Some y \<Rightarrow> conn_event y = p))"

text \<open>The contract of a user's callback, and of one after which the code goes on with the connection.\<close>

definition heap_callback_ok ::
  "(fd \<Rightarrow> 'k \<Rightarrow> (fd \<rightharpoonup> epoll_event)) \<Rightarrow>
     (conn_id \<Rightarrow> ('k, 'z) conn_world_scheme \<Rightarrow> ('k, 'z) conn_world_scheme res) \<Rightarrow> bool" where
  "heap_callback_ok interest cb \<longleftrightarrow>
     (\<forall>w c x. heap_inv interest w \<longrightarrow> conns w c = Some x \<longrightarrow> heap_outcome interest c (conn_event x) w (cb c w))"

definition heap_keeper_ok ::
  "(fd \<Rightarrow> 'k \<Rightarrow> (fd \<rightharpoonup> epoll_event)) \<Rightarrow>
     (conn_id \<Rightarrow> ('k, 'z) conn_world_scheme \<Rightarrow> ('k, 'z) conn_world_scheme res) \<Rightarrow> bool" where
  "heap_keeper_ok interest cb \<longleftrightarrow>
     heap_callback_ok interest cb \<and> (\<forall>w c w'. cb c w = Inr w' \<longrightarrow> conns w' c \<noteq> None)"

lemma heap_outcome_error: "e \<noteq> Use_after_free \<Longrightarrow> heap_outcome interest c p w (Inl e)"
  by (simp add: heap_outcome_def)

lemma heap_outcome_done:
  "heap_inv interest w' \<Longrightarrow> frame c p w w' \<Longrightarrow> conns w' c = Some y \<Longrightarrow> conn_event y = p \<Longrightarrow>
     heap_outcome interest c p w (Inr w')"
  by (simp add: heap_outcome_def)

lemma heap_outcome_frame: "frame c p w w1 \<Longrightarrow> heap_outcome interest c p w1 r \<Longrightarrow> heap_outcome interest c p w r"
  unfolding heap_outcome_def using frame_trans by metis

lemma heap_callback:
  "heap_callback_ok interest cb \<Longrightarrow> heap_inv interest w \<Longrightarrow> conns w c = Some x \<Longrightarrow> conn_event x = p \<Longrightarrow>
     heap_outcome interest c p w (cb c w)"
  unfolding heap_callback_ok_def by blast

lemma heap_keeper_bind:
  assumes "heap_keeper_ok interest cb" and "heap_inv interest w" and "conns w c = Some x" "conn_event x = p"
    and rest: "\<And>w1 y. heap_inv interest w1 \<Longrightarrow> conns w1 c = Some y \<Longrightarrow> conn_event y = p \<Longrightarrow> heap_outcome interest c p w1 (f w1)"
  shows "heap_outcome interest c p w (res_bind (cb c w) f)"
proof -
  have cb: "heap_outcome interest c p w (cb c w)" and live: "\<And>w1. cb c w = Inr w1 \<Longrightarrow> conns w1 c \<noteq> None"
    using assms(1) heap_callback [OF _ assms(2-4)] unfolding heap_keeper_ok_def by blast+
  show ?thesis
  proof (cases "cb c w")
    case (Inl e)
    then show ?thesis using cb by (simp add: heap_outcome_def)
  next
    case (Inr w1)
    then obtain y where y: "conns w1 c = Some y" using live by blast
    then have "heap_inv interest w1" "frame c p w w1" "conn_event y = p"
      using cb Inr by (simp_all add: heap_outcome_def)
    then show ?thesis using rest [OF _ y] Inr heap_outcome_frame by simp
  qed
qed

text \<open>The callbacks of other components that share the loops (timers, the eventfd).\<close>

definition heap_others_ok ::
  "(fd \<Rightarrow> 'k \<Rightarrow> (fd \<rightharpoonup> epoll_event)) \<Rightarrow> (callback \<Rightarrow> ('k, 'z) conn_world_scheme \<Rightarrow> ('k, 'z) conn_world_scheme res) \<Rightarrow> bool" where
  "heap_others_ok interest rest \<longleftrightarrow>
     (\<forall>cb w. heap_inv interest w \<longrightarrow> rest cb w \<noteq> Inl Use_after_free \<and>
        (\<forall>w'. rest cb w = Inr w' \<longrightarrow> heap_inv interest w' \<and> keeps_events {} w w'))"

lemma heap_others:
  assumes "heap_others_ok interest rest" and "heap_inv interest w"
  shows "rest cb w \<noteq> Inl Use_after_free \<and> (\<forall>w'. rest cb w = Inr w' \<longrightarrow> heap_inv interest w' \<and> keeps_events {p} w w')"
proof -
  have "keeps_events {} w w' \<Longrightarrow> keeps_events {p} w w'" for w' by (simp add: keeps_events_def)
  then show ?thesis using assms unfolding heap_others_ok_def by blast
qed

lemma keeps_events_outcome:
  "heap_outcome interest c p w r \<Longrightarrow> r \<noteq> Inl Use_after_free \<and> (\<forall>w'. r = Inr w' \<longrightarrow> heap_inv interest w' \<and> keeps_events {p} w w')"
  unfolding heap_outcome_def using keeps_events_frame by blast

subsection \<open>Steps\<close>

text \<open>The record of a connection changes, or the kernel does.\<close>

lemma heap_conn:
  assumes inv: "heap_inv interest w" and c: "conns w c = Some x"
    and x': "buf_inv (readBuffer x')" "buf_inv (writeBuffer x')" "conn_event x' = conn_event x" "sockfd x' = sockfd x"
      "conn_loop x' = conn_loop x"
    and e: "\<And>ep. interest ep (kern e) = interest ep (kern (env w))"
    and w': "w' = (upd_conn c x' w)\<lparr>env := e\<rparr>"
  shows "heap_inv interest w'" "frame c (conn_event x) w w'" "conns w' c = Some x'"
proof -
  show fr: "frame c (conn_event x) w w'" and c': "conns w' c = Some x'" by (simp_all add: w' upd_conn_def frame_def)
  have reg: "registered interest w'"
    by (rule registered_cong [OF heap_registered [OF inv]]) (simp_all add: w' upd_conn_def e)
  obtain ev where ev: "evs w (conn_event x) = Some ev" using heap_event [OF inv c] by metis
  have "alive w' c x'"
    by (rule alive_cong [OF heap_alive [OF inv c] ev _ _ x', of _ ev]) (simp_all add: w' upd_conn_def ev)
  then show "heap_inv interest w'" using heap_frame [OF inv c fr reg c' x'(3)] by simp
qed

text \<open>The event of a connection asks for something else, or has another callback.\<close>

lemma heap_event_update:
  assumes inv: "heap_inv interest w" and c: "conns w c = Some x" and ev: "evs w (conn_event x) = Some ev"
    and ev': "ev_fd ev' = ev_fd ev" "epoller ev' = epoller ev" "cb_own c ev \<Longrightarrow> cb_own c ev'"
    and w': "w' = w\<lparr>evs := (evs w)(conn_event x \<mapsto> ev'), env := e\<rparr>" and reg: "registered interest w'"
  shows "heap_inv interest w'" "frame c (conn_event x) w w'"
proof -
  show fr: "frame c (conn_event x) w w'" by (simp add: w' frame_def)
  have bufs: "buf_inv (readBuffer x)" "buf_inv (writeBuffer x)" using heap_event [OF inv c] by metis+
  have "alive w' c x"
    by (rule alive_cong [OF heap_alive [OF inv c] ev _ _ bufs refl refl refl _ ev']) (simp_all add: w')
  then show "heap_inv interest w'" using heap_frame [OF inv c fr reg, of x] c by (simp add: w')
qed

lemma heap_mask:
  assumes os: "os_contract os inq outq interest" and inv: "heap_inv interest w" and c: "conns w c = Some x"
  obtains w' where "set_mask os fl (conn_event x) on w = Inr w'" "heap_inv interest w'" "frame c (conn_event x) w w'"
    "conns w' = conns w"
proof -
  obtain ev where ev: "evs w (conn_event x) = Some ev" using heap_event [OF inv c] by metis
  obtain e where e: "set_mask os fl (conn_event x) on w =
      Inr (w\<lparr>evs := (evs w)(conn_event x \<mapsto> set_flag fl on ev), env := e\<rparr>)"
    "registered interest (w\<lparr>evs := (evs w)(conn_event x \<mapsto> set_flag fl on ev), env := e\<rparr>)"
    using set_mask_registered [OF os_contractD(2) [OF os] heap_registered [OF inv] ev, of fl on] by metis
  show ?thesis
    by (rule that [OF e(1) heap_event_update [OF inv c ev _ _ _ refl e(2)]]) simp_all
qed

lemma heap_send_flag:
  assumes os: "os_contract os inq outq interest" and inv: "heap_inv interest w" and c: "conns w c = Some x"
    and ne: "0 < readableBytes (writeBuffer x)"
  obtains w' where "send_flag os c l w = Inr w'" "heap_inv interest w'" "frame c (conn_event x) w w'"
    "conns w' = (conns w)(c \<mapsto> x\<lparr>isWillClose := l\<rparr>)"
proof -
  let ?x = "x\<lparr>isWillClose := l\<rparr>"
  obtain ev where ev: "evs w (conn_event x) = Some ev" "buf_inv (readBuffer x)" "buf_inv (writeBuffer x)"
    using heap_event [OF inv c] by metis
  define w1 where "w1 = (upd_conn c ?x w)\<lparr>env := env w\<rparr>"
  have w1_eq: "w1 = upd_conn c ?x w" by (simp add: w1_def upd_conn_def)
  note k = heap_conn [OF inv c _ _ _ _ _ refl w1_def, simplified, OF ev(2,3)]
  have ev1: "evs w1 (conn_event ?x) = Some ev" "conns w1 = (conns w)(c \<mapsto> ?x)"
    using ev(1) by (simp_all add: w1_def upd_conn_def)
  show ?thesis
  proof (cases "isWritable ev")
    case True
    have "send_flag os c l w = Inr w1" using c ne ev True by (simp add: send_flag_def w1_eq [symmetric] ev1 [simplified])
    then show ?thesis using that k ev1(2) by simp
  next
    case False
    let ?ev = "(set_flag EPOLLOUT True ev)\<lparr>writeCallback := Some (Cb_send_nonblock c)\<rparr>"
    obtain e where e: "set_mask os EPOLLOUT (conn_event ?x) True w1 =
        Inr (w1\<lparr>evs := (evs w1)(conn_event ?x \<mapsto> set_flag EPOLLOUT True ev), env := e\<rparr>)"
      "registered interest (w1\<lparr>evs := (evs w1)(conn_event ?x \<mapsto> set_flag EPOLLOUT True ev), env := e\<rparr>)"
      using set_mask_registered [OF os_contractD(2) [OF os] heap_registered [OF k(1)] ev1(1)] by metis
    define w' where "w' = w1\<lparr>evs := (evs w1)(conn_event ?x \<mapsto> ?ev), env := e\<rparr>"
    have reg: "registered interest w'" by (rule registered_cong [OF e(2)]) (simp_all add: w'_def)
    have run: "send_flag os c l w = Inr w'"
      using c ne ev False ev1(1) e(1)
      by (simp add: send_flag_def w1_eq [symmetric] setWritable_def setWriteCallback_def w'_def)
    have "cb_own c ?ev" if "cb_own c ev" using cb_own_set(1) [of c "set_flag EPOLLOUT True ev"] that by simp
    note k2 = heap_event_update [OF k(1) k(3) ev1(1) _ _ this w'_def reg]
    have "heap_inv interest w'" "frame c (conn_event x) w1 w'" using k2 by simp_all
    then show ?thesis using that run frame_trans [OF k(2)] ev1(2) by (simp add: w'_def)
  qed
qed

lemma heap_send_data:
  assumes os: "os_contract os inq outq interest" and inv: "heap_inv interest w" and c: "conns w c = Some x" "conn_event x = p"
    and s: "length s \<le> vec_max"
  shows "heap_outcome interest c p w (send_data os c s w)"
    and "send_data os c s w = Inr w' \<Longrightarrow> conns w' c \<noteq> None"
proof -
  have bufs: "buf_inv (readBuffer x)" "buf_inv (writeBuffer x)" using heap_event [OF inv c(1)] by metis+
  define e where "e = (if conn_state x \<noteq> ESTABLISHED
    then add_log (Fatal ''connection closed, can't send data!'') (env w) else env w)"
  have i: "interest ep (kern e) = interest ep (kern (env w))" for ep by (simp add: e_def)
  have "heap_outcome interest c p w (send_data os c s w) \<and> (\<forall>w'. send_data os c s w = Inr w' \<longrightarrow> conns w' c \<noteq> None)"
    using bufs(2) s
  proof (cases rule: buf_append_cases)
    case too_long
    then have "send_data os c s w = Inl Length_error" using c(1) by (simp add: send_data_def Let_def)
    then show ?thesis by (simp add: heap_outcome_error)
  next
    case (appended b)
    define w1 where "w1 = (upd_conn c (x\<lparr>writeBuffer := b\<rparr>) w)\<lparr>env := e\<rparr>"
    have w1: "w1 = upd_conn c (x\<lparr>writeBuffer := b\<rparr>) (if conn_state x \<noteq> ESTABLISHED
        then w\<lparr>env := add_log (Fatal ''connection closed, can't send data!'') (env w)\<rparr> else w)"
      by (simp add: w1_def e_def upd_conn_def)
    note k = heap_conn [OF inv c(1) _ _ _ _ _ i w1_def, simplified, OF bufs(1) appended(2)]
    have run: "send_data os c s w = send_flag os c False w1"
      using c(1) appended(1) by (simp add: send_data_def w1 Let_def)
    show ?thesis
    proof (cases "0 < readableBytes b")
      case False
      then have "send_data os c s w = Inl Assert_failed" using run k(3) by (simp add: send_flag_def)
      then show ?thesis by (simp add: heap_outcome_error)
    next
      case True
      then obtain w' where w': "send_flag os c False w1 = Inr w'" "heap_inv interest w'" "frame c (conn_event x) w1 w'"
        "conns w' = (conns w1)(c \<mapsto> x\<lparr>writeBuffer := b, isWillClose := False\<rparr>)"
        using heap_send_flag [OF os k(1,3), of False] by auto
      have c': "conns w' c = Some (x\<lparr>writeBuffer := b, isWillClose := False\<rparr>)" using w'(4) by simp
      have "heap_outcome interest c p w (Inr w')"
        by (rule heap_outcome_done [OF w'(2) _ c']) (use frame_trans [OF k(2) w'(3)] c(2) in simp_all)
      then show ?thesis using run w'(1) c' by simp
    qed
  qed
  then show "heap_outcome interest c p w (send_data os c s w)"
    and "send_data os c s w = Inr w' \<Longrightarrow> conns w' c \<noteq> None" by blast+
qed

text \<open>Destroying and deleting: the world they leave, for any state of the connection.\<close>

lemma dispose_eq:
  assumes c: "conns w c = Some x" and ev: "evs w (conn_event x) = Some ev"
  shows "res_bind (destroy os c w) (delete_conn os c) =
    Inr (w\<lparr>conns := (conns w)(c := None), evs := (evs w)(conn_event x := None),
      env := (let e = logged ''epoll_ctl error'' (sys_epoll_ctl os (loop_ep w (conn_loop x)) CtlDel (ev_fd ev)
          (events ev, conn_event x)) (env w) in
        if sockfd x \<noteq> 0 then e\<lparr>kern := sys_close os (sockfd x) (kern e)\<rparr> else e)\<rparr>)"
  using c ev by (simp add: destroy_def delete_conn_def upd_conn_def remove_event_def return_object_def Let_def)

lemma heap_dispose:
  assumes os: "os_contract os inq outq interest" and inv: "heap_inv interest w" and c: "conns w c = Some x"
  obtains w' where "res_bind (destroy os c w) (delete_conn os c) = Inr w'" "heap_inv interest w'"
    "frame c (conn_event x) w w'" "conns w' c = None" "evs w' (conn_event x) = None"
proof -
  obtain ev where ev: "evs w (conn_event x) = Some ev" using heap_event [OF inv c] by metis
  define e where "e = (let e = logged ''epoll_ctl error'' (sys_epoll_ctl os (loop_ep w (conn_loop x)) CtlDel (ev_fd ev)
          (events ev, conn_event x)) (env w) in
        if sockfd x \<noteq> 0 then e\<lparr>kern := sys_close os (sockfd x) (kern e)\<rparr> else e)"
  define w' where "w' = w\<lparr>conns := (conns w)(c := None), evs := (evs w)(conn_event x := None), env := e\<rparr>"
  have run: "res_bind (destroy os c w) (delete_conn os c) = Inr w'" using dispose_eq [OF c ev] by (simp add: w'_def e_def)
  have c': "conns (all_blank w) c = Some (blank x)" "evs (all_blank w) (conn_event (blank x)) = Some ev" using c ev by simp_all
  have "all_blank w' = (all_blank w)\<lparr>conns := (conns (all_blank w))(c := None), evs := (evs (all_blank w))(conn_event x := None), env := e\<rparr>"
    by (simp add: all_blank_def w'_def fun_eq_iff)
  then have run': "res_bind (destroy os c (all_blank w)) (delete_conn os c) = Inr (all_blank w')"
    using dispose_eq [OF c', of os, unfolded all_blank_sel blank_sel, folded e_def] by (simp add: all_blank_def fun_upd_def)
  have "conn_inv interest (all_blank w)" using inv by (simp add: heap_inv_blank)
  from dispose_spec [OF os this c'(1)] run' have "conn_inv interest (all_blank w')" by (metis sum.inject(2))
  then show ?thesis using run by (intro that [of w']) (simp_all add: heap_inv_blank frame_def, simp_all add: w'_def)
qed

text \<open>\<open>closeConnection\<close>, with a close callback that leaves the connection alone.\<close>

lemma heap_close:
  assumes os: "os_contract os inq outq interest" and inv: "heap_inv interest w" and c: "conns w c = Some x" "conn_event x = p"
    and cb: "\<And>f. cb = Some f \<Longrightarrow> heap_keeper_ok interest f"
  shows "heap_outcome interest c p w (close_common os (delete_conn os) cb c w)"
proof (cases "0 < readableBytes (writeBuffer x)")
  case True
  obtain w1 where w1: "set_mask os (EPOLLIN OR EPOLLPRI) (conn_event x) False w = Inr w1" "heap_inv interest w1"
    "frame c (conn_event x) w w1" "conns w1 = conns w" using heap_mask [OF os inv c(1)] by metis
  have c1: "conns w1 c = Some x" using w1(4) c(1) by simp
  obtain w2 where w2: "send_flag os c True w1 = Inr w2" "heap_inv interest w2" "frame c (conn_event x) w1 w2"
    "conns w2 = (conns w1)(c \<mapsto> x\<lparr>isWillClose := True\<rparr>)" using heap_send_flag [OF os w1(2) c1 True] by metis
  have "close_common os (delete_conn os) cb c w = Inr w2"
    using c(1) True w1(1) w2(1) by (simp add: close_common_def setReadable_def)
  moreover have "heap_outcome interest c p w (Inr w2)"
    by (rule heap_outcome_done [OF w2(2), of _ _ _ "x\<lparr>isWillClose := True\<rparr>"])
      (use frame_trans [OF w1(3) w2(3)] w2(4) c(2) in simp_all)
  ultimately show ?thesis by simp
next
  case False
  have drop: "heap_outcome interest c p w1 (res_bind (destroy os c w1) (delete_conn os c))"
    if y: "heap_inv interest w1" "conns w1 c = Some y" "conn_event y = p" for w1 y
  proof -
    obtain w2 where "res_bind (destroy os c w1) (delete_conn os c) = Inr w2" "heap_inv interest w2"
      "frame c (conn_event y) w1 w2" "conns w2 c = None" "evs w2 (conn_event y) = None"
      using heap_dispose [OF os y(1,2)] .
    then show ?thesis using y(3) by (simp add: heap_outcome_def)
  qed
  have eq: "close_common os (delete_conn os) cb c w =
      res_bind (case cb of None \<Rightarrow> Inr w | Some f \<Rightarrow> f c w) (\<lambda>w1. res_bind (destroy os c w1) (delete_conn os c))"
    using c(1) False by (simp add: close_common_def)
  show ?thesis
  proof (cases cb)
    case None
    then show ?thesis using eq drop [OF inv c] by simp
  next
    case (Some f)
    then show ?thesis using eq heap_keeper_bind [OF cb [OF Some] inv c drop] by simp
  qed
qed

text \<open>\<open>sendNonblock\<close>, also of a connection that is not established.\<close>

lemma heap_send_nonblock:
  assumes os: "os_contract os inq outq interest" and inv: "heap_inv interest w" and c: "conns w c = Some x" "conn_event x = p"
    and close: "\<And>w1 y. heap_inv interest w1 \<Longrightarrow> conns w1 c = Some y \<Longrightarrow> conn_event y = p \<Longrightarrow> heap_outcome interest c p w1 (close c w1)"
  shows "heap_outcome interest c p w (send_nonblock os close c w)"
proof -
  have bufs: "buf_inv (readBuffer x)" "buf_inv (writeBuffer x)" using heap_event [OF inv c(1)] by metis+
  obtain a k where wr: "sys_write os (sockfd x) (contents (writeBuffer x)) (kern (env w)) = (a, k)" by fastforce
  show ?thesis
  proof (cases a)
    case (WrErr e)
    then have "send_nonblock os close c w = Inl Assert_failed" using send_nonblock_error [OF c(1) bufs(2)] wr by simp
    then show ?thesis by (simp add: heap_outcome_error)
  next
    case (WrBytes n)
    have n: "n \<le> length (contents (writeBuffer x))"
      using stream_contractD(5) [OF os_contractD(1) [OF os]] wr WrBytes by blast
    then have n': "n \<le> readableBytes (writeBuffer x)" by (simp add: length_contents [OF bufs(2)])
    define b where "b = (writeBuffer x)\<lparr>readIndex := readIndex (writeBuffer x) + n\<rparr>"
    note ret = retrieve_ok [OF bufs(2) n', folded b_def]
    have len: "to_size_t (int n) = n"
      using n' buf_inv_bounds [OF bufs(2)] by (intro to_size_t_nonneg) (simp add: readable_eq [OF bufs(2)])
    define e where "e = (env w)\<lparr>kern := k\<rparr>"
    have i: "interest ep (kern e) = interest ep (kern (env w))" for ep
      using frame_contractD(2) [OF os_contractD(3) [OF os]] wr WrBytes by (simp add: e_def)
    define w1 where "w1 = (upd_conn c (x\<lparr>writeBuffer := b\<rparr>) w)\<lparr>env := e\<rparr>"
    have w1: "w1 = upd_conn c (x\<lparr>writeBuffer := b\<rparr>) (w\<lparr>env := e\<rparr>)" by (simp add: w1_def upd_conn_def)
    note k = heap_conn [OF inv c(1) _ _ _ _ _ i w1_def, simplified, OF bufs(1) ret(2)]
    have run: "send_nonblock os close c w = (if readableBytes b = 0
        then res_bind (setWritable os (conn_event x) False w1) (\<lambda>w4. if isWillClose x then close c w4 else Inr w4)
        else Inr w1)"
      using c(1) wr WrBytes ret(1) len
      by (simp add: send_nonblock_def peek_all [OF bufs(2)] w1 e_def Let_def)
    show ?thesis
    proof (cases "readableBytes b = 0")
      case False
      have "heap_outcome interest c p w (Inr w1)" by (rule heap_outcome_done [OF k(1) _ k(3)]) (use k(2) c(2) in simp_all)
      then show ?thesis using run False by simp
    next
      case True
      obtain w2 where w2: "set_mask os EPOLLOUT (conn_event (x\<lparr>writeBuffer := b\<rparr>)) False w1 = Inr w2" "heap_inv interest w2"
        "frame c (conn_event x) w1 w2" "conns w2 = conns w1" using heap_mask [OF os k(1,3)] by auto
      have eq: "send_nonblock os close c w = (if isWillClose x then close c w2 else Inr w2)"
        using run True w2(1) by (simp add: setWritable_def)
      have c2: "conns w2 c = Some (x\<lparr>writeBuffer := b\<rparr>)" using w2(4) k(3) by simp
      have fr: "frame c p w w2" using frame_trans [OF k(2) w2(3)] c(2) by simp
      have "heap_outcome interest c p w2 (if isWillClose x then close c w2 else Inr w2)"
        using close [OF w2(2) c2] heap_outcome_done [OF w2(2) frame_refl c2] c(2) by simp
      then show ?thesis using eq heap_outcome_frame [OF fr] by simp
    qed
  qed
qed

subsection \<open>New connections\<close>

lemma heap_make_conn:
  assumes os: "os_contract os inq outq interest" and inv: "heap_inv interest w"
    and fresh: "\<And>ep. interest ep (kern (env w)) f = None"
  obtains w1 e where "make_event os f (loop_ep w l) w = Inr (next_ev w, w1)" "conn_world.more w1 = conn_world.more w"
    "makeHeapObject os (next_ev w) l w1 = Inr (next_conn w, with_conn f l e w)" "heap_inv interest (with_conn f l e w)"
proof -
  obtain e1 where mk: "make_event os f (loop_ep w l) w = Inr (next_ev w,
      w\<lparr>evs := (evs w)(next_ev w \<mapsto> new_event f (loop_ep w l)), next_ev := Suc (next_ev w), env := e1\<rparr>)"
    "registered interest (w\<lparr>evs := (evs w)(next_ev w \<mapsto> new_event f (loop_ep w l)), next_ev := Suc (next_ev w), env := e1\<rparr>)"
    using make_event_registered [OF os_contractD(2) [OF os] heap_registered [OF inv] fresh] by metis
  define w1 where "w1 = w\<lparr>evs := (evs w)(next_ev w \<mapsto> new_event f (loop_ep w l)), next_ev := Suc (next_ev w), env := e1\<rparr>"
  define e where "e = setNonblock os f e1"
  have "makeHeapObject os (next_ev w) l w1 = Inr (next_conn w, with_conn f l e w)"
    by (simp add: makeHeapObject_def get_new_object_def w1_def e_def with_conn_def)
  moreover have reg: "registered interest (with_conn f l e w)"
    by (rule registered_cong [OF mk(2)]) (simp_all add: e_def logged_streams(4) [OF os_contractD(3) [OF os]])
  have "heap_inv interest (with_conn f l e w)"
    by (rule heap_add [OF inv reg, of "new_conn (next_ev w) f l" "new_event f (loop_ep w l)"])
      (simp_all add: alive_def cb_free_own)
  ultimately show ?thesis using that mk(1) by (simp add: w1_def)
qed

text \<open>Asking for messages, and for the end of an attempt.\<close>

lemma heap_ask:
  assumes os: "os_contract os inq outq interest" and inv: "heap_inv interest w" and c: "conns w c = Some x"
  obtains w' where
    "res_bind (setReadCallback (conn_event x) (Cb_conn_msg c) w) (setReadable os (conn_event x) True) = Inr w'"
    "heap_inv interest w'" "frame c (conn_event x) w w'" "conns w' = conns w"
proof -
  obtain ev where ev: "evs w (conn_event x) = Some ev" using heap_event [OF inv c] by metis
  let ?ev = "set_flag (EPOLLIN OR EPOLLPRI) True (ev\<lparr>readCallback := Some (Cb_conn_msg c)\<rparr>)"
  obtain e where e: "res_bind (setReadCallback (conn_event x) (Cb_conn_msg c) w) (setReadable os (conn_event x) True) =
      Inr (w\<lparr>evs := (evs w)(conn_event x \<mapsto> ?ev), env := e\<rparr>)"
    "registered interest (w\<lparr>evs := (evs w)(conn_event x \<mapsto> ?ev), env := e\<rparr>)"
    using ask_input [OF os heap_registered [OF inv] ev, of "Cb_conn_msg c"] by metis
  have "cb_own c ev \<Longrightarrow> cb_own c ?ev" by simp
  note k = heap_event_update [OF inv c ev _ _ this refl e(2)]
  show ?thesis by (rule that [OF e(1)]) (use k in simp_all)
qed

lemma heap_ask_output:
  assumes os: "os_contract os inq outq interest" and inv: "heap_inv interest w" and c: "conns w c = Some x"
  obtains w' where
    "res_bind (setWriteCallback (conn_event x) (Cb_check_connect c) w) (setWritable os (conn_event x) True) = Inr w'"
    "heap_inv interest w'" "frame c (conn_event x) w w'" "conns w' = conns w"
proof -
  obtain ev where ev: "evs w (conn_event x) = Some ev" using heap_event [OF inv c] by metis
  let ?ev = "set_flag EPOLLOUT True (ev\<lparr>writeCallback := Some (Cb_check_connect c)\<rparr>)"
  obtain e where e: "res_bind (setWriteCallback (conn_event x) (Cb_check_connect c) w) (setWritable os (conn_event x) True) =
      Inr (w\<lparr>evs := (evs w)(conn_event x \<mapsto> ?ev), env := e\<rparr>)"
    "registered interest (w\<lparr>evs := (evs w)(conn_event x \<mapsto> ?ev), env := e\<rparr>)"
    using ask_output [OF os heap_registered [OF inv] ev, of "Cb_check_connect c"] by metis
  have "cb_own c ev \<Longrightarrow> cb_own c ?ev" by (auto simp: cb_own_def named_conns_def)
  note k = heap_event_update [OF inv c ev _ _ this refl e(2)]
  show ?thesis by (rule that [OF e(1)]) (use k in simp_all)
qed

end
