(* ===== verification/ClientRuns.thy ===== *)
theory ClientRuns imports TcpClient ServerLife Lifetimes begin

section \<open>A \<open>TcpClient\<close> over its whole life\<close>

text \<open>
  A client is constructed, connects again and again, its loops make passes in any order, users run callbacks on live
  connections in between.  Whatever the kernel answers and whatever users send, before a connection is established or
  after, no dangling pointer is followed; what is asked of the callbacks is that those after which the code goes on
  with the connection (for establishment, errors and closing) leave it alone.  The last section shows that this is
  needed, and in which order the callbacks may come.
\<close>

subsection \<open>The constructor, the functions that set the callbacks, the helper threads\<close>

definition new_tcp_client ::
  "'k os \<Rightarrow> ('k \<Rightarrow> (errno + fd) \<times> 'k) \<Rightarrow> bool \<Rightarrow> loop_id list \<Rightarrow> loop_id \<Rightarrow> 'k cworld \<Rightarrow> 'k cworld res" where
  "new_tcp_client os eventfd already ls l w =
     res_bind (init_event_loop os eventfd already l (w\<lparr>cpool := new_pool l ls, clients := []\<rparr>)) (\<lambda>(_, w1). Inr w1)"

text \<open>A client before the user has set anything.\<close>

definition bare_client :: "codec \<Rightarrow> 'k tcp_client" where
  "bare_client cd = \<lparr>cl_codec = cd, cl_connEsta = None, cl_connMsg = None, cl_connClose = None, cl_connError = None\<rparr>"

definition client_setConnEstaCallback :: "'k ccb \<Rightarrow> 'k tcp_client \<Rightarrow> 'k tcp_client" where
  "client_setConnEstaCallback callback cl = cl\<lparr>cl_connEsta := Some callback\<rparr>"

definition client_setConnMsgCallback :: "'k ccb \<Rightarrow> 'k tcp_client \<Rightarrow> 'k tcp_client" where
  "client_setConnMsgCallback callback cl = cl\<lparr>cl_connMsg := Some callback\<rparr>"

definition client_setConnCloseCallback :: "'k ccb \<Rightarrow> 'k tcp_client \<Rightarrow> 'k tcp_client" where
  "client_setConnCloseCallback callback cl = cl\<lparr>cl_connClose := Some callback\<rparr>"

definition client_setConnErrorCallback :: "'k ccb \<Rightarrow> 'k tcp_client \<Rightarrow> 'k tcp_client" where
  "client_setConnErrorCallback callback cl = cl\<lparr>cl_connError := Some callback\<rparr>"

definition addWorkerThreads :: "nat \<Rightarrow> 'k cworld \<Rightarrow> 'k cworld res" where
  "addWorkerThreads n w = res_bind (start_helpers n (cpool w)) (\<lambda>p. Inr (w\<lparr>cpool := p\<rparr>))"

subsection \<open>What is asked of the surroundings\<close>

definition client_callbacks_ok :: "(fd \<Rightarrow> 'k \<Rightarrow> (fd \<rightharpoonup> epoll_event)) \<Rightarrow> 'k tcp_client \<Rightarrow> bool" where
  "client_callbacks_ok interest cl \<longleftrightarrow>
     (\<forall>f. cl_connMsg cl = Some f \<longrightarrow> heap_callback_ok interest f) \<and>
     (\<forall>f. cl_connEsta cl = Some f \<longrightarrow> heap_keeper_ok interest f) \<and>
     (\<forall>f. cl_connError cl = Some f \<longrightarrow> heap_keeper_ok interest f) \<and>
     (\<forall>f. cl_connClose cl = Some f \<longrightarrow> heap_keeper_ok interest f)"

definition client_surroundings ::
  "'k os \<Rightarrow> (fd \<Rightarrow> 'k \<Rightarrow> bytes) \<Rightarrow> (fd \<Rightarrow> 'k \<Rightarrow> bytes) \<Rightarrow> (fd \<Rightarrow> 'k \<Rightarrow> (fd \<rightharpoonup> epoll_event)) \<Rightarrow> 'k sock_os \<Rightarrow>
     'k tcp_client \<Rightarrow> (callback \<Rightarrow> 'k cworld \<Rightarrow> 'k cworld res) \<Rightarrow> bool" where
  "client_surroundings os inq outq interest sos cl rest \<longleftrightarrow>
     os_contract os inq outq interest \<and> sock_contract sos outq interest \<and>
     client_callbacks_ok interest cl \<and> heap_others_ok interest rest"

lemma client_surroundingsD:
  assumes "client_surroundings os inq outq interest sos cl rest"
  shows "os_contract os inq outq interest" "sock_contract sos outq interest" "heap_others_ok interest rest"
    and "cl_connMsg cl = Some f \<Longrightarrow> heap_callback_ok interest f" "cl_connEsta cl = Some f \<Longrightarrow> heap_keeper_ok interest f"
      "cl_connError cl = Some f \<Longrightarrow> heap_keeper_ok interest f" "cl_connClose cl = Some f \<Longrightarrow> heap_keeper_ok interest f"
  using assms by (simp_all add: client_surroundings_def client_callbacks_ok_def)

subsection \<open>The callbacks\<close>

lemma client_close_outcome:
  assumes ok: "client_surroundings os inq outq interest sos cl rest" and inv: "heap_inv interest w"
    and c: "conns w c = Some x" "conn_event x = p"
  shows "heap_outcome interest c p w (client_closeConnection os cl c d w)"
    and "heap_outcome interest c p w (client_activeClose os cl c w)"
  using heap_close [OF client_surroundingsD(1) [OF ok] inv c client_surroundingsD(7) [OF ok]] c(1)
  by (simp_all add: client_closeConnection_def client_activeClose_def heap_outcome_error)

lemma run_if_set_outcome:
  assumes cb: "\<And>f. cb = Some f \<Longrightarrow> heap_keeper_ok interest f" and inv: "heap_inv interest w"
    and c: "conns w c = Some x" "conn_event x = p"
    and rest: "\<And>w1 y. heap_inv interest w1 \<Longrightarrow> conns w1 c = Some y \<Longrightarrow> conn_event y = p \<Longrightarrow> heap_outcome interest c p w1 (f w1)"
  shows "heap_outcome interest c p w (res_bind (run_if_set cb c w) f)"
  using rest [OF inv c] heap_keeper_bind [OF cb inv c rest] by (cases cb) (simp_all add: run_if_set_def)

lemma client_message_outcome:
  assumes ok: "client_surroundings os inq outq interest sos cl rest" and inv: "heap_inv interest w"
    and c: "conns w c = Some x" "conn_event x = p"
  shows "heap_outcome interest c p w (client_message os cl c w)"
proof -
  note os = client_surroundingsD(1) [OF ok]
  have bufs: "buf_inv (readBuffer x)" "buf_inv (writeBuffer x)" using heap_event [OF inv c(1)] by metis+
  have "conn_inv interest (all_blank w)" "conns (all_blank w) c = Some (blank x)"
    using inv c(1) by (simp_all add: heap_inv_blank)
  from os this show ?thesis
  proof (cases rule: read_step)
    case no_memory
    then show ?thesis using c(1) by (simp add: client_message_def heap_outcome_error)
  next
    case (got n b e)
    then have r: "read_from_socket os (sockfd x) (env w) (readBuffer x) default_maxBytes = Some (Inr (n, b, e))"
      and i: "\<And>ep. interest ep (kern e) = interest ep (kern (env w))" by simp_all
    define w1 where "w1 = (upd_conn c (x\<lparr>readBuffer := b\<rparr>) w)\<lparr>env := e\<rparr>"
    note k = heap_conn [OF inv c(1) _ _ _ _ _ i w1_def, simplified, OF got(2) bufs(2)]
    have p1: "conn_event (x\<lparr>readBuffer := b\<rparr>) = p" using c(2) by simp
    have close: "heap_outcome interest c p w2 (client_closeConnection os cl c None w2)"
      if "heap_inv interest w2" "conns w2 c = Some y" "conn_event y = p" for w2 y
      using client_close_outcome(1) [OF ok that] .
    have logd: "heap_outcome interest c p w2 (client_closeConnection os cl c None (w2\<lparr>env := add_log m (env w2)\<rparr>))"
      if that: "heap_inv interest w2" "conns w2 c = Some y" "conn_event y = p" for w2 y m
    proof -
      have "heap_inv interest (w2\<lparr>env := add_log m (env w2)\<rparr>)" by (rule heap_same [OF that(1)]) simp_all
      from close [OF this _ that(3)] that(2)
      have "heap_outcome interest c p (w2\<lparr>env := add_log m (env w2)\<rparr>)
          (client_closeConnection os cl c None (w2\<lparr>env := add_log m (env w2)\<rparr>))" by simp
      then show ?thesis by (rule heap_outcome_frame [rotated]) (simp add: frame_def)
    qed
    obtain v b' lg where cd: "codec_check (cl_codec cl) b = (v, b', lg)" by (metis prod_cases3)
    define w2 where "w2 = (upd_conn c (x\<lparr>readBuffer := b'\<rparr>) w)\<lparr>env := e\<lparr>logs := logs e @ lg\<rparr>\<rparr>"
    have i2: "interest ep (kern (e\<lparr>logs := logs e @ lg\<rparr>)) = interest ep (kern (env w))" for ep by (simp add: i)
    note k2 = heap_conn [OF inv c(1) _ _ _ _ _ i2 w2_def, simplified, OF codec_check_keeps(1) [OF got(2) cd] bufs(2)]
    have p2: "conn_event (x\<lparr>readBuffer := b'\<rparr>) = p" using c(2) by simp
    have eq: "client_message os cl c w =
        (if n = 0 then client_closeConnection os cl c None w1
         else if n < 0 then res_bind (run_if_set (cl_connError cl) c w1) (\<lambda>w2.
             client_closeConnection os cl c None (w2\<lparr>env := add_log (Sys ''read error'') (env w2)\<rparr>))
         else if v then (case cl_connMsg cl of None \<Rightarrow> Inl Bad_function_call | Some f \<Rightarrow> f c w2) else Inr w2)"
      using c(1) r cd by (simp add: client_message_def w1_def w2_def Let_def split: option.split)
    have msg: "heap_outcome interest c p w2 (if v then (case cl_connMsg cl of None \<Rightarrow> Inl Bad_function_call | Some f \<Rightarrow> f c w2) else Inr w2)"
      using heap_callback [OF client_surroundingsD(4) [OF ok] k2(1,3) p2] heap_outcome_done [OF k2(1) frame_refl k2(3) p2]
      by (auto simp: heap_outcome_error split: option.split)
    have err: "heap_outcome interest c p w1 (res_bind (run_if_set (cl_connError cl) c w1) (\<lambda>w2.
        client_closeConnection os cl c None (w2\<lparr>env := add_log (Sys ''read error'') (env w2)\<rparr>)))"
      by (rule run_if_set_outcome [OF client_surroundingsD(6) [OF ok] k(1,3) p1 logd])
    have fr: "frame c p w w1" "frame c p w w2" using k(2) k2(2) c(2) by simp_all
    show ?thesis
      unfolding eq using heap_outcome_frame [OF fr(1) close [OF k(1,3) p1]] heap_outcome_frame [OF fr(1) err]
        heap_outcome_frame [OF fr(2) msg] by presburger
  qed
qed

lemma client_check_connect_outcome:
  assumes ok: "client_surroundings os inq outq interest sos cl rest" and inv: "heap_inv interest w"
    and c: "conns w c = Some x" "conn_event x = p"
  shows "heap_outcome interest c p w (client_check_connect os sos junk cl c w)"
proof -
  note os = client_surroundingsD(1) [OF ok]
  obtain bad e where er: "checkHasError sos junk (sockfd x) (env w) = (bad, e)" by fastforce
  define w1 where "w1 = w\<lparr>env := e\<rparr>"
  have inv1: "heap_inv interest w1"
    by (rule heap_same [OF inv]) (simp_all add: w1_def socket_interest(7) [OF client_surroundingsD(2) [OF ok] er])
  have c1: "conns w1 c = Some x" using c(1) by (simp add: w1_def)
  have fr: "frame c p w w1" by (simp add: w1_def frame_def)
  have est: "heap_outcome interest c p w2 (res_bind (deref (conns w2) c) (\<lambda>x2.
      res_bind (setWritable os (conn_event x2) False w2) (set_state c ESTABLISHED)))"
    if live: "heap_inv interest w2" "conns w2 c = Some y" "conn_event y = p" for w2 y
  proof -
    obtain w3 where w3: "set_mask os EPOLLOUT (conn_event y) False w2 = Inr w3" "heap_inv interest w3"
      "frame c (conn_event y) w2 w3" "conns w3 = conns w2" using heap_mask [OF os live(1,2)] by metis
    have c3: "conns w3 c = Some y" using w3(4) live(2) by simp
    have bufs: "buf_inv (readBuffer y)" "buf_inv (writeBuffer y)" using heap_event [OF live(1,2)] by metis+
    define w4 where "w4 = (upd_conn c (y\<lparr>conn_state := ESTABLISHED\<rparr>) w3)\<lparr>env := env w3\<rparr>"
    note k = heap_conn [OF w3(2) c3 _ _ _ _ _ refl w4_def, simplified, OF bufs]
    have "set_state c ESTABLISHED w3 = Inr w4" using c3 by (simp add: set_state_def w4_def upd_conn_def)
    then have run: "res_bind (deref (conns w2) c) (\<lambda>x2.
      res_bind (setWritable os (conn_event x2) False w2) (set_state c ESTABLISHED)) = Inr w4"
      using live(2) w3(1) by (simp add: setWritable_def)
    show ?thesis
      unfolding run by (rule heap_outcome_done [OF k(1) _ k(3)]) (use frame_trans [OF w3(3) k(2)] live(3) in simp_all)
  qed
  have eq: "client_check_connect os sos junk cl c w = (if bad then client_closeConnection os cl c None w1
      else res_bind (run_if_set (cl_connEsta cl) c w1) (\<lambda>w2. res_bind (deref (conns w2) c) (\<lambda>x2.
        res_bind (setWritable os (conn_event x2) False w2) (set_state c ESTABLISHED))))"
    using c(1) er by (simp add: client_check_connect_def w1_def)
  have "heap_outcome interest c p w1 (res_bind (run_if_set (cl_connEsta cl) c w1) (\<lambda>w2. res_bind (deref (conns w2) c) (\<lambda>x2.
        res_bind (setWritable os (conn_event x2) False w2) (set_state c ESTABLISHED))))"
    by (rule run_if_set_outcome [OF client_surroundingsD(5) [OF ok] inv1 c1 c(2) est])
  then show ?thesis
    unfolding eq using heap_outcome_frame [OF fr] client_close_outcome(1) [OF ok inv1 c1 c(2)] by presburger
qed

lemma client_callback_keeps:
  assumes ok: "client_surroundings os inq outq interest sos cl rest" and inv: "heap_inv interest w"
    and ev: "evs w p = Some ev" and cb: "handle ev = Some cb"
  shows "client_callback os sos junk cl rest cb w \<noteq> Inl Use_after_free \<and>
    (\<forall>w'. client_callback os sos junk cl rest cb w = Inr w' \<longrightarrow> heap_inv interest w' \<and> keeps_events {p} w w')"
proof -
  have others: ?thesis if "client_callback os sos junk cl rest cb w = rest cb w"
    unfolding that by (rule heap_others [OF client_surroundingsD(3) [OF ok] inv])
  have named: ?thesis if c: "names_conn cb c" and
    run: "\<And>x. conns w c = Some x \<Longrightarrow> conn_event x = p \<Longrightarrow> heap_outcome interest c p w (client_callback os sos junk cl rest cb w)" for c
  proof -
    obtain x where "conns w c = Some x" "conn_event x = p" using heap_owner [OF inv ev cb c] .
    from keeps_events_outcome [OF run [OF this]] show ?thesis .
  qed
  show ?thesis
  proof (cases cb)
    case (Cb_conn_msg c)
    show ?thesis
      by (rule named [of c]) (simp_all add: Cb_conn_msg client_callback_def client_message_outcome [OF ok inv])
  next
    case (Cb_send_nonblock c)
    show ?thesis
      by (rule named [of c]) (simp_all add: Cb_send_nonblock client_callback_def
          heap_send_nonblock [OF client_surroundingsD(1) [OF ok] inv _ _ client_close_outcome(2) [OF ok]])
  next
    case (Cb_check_connect c)
    show ?thesis
      by (rule named [of c]) (simp_all add: Cb_check_connect client_callback_def client_check_connect_outcome [OF ok inv])
  qed (rule others, simp add: client_callback_def)+
qed

text \<open>The laws of \<open>dispatcher\<close>, for an invariant that \<open>conn_inv\<close> implies.\<close>

interpretation client_loop: dispatcher interest "heap_inv interest" "\<lambda>_. client_callback os sos junk cl rest"
  "client_surroundings os inq outq interest sos cl rest" for os inq outq interest sos junk cl rest
proof unfold_locales
  fix w :: "'a cworld"
  show "registered interest w" if "heap_inv interest w" by (rule heap_registered [OF that])
  show "heap_inv interest (w\<lparr>evs := es\<rparr>)" if "heap_inv interest w" "same_but_revents w es" for es
    by (rule heap_revents [OF that])
  show "heap_inv interest (w\<lparr>env := add_log l (env w)\<rparr>)" if "heap_inv interest w" for l
    by (rule heap_same [OF that]) simp_all
  show "client_callback os sos junk cl rest cb w \<noteq> Inl Use_after_free \<and>
      (\<forall>w'. client_callback os sos junk cl rest cb w = Inr w' \<longrightarrow> heap_inv interest w' \<and> keeps_events {p} w w')"
    if "client_surroundings os inq outq interest sos cl rest" "heap_inv interest w" "evs w p = Some ev" "handle ev = Some cb"
    for p ev cb using client_callback_keeps that by blast
qed

subsection \<open>Connecting, and the constructor\<close>

lemma client_connect_heap:
  assumes os: "os_contract os inq outq interest" and sos: "sock_contract sos outq interest"
    and inv: "heap_inv interest w" and pool: "getNextPool (cpool w) = Inr (l, p)"
    and mk_sock: "makeNewSocket sos (env w) = (f, e)"
  obtains w' where "client_connect os sos addr w = Inr (next_conn w, w')" "heap_inv interest w'"
    "conns w' = (conns w)(next_conn w \<mapsto> (new_conn (next_ev w) f l)\<lparr>conn_state := BLANK\<rparr>)"
    "loop_ep w' = loop_ep w"
proof -
  let ?c = "next_conn w" and ?p = "next_ev w" and ?x = "(new_conn (next_ev w) f l)\<lparr>conn_state := BLANK\<rparr>"
  define w1 where "w1 = w\<lparr>clients := clients w @ [f], env := sock_connect sos f addr (setNonblock os f e), cpool := p\<rparr>"
  have i1: "interest ep (kern (env w1)) = interest ep (kern (env w))" for ep
    using socket_interest(1) [OF sos, of ep f addr] socket_interest(2) [OF sos mk_sock]
      logged_streams(4) [OF os_contractD(3) [OF os]]
    by (simp add: w1_def)
  have w1: "next_ev w1 = ?p" "next_conn w1 = ?c" "loop_ep w1 = loop_ep w" "evs w1 = evs w" "conns w1 = conns w"
    by (simp_all add: w1_def)
  have inv1: "heap_inv interest w1" by (rule heap_same [OF inv]) (simp_all add: i1 w1)
  have fresh: "interest ep (kern (env w1)) f = None" for ep
    using i1 makeNewSocket_fresh [OF sos _ mk_sock] registeredD(5) [OF heap_registered [OF inv]]
      socket_interest(2) [OF sos mk_sock] by simp
  obtain w2 e2 where mk: "make_event os f (loop_ep w1 l) w1 = Inr (?p, w2)"
    "makeHeapObject os ?p l w2 = Inr (?c, with_conn f l e2 w1)" "heap_inv interest (with_conn f l e2 w1)"
    using heap_make_conn [OF os inv1 fresh, of l] w1(1,2) by metis
  have c3: "conns (with_conn f l e2 w1) ?c = Some (new_conn ?p f l)" by (simp add: w1)
  define w4 where "w4 = (upd_conn ?c ?x (with_conn f l e2 w1))\<lparr>env := env (with_conn f l e2 w1)\<rparr>"
  note k4 = heap_conn [OF mk(3) c3 _ _ _ _ _ refl w4_def, simplified]
  have st: "set_state ?c BLANK (with_conn f l e2 w1) = Inr w4" by (simp add: set_state_def w4_def upd_conn_def w1)
  obtain w5 where w5: "res_bind (setReadCallback (conn_event ?x) (Cb_conn_msg ?c) w4) (setReadable os (conn_event ?x) True) = Inr w5"
    "heap_inv interest w5" "frame ?c (conn_event ?x) w4 w5" "conns w5 = conns w4" using heap_ask [OF os k4(1,3)] .
  have c5: "conns w5 ?c = Some ?x" using w5(4) k4(3) by simp
  obtain w6 where w6: "res_bind (setWriteCallback (conn_event ?x) (Cb_check_connect ?c) w5) (setWritable os (conn_event ?x) True) = Inr w6"
    "heap_inv interest w6" "frame ?c (conn_event ?x) w5 w6" "conns w6 = conns w5" using heap_ask_output [OF os w5(2) c5] .
  have "client_connect os sos addr w = Inr (?c, w6)"
    using pool mk(1,2) st w5(1) w6(1) mk_sock
    by (simp add: client_connect_def w1_def Let_def)
  moreover have "conns w6 = (conns w)(?c \<mapsto> ?x)" "loop_ep w6 = loop_ep w"
    using w6(4) w5(4) frameD(3) [OF w5(3)] frameD(3) [OF w6(3)] by (simp_all add: w4_def upd_conn_def w1)
  ultimately show ?thesis using that w6(2) by blast
qed

text \<open>A new event that belongs to no connection.\<close>

lemma heap_new_event:
  assumes inv: "heap_inv interest w" and reg: "registered interest w'"
    and w': "conns w' = conns w" "next_conn w' = next_conn w" "loop_ep w' = loop_ep w"
      "evs w' = (evs w)(next_ev w \<mapsto> ev)" "cb_free ev"
  shows "heap_inv interest w'"
proof -
  have c: "conns (all_blank w') = conns (all_blank w)" by (rule ext) (simp add: w'(1))
  have inv': "conn_inv interest (all_blank w)" using inv by (simp add: heap_inv_blank)
  have "conn_inv interest (all_blank w')"
  proof (rule conn_inv_extend [OF inv' _ c])
    show "evs (all_blank w') q = Some ev'" if "evs (all_blank w) q = Some ev'" for q ev'
      using that w'(4) registeredD(1) [OF heap_registered [OF inv], of q] by auto
    show "cb_free ev'" if "evs (all_blank w) q = None" "evs (all_blank w') q = Some ev'" for q ev'
      using that w'(4,5) by (auto split: if_splits)
  qed (simp_all add: reg w')
  then show ?thesis by (simp add: heap_inv_blank)
qed

text \<open>
  What is asked of \<open>eventfd\<close>: interest lists stay, and a descriptor it makes is in none of them.  When it fails the
  event is made for \<open>-1\<close>.
\<close>

definition eventfd_contract ::
  "(fd \<Rightarrow> 'k \<Rightarrow> (fd \<rightharpoonup> epoll_event)) \<Rightarrow> ('k \<Rightarrow> (errno + fd) \<times> 'k) \<Rightarrow> bool" where
  "eventfd_contract interest eventfd \<longleftrightarrow>
     (\<forall>k r k'. eventfd k = (r, k') \<longrightarrow>
        (\<forall>ep. interest ep k' = interest ep k) \<and> (\<forall>f ep. r = Inr f \<longrightarrow> interest ep k f = None))"

lemma init_event_loop_heap:
  assumes os: "os_contract os inq outq interest" and inv: "heap_inv interest w"
    and evfd: "eventfd_contract interest eventfd"
  obtains g w' where "init_event_loop os eventfd already l w = Inr (g, w')" "heap_inv interest w'" "conns w' = conns w"
    "next_conn w' = next_conn w" "loop_ep w' = loop_ep w" "conn_world.more w' = conn_world.more w"
proof -
  define e where "e = (if already then add_log (Fatal ''localEventLoop isn't nullptr!'') (env w) else env w)"
  obtain r k where r: "eventfd (kern e) = (r, k)" by fastforce
  obtain g e' where g: "(case r of Inl _ \<Rightarrow> (- 1, add_log (Sys ''eventfd error'') (e\<lparr>kern := k\<rparr>)) | Inr g \<Rightarrow> (g, e\<lparr>kern := k\<rparr>)) = (g, e')"
    by fastforce
  have e': "kern e' = k" "r = Inr g \<or> g = - 1" using g by (auto split: sum.splits)
  have ik: "interest ep k = interest ep (kern (env w))" for ep
    using evfd r unfolding eventfd_contract_def e_def by (auto split: if_splits)
  define w1 where "w1 = w\<lparr>localEventLoop := l, env := e'\<rparr>"
  have i: "interest ep (kern (env w1)) = interest ep (kern (env w))" for ep by (simp add: w1_def e' ik)
  have w1: "evs w1 = evs w" "next_ev w1 = next_ev w" "conns w1 = conns w" "next_conn w1 = next_conn w" "loop_ep w1 = loop_ep w"
    by (simp_all add: w1_def)
  have inv1: "heap_inv interest w1" by (rule heap_same [OF inv]) (simp_all add: i w1)
  have fresh: "interest ep (kern (env w1)) g = None" for ep
  proof (cases "r = Inr g")
    case True
    then have "interest ep (kern e) g = None" using evfd r unfolding eventfd_contract_def by blast
    then show ?thesis using i by (simp add: e_def split: if_splits)
  next
    case False
    then show ?thesis using e'(2) registeredD(5) [OF heap_registered [OF inv], of "- 1" ep] i by simp
  qed
  obtain w2 wk e4 where wk: "make_event os g (loop_ep w1 l) w1 = Inr (next_ev w1, w2)"
    "res_bind (setReadCallback (next_ev w1) Cb_wake_up w2) (setReadable os (next_ev w1) True) =
       Inr (w1\<lparr>evs := (evs w1)(next_ev w1 \<mapsto> wk), next_ev := Suc (next_ev w1), env := e4\<rparr>)"
    "registered interest (w1\<lparr>evs := (evs w1)(next_ev w1 \<mapsto> wk), next_ev := Suc (next_ev w1), env := e4\<rparr>)" "cb_free wk"
    using event_with_callback [OF os heap_registered [OF inv1] fresh, of "loop_ep w1 l" Cb_wake_up] by (metis names_conn_simps(5))
  define w3 where "w3 = w1\<lparr>evs := (evs w1)(next_ev w1 \<mapsto> wk), next_ev := Suc (next_ev w1), env := e4\<rparr>"
  have "init_event_loop os eventfd already l w = Inr (g, w3)"
    using wk(1,2) r g by (simp add: init_event_loop_def Let_def e_def [symmetric] w1_def [symmetric] w3_def w1(5))
  moreover have "heap_inv interest w3"
    by (rule heap_new_event [OF inv1, of _ wk]) (use wk(3,4) in \<open>simp_all add: w3_def\<close>)
  ultimately show ?thesis using that by (simp add: w3_def w1_def)
qed

lemma new_tcp_client_spec:
  assumes os: "os_contract os inq outq interest" and inv: "heap_inv interest w"
    and evfd: "eventfd_contract interest eventfd"
  obtains w' where "new_tcp_client os eventfd already ls l w = Inr w'" "heap_inv interest w'" "conns w' = conns w"
    "next_conn w' = next_conn w" "cpool w' = new_pool l ls" "clients w' = []"
proof -
  define w1 where "w1 = w\<lparr>cpool := new_pool l ls, clients := []\<rparr>"
  have inv1: "heap_inv interest w1" by (rule heap_same [OF inv]) (simp_all add: w1_def)
  obtain g w' where w': "init_event_loop os eventfd already l w1 = Inr (g, w')" "heap_inv interest w'" "conns w' = conns w1"
    "next_conn w' = next_conn w1" "loop_ep w' = loop_ep w1" "conn_world.more w' = conn_world.more w1"
    using init_event_loop_heap [OF os inv1 evfd] .
  have "cpool w' = cpool w1" "clients w' = clients w1" using w'(6) by (cases w'; cases w1; simp)+
  then show ?thesis using that [of w'] w' by (simp add: new_tcp_client_def w1_def)
qed

subsection \<open>Its life\<close>

text \<open>
  \<open>connect\<close>, whether or not the process has a descriptor left for it; a pass of any loop, with any value of the variable the
  check of the attempt leaves uninitialised; a task of a user on a connection; the kernel moves on.
\<close>

inductive client_life ::
  "'k os \<Rightarrow> 'k sock_os \<Rightarrow> ('k \<Rightarrow> (errno + fd) \<times> 'k) \<Rightarrow> (fd \<Rightarrow> 'k \<Rightarrow> (fd \<rightharpoonup> epoll_event)) \<Rightarrow> 'k tcp_client \<Rightarrow>
     (callback \<Rightarrow> 'k cworld \<Rightarrow> 'k cworld res) \<Rightarrow> 'k cworld \<Rightarrow> 'k cworld \<Rightarrow> bool"
  for os sos eventfd interest cl rest w0 where
  construct: "new_tcp_client os eventfd already ls l w0 = Inr w \<Longrightarrow> client_life os sos eventfd interest cl rest w0 w"
| workers: "client_life os sos eventfd interest cl rest w0 w \<Longrightarrow> addWorkerThreads n w = Inr w' \<Longrightarrow>
    client_life os sos eventfd interest cl rest w0 w'"
| connect: "client_life os sos eventfd interest cl rest w0 w \<Longrightarrow>
    client_connect os sos addr w = Inr (c, w') \<Longrightarrow> client_life os sos eventfd interest cl rest w0 w'"
| pass: "client_life os sos eventfd interest cl rest w0 w \<Longrightarrow>
    wait_answer_ok interest (loop_ep w l) (kern (env w)) answer \<Longrightarrow>
    loop_pass (client_callback os sos junk cl rest) answer (w\<lparr>localEventLoop := l\<rparr>) = Inr w' \<Longrightarrow>
    client_life os sos eventfd interest cl rest w0 w'"
| task: "client_life os sos eventfd interest cl rest w0 w \<Longrightarrow> heap_callback_ok interest f \<Longrightarrow>
    conns w c = Some x \<Longrightarrow> f c (w\<lparr>localEventLoop := conn_loop x\<rparr>) = Inr w' \<Longrightarrow>
    client_life os sos eventfd interest cl rest w0 w'"
| kernel: "client_life os sos eventfd interest cl rest w0 w \<Longrightarrow>
    (\<And>ep. interest ep k = interest ep (kern (env w))) \<Longrightarrow>
    client_life os sos eventfd interest cl rest w0 (w\<lparr>env := (env w)\<lparr>kern := k\<rparr>\<rparr>)"

lemma heap_inv_loop: "heap_inv interest w \<Longrightarrow> heap_inv interest (w\<lparr>localEventLoop := l\<rparr>)"
  by (erule heap_same) simp_all

lemma client_pass_safe:
  assumes "client_surroundings os inq outq interest sos cl rest" and "heap_inv interest w"
    and "wait_answer_ok interest (loop_ep w l) (kern (env w)) answer"
  shows "loop_pass (client_callback os sos junk cl rest) answer (w\<lparr>localEventLoop := l\<rparr>) \<noteq> Inl Use_after_free \<and>
    (\<forall>w'. loop_pass (client_callback os sos junk cl rest) answer (w\<lparr>localEventLoop := l\<rparr>) = Inr w' \<longrightarrow> heap_inv interest w')"
  by (rule client_loop.pass_keeps [OF assms(1) heap_inv_loop [OF assms(2)], where ep = "loop_ep w l"])
    (use assms(3) in simp)

lemma client_connect_pool:
  assumes "client_connect os sos addr w = r"
  shows "(\<exists>l p. getNextPool (cpool w) = Inr (l, p)) \<or> (\<exists>e. r = Inl e \<and> e \<noteq> Use_after_free)"
  using assms by (auto simp: client_connect_def getNextPool_def Let_def split: prod.splits if_splits)

lemma client_life_inv:
  assumes ok: "client_surroundings os inq outq interest sos cl rest" and inv: "heap_inv interest w0"
    and evfd: "eventfd_contract interest eventfd"
    and life: "client_life os sos eventfd interest cl rest w0 w"
  shows "heap_inv interest w"
  using life
proof induction
  case (construct already ls l w)
  then show ?case using new_tcp_client_spec [OF client_surroundingsD(1) [OF ok] inv evfd] by (metis sum.inject(2))
next
  case (workers w n w')
  then obtain p where "w' = w\<lparr>cpool := p\<rparr>" by (auto simp: addWorkerThreads_def)
  then show ?case using heap_same [OF workers.IH, of w'] by simp
next
  case (connect w addr c w')
  from client_connect_pool [OF connect.hyps(2)] obtain l p where "getNextPool (cpool w) = Inr (l, p)" by auto
  moreover obtain f e where "makeNewSocket sos (env w) = (f, e)" by fastforce
  ultimately obtain w1 where "client_connect os sos addr w = Inr (next_conn w, w1)" "heap_inv interest w1"
    using client_connect_heap [OF client_surroundingsD(1,2) [OF ok] connect.IH] by metis
  then show ?case using connect.hyps(2) by simp
next
  case (pass w l answer junk w')
  then show ?case using client_pass_safe [OF ok] by blast
next
  case (task w f c x w')
  have "heap_outcome interest c (conn_event x) (w\<lparr>localEventLoop := conn_loop x\<rparr>) (f c (w\<lparr>localEventLoop := conn_loop x\<rparr>))"
    by (rule heap_callback [OF task.hyps(2) heap_inv_loop [OF task.IH], where x = x]) (simp_all add: task.hyps(3))
  then show ?case using task.hyps(4) by (simp add: heap_outcome_def)
next
  case (kernel w k)
  show ?case by (rule heap_same [OF kernel.IH]) (simp_all add: kernel.hyps(2))
qed

subsection \<open>What users may do, and what they may not\<close>

text \<open>Sending is allowed everywhere, closing where the code does not go on with the connection.\<close>

lemma sending_allowed:
  assumes "os_contract os inq outq interest" and "length s \<le> vec_max"
  shows "heap_keeper_ok interest (\<lambda>c. send_data os c s)"
proof -
  have "conns w' c \<noteq> None" if run: "send_data os c s w = Inr w'" for w c w'
  proof -
    obtain x b where "conns w c = Some x" "send_flag os c False (upd_conn c (x\<lparr>writeBuffer := b\<rparr>)
        (if conn_state x \<noteq> ESTABLISHED then w\<lparr>env := add_log (Fatal ''connection closed, can't send data!'') (env w)\<rparr> else w)) = Inr w'"
      using run by (auto simp: send_data_def Let_def)
    then show ?thesis
      by (auto simp: send_flag_def upd_conn_def setWritable_def set_mask_def update_event_def setWriteCallback_def Let_def split: if_splits)
  qed
  then show ?thesis
    unfolding heap_keeper_ok_def heap_callback_ok_def using heap_send_data(1) [OF assms(1) _ _ refl assms(2)] by blast
qed

lemma closing_allowed:
  assumes "os_contract os inq outq interest" and "\<And>f. cl_connClose cl = Some f \<Longrightarrow> heap_keeper_ok interest f"
  shows "heap_callback_ok interest (client_activeClose os cl)"
  unfolding heap_callback_ok_def
  using heap_close [OF assms(1) _ _ refl assms(2)]
  by (simp add: client_activeClose_def client_closeConnection_def heap_outcome_error)

text \<open>
  A callback for established connections that closes the connection deletes it, and the code then follows the pointer
  to ask for its event.
\<close>

lemma closing_on_establishment_faults:
  assumes inv: "heap_inv interest w" and c: "conns w c = Some x" "readableBytes (writeBuffer x) = 0" "destoryCallback x = None"
    and good: "sys_so_error sos (sockfd x) (kern (env w)) = (Inr 0, k)"
    and cl: "cl_connEsta cl = Some (client_activeClose os cl)" "cl_connClose cl = None"
  shows "client_check_connect os sos junk cl c w = Inl Use_after_free"
proof -
  define w1 where "w1 = w\<lparr>env := (env w)\<lparr>kern := k\<rparr>\<rparr>"
  obtain ev where ev: "evs w (conn_event x) = Some ev" using heap_event [OF inv c(1)] by metis
  have w1: "conns w1 c = Some x" "evs w1 (conn_event x) = Some ev" using c(1) ev by (simp_all add: w1_def)
  obtain w2 where w2: "client_activeClose os cl c w1 = Inr w2" "conns w2 c = None"
    using dispose_eq [OF w1, of os] c(2,3) w1(1) cl(2)
    by (simp add: client_activeClose_def client_closeConnection_def close_common_def)
  have "checkHasError sos junk (sockfd x) (env w) = (False, (env w)\<lparr>kern := k\<rparr>)" using good by (simp add: checkHasError_def)
  then show ?thesis
    using c(1) cl(1) w2 by (simp add: client_check_connect_def run_if_set_def w1_def)
qed

text \<open>
  The message callback may come first.  When the first data and the end of the attempt are reported together, \<open>handle\<close>
  runs the callback for reading only: the user is given a message on a connection that is still \<open>BLANK\<close>, of which the
  callback for established connections has not told yet.
\<close>

lemma message_before_establishment:
  assumes c: "conns w c = Some x" "conn_state x = BLANK" and ev: "evs w (conn_event x) = Some ev"
      "readCallback ev = Some (Cb_conn_msg c)" "errorCallback ev = None"
    and m: "m AND EPOLLIN \<noteq> 0"
    and read: "read_from_socket os (sockfd x) (env w) (readBuffer x) default_maxBytes = Some (Inr (n, b, e))" "0 < n"
    and cd: "codec_check (cl_codec cl) b = (True, b', lg)" and msg: "cl_connMsg cl = Some f"
  shows "\<exists>w1. loop_pass (client_callback os sos junk cl rest) (Inr [(m, conn_event x)]) w = f c w1 \<and>
    conns w1 c = Some (x\<lparr>readBuffer := b'\<rparr>) \<and> conn_state (x\<lparr>readBuffer := b'\<rparr>) = BLANK"
proof -
  define w0 where "w0 = w\<lparr>evs := (evs w)(conn_event x \<mapsto> ev\<lparr>revents := m\<rparr>)\<rparr>"
  define w1 where "w1 = (upd_conn c (x\<lparr>readBuffer := b'\<rparr>) w0)\<lparr>env := e\<lparr>logs := logs e @ lg\<rparr>\<rparr>"
  have h: "handle (ev\<lparr>revents := m\<rparr>) = Some (Cb_conn_msg c)" using ev(2,3) m by (simp add: handle_def)
  have "client_message os cl c w0 = f c w1"
    using c(1) read cd msg by (simp add: client_message_def w0_def w1_def upd_conn_def Let_def)
  moreover have "handle_events (client_callback os sos junk cl rest) [] = Inr" by (rule ext) simp
  ultimately have "loop_pass (client_callback os sos junk cl rest) (Inr [(m, conn_event x)]) w = res_bind (f c w1) Inr"
    using ev(1) h by (simp add: loop_pass_at_def poll_def w0_def client_callback_def comp_def)
  then show ?thesis
    using c(2) by (cases "f c w1") (auto intro!: exI [of _ w1] simp: w1_def upd_conn_def)
qed

subsection \<open>Properties\<close>

text \<open>
  C12: safety of the whole client.  From the constructor on, after any sequence of connection attempts (with a
  descriptor or, when \<open>socket\<close> fails, with \<open>-1\<close>), passes of any
  loops, tasks on connections and changes of the kernel, the invariant of the heaps holds, neither another attempt nor
  a pass that handles whatever is reported next follows a dangling pointer, and this does not depend on when users
  send: only the callbacks for establishment, errors and closing must leave the connection to the code.
\<close>

theorem client_life_safe:
  assumes "client_surroundings os inq outq interest sos cl rest" and "heap_inv interest w0"
    and "eventfd_contract interest eventfd"
    and "client_life os sos eventfd interest cl rest w0 w"
  shows "heap_inv interest w \<and>
    (\<forall>addr. client_connect os sos addr w \<noteq> Inl Use_after_free) \<and>
    (\<forall>l answer junk. wait_answer_ok interest (loop_ep w l) (kern (env w)) answer \<longrightarrow>
      loop_pass (client_callback os sos junk cl rest) answer (w\<lparr>localEventLoop := l\<rparr>) \<noteq> Inl Use_after_free)"
proof (intro conjI allI impI)
  show inv: "heap_inv interest w" using assms by (rule client_life_inv)
  show "loop_pass (client_callback os sos junk cl rest) answer (w\<lparr>localEventLoop := l\<rparr>) \<noteq> Inl Use_after_free"
    if "wait_answer_ok interest (loop_ep w l) (kern (env w)) answer" for l answer junk
    using client_pass_safe [OF assms(1) inv that] by blast
  show "client_connect os sos addr w \<noteq> Inl Use_after_free" for addr
  proof (cases "getNextPool (cpool w)")
    case (Inl e)
    then obtain e' where "client_connect os sos addr w = Inl e'" "e' \<noteq> Use_after_free"
      using client_connect_pool [of os sos addr w, OF refl] by auto
    then show ?thesis by simp
  next
    case (Inr r)
    then obtain l p where "getNextPool (cpool w) = Inr (l, p)" by (cases r) simp
    then obtain w' where "client_connect os sos addr w = Inr (next_conn w, w')"
      using client_connect_heap [OF client_surroundingsD(1,2) [OF assms(1)] inv] by (metis surj_pair)
    then show ?thesis by simp
  qed
qed

lemma sim_eventfd_contract: "eventfd_contract sim_interest sim_socket"
  unfolding eventfd_contract_def
proof (intro allI impI)
  fix k r k' assume r: "sim_socket k = (r, k')"
  obtain f k1 where "sim_socket k = (Inr f, k1)" "\<forall>ep. sim_interest ep k1 = sim_interest ep k \<and> sim_interest ep k f = None"
    using demo_eventfd by blast
  then show "(\<forall>ep. sim_interest ep k' = sim_interest ep k) \<and> (\<forall>f ep. r = Inr f \<longrightarrow> sim_interest ep k f = None)"
    using r by auto
qed

lemma sim_new_socket:
  obtains f where "makeNewSocket (sim_sock_os err) e = (f, e)" "0 \<le> f"
proof -
  let ?f = "1 + fold max (map (snd \<circ> fst) (sim_reg (kern e)) @ sim_closed (kern e)) 4"
  have "makeNewSocket (sim_sock_os err) e = (?f, e)" by (simp add: makeNewSocket_def sim_sock_os_def sim_socket_def)
  moreover have "0 \<le> ?f" using le_fold_max(1) [of 4 "map (snd \<circ> fst) (sim_reg (kern e)) @ sim_closed (kern e)"] by simp
  ultimately show ?thesis by (rule that)
qed

text \<open>A client that sends as soon as a connection is established makes a connection, whose event is then reported.\<close>

theorem client_life_safe_witness:
  "\<exists>w x. client_life sim_os (sim_sock_os 0) sim_socket sim_interest
      (client_setConnEstaCallback (\<lambda>c. send_data sim_os c ''hello'') (bare_client UNLIMITED_MODEL)) (\<lambda>cb. Inr)
      (demo_client sim_init []) w \<and> conns w 1 = Some x \<and> conn_state x = BLANK \<and> heap_inv sim_interest w \<and>
    (\<exists>m. wait_answer_ok sim_interest (loop_ep w 1) (kern (env w)) (Inr [(m, conn_event x)]) \<and>
      loop_pass (client_callback sim_os (sim_sock_os 0) 0
        (client_setConnEstaCallback (\<lambda>c. send_data sim_os c ''hello'') (bare_client UNLIMITED_MODEL)) (\<lambda>cb. Inr))
        (Inr [(m, conn_event x)]) (w\<lparr>localEventLoop := 1\<rparr>) \<noteq> Inl Use_after_free)"
proof -
  let ?w = "demo_client sim_init []"
    and ?cl = "client_setConnEstaCallback (\<lambda>c. send_data sim_os c ''hello'') (bare_client UNLIMITED_MODEL)"
  have ok: "client_surroundings sim_os sim_inq sim_outq sim_interest (sim_sock_os 0) ?cl (\<lambda>cb. Inr)"
    using sending_allowed [OF sim_os_contract, of "''hello''"] sim_os_contract sim_sock_contract
    by (simp add: client_surroundings_def client_callbacks_ok_def heap_others_ok_def keeps_events_def
        client_setConnEstaCallback_def bare_client_def vec_max_def)
  have inv: "heap_inv sim_interest ?w" by (rule conn_inv_heap [OF demo_client_inv]) simp
  obtain w1 where w1: "new_tcp_client sim_os sim_socket False [] 1 ?w = Inr w1" "heap_inv sim_interest w1"
    "next_conn w1 = next_conn ?w" "cpool w1 = new_pool 1 []"
    using new_tcp_client_spec [OF sim_os_contract inv sim_eventfd_contract] by metis
  have pool: "getNextPool (cpool w1) = Inr (1, new_pool 1 [])" using w1(4) by (simp add: getNextPool_def new_pool_def)
  obtain f where sock: "makeNewSocket (sim_sock_os 0) (env w1) = (f, env w1)" "0 \<le> f" by (rule sim_new_socket)
  obtain w where w: "client_connect sim_os (sim_sock_os 0) demo_addr w1 = Inr (next_conn w1, w)"
    "conns w = (conns w1)(next_conn w1 \<mapsto> (new_conn (next_ev w1) f 1)\<lparr>conn_state := BLANK\<rparr>)"
    using client_connect_heap [OF sim_os_contract sim_sock_contract w1(2) pool sock(1)] by metis
  have "client_life sim_os (sim_sock_os 0) sim_socket sim_interest ?cl (\<lambda>cb. Inr) ?w w1" by (rule client_life.construct [OF w1(1)])
  then have life: "client_life sim_os (sim_sock_os 0) sim_socket sim_interest ?cl (\<lambda>cb. Inr) ?w w"
    by (rule client_life.connect [OF _ w(1)])
  define x where "x = (new_conn (next_ev w1) f 1)\<lparr>conn_state := BLANK\<rparr>"
  have x: "conns w 1 = Some x" "conn_state x = BLANK" "conn_loop x = 1" "0 \<le> sockfd x"
    using w(2) w1(3) sock(2) by (simp_all add: x_def demo_client_def)
  note safe = client_life_safe [OF ok inv sim_eventfd_contract life]
  obtain ev where ev: "evs w (conn_event x) = Some ev" "epoller ev = loop_ep w 1" "ev_fd ev = sockfd x"
    using heap_event [OF conjunct1 [OF safe] x(1)] x(3) by metis
  have "wait_answer_ok sim_interest (loop_ep w 1) (kern (env w)) (Inr [(events ev, conn_event x)])"
    using registeredD(2) [OF heap_registered [OF conjunct1 [OF safe]] ev(1)] ev(2,3) x(4) by (auto simp: wait_answer_ok_def)
  then show ?thesis using life x safe by blast
qed

end
