(* ===== verification/FreeRuns.thy ===== *)
theory FreeRuns imports FreeServerClient ClientRuns begin

section \<open>A \<open>FreeServerClient\<close> over its whole life\<close>

text \<open>
  It is constructed and started, opens ports and makes connections whenever users ask for it, and its loops make passes
  in any order.  An event is handled with what its closure carries, so a pass is \<open>loop_pass_at\<close> here.  The
  contract: functions after which the code goes on with the connection leave it alone.  \<open>socket\<close> and \<open>accept\<close> may fail with
  any error; the events and connections the code then makes for \<open>-1\<close> (\<open>free_accept_goes_on\<close>) are part of the life.
\<close>

subsection \<open>The constructor and \<open>start\<close>\<close>

definition new_free_server_client ::
  "'k os \<Rightarrow> ('k \<Rightarrow> (errno + fd) \<times> 'k) \<Rightarrow> bool \<Rightarrow> loop_id list \<Rightarrow> loop_id \<Rightarrow> 'k fworld \<Rightarrow> 'k fworld res" where
  "new_free_server_client os eventfd already ls l w =
     res_bind (init_event_loop os eventfd already l (w\<lparr>fpool := new_pool l ls, serverfds := [], clientfds := []\<rparr>))
       (\<lambda>(_, w1). Inr w1)"

text \<open>\<open>start\<close>, up to the run of the main loop.\<close>

definition free_start :: "nat \<Rightarrow> 'k fworld \<Rightarrow> 'k fworld res" where
  "free_start n w =
     (let w1 = w\<lparr>env := add_log (Info (''FreeServerClient starting...'' @ [CHR 0x0A])) (env w)\<rparr> in
      res_bind (start_helpers n (fpool w1)) (\<lambda>p. Inr (w1\<lparr>fpool := p\<rparr>)))"

subsection \<open>What is asked of the surroundings\<close>

definition free_surroundings ::
  "'k os \<Rightarrow> (fd \<Rightarrow> 'k \<Rightarrow> bytes) \<Rightarrow> (fd \<Rightarrow> 'k \<Rightarrow> bytes) \<Rightarrow> (fd \<Rightarrow> 'k \<Rightarrow> (fd \<rightharpoonup> epoll_event)) \<Rightarrow> 'k sock_os \<Rightarrow>
     'k user \<Rightarrow> 'k user \<Rightarrow> (callback \<Rightarrow> 'k fworld \<Rightarrow> 'k fworld res) \<Rightarrow> bool" where
  "free_surroundings os inq outq interest sos user keeper rest \<longleftrightarrow>
     os_contract os inq outq interest \<and> sock_contract sos outq interest \<and>
     (\<forall>n. heap_callback_ok interest (user n)) \<and> (\<forall>n. heap_keeper_ok interest (keeper n)) \<and> heap_others_ok interest rest"

lemma free_surroundingsD:
  assumes "free_surroundings os inq outq interest sos user keeper rest"
  shows "os_contract os inq outq interest" "sock_contract sos outq interest"
    "heap_callback_ok interest (user n)" "heap_keeper_ok interest (keeper n)" "heap_others_ok interest rest"
  using assms by (simp_all add: free_surroundings_def)

subsection \<open>Messages and closing\<close>

lemma heap_log:
  "heap_inv interest w \<Longrightarrow> heap_inv interest (w\<lparr>env := (env w)\<lparr>logs := lg\<rparr>\<rparr>)"
  "frame c p w (w\<lparr>env := (env w)\<lparr>logs := lg\<rparr>\<rparr>)"
  by (auto simp: frame_def intro: heap_same)

lemma free_close_outcome:
  assumes ok: "free_surroundings os inq outq interest sos user keeper rest" and inv: "heap_inv interest w"
    and c: "conns w c = Some x" "conn_event x = p"
  shows "heap_outcome interest c p w (free_closeConnection os keeper c d w)"
    and "heap_outcome interest c p w (free_activeClose os keeper c w)"
proof -
  have "heap_outcome interest c p w (close_common os (delete_conn os) (map_option keeper d) c w)" for d
    by (rule heap_close [OF free_surroundingsD(1) [OF ok] inv c]) (use free_surroundingsD(4) [OF ok] in auto)
  then show "heap_outcome interest c p w (free_closeConnection os keeper c d w)"
    and "heap_outcome interest c p w (free_activeClose os keeper c w)"
    using c(1) by (simp_all add: free_closeConnection_def free_activeClose_def)
qed

lemma check_and_deliver_outcome:
  assumes ok: "free_surroundings os inq outq interest sos user keeper rest" and inv: "heap_inv interest w"
    and c: "conns w c = Some x" "conn_event x = p"
  shows "heap_outcome interest c p w (check_and_deliver user fu c w)"
proof -
  have bufs: "buf_inv (readBuffer x)" "buf_inv (writeBuffer x)" using heap_event [OF inv c(1)] by metis+
  obtain v b lg where cd: "codec_check (fs_codec fu) (readBuffer x) = (v, b, lg)" by (metis prod_cases3)
  define w1 where "w1 = (upd_conn c (x\<lparr>readBuffer := b\<rparr>) w)\<lparr>env := (env w)\<lparr>logs := logs (env w) @ lg\<rparr>\<rparr>"
  have i: "interest ep (kern ((env w)\<lparr>logs := logs (env w) @ lg\<rparr>)) = interest ep (kern (env w))" for ep by simp
  note k = heap_conn [OF inv c(1) _ _ _ _ _ i w1_def, simplified, OF codec_check_keeps(1) [OF bufs(1) cd] bufs(2)]
  have p: "conn_event (x\<lparr>readBuffer := b\<rparr>) = p" using c(2) by simp
  have eq: "check_and_deliver user fu c w = (if v then call_func user (messageCb fu) c w1 else Inr w1)"
    using c(1) cd by (simp add: check_and_deliver_def w1_def Let_def)
  have "heap_outcome interest c p w1 (if v then call_func user (messageCb fu) c w1 else Inr w1)"
    using heap_callback [OF free_surroundingsD(3) [OF ok] k(1,3) p] heap_outcome_done [OF k(1) frame_refl k(3) p]
    by (auto simp: call_func_def heap_outcome_error split: option.split)
  then show ?thesis unfolding eq by (rule heap_outcome_frame [rotated]) (use k(2) c(2) in simp)
qed

lemma free_message_outcome:
  assumes ok: "free_surroundings os inq outq interest sos user keeper rest" and inv: "heap_inv interest w"
    and c: "conns w c = Some x" "conn_event x = p"
  shows "heap_outcome interest c p w (free_message os user keeper pt c w)"
proof -
  have bufs: "buf_inv (readBuffer x)" "buf_inv (writeBuffer x)" using heap_event [OF inv c(1)] by metis+
  have "conn_inv interest (all_blank w)" "conns (all_blank w) c = Some (blank x)"
    using inv c(1) by (simp_all add: heap_inv_blank)
  from free_surroundingsD(1) [OF ok] this show ?thesis
  proof (cases rule: read_step)
    case no_memory
    then show ?thesis using c(1) by (simp add: free_message_def heap_outcome_error)
  next
    case (got n b e)
    then have r: "read_from_socket os (sockfd x) (env w) (readBuffer x) default_maxBytes = Some (Inr (n, b, e))"
      and i: "\<And>ep. interest ep (kern e) = interest ep (kern (env w))" by simp_all
    define w1 where "w1 = (upd_conn c (x\<lparr>readBuffer := b\<rparr>) w)\<lparr>env := e\<rparr>"
    note k = heap_conn [OF inv c(1) _ _ _ _ _ i w1_def, simplified, OF got(2) bufs(2)]
    have p: "conn_event (x\<lparr>readBuffer := b\<rparr>) = p" using c(2) by simp
    note close = free_close_outcome(1) [OF ok k(1,3) p] and deliver = check_and_deliver_outcome [OF ok k(1,3) p]
    have stay: "heap_outcome interest c p w1 (Inr w1)" by (rule heap_outcome_done [OF k(1) frame_refl k(3) p])
    have logd: "heap_outcome interest c p w2 (Inr (w2\<lparr>env := add_log m (env w2)\<rparr>))"
      and go_on: "heap_outcome interest c p w2 (check_and_deliver user fu c (w2\<lparr>env := add_log m (env w2)\<rparr>))"
      if y: "heap_inv interest w2" "conns w2 c = Some y" "conn_event y = p" for w2 y m fu
    proof -
      have l: "heap_inv interest (w2\<lparr>env := add_log m (env w2)\<rparr>)" "frame c p w2 (w2\<lparr>env := add_log m (env w2)\<rparr>)"
        "conns (w2\<lparr>env := add_log m (env w2)\<rparr>) c = Some y"
        using heap_log(1) [OF y(1)] heap_log(2) y(2) by (simp_all add: add_log_def)
      show "heap_outcome interest c p w2 (Inr (w2\<lparr>env := add_log m (env w2)\<rparr>))" by (rule heap_outcome_done [OF l y(3)])
      show "heap_outcome interest c p w2 (check_and_deliver user fu c (w2\<lparr>env := add_log m (env w2)\<rparr>))"
        by (rule heap_outcome_frame [OF l(2) check_and_deliver_outcome [OF ok l(1,3) y(3)]])
    qed
    have err: "heap_outcome interest c p w1 (res_bind (run_if_set (map_option keeper (errorCb fu)) c w1) (\<lambda>w2.
        Inr (w2\<lparr>env := add_log (Sys ''read error'') (env w2)\<rparr>)))" for fu
      by (rule run_if_set_outcome [OF _ k(1,3) p logd]) (use free_surroundingsD(4) [OF ok] in auto)
    have err': "heap_outcome interest c p w1 (res_bind (call_func keeper (errorCb fu) c w1) (\<lambda>w2.
        check_and_deliver user fu c (w2\<lparr>env := add_log (Sys ''readFromSocket error'') (env w2)\<rparr>)))" for fu
      using heap_keeper_bind [OF free_surroundingsD(4) [OF ok] k(1,3) p go_on]
      by (simp add: call_func_def heap_outcome_error split: option.split)
    have eq: "free_message os user keeper pt c w =
       (case pt of
          Connected fu \<Rightarrow>
            if n = 0 then free_closeConnection os keeper c (destoryCb fu) w1
            else if n < 0 then
              res_bind (run_if_set (map_option keeper (errorCb fu)) c w1) (\<lambda>w2.
                Inr (w2\<lparr>env := add_log (Sys ''read error'') (env w2)\<rparr>))
            else if messageCb fu = None then Inr w1
            else check_and_deliver user fu c w1
        | Accepted fu \<Rightarrow>
            if n = 0 then free_closeConnection os keeper c (destoryCb fu) w1
            else if n < 0 then
              res_bind (call_func keeper (errorCb fu) c w1) (\<lambda>w2.
                check_and_deliver user fu c (w2\<lparr>env := add_log (Sys ''readFromSocket error'') (env w2)\<rparr>))
            else check_and_deliver user fu c w1)"
      using c(1) r by (cases pt) (simp_all add: free_message_def w1_def Let_def)
    have "heap_outcome interest c p w1 (free_message os user keeper pt c w)"
      unfolding eq by (cases pt) (auto intro: close deliver stay err err')
    then show ?thesis by (rule heap_outcome_frame [rotated]) (use k(2) c(2) in simp)
  qed
qed

subsection \<open>Accepting\<close>

text \<open>What is done for a new descriptor, accepted or connected, up to the callback for established connections.\<close>

lemma new_conn_keeps_events:
  assumes inv: "heap_inv interest w" and same: "evs w1 = evs w" "next_ev w1 = next_ev w"
    and fr: "frame c (next_ev w) (with_conn f l e w1) w'"
  shows "keeps_events {} w w'"
  using frameD(2) [OF fr] registeredD(1) [OF heap_registered [OF inv]] same by (fastforce simp: keeps_events_def)

lemma free_take_keeps:
  assumes ok: "free_surroundings os inq outq interest sos user keeper rest" and inv: "heap_inv interest w"
    and fresh0: "\<And>ep. interest ep (kern (env w)) f = None"
  shows "free_take os user fu f w \<noteq> Inl Use_after_free \<and>
    (\<forall>w'. free_take os user fu f w = Inr w' \<longrightarrow> heap_inv interest w' \<and> keeps_events {} w w')"
proof (cases "getNextPool (fpool w)")
  case (Inl e)
  then have "free_take os user fu f w = Inl e" by (simp add: free_take_def)
  moreover have "e \<noteq> Use_after_free" using Inl by (auto simp: getNextPool_def Let_def split: if_splits)
  ultimately show ?thesis by simp
next
  case (Inr lp)
  note os = free_surroundingsD(1) [OF ok]
  obtain l p where lp: "getNextPool (fpool w) = Inr (l, p)" using Inr by (cases lp) simp
  define w1 where "w1 = w\<lparr>fpool := p\<rparr>"
  have w1: "next_ev w1 = next_ev w" "next_conn w1 = next_conn w" "loop_ep w1 = loop_ep w" "evs w1 = evs w" "conns w1 = conns w"
    by (simp_all add: w1_def)
  have inv1: "heap_inv interest w1" by (rule heap_same [OF inv]) (simp_all add: w1_def)
  have fresh: "interest ep (kern (env w1)) f = None" for ep using fresh0 by (simp add: w1_def)
  obtain w2 e where mk: "make_event os f (loop_ep w1 l) w1 = Inr (next_ev w1, w2)"
    "makeHeapObject os (next_ev w1) l w2 = Inr (next_conn w1, with_conn f l e w1)" "heap_inv interest (with_conn f l e w1)"
    using heap_make_conn [OF os inv1 fresh, of l] by metis
  let ?c = "next_conn w" and ?p = "next_ev w"
  let ?x = "(new_conn ?p f l)\<lparr>destoryCallback := destoryCb fu\<rparr>"
  have c2: "conns (with_conn f l e w1) ?c = Some (new_conn ?p f l)" by (simp add: w1)
  define w3 where "w3 = (upd_conn ?c ?x (with_conn f l e w1))\<lparr>env := env (with_conn f l e w1)\<rparr>"
  note k3 = heap_conn [OF mk(3) c2 _ _ _ _ _ refl w3_def, simplified]
  define w4 where "w4 = w3\<lparr>conn_port := (conn_port w3)(?c \<mapsto> Accepted fu)\<rparr>"
  have w4_eq: "w4 = (upd_conn ?c ?x (with_conn f l e w1))\<lparr>conn_port := (conn_port (with_conn f l e w1))(?c \<mapsto> Accepted fu)\<rparr>"
    by (simp add: w4_def w3_def upd_conn_def)
  have inv4: "heap_inv interest w4" by (rule heap_same [OF k3(1)]) (simp_all add: w4_def)
  have c4: "conns w4 ?c = Some ?x" "conn_event ?x = ?p" using k3(3) by (simp_all add: w4_def)
  obtain w5 where w5: "res_bind (setReadCallback (conn_event ?x) (Cb_conn_msg ?c) w4) (setReadable os (conn_event ?x) True) = Inr w5"
    "heap_inv interest w5" "frame ?c (conn_event ?x) w4 w5" "conns w5 = conns w4" using heap_ask [OF os inv4 c4(1)] .
  have c5: "conns w5 ?c = Some ?x" using w5(4) c4(1) by simp
  have run: "free_take os user fu f w = run_if_set (map_option user (establishedCb fu)) ?c w5"
    using lp mk(1,2) w5(1) w1(1,2,3)
    by (simp add: free_take_def w1_def [symmetric] w4_eq Let_def)
  have out: "heap_outcome interest ?c ?p w5 (run_if_set (map_option user (establishedCb fu)) ?c w5)"
    using heap_callback [OF free_surroundingsD(3) [OF ok] w5(2) c5 c4(2)] heap_outcome_done [OF w5(2) frame_refl c5 c4(2)]
    by (simp add: run_if_set_def split: option.split)
  have ev5: "evs w5 q = evs w q" if "q \<noteq> ?p" for q
    using that frameD(2) [OF w5(3), of q] by (simp add: w4_def w3_def upd_conn_def w1)
  have "keeps_events {} w w'" if "frame ?c ?p w5 w'" for w'
    using frameD(2) [OF that] ev5 registeredD(1) [OF heap_registered [OF inv], of ?p]
    unfolding keeps_events_def by (metis less_irrefl option.exhaust)
  then show ?thesis using out run unfolding heap_outcome_def by simp
qed

text \<open>A descriptor that has been accepted, or the \<open>-1\<close> of an error the code does not know.\<close>

lemma free_accept_keeps:
  assumes ok: "free_surroundings os inq outq interest sos user keeper rest" and inv: "heap_inv interest w"
  shows "free_accept os user lfd fu w \<noteq> Inl Use_after_free \<and>
    (\<forall>w'. free_accept os user lfd fu w = Inr w' \<longrightarrow> heap_inv interest w' \<and> keeps_events {} w w')"
proof -
  note fr = os_contractD(3) [OF free_surroundingsD(1) [OF ok]]
  obtain r k where acc: "sys_accept os lfd (kern (env w)) = (r, k)" by fastforce
  have i: "interest ep k = interest ep (kern (env w))" for ep using frame_contractD(3) [OF fr acc] .
  have same: "heap_inv interest w0" "\<And>w'. keeps_events {} w0 w' = keeps_events {} w w'" "keeps_events {} w w0"
    if "w0 = w\<lparr>env := e\<rparr>" "kern e = k" for w0 e
    by (rule heap_same [OF inv]) (simp_all add: that i keeps_events_def)
  show ?thesis
  proof (cases r)
    case (Inr f)
    define w0 where "w0 = w\<lparr>env := (env w)\<lparr>kern := k\<rparr>\<rparr>"
    note s = same [OF w0_def, simplified]
    have fresh: "interest ep (kern (env w0)) f = None" for ep using frame_contractD(10) [OF fr] acc Inr i by (simp add: w0_def)
    show ?thesis
      using free_take_keeps [OF ok s(1) fresh, of fu] s(2) acc Inr by (simp add: free_accept_def w0_def [symmetric])
  next
    case (Inl err)
    show ?thesis
    proof (cases "transient err")
      case True
      then show ?thesis using same [OF refl, of "(env w)\<lparr>kern := k\<rparr>"] acc Inl by (simp add: free_accept_def)
    next
      case False
      define w0 where "w0 = w\<lparr>env := add_log (Sys ''accept error'') ((env w)\<lparr>kern := k\<rparr>)\<rparr>"
      note s = same [OF w0_def, simplified]
      have fresh: "interest ep (kern (env w0)) (- 1) = None" for ep using registeredD(5) [OF heap_registered [OF s(1)]] by simp
      show ?thesis
        using free_take_keeps [OF ok s(1) fresh, of fu] s(2) acc Inl False by (simp add: free_accept_def w0_def [symmetric])
    qed
  qed
qed

text \<open>What a loop runs for the event \<open>p\<close>.\<close>

lemma free_callback_keeps:
  assumes ok: "free_surroundings os inq outq interest sos user keeper rest" and inv: "heap_inv interest w"
    and ev: "evs w p = Some ev" and cb: "handle ev = Some cb"
  shows "free_callback os user keeper rest p cb w \<noteq> Inl Use_after_free \<and>
    (\<forall>w'. free_callback os user keeper rest p cb w = Inr w' \<longrightarrow> heap_inv interest w' \<and> keeps_events {p} w w')"
proof -
  note others = heap_others [OF free_surroundingsD(5) [OF ok] inv, of cb p]
  have up: "keeps_events {} w w' \<Longrightarrow> keeps_events {p} w w'" for w' by (simp add: keeps_events_def)
  have named: ?thesis if c: "names_conn cb c" and
    run: "\<And>x. conns w c = Some x \<Longrightarrow> conn_event x = p \<Longrightarrow> free_callback os user keeper rest p cb w \<noteq> rest cb w \<Longrightarrow>
      heap_outcome interest c p w (free_callback os user keeper rest p cb w)" for c
  proof -
    obtain x where "conns w c = Some x" "conn_event x = p" using heap_owner [OF inv ev cb c] .
    from keeps_events_outcome [OF run [OF this]] others show ?thesis by metis
  qed
  show ?thesis
  proof (cases cb)
    case Cb_accept
    then show ?thesis
      using others free_accept_keeps [OF ok inv] up by (auto simp: free_callback_def split: option.split)
  next
    case (Cb_conn_msg c)
    show ?thesis
      by (rule named [of c])
        (auto simp: Cb_conn_msg free_callback_def split: option.split intro: free_message_outcome [OF ok inv])
  next
    case (Cb_send_nonblock c)
    show ?thesis
      by (rule named [of c]) (simp_all add: Cb_send_nonblock free_callback_def
          heap_send_nonblock [OF free_surroundingsD(1) [OF ok] inv _ _ free_close_outcome(2) [OF ok]])
  qed (use others in \<open>simp add: free_callback_def\<close>)+
qed

interpretation free_loop: dispatcher interest "heap_inv interest" "free_callback os user keeper rest"
  "free_surroundings os inq outq interest sos user keeper rest" for os inq outq interest sos user keeper rest
proof unfold_locales
  fix w :: "'a fworld"
  show "registered interest w" if "heap_inv interest w" by (rule heap_registered [OF that])
  show "heap_inv interest (w\<lparr>evs := es\<rparr>)" if "heap_inv interest w" "same_but_revents w es" for es
    by (rule heap_revents [OF that])
  show "heap_inv interest (w\<lparr>env := add_log l (env w)\<rparr>)" if "heap_inv interest w" for l
    by (rule heap_same [OF that]) simp_all
  show "free_callback os user keeper rest p cb w \<noteq> Inl Use_after_free \<and>
      (\<forall>w'. free_callback os user keeper rest p cb w = Inr w' \<longrightarrow> heap_inv interest w' \<and> keeps_events {p} w w')"
    if "free_surroundings os inq outq interest sos user keeper rest" "heap_inv interest w" "evs w p = Some ev" "handle ev = Some cb"
    for p ev cb using free_callback_keeps that by blast
qed

subsection \<open>Ports, connections, the constructor\<close>

lemma createServerPort_heap:
  assumes ok: "free_surroundings os inq outq interest sos user keeper rest" and inv: "heap_inv interest w"
  obtains w' where "createServerPort os sos addr fu w = Inr w'" "heap_inv interest w'"
proof -
  obtain f e where sock: "makeNewSocket sos (env w) = (f, e)" by fastforce
  obtain w' ev where w': "createServerPort os sos addr fu w = Inr w'" "registered interest w'" "conns w' = conns w"
    "next_conn w' = next_conn w" "loop_ep w' = loop_ep w" "evs w' = (evs w)(next_ev w \<mapsto> ev)" "cb_free ev"
    using server_port_listens [OF free_surroundingsD(1,2) [OF ok] heap_registered [OF inv] sock] by metis
  show ?thesis by (rule that [OF w'(1) heap_new_event [OF inv w'(2-)]])
qed

text \<open>\<open>createClientConn\<close> goes on with the connection after the callback for established connections.\<close>

definition esta_keeps :: "(fd \<Rightarrow> 'k \<Rightarrow> (fd \<rightharpoonup> epoll_event)) \<Rightarrow> 'k user \<Rightarrow> funcs \<Rightarrow> bool" where
  "esta_keeps interest user fu \<longleftrightarrow> (\<forall>n. establishedCb fu = Some n \<longrightarrow> heap_keeper_ok interest (user n))"

lemma createClientConn_heap:
  assumes ok: "free_surroundings os inq outq interest sos user keeper rest" and inv: "heap_inv interest w"
    and esta: "esta_keeps interest user fu"
  shows "createClientConn os sos user addr fu w \<noteq> Inl Use_after_free \<and>
    (\<forall>c w'. createClientConn os sos user addr fu w = Inr (c, w') \<longrightarrow> heap_inv interest w')"
proof -
  note os = free_surroundingsD(1) [OF ok] and sos = free_surroundingsD(2) [OF ok]
  let ?c = "next_conn w" and ?p = "next_ev w"
  obtain f e where mk_sock: "makeNewSocket sos (env w) = (f, e)" by fastforce
  define w1 where "w1 = w\<lparr>clientfds := clientfds w @ [f], env := sock_connect sos f addr e\<rparr>"
  define l where "l = single_loop (fpool w)"
  have i1: "interest ep (kern (env w1)) = interest ep (kern (env w))" for ep
    using socket_interest(1) [OF sos, of ep f addr e] socket_interest(2) [OF sos mk_sock] by (simp add: w1_def)
  have w1: "next_ev w1 = ?p" "next_conn w1 = ?c" "loop_ep w1 = loop_ep w" "evs w1 = evs w" "conns w1 = conns w"
    by (simp_all add: w1_def)
  have inv1: "heap_inv interest w1" by (rule heap_same [OF inv]) (simp_all add: i1 w1)
  have fresh: "interest ep (kern (env w1)) f = None" for ep
    using i1 makeNewSocket_fresh [OF sos _ mk_sock] registeredD(5) [OF heap_registered [OF inv]]
      socket_interest(2) [OF sos mk_sock] by simp
  obtain w2 e2 where mk: "make_event os f (loop_ep w1 l) w1 = Inr (?p, w2)"
    "makeHeapObject os ?p l w2 = Inr (?c, with_conn f l e2 w1)" "heap_inv interest (with_conn f l e2 w1)"
    using heap_make_conn [OF os inv1 fresh, of l] w1(1,2) by metis
  let ?w3 = "with_conn f l e2 w1"
  have c3: "conns ?w3 ?c = Some (new_conn ?p f l)" by (simp add: w1)
  have eq: "createClientConn os sos user addr fu w = res_bind (run_if_set (map_option user (establishedCb fu)) ?c ?w3) (\<lambda>w4.
      res_bind (res_bind (setReadCallback ?p (Cb_conn_msg ?c) (w4\<lparr>conn_port := (conn_port w4)(?c \<mapsto> Connected fu)\<rparr>))
        (setReadable os ?p True)) (\<lambda>w5. Inr (?c, w5)))"
    using mk(1,2) mk_sock w1(3) by (simp add: createClientConn_def w1_def [symmetric] l_def [symmetric] Let_def)
  have go_on: "\<exists>w5. res_bind (setReadCallback ?p (Cb_conn_msg ?c) (w4\<lparr>conn_port := (conn_port w4)(?c \<mapsto> Connected fu)\<rparr>))
        (setReadable os ?p True) = Inr w5 \<and> heap_inv interest w5"
    if y: "heap_inv interest w4" "conns w4 ?c = Some y" "conn_event y = ?p" for w4 y
  proof -
    let ?w = "w4\<lparr>conn_port := (conn_port w4)(?c \<mapsto> Connected fu)\<rparr>"
    have "heap_inv interest ?w" by (rule heap_same [OF y(1)]) simp_all
    moreover have "conns ?w ?c = Some y" using y(2) by simp
    ultimately obtain w5 where "res_bind (setReadCallback (conn_event y) (Cb_conn_msg ?c) ?w) (setReadable os (conn_event y) True) = Inr w5"
      "heap_inv interest w5" using heap_ask [OF os] by metis
    then show ?thesis using y(3) by auto
  qed
  show ?thesis
  proof (cases "establishedCb fu")
    case None
    then show ?thesis using eq go_on [OF mk(3) c3] by (auto simp: run_if_set_def)
  next
    case (Some n)
    then have keep: "heap_keeper_ok interest (user n)" using esta unfolding esta_keeps_def by blast
    then have out: "heap_outcome interest ?c ?p ?w3 (user n ?c ?w3)"
      using heap_callback [OF _ mk(3) c3] unfolding heap_keeper_ok_def by simp
    have eq': "createClientConn os sos user addr fu w = res_bind (user n ?c ?w3) (\<lambda>w4.
      res_bind (res_bind (setReadCallback ?p (Cb_conn_msg ?c) (w4\<lparr>conn_port := (conn_port w4)(?c \<mapsto> Connected fu)\<rparr>))
        (setReadable os ?p True)) (\<lambda>w5. Inr (?c, w5)))" using eq Some by (simp add: run_if_set_def)
    show ?thesis
    proof (cases "user n ?c ?w3")
      case (Inl err)
      then show ?thesis using eq' out by (simp add: heap_outcome_def)
    next
      case (Inr w4)
      then obtain y where y: "conns w4 ?c = Some y" using keep unfolding heap_keeper_ok_def by blast
      then have "heap_inv interest w4" "conn_event y = ?p" using out Inr by (simp_all add: heap_outcome_def)
      then show ?thesis using eq' Inr go_on [OF _ y] by auto
    qed
  qed
qed

lemma new_free_server_client_spec:
  assumes os: "os_contract os inq outq interest" and inv: "heap_inv interest w"
    and evfd: "eventfd_contract interest eventfd"
  obtains w' where "new_free_server_client os eventfd already ls l w = Inr w'" "heap_inv interest w'"
proof -
  have inv1: "heap_inv interest (w\<lparr>fpool := new_pool l ls, serverfds := [], clientfds := []\<rparr>)"
    by (rule heap_same [OF inv]) simp_all
  obtain g w' where "init_event_loop os eventfd already l (w\<lparr>fpool := new_pool l ls, serverfds := [], clientfds := []\<rparr>) = Inr (g, w')"
    "heap_inv interest w'" using init_event_loop_heap [OF os inv1 evfd] .
  then show ?thesis using that by (simp add: new_free_server_client_def)
qed

subsection \<open>Its life\<close>

inductive free_life ::
  "'k os \<Rightarrow> 'k sock_os \<Rightarrow> ('k \<Rightarrow> (errno + fd) \<times> 'k) \<Rightarrow> (fd \<Rightarrow> 'k \<Rightarrow> (fd \<rightharpoonup> epoll_event)) \<Rightarrow> 'k user \<Rightarrow> 'k user \<Rightarrow>
     (callback \<Rightarrow> 'k fworld \<Rightarrow> 'k fworld res) \<Rightarrow> 'k fworld \<Rightarrow> 'k fworld \<Rightarrow> bool"
  for os sos eventfd interest user keeper rest w0 where
  construct: "new_free_server_client os eventfd already ls l w0 = Inr w \<Longrightarrow>
    free_life os sos eventfd interest user keeper rest w0 w"
| start: "free_life os sos eventfd interest user keeper rest w0 w \<Longrightarrow> free_start n w = Inr w' \<Longrightarrow>
    free_life os sos eventfd interest user keeper rest w0 w'"
| port: "free_life os sos eventfd interest user keeper rest w0 w \<Longrightarrow>
    createServerPort os sos addr fu w = Inr w' \<Longrightarrow> free_life os sos eventfd interest user keeper rest w0 w'"
| client: "free_life os sos eventfd interest user keeper rest w0 w \<Longrightarrow>
    esta_keeps interest user fu \<Longrightarrow> createClientConn os sos user addr fu w = Inr (c, w') \<Longrightarrow>
    free_life os sos eventfd interest user keeper rest w0 w'"
| pass: "free_life os sos eventfd interest user keeper rest w0 w \<Longrightarrow>
    wait_answer_ok interest (loop_ep w l) (kern (env w)) answer \<Longrightarrow>
    loop_pass_at (free_callback os user keeper rest) answer (w\<lparr>localEventLoop := l\<rparr>) = Inr w' \<Longrightarrow>
    free_life os sos eventfd interest user keeper rest w0 w'"
| task: "free_life os sos eventfd interest user keeper rest w0 w \<Longrightarrow> heap_callback_ok interest f \<Longrightarrow>
    conns w c = Some x \<Longrightarrow> f c (w\<lparr>localEventLoop := conn_loop x\<rparr>) = Inr w' \<Longrightarrow>
    free_life os sos eventfd interest user keeper rest w0 w'"
| kernel: "free_life os sos eventfd interest user keeper rest w0 w \<Longrightarrow>
    (\<And>ep. interest ep k = interest ep (kern (env w))) \<Longrightarrow>
    free_life os sos eventfd interest user keeper rest w0 (w\<lparr>env := (env w)\<lparr>kern := k\<rparr>\<rparr>)"

lemma free_pass_safe:
  assumes "free_surroundings os inq outq interest sos user keeper rest" and "heap_inv interest w"
    and "wait_answer_ok interest (loop_ep w l) (kern (env w)) answer"
  shows "loop_pass_at (free_callback os user keeper rest) answer (w\<lparr>localEventLoop := l\<rparr>) \<noteq> Inl Use_after_free \<and>
    (\<forall>w'. loop_pass_at (free_callback os user keeper rest) answer (w\<lparr>localEventLoop := l\<rparr>) = Inr w' \<longrightarrow> heap_inv interest w')"
  by (rule free_loop.pass_keeps [OF assms(1) heap_inv_loop [OF assms(2)], where ep = "loop_ep w l"])
    (use assms(3) in simp)

lemma free_life_inv:
  assumes ok: "free_surroundings os inq outq interest sos user keeper rest" and inv: "heap_inv interest w0"
    and evfd: "eventfd_contract interest eventfd"
    and life: "free_life os sos eventfd interest user keeper rest w0 w"
  shows "heap_inv interest w"
  using life
proof induction
  case (construct already ls l w)
  then show ?case using new_free_server_client_spec [OF free_surroundingsD(1) [OF ok] inv evfd] by (metis sum.inject(2))
next
  case (start w n w')
  obtain p where "w' = w\<lparr>env := add_log (Info (''FreeServerClient starting...'' @ [CHR 0x0A])) (env w), fpool := p\<rparr>"
    using start.hyps(2) by (auto simp: free_start_def Let_def)
  then show ?case using heap_same [OF start.IH, of w'] by simp
next
  case (port w addr fu w')
  from createServerPort_heap [OF ok port.IH] port.hyps(2) show ?case by (metis sum.inject(2))
next
  case (client w fu addr c w')
  then show ?case using createClientConn_heap [OF ok client.IH client.hyps(2)] by blast
next
  case (pass w l answer w')
  then show ?case using free_pass_safe [OF ok] by blast
next
  case (task w f c x w')
  have "heap_outcome interest c (conn_event x) (w\<lparr>localEventLoop := conn_loop x\<rparr>) (f c (w\<lparr>localEventLoop := conn_loop x\<rparr>))"
    by (rule heap_callback [OF task.hyps(2) heap_inv_loop [OF task.IH], where x = x]) (simp_all add: task.hyps(3))
  then show ?case using task.hyps(4) by (simp add: heap_outcome_def)
next
  case (kernel w k)
  show ?case by (rule heap_same [OF kernel.IH]) (simp_all add: kernel.hyps(2))
qed

subsection \<open>What users may not do\<close>

text \<open>A callback for established connections that closes: \<open>createClientConn\<close> goes on with the deleted event.\<close>

lemma closing_while_connecting_faults:
  assumes sock: "sys_socket sos (kern (env w)) = (Inr f, k)"
    and esta: "establishedCb fu = Some n" "closer n = free_activeClose os keeper"
  shows "createClientConn os sos closer addr fu w = Inl Use_after_free"
proof -
  let ?c = "next_conn w" and ?p = "next_ev w" and ?l = "single_loop (fpool w)"
  define e where "e = (env w)\<lparr>kern := k\<rparr>"
  define w1 where "w1 = w\<lparr>clientfds := clientfds w @ [f], env := sock_connect sos f addr e\<rparr>"
  have mk_sock: "makeNewSocket sos (env w) = (f, e)" using sock by (simp add: makeNewSocket_def e_def)
  have w1: "next_ev w1 = ?p" "next_conn w1 = ?c" "loop_ep w1 = loop_ep w" "evs w1 = evs w" "conns w1 = conns w"
    by (simp_all add: w1_def)
  obtain e2 where e2: "make_event os f (loop_ep w ?l) w1 = Inr (?p,
      w1\<lparr>evs := (evs w)(?p \<mapsto> new_event f (loop_ep w ?l)), next_ev := Suc ?p, env := e2\<rparr>)"
    by (simp add: make_event_def get_new_object_def add_event_def w1)
  let ?w3 = "with_conn f ?l (setNonblock os f e2) w1"
  have mk: "makeHeapObject os ?p ?l (w1\<lparr>evs := (evs w)(?p \<mapsto> new_event f (loop_ep w ?l)), next_ev := Suc ?p, env := e2\<rparr>) = Inr (?c, ?w3)"
    by (simp add: makeHeapObject_def get_new_object_def with_conn_def w1)
  have c3: "conns ?w3 ?c = Some (new_conn ?p f ?l)" "evs ?w3 (conn_event (new_conn ?p f ?l)) = Some (new_event f (loop_ep w ?l))"
    by (simp_all add: w1)
  have rb: "readableBytes (writeBuffer (new_conn ?p f ?l)) = 0" by (simp add: new_conn_def new_buffer_def readableBytes_def sz_sub_def)
  obtain w4 where w4: "free_activeClose os keeper ?c ?w3 = Inr w4" "evs w4 ?p = None"
    using dispose_eq [OF c3, of os] rb c3(1)
    by (simp add: free_activeClose_def free_closeConnection_def close_common_def)
  show ?thesis
    using mk_sock e2 mk esta w4
    by (simp add: createClientConn_def w1_def [symmetric] Let_def run_if_set_def setReadCallback_def)
qed

text \<open>
  A connection made by \<open>createClientConn\<close> is given no destroy callback: when the user closes it, the function for
  destruction the user has passed is not run; it is run when the peer closes.
\<close>

lemma connected_destroy_callback:
  assumes c: "conns w c = Some x" "destoryCallback x = None" "readableBytes (writeBuffer x) = 0"
    and pt: "destoryCb fu = Some i"
  shows "free_activeClose os keeper c w = res_bind (destroy os c w) (delete_conn os c)"
    and "free_closeConnection os keeper c (destoryCb fu) w = res_bind (keeper i c w) (\<lambda>w1. res_bind (destroy os c w1) (delete_conn os c))"
  using c pt by (simp_all add: free_activeClose_def free_closeConnection_def close_common_def)

subsection \<open>Properties\<close>

text \<open>
  C16: safety of the whole \<open>FreeServerClient\<close>.  From the constructor on, after any sequence of opened ports, connections
  made, passes of any loops, tasks on connections and changes of the kernel, the invariant of the heaps holds, and
  neither another port or connection nor a pass that handles whatever is reported next follows a dangling pointer;
  also when \<open>socket\<close> or \<open>accept\<close> fails with any error and the code goes on with the descriptor \<open>-1\<close>.
\<close>

theorem free_life_safe:
  assumes "free_surroundings os inq outq interest sos user keeper rest" and "heap_inv interest w0"
    and "eventfd_contract interest eventfd"
    and "free_life os sos eventfd interest user keeper rest w0 w"
  shows "heap_inv interest w \<and>
    (\<forall>addr fu. \<exists>w'. createServerPort os sos addr fu w = Inr w') \<and>
    (\<forall>addr fu. esta_keeps interest user fu \<longrightarrow>
      createClientConn os sos user addr fu w \<noteq> Inl Use_after_free) \<and>
    (\<forall>l answer. wait_answer_ok interest (loop_ep w l) (kern (env w)) answer \<longrightarrow>
      loop_pass_at (free_callback os user keeper rest) answer (w\<lparr>localEventLoop := l\<rparr>) \<noteq> Inl Use_after_free)"
proof (intro conjI allI impI)
  show inv: "heap_inv interest w" using assms by (rule free_life_inv)
  show "loop_pass_at (free_callback os user keeper rest) answer (w\<lparr>localEventLoop := l\<rparr>) \<noteq> Inl Use_after_free"
    if "wait_answer_ok interest (loop_ep w l) (kern (env w)) answer" for l answer
    using free_pass_safe [OF assms(1) inv that] by blast
  show "\<exists>w'. createServerPort os sos addr fu w = Inr w'" for addr fu
    using createServerPort_heap [OF assms(1) inv] by metis
  show "createClientConn os sos user addr fu w \<noteq> Inl Use_after_free"
    if "esta_keeps interest user fu" for addr fu
    using createClientConn_heap [OF assms(1) inv that] by blast
qed

text \<open>A port is opened and its event reported.\<close>

theorem free_life_safe_witness:
  "\<exists>w q. free_life sim_os (sim_sock_os 0) sim_socket sim_interest idle_user idle_user (\<lambda>cb. Inr) (demo_free sim_init []) w \<and>
    listen_port w q \<noteq> None \<and> heap_inv sim_interest w \<and>
    (\<exists>m. wait_answer_ok sim_interest (loop_ep w 1) (kern (env w)) (Inr [(m, q)]) \<and>
      loop_pass_at (free_callback sim_os idle_user idle_user (\<lambda>cb. Inr)) (Inr [(m, q)]) (w\<lparr>localEventLoop := 1\<rparr>)
        \<noteq> Inl Use_after_free)"
proof -
  let ?w = "demo_free sim_init []"
  have keep: "heap_keeper_ok sim_interest (idle_user n)" for n
    by (auto simp: heap_keeper_ok_def heap_callback_ok_def heap_outcome_def idle_user_def)
  then have ok: "free_surroundings sim_os sim_inq sim_outq sim_interest (sim_sock_os 0) idle_user idle_user (\<lambda>cb. Inr)"
    using sim_os_contract sim_sock_contract
    by (simp add: free_surroundings_def heap_others_ok_def keeps_events_def heap_keeper_ok_def)
  have inv: "heap_inv sim_interest ?w" by (rule conn_inv_heap [OF demo_free_inv]) simp
  obtain w1 where w1: "new_free_server_client sim_os sim_socket False [] 1 ?w = Inr w1" "heap_inv sim_interest w1"
    using new_free_server_client_spec [OF sim_os_contract inv sim_eventfd_contract] .
  obtain f where sock: "makeNewSocket (sim_sock_os 0) (env w1) = (f, env w1)" "0 \<le> f" by (rule sim_new_socket)
  obtain w ev where w: "createServerPort sim_os (sim_sock_os 0) demo_addr demo_funcs w1 = Inr w"
    "evs w = (evs w1)(next_ev w1 \<mapsto> ev)" "listen_port w (next_ev w1) = Some (f, demo_funcs)"
    "epoller ev = loop_ep w1 (single_loop (fpool w1))" "loop_ep w = loop_ep w1" "ev_fd ev = f"
    using server_port_listens [OF sim_os_contract sim_sock_contract heap_registered [OF w1(2)] sock(1)] by metis
  have "free_life sim_os (sim_sock_os 0) sim_socket sim_interest idle_user idle_user (\<lambda>cb. Inr) ?w w1"
    by (rule free_life.construct [OF w1(1)])
  then have life: "free_life sim_os (sim_sock_os 0) sim_socket sim_interest idle_user idle_user (\<lambda>cb. Inr) ?w w"
    by (rule free_life.port [OF _ w(1)])
  note safe = free_life_safe [OF ok inv sim_eventfd_contract life]
  have "fpool w1 = new_pool 1 []"
    using w1(1) by (auto simp: new_free_server_client_def init_event_loop_def make_event_def get_new_object_def add_event_def
        setReadCallback_def setReadable_def set_mask_def update_event_def Let_def split: prod.splits)
  then have "epoller ev = loop_ep w 1" using w(4,5) by (simp add: new_pool_def)
  then have "wait_answer_ok sim_interest (loop_ep w 1) (kern (env w)) (Inr [(events ev, next_ev w1)])"
    using registeredD(2) [OF heap_registered [OF conjunct1 [OF safe]], of "next_ev w1" ev] w(2,6) sock(2) by (auto simp: wait_answer_ok_def)
  then show ?thesis using life w(3) safe by blast
qed

end
