(* ===== verification/Echo.thy ===== *)
theory Echo imports ServerCorrect begin

section \<open>The echo server of examples/ping-pong\<close>

text \<open>
  \<open>whenMsgArrived\<close> of \<open>server.cpp\<close> sends back what is readable and drops it from the read buffer.
  It is a callback as the server's theorems ask for, so they apply to this program; the properties
  follow the bytes from the socket through both buffers back to the socket.
\<close>

definition whenMsgArrived ::
  "'k os \<Rightarrow> conn_id \<Rightarrow> ('k, 'z) conn_world_scheme \<Rightarrow> ('k, 'z) conn_world_scheme res" where
  "whenMsgArrived os conn w =
     res_bind (deref (conns w) conn) (\<lambda>x.
       res_bind (send_data os conn (peek_bytes (readBuffer x) (readableBytes (readBuffer x))) w) (\<lambda>w1.
         res_bind (deref (conns w1) conn) (\<lambda>x1.
           res_bind (retrieveAll (readBuffer x1)) (\<lambda>(_, b).
             Inr (upd_conn conn (x1\<lparr>readBuffer := b\<rparr>) w1)))))"

lemma send_data_nothing:
  assumes "conns w c = Some x" and "buf_inv (writeBuffer x)" and "contents (writeBuffer x) = []"
  shows "send_data os c [] w = Inl Assert_failed"
proof -
  have "make_room (writeBuffer x) 0 = Inr (writeBuffer x)" by (simp add: make_room_def)
  note w = written_spec [OF assms(2), of "[]", OF _ refl]
  define b where "b = (writeBuffer x)\<lparr>vec := blit (vec (writeBuffer x)) (writeIndex (writeBuffer x)) [],
    writeIndex := sz_add (writeIndex (writeBuffer x)) (length ([] :: bytes))\<rparr>"
  have "buf_append (writeBuffer x) [] = Inr b"
    using w(3) by (simp add: buf_append_def make_room_def b_def Let_def)
  moreover have "readableBytes b = 0"
    using length_contents [OF w(1)] w(2) assms(3) by (simp add: b_def)
  ultimately show ?thesis
    using assms(1) by (simp add: send_data_def send_flag_def upd_conn_def Let_def)
qed

text \<open>With data in the read buffer, or some waiting to be sent, it all moves to the write buffer.\<close>

lemma whenMsgArrived_cases:
  assumes os: "os_contract os inq outq interest" and inv: "conn_inv interest w"
    and c: "conns w c = Some x" and st: "conn_state x \<noteq> BLANK"
  obtains (nothing) "contents (readBuffer x) = []" "contents (writeBuffer x) = []"
      "whenMsgArrived os c w = Inl Assert_failed"
    | (too_long) "whenMsgArrived os c w = Inl Length_error"
      "contents (readBuffer x) \<noteq> [] \<or> contents (writeBuffer x) \<noteq> []"
    | (echoed) w' x' where "whenMsgArrived os c w = Inr w'" "conn_inv interest w'"
      "frame c (conn_event x) w w'" "conns w' c = Some x'" "contents (readBuffer x') = []"
      "contents (writeBuffer x') = contents (writeBuffer x) @ contents (readBuffer x)"
      "contents (writeBuffer x') \<noteq> []"
      "x' = x\<lparr>readBuffer := readBuffer x', writeBuffer := writeBuffer x', isWillClose := False\<rparr>"
      "\<And>g. outq g (kern (env w')) = outq g (kern (env w))"
proof -
  obtain ev where bi: "buf_inv (readBuffer x)" "buf_inv (writeBuffer x)"
    using event_of [OF inv c] by metis
  let ?s = "contents (readBuffer x)"
  have run: "whenMsgArrived os c w = res_bind (send_data os c ?s w) (\<lambda>w1.
      res_bind (deref (conns w1) c) (\<lambda>x1. res_bind (retrieveAll (readBuffer x1)) (\<lambda>(_, b).
        Inr (upd_conn c (x1\<lparr>readBuffer := b\<rparr>) w1))))"
    using c by (simp add: whenMsgArrived_def peek_all [OF bi(1)])
  have s: "length ?s \<le> vec_max"
    using length_contents [OF bi(1)] bi(1) readable_eq [OF bi(1)] unfolding buf_inv_def by linarith
  show ?thesis
  proof (cases "?s = [] \<and> contents (writeBuffer x) = []")
    case True
    then show ?thesis
      using run send_data_nothing [OF c bi(2), of os] by - (rule nothing, simp_all)
  next
    case False
    then have ne: "?s \<noteq> [] \<or> contents (writeBuffer x) \<noteq> []" by simp
    from os inv c st s ne show ?thesis
    proof (cases rule: send_data_spec)
      case too_long
      then show ?thesis using that(2) run ne by simp
    next
      case (sent w1 x1)
      have x1: "readBuffer x1 = readBuffer x" "conn_event x1 = conn_event x" "conn_state x1 = conn_state x"
        by (subst sent(7), simp)+
      obtain b where b: "retrieveAll (readBuffer x1) = Inr (Some (readIndex (readBuffer x)), b)"
        "buf_inv b" "contents b = []"
        using retrieve_ok [OF bi(1) order_refl] x1(1) length_contents [OF bi(1)]
        by (auto simp: retrieveAll_def)
      define w' where "w' = (upd_conn c (x1\<lparr>conn_data := conn_data x1, readBuffer := b\<rparr>) w1)\<lparr>env := env w1\<rparr>"
      have st1: "conn_state x1 \<noteq> BLANK" using st x1(3) by simp
      note k = conn_inv_received [OF sent(2,4) st1 b(2) refl w'_def]
      have w': "w' = upd_conn c (x1\<lparr>readBuffer := b\<rparr>) w1" by (simp add: w'_def upd_conn_def)
      have "whenMsgArrived os c w = Inr w'"
        using run sent(1,4) b(1) by (simp add: w')
      moreover have "conns w' c = Some (x1\<lparr>readBuffer := b\<rparr>)" by (simp add: w' upd_conn_def)
      moreover have "frame c (conn_event x) w w'"
        using frame_trans [OF sent(3)] k(2) x1(2) by simp
      moreover have "x1\<lparr>readBuffer := b\<rparr> = x\<lparr>readBuffer := b, writeBuffer := writeBuffer x1, isWillClose := False\<rparr>"
        by (subst sent(7)) simp
      moreover have "env w' = env w1" by (simp add: w'_def)
      ultimately show ?thesis
        using k(1) b(3) sent(5,8) ne by (intro echoed [of w' "x1\<lparr>readBuffer := b\<rparr>"]) auto
    qed
  qed
qed

lemma echo_callback_ok:
  assumes os: "os_contract os inq outq interest"
  shows "callback_ok interest (whenMsgArrived os)"
  unfolding callback_ok_def
proof (intro conjI allI impI)
  fix w :: "('a, 'b) conn_world_scheme" and c x
  assume "conn_inv interest w" "conns w c = Some x" "conn_state x \<noteq> BLANK"
  with os show "whenMsgArrived os c w \<noteq> Inl Use_after_free"
    by (cases rule: whenMsgArrived_cases) simp_all
next
  fix w w' :: "('a, 'b) conn_world_scheme" and c x
  assume *: "conn_inv interest w" "conns w c = Some x" "conn_state x \<noteq> BLANK" "whenMsgArrived os c w = Inr w'"
  have "conn_inv interest w' \<and> frame c (conn_event x) w w' \<and> (\<exists>x'. conns w' c = Some x' \<and>
      x' = x\<lparr>readBuffer := readBuffer x', writeBuffer := writeBuffer x', isWillClose := False\<rparr>)"
    using os *(1-3)
    by (cases rule: whenMsgArrived_cases) (use *(4) in auto)
  then obtain x' where k: "conn_inv interest w'" "frame c (conn_event x) w w'" "conns w' c = Some x'"
    "x' = x\<lparr>readBuffer := readBuffer x', writeBuffer := writeBuffer x', isWillClose := False\<rparr>" by blast
  have "conn_event x' = conn_event x" "sockfd x' = sockfd x" "conn_loop x' = conn_loop x"
    "conn_state x' \<noteq> BLANK"
    by (subst k(4), use *(3) in simp)+
  then show "conn_inv interest w'" "frame c (conn_event x) w w'"
    "case conns w' c of None \<Rightarrow> evs w' (conn_event x) = None
         | Some x' \<Rightarrow> conn_event x' = conn_event x \<and> sockfd x' = sockfd x \<and> conn_loop x' = conn_loop x \<and>
             conn_state x' \<noteq> BLANK"
    using k by simp_all
qed

text \<open>Handing data to the write buffer moves no byte of any stream.\<close>

lemma set_mask_inq:
  assumes "frame_contract os inq outq interest" and "set_mask os fl p on w = Inr w'"
  shows "inq g (kern (env w')) = inq g (kern (env w))"
  using assms(2) logged_streams(2) [OF assms(1)] by (auto simp: set_mask_def update_event_def Let_def)

lemma send_data_inq:
  assumes "frame_contract os inq outq interest" and "send_data os c s w = Inr w'"
  shows "inq g (kern (env w')) = inq g (kern (env w))"
  using assms(2)
  by (auto simp: send_data_def send_flag_def setWritable_def setWriteCallback_def upd_conn_def Let_def
      split: if_splits dest!: set_mask_inq [OF assms(1)])

lemma whenMsgArrived_inq:
  assumes "frame_contract os inq outq interest" and "whenMsgArrived os c w = Inr w'"
  shows "inq g (kern (env w')) = inq g (kern (env w))"
  using assms(2) by (auto simp: whenMsgArrived_def upd_conn_def dest!: send_data_inq [OF assms(1)])

text \<open>
  C8: what the echo server reads it sends back: after a message event that read something, the bytes taken from the
  socket wait behind those that waited already, the read buffer is empty, and after any number of runs of
  \<open>sendNonblock\<close> the kernel has been given exactly the bytes its writes have taken of both, in order; the rest still
  waits, and writability is asked for as long as there is a rest.  The message event itself either does this or ends in
  \<open>length_error\<close>.  A write that fails, with \<open>EAGAIN\<close> or any other error, ends the program; unless a write takes
  nothing, as many runs as bytes are enough.
\<close>

theorem echo_round_trip:
  assumes "server_env_ok os inq outq interest srv" and "codec srv = UNLIMITED_MODEL"
    and "connMsgCallback srv = Some (whenMsgArrived os)"
    and "conn_inv interest w" and "conns w c = Some x" and "conn_state x \<noteq> BLANK"
    and "contents (readBuffer x) = []"
    and "read_from_socket os (sockfd x) (env w) (readBuffer x) default_maxBytes = Some (Inr (n, b, e))"
    and "0 < n" and "contents b \<noteq> []"
  shows "case preConnMsgCallback os srv c w of
      Inl err \<Rightarrow> err = Length_error
    | Inr w1 \<Rightarrow> inq (sockfd x) (kern (env w)) = contents b @ inq (sockfd x) (kern (env w1)) \<and>
        (\<exists>x1. conns w1 c = Some x1 \<and> sockfd x1 = sockfd x \<and> contents (readBuffer x1) = [] \<and>
          contents (writeBuffer x1) = contents (writeBuffer x) @ contents b \<and>
          outq (sockfd x) (kern (env w1)) = outq (sockfd x) (kern (env w)) \<and>
          (\<forall>m. delivery os outq interest (activeClose os srv) c x1 w1 m))"
proof -
  note os' = server_env_okD(1) [OF assms(1)]
  note os = os_contractD [OF os']
  have bi: "buf_inv (readBuffer x)" using event_of [OF assms(4,5)] by metis
  have rd: "read_result_ok inq outq (sockfd x) (readBuffer x) (env w) (Inr (n, b, e))"
    using read_from_socket_total [OF os(1) bi, of default_maxBytes "sockfd x" "env w"] assms(8)
    by (auto simp: request_ok_def default_maxBytes_def)
  then have b: "buf_inv b" "inq (sockfd x) (kern (env w)) = contents b @ inq (sockfd x) (kern e)"
    "outq (sockfd x) (kern e) = outq (sockfd x) (kern (env w))"
    using assms(7) by (simp_all add: read_result_ok_def)
  have i: "interest ep (kern e) = interest ep (kern (env w))" for ep
    using read_from_socket_interest [OF os(3) assms(8)] .
  define y where "y = x\<lparr>conn_data := Some (localEventLoop w), readBuffer := b\<rparr>"
  define w0 where "w0 = (upd_conn c y w)\<lparr>env := e\<rparr>"
  note k = conn_inv_received [OF assms(4-6) b(1) i w0_def [unfolded y_def], folded y_def]
  have pre: "preConnMsgCallback os srv c w = whenMsgArrived os c w0"
    using assms(2,3,5,8,9) by (simp add: preConnMsgCallback_def w0_def y_def upd_conn_def Let_def)
  have y: "conn_state y \<noteq> BLANK" "sockfd y = sockfd x" "contents (readBuffer y) = contents b"
    "contents (writeBuffer y) = contents (writeBuffer x)" "conn_event y = conn_event x"
    using assms(6) by (simp_all add: y_def)
  from os' k(1,3) y(1) show ?thesis
  proof (cases rule: whenMsgArrived_cases)
    case nothing
    then show ?thesis using y(3) assms(10) by simp
  next
    case too_long
    then show ?thesis using pre by simp
  next
    case (echoed w1 x1)
    have x1: "conn_state x1 \<noteq> BLANK" "sockfd x1 = sockfd x" "\<not> isWillClose x1"
      by (subst echoed(8), use y in simp)+
    have d: "delivery os outq interest (activeClose os srv) c x1 w1 m" for m
      by (rule server_source.drain [OF assms(1) echoed(2,4) x1(1)]) (use echoed(7) in simp)
    have k0: "kern (env w0) = kern e" by (simp add: w0_def)
    have q: "inq (sockfd x) (kern (env w1)) = inq (sockfd x) (kern e)" "outq (sockfd x) (kern (env w1)) = outq (sockfd x) (kern e)"
      using whenMsgArrived_inq [OF os(3) echoed(1)] echoed(9) k0 by simp_all
    show ?thesis using pre echoed(1,4,5,6) d x1(2) y(3,4) b(2,3) q by auto
  qed
qed

theorem echo_round_trip_witness:
  "case preConnMsgCallback drip_os (demo_server UNLIMITED_MODEL (Some (whenMsgArrived drip_os))) 0
      (demo_world (sim_init\<lparr>sim_rd := \<lambda>_. [RdBytes ''ping'']\<rparr>) []) of
     Inl err \<Rightarrow> err = Length_error
   | Inr w1 \<Rightarrow> \<exists>x1. conns w1 0 = Some x1 \<and> contents (writeBuffer x1) = ''ping'' \<and>
       (\<forall>m. delivery drip_os sim_outq sim_interest
          (activeClose drip_os (demo_server UNLIMITED_MODEL (Some (whenMsgArrived drip_os)))) 0 x1 w1 m)"
proof -
  let ?w = "demo_world (sim_init\<lparr>sim_rd := \<lambda>_. [RdBytes ''ping'']\<rparr>) []"
    and ?srv = "demo_server UNLIMITED_MODEL (Some (whenMsgArrived drip_os))"
  have inv: "conn_inv sim_interest ?w" by (rule server_invD(1) [OF demo_server_inv]) simp
  have c: "conns ?w 0 = Some (demo_conn [])" by simp
  define b where "b = \<lparr>vec = ''ping'' @ replicate 8188 (CHR 0x00), readIndex = 0, writeIndex = 4\<rparr>"
  have ok: "server_env_ok drip_os sim_inq sim_outq sim_interest ?srv"
    by (rule demo_env_ok) (use echo_callback_ok [OF drip_os_contract] in simp)
  have room: "make_room (readBuffer (demo_conn [])) default_maxBytes = Inr (new_buffer 8192)"
    by (simp add: demo_conn_def new_conn_def IO_BUFFER_SIZE_def default_maxBytes_def make_room_def
        writableBytes_def new_buffer_def sz_sub_def)
  have w: "writableBytes (new_buffer 8192) = 8192" by (simp add: writableBytes_def new_buffer_def sz_sub_def)
  have "\<exists>e. read_from_socket drip_os (sockfd (demo_conn [])) (env ?w) (readBuffer (demo_conn []))
      default_maxBytes = Some (Inr (4, b, e))"
    by (subst read_from_socket.simps, subst room)
      (simp add: w sim_read_def default_maxBytes_def b_def blit_def sz_add_def Let_def, simp add: new_buffer_def)
  then obtain e where rd: "read_from_socket drip_os (sockfd (demo_conn [])) (env ?w) (readBuffer (demo_conn []))
      default_maxBytes = Some (Inr (4, b, e))" by blast
  have con: "contents b = ''ping''" by (simp add: b_def contents_def)
  show ?thesis
    using echo_round_trip [OF ok _ _ inv c _ _ rd]
    by (cases "preConnMsgCallback drip_os ?srv 0 ?w") (auto simp: con)
qed

text \<open>
  A message event without data (the \<open>read\<close> is interrupted or finds nothing, which
  \<open>readFromSocket\<close> reports as one byte) makes the echo server send nothing, and the assertion in
  \<open>send\<close> ends the program.
\<close>

theorem echo_of_nothing_aborts:
  assumes "os_contract os inq outq interest" and "codec srv = UNLIMITED_MODEL"
    and "connMsgCallback srv = Some (whenMsgArrived os)"
    and "conn_inv interest w" and "conns w c = Some x" and "conn_state x \<noteq> BLANK"
    and "contents (readBuffer x) = []" and "contents (writeBuffer x) = []"
    and "sys_read os (sockfd x) 4096 (kern (env w)) = (RdErr err, k)" and "err = EINTR \<or> err = EAGAIN"
    and "make_room (readBuffer x) default_maxBytes = Inr b"
  shows "preConnMsgCallback os srv c w = Inl Assert_failed"
proof -
  note os = os_contractD [OF assms(1)]
  have bi: "buf_inv (readBuffer x)" using event_of [OF assms(4,5)] by metis
  have b: "buf_inv b" "contents b = []" "default_maxBytes \<le> writableBytes b"
    using make_room_spec [OF bi _ assms(11)] assms(7) by (simp_all add: default_maxBytes_def)
  have rd: "read_from_socket os (sockfd x) (env w) (readBuffer x) default_maxBytes =
      Some (Inr (1, b, (env w)\<lparr>kern := k\<rparr>))"
    using assms(9-11) b(3) by (subst read_from_socket.simps) (auto simp: default_maxBytes_def)
  have i: "interest ep (kern ((env w)\<lparr>kern := k\<rparr>)) = interest ep (kern (env w))" for ep
    using read_from_socket_interest [OF os(3) rd] .
  define y where "y = x\<lparr>conn_data := Some (localEventLoop w), readBuffer := b\<rparr>"
  define w0 where "w0 = (upd_conn c y w)\<lparr>env := (env w)\<lparr>kern := k\<rparr>\<rparr>"
  note k0 = conn_inv_received [OF assms(4-6) b(1) i w0_def [unfolded y_def], folded y_def]
  have pre: "preConnMsgCallback os srv c w = whenMsgArrived os c w0"
    using assms(2,3,5) rd by (simp add: preConnMsgCallback_def w0_def y_def upd_conn_def Let_def)
  have y: "conn_state y \<noteq> BLANK" "contents (readBuffer y) = []" "contents (writeBuffer y) = []"
    using assms(6,8) b(2) by (simp_all add: y_def)
  from assms(1) k0(1,3) y(1) show ?thesis
  proof (cases rule: whenMsgArrived_cases)
    case nothing
    then show ?thesis using pre by simp
  next
    case too_long
    then show ?thesis using y(2,3) by simp
  next
    case (echoed w1 x1)
    then show ?thesis using y(2,3) by simp
  qed
qed

theorem echo_of_nothing_aborts_witness:
  "preConnMsgCallback drip_os (demo_server UNLIMITED_MODEL (Some (whenMsgArrived drip_os))) 0
      (demo_world (sim_init\<lparr>sim_rd := \<lambda>_. [RdErr EINTR]\<rparr>) []) = Inl Assert_failed"
proof -
  let ?w = "demo_world (sim_init\<lparr>sim_rd := \<lambda>_. [RdErr EINTR]\<rparr>) []"
    and ?srv = "demo_server UNLIMITED_MODEL (Some (whenMsgArrived drip_os))"
  have inv: "conn_inv sim_interest ?w" by (rule server_invD(1) [OF demo_server_inv]) simp
  have c: "conns ?w 0 = Some (demo_conn [])" by simp
  have room: "make_room (readBuffer (demo_conn [])) default_maxBytes = Inr (new_buffer 8192)"
    by (simp add: demo_conn_def new_conn_def IO_BUFFER_SIZE_def default_maxBytes_def make_room_def
        writableBytes_def new_buffer_def sz_sub_def)
  have rd: "sys_read drip_os (sockfd (demo_conn [])) 4096 (kern (env ?w)) =
      (RdErr EINTR, (kern (env ?w))\<lparr>sim_rd := (\<lambda>_. [RdErr EINTR])(7 := [])\<rparr>)"
    by (simp add: sim_read_def)
  show ?thesis
    by (rule echo_of_nothing_aborts [OF drip_os_contract _ _ inv c _ _ _ rd _ room]) simp_all
qed

end
