(* ===== verification/ServerRuns.thy ===== *)
theory ServerRuns imports ServerLife begin

section \<open>The whole life of a server\<close>

text \<open>
  The handlers, the constructor and \<open>start\<close> composed: a server is constructed and started, its loops make
  passes in any order, the kernel moves on by itself, and users run callbacks on live connections in between
  (a \<open>send\<close> or an \<open>activeClose\<close> from a task).  Every state of such a life satisfies the invariant, and no
  loop can ever follow a dangling pointer, up to the call of \<open>stop\<close>.
\<close>

inductive server_life ::
  "'k os \<Rightarrow> 'k sock_os \<Rightarrow> ('k \<Rightarrow> (errno + fd) \<times> 'k) \<Rightarrow> ('k \<Rightarrow> errno option \<times> 'k) \<Rightarrow>
     (fd \<Rightarrow> 'k \<Rightarrow> (fd \<rightharpoonup> epoll_event)) \<Rightarrow> 'k server \<Rightarrow> (callback \<Rightarrow> 'k sworld \<Rightarrow> 'k sworld res) \<Rightarrow> 'k sworld \<Rightarrow>
     'k sworld \<Rightarrow> bool"
  for os sos eventfd raise_limit interest srv rest w0 where
  construct: "new_tcp_server os sos eventfd raise_limit already srv addr l w0 = Inr (p, w) \<Longrightarrow>
    server_life os sos eventfd raise_limit interest srv rest w0 w"
| start: "server_life os sos eventfd raise_limit interest srv rest w0 w \<Longrightarrow> server_start sos srv n w = Inr w' \<Longrightarrow>
    server_life os sos eventfd raise_limit interest srv rest w0 w'"
| pass: "server_life os sos eventfd raise_limit interest srv rest w0 w \<Longrightarrow>
    wait_answer_ok interest (loop_ep w l) (kern (env w)) answer \<Longrightarrow>
    loop_pass (server_callback os srv rest) answer (w\<lparr>localEventLoop := l\<rparr>) = Inr w' \<Longrightarrow>
    server_life os sos eventfd raise_limit interest srv rest w0 w'"
| task: "server_life os sos eventfd raise_limit interest srv rest w0 w \<Longrightarrow> callback_ok interest f \<Longrightarrow>
    conns w c = Some x \<Longrightarrow> f c (w\<lparr>localEventLoop := conn_loop x\<rparr>) = Inr w' \<Longrightarrow>
    server_life os sos eventfd raise_limit interest srv rest w0 w'"
| kernel: "server_life os sos eventfd raise_limit interest srv rest w0 w \<Longrightarrow>
    (\<And>ep. interest ep k = interest ep (kern (env w))) \<Longrightarrow>
    server_life os sos eventfd raise_limit interest srv rest w0 (w\<lparr>env := (env w)\<lparr>kern := k\<rparr>\<rparr>)"

lemma server_inv_loop: "server_inv interest (w\<lparr>localEventLoop := l\<rparr>) = server_inv interest w"
proof -
  have "registered interest (w\<lparr>localEventLoop := l\<rparr>) = registered interest w" by (simp add: registered_def)
  then show ?thesis by (simp add: server_inv_def conn_inv_def conn_ok_def)
qed

lemma server_inv_pool: "server_inv interest (w\<lparr>pool := p\<rparr>) = server_inv interest w"
  by (simp add: server_inv_def conn_inv_pool)

lemma server_start_inv:
  assumes "sock_contract sos outq interest" and "server_inv interest w" and "server_start sos srv n w = Inr w'"
  shows "server_inv interest w'"
proof -
  have "server_inv interest (w\<lparr>env := sock_listen sos (listenfd srv) 4096 (env w)\<rparr>)"
    by (rule server_inv_env [OF assms(2)]) (rule socket_interest(4) [OF assms(1)])
  then show ?thesis using assms(3) by (auto simp: server_start_def Let_def server_inv_pool)
qed

lemma server_life_inv:
  assumes ok: "server_env_ok os inq outq interest srv" "others_ok interest rest" "sock_contract sos outq interest"
    and inv: "server_inv interest w0"
    and evfd: "\<And>k. \<exists>f k'. eventfd k = (Inr f, k') \<and> f \<noteq> listenfd srv \<and>
      (\<forall>ep. interest ep k' = interest ep k \<and> interest ep k f = None)"
    and limit: "\<And>k ep. interest ep (snd (raise_limit k)) = interest ep k"
    and fresh: "\<And>ep. interest ep (kern (env w0)) (listenfd srv) = None"
    and life: "server_life os sos eventfd raise_limit interest srv rest w0 w"
  shows "server_inv interest w"
  using life
proof induction
  case (construct already addr l p w)
  obtain w' where "new_tcp_server os sos eventfd raise_limit already srv addr l w0 = Inr (Suc (next_ev w0), w')"
    "server_inv interest w'"
    using new_tcp_server_spec [OF server_env_okD(1) [OF ok(1)] ok(3) inv evfd limit fresh] by blast
  then show ?case using construct by simp
next
  case (start w n w')
  then show ?case using server_start_inv [OF ok(3)] by blast
next
  case (pass w l answer w')
  then show ?case
    using server_loop.pass_keeps [OF conjI [OF ok(1,2)], of "w\<lparr>localEventLoop := l\<rparr>" "loop_ep w l" answer]
    by (simp add: server_inv_loop)
next
  case (task w f c x w')
  let ?w = "w\<lparr>localEventLoop := conn_loop x\<rparr>"
  have i: "server_inv interest ?w" using task.IH by (simp add: server_inv_loop)
  have c: "conns ?w c = Some x" using task.hyps(3) by simp
  note s = callback_safe [OF task.hyps(2) server_invD(1) [OF i] c server_invD(2) [OF i c]]
  then show ?case using task.hyps(4) server_inv_frame [OF i, of w' c "conn_event x"] unfolding safe_outcome_def by blast
next
  case (kernel w k)
  then show ?case using server_inv_env [of interest w "(env w)\<lparr>kern := k\<rparr>"] by simp
qed

text \<open>
  C2: safety of the whole server.  From the constructor on, after any sequence of passes of any loops, starts,
  tasks on connections and changes of the kernel, the invariant holds, and whatever \<open>epoll_wait\<close> reports next to
  whichever loop, handling it does not follow a dangling pointer.
\<close>

theorem server_life_safe:
  assumes "server_env_ok os inq outq interest srv" "others_ok interest rest" "sock_contract sos outq interest"
    and "server_inv interest w0"
    and "\<And>k. \<exists>f k'. eventfd k = (Inr f, k') \<and> f \<noteq> listenfd srv \<and>
      (\<forall>ep. interest ep k' = interest ep k \<and> interest ep k f = None)"
    and "\<And>k ep. interest ep (snd (raise_limit k)) = interest ep k"
    and "\<And>ep. interest ep (kern (env w0)) (listenfd srv) = None"
    and "server_life os sos eventfd raise_limit interest srv rest w0 w"
    and "wait_answer_ok interest (loop_ep w l) (kern (env w)) answer"
  shows "server_inv interest w \<and>
    loop_pass (server_callback os srv rest) answer (w\<lparr>localEventLoop := l\<rparr>) \<noteq> Inl Use_after_free"
proof -
  have inv: "server_inv interest w" using assms(1-8) by (rule server_life_inv)
  then show ?thesis
    using server_loop.pass_keeps [OF conjI [OF assms(1,2)], of "w\<lparr>localEventLoop := l\<rparr>" "loop_ep w l" answer] assms(9)
    by (simp add: server_inv_loop)
qed

text \<open>A server is constructed and its listening socket is reported.\<close>

theorem server_life_safe_witness:
  "\<exists>w. server_life drip_os (sim_sock_os 0) sim_socket (Pair None) sim_interest (demo_server UNLIMITED_MODEL None)
      (\<lambda>cb. Inr) (demo_world sim_init []) w \<and>
    (\<exists>m. wait_answer_ok sim_interest (loop_ep w 1) (kern (env w)) (Inr [(m, 2)]) \<and>
      loop_pass (server_callback drip_os (demo_server UNLIMITED_MODEL None) (\<lambda>cb. Inr)) (Inr [(m, 2)])
        (w\<lparr>localEventLoop := 1\<rparr>) \<noteq> Inl Use_after_free)"
proof -
  let ?srv = "demo_server UNLIMITED_MODEL None" and ?w = "demo_world sim_init []"
  have ok: "server_env_ok drip_os sim_inq sim_outq sim_interest ?srv" by (rule demo_env_ok) simp
  have others: "others_ok sim_interest (\<lambda>cb. Inr)" by (simp add: others_ok_def keeps_events_def)
  have inv: "server_inv sim_interest ?w" by (rule demo_server_inv) simp
  define raise where "raise = (\<lambda>k :: sim. (None :: errno option, k))"
  have limit: "sim_interest ep (snd (raise k)) = sim_interest ep k" for k ep by (simp add: raise_def)
  from new_tcp_server_spec [OF drip_os_contract sim_sock_contract [of 0] inv demo_eventfd limit demo_fresh,
      where already = False and l = 1 and addr = demo_bind]
  obtain w wake ev where w: "new_tcp_server drip_os (sim_sock_os 0) sim_socket raise False ?srv demo_bind 1 ?w =
      Inr (Suc (next_ev ?w), w)" "server_inv sim_interest w"
    "evs w = (evs ?w)(next_ev ?w \<mapsto> wake, Suc (next_ev ?w) \<mapsto> ev)" "epoller ev = loop_ep ?w 1" "loop_ep w = loop_ep ?w"
    "ev_fd ev = listenfd ?srv" by blast
  have life: "server_life drip_os (sim_sock_os 0) sim_socket raise sim_interest ?srv (\<lambda>cb. Inr) ?w w"
    by (rule server_life.construct [OF w(1)])
  have "Suc (next_ev ?w) = 2" by simp
  then have ev: "evs w 2 = Some ev" using w(3) by (metis fun_upd_same)
  note r = registeredD(2) [OF conn_invD(1) [OF server_invD(1) [OF w(2)]] ev]
  have "wait_answer_ok sim_interest (loop_ep w 1) (kern (env w)) (Inr [(events ev, 2)])"
    using r w(4-6) by (auto simp: wait_answer_ok_def)
  then show ?thesis
    using life server_life_safe [OF ok others sim_sock_contract [of 0] inv demo_eventfd limit demo_fresh life, of 1]
    unfolding raise_def by blast
qed

end
