(* ===== verification/EchoRuns.thy ===== *)
theory EchoRuns imports Echo ServerRuns begin

section \<open>The ping-pong server over its whole life\<close>

text \<open>
  \<open>Echo\<close> follows one message.  Here the server runs: its loops make passes in any order, clients connect, data
  arrives and leaves at any time, writes take what they like.  On every connection what has been sent back,
  what waits in the write buffer and what the kernel holds unread are together what has arrived.
\<close>

subsection \<open>What arrives\<close>

text \<open>
  \<open>arrived f k\<close> is what has arrived on \<open>f\<close> since it was opened.  No call of the handlers changes it, except that
  a descriptor \<open>accept\<close> returns begins anew with what is there to read; \<open>close\<close> changes what is known of its own
  descriptor only.  In the same way \<open>before f k\<close> is what had been taken for sending on \<open>f\<close> when it was opened (on earlier
  connections with that descriptor).
\<close>

definition arrival_contract ::
  "'k os \<Rightarrow> (fd \<Rightarrow> 'k \<Rightarrow> bytes) \<Rightarrow> (fd \<Rightarrow> 'k \<Rightarrow> bytes) \<Rightarrow> bool" where
  "arrival_contract os inq arrived \<longleftrightarrow>
     (\<forall>f n k a k' g. sys_read os f n k = (a, k') \<longrightarrow> arrived g k' = arrived g k) \<and>
     (\<forall>f bs k a k' g. sys_write os f bs k = (a, k') \<longrightarrow> arrived g k' = arrived g k) \<and>
     (\<forall>f k a k' g. sys_getfl os f k = (a, k') \<longrightarrow> arrived g k' = arrived g k) \<and>
     (\<forall>f fl k a k' g. sys_setfl os f fl k = (a, k') \<longrightarrow> arrived g k' = arrived g k) \<and>
     (\<forall>ep op f ev k a k' g. sys_epoll_ctl os ep op f ev k = (a, k') \<longrightarrow> arrived g k' = arrived g k) \<and>
     (\<forall>f k g. g \<noteq> f \<longrightarrow> arrived g (sys_close os f k) = arrived g k) \<and>
     (\<forall>f k e k' g. sys_accept os f k = (Inl e, k') \<longrightarrow> arrived g k' = arrived g k) \<and>
     (\<forall>f k c k' g. sys_accept os f k = (Inr c, k') \<longrightarrow> arrived g k' = (if g = c then inq c k' else arrived g k))"

lemma arrival_contractD:
  assumes "arrival_contract os inq arrived"
  shows "sys_read os f n k = (ra, k') \<Longrightarrow> arrived g k' = arrived g k"
    and "sys_write os f bs k = (wa, k') \<Longrightarrow> arrived g k' = arrived g k"
    and "sys_getfl os f k = (ga, k') \<Longrightarrow> arrived g k' = arrived g k"
    and "sys_setfl os f fl k = (sa, k') \<Longrightarrow> arrived g k' = arrived g k"
    and "sys_epoll_ctl os ep op f ev k = (ea, k') \<Longrightarrow> arrived g k' = arrived g k"
    and "g \<noteq> f \<Longrightarrow> arrived g (sys_close os f k) = arrived g k"
    and "sys_accept os f k = (Inl e, k') \<Longrightarrow> arrived g k' = arrived g k"
    and "sys_accept os f k = (Inr c, k') \<Longrightarrow> arrived g k' = (if g = c then inq c k' else arrived g k)"
  using assms unfolding arrival_contract_def by - (elim conjE, metis)+

text \<open>Two states of the kernel agree on a descriptor.\<close>

definition same_flow ::
  "(fd \<Rightarrow> 'k \<Rightarrow> bytes) \<Rightarrow> (fd \<Rightarrow> 'k \<Rightarrow> bytes) \<Rightarrow> (fd \<Rightarrow> 'k \<Rightarrow> bytes) \<Rightarrow> (fd \<Rightarrow> 'k \<Rightarrow> bytes) \<Rightarrow> fd \<Rightarrow> 'k \<Rightarrow> 'k \<Rightarrow> bool" where
  "same_flow inq outq arrived before g k k' \<longleftrightarrow> 
     inq g k' = inq g k \<and> outq g k' = outq g k \<and> arrived g k' = arrived g k \<and> before g k' = before g k"

lemma same_flow_refl [simp]: "same_flow inq outq arrived before g k k"
  by (simp add: same_flow_def)

lemma same_flow_trans:
  "same_flow inq outq arrived before g k k1 \<Longrightarrow> same_flow inq outq arrived before g k1 k2 \<Longrightarrow> same_flow inq outq arrived before g k k2"
  by (simp add: same_flow_def)

definition echo_os ::
  "'k os \<Rightarrow> (fd \<Rightarrow> 'k \<Rightarrow> bytes) \<Rightarrow> (fd \<Rightarrow> 'k \<Rightarrow> bytes) \<Rightarrow> (fd \<Rightarrow> 'k \<Rightarrow> (fd \<rightharpoonup> epoll_event)) \<Rightarrow>
     (fd \<Rightarrow> 'k \<Rightarrow> bytes) \<Rightarrow> (fd \<Rightarrow> 'k \<Rightarrow> bytes) \<Rightarrow> bool" where
  "echo_os os inq outq interest arrived before \<longleftrightarrow> 
     os_contract os inq outq interest \<and> arrival_contract os inq arrived \<and> arrival_contract os outq before"

lemma echo_osD:
  assumes "echo_os os inq outq interest arrived before"
  shows "os_contract os inq outq interest" and "arrival_contract os inq arrived" and "arrival_contract os outq before"
  using assms by (simp_all add: echo_os_def)

lemma flow_calls:
  assumes "echo_os os inq outq interest arrived before"
  shows "same_flow inq outq arrived before g k (snd (sys_epoll_ctl os ep op f ev k))"
    and "same_flow inq outq arrived before g k (snd (sys_getfl os f k))"
    and "same_flow inq outq arrived before g k (snd (sys_setfl os f fl k))"
    and "g \<noteq> f \<Longrightarrow> same_flow inq outq arrived before g k (sys_close os f k)"
    and "g \<noteq> f \<Longrightarrow> sys_read os f n k = (a, k') \<Longrightarrow> same_flow inq outq arrived before g k k'"
    and "g \<noteq> f \<Longrightarrow> sys_write os f bs k = (wa, k') \<Longrightarrow> same_flow inq outq arrived before g k k'"
proof -
  note fr = os_contractD(3) [OF echo_osD(1) [OF assms]] and ar = arrival_contractD [OF echo_osD(2) [OF assms]]
    and br = arrival_contractD [OF echo_osD(3) [OF assms]]
  note sc = os_contractD(1) [OF echo_osD(1) [OF assms]]
  obtain r1 k1 where 1: "sys_epoll_ctl os ep op f ev k = (r1, k1)" by fastforce
  show "same_flow inq outq arrived before g k (snd (sys_epoll_ctl os ep op f ev k))"
    using frame_contractD(6,7) [OF fr 1] ar(5) [OF 1] br(5) [OF 1] 1 by (simp add: same_flow_def)
  obtain r2 k2 where 2: "sys_getfl os f k = (r2, k2)" by fastforce
  have "inq g k2 = inq g k \<and> outq g k2 = outq g k"
    using fr 2 unfolding frame_contract_def by (elim conjE) metis
  then show "same_flow inq outq arrived before g k (snd (sys_getfl os f k))"
    using ar(3) [OF 2] br(3) [OF 2] 2 by (simp add: same_flow_def)
  obtain r3 k3 where 3: "sys_setfl os f fl k = (r3, k3)" by fastforce
  have "inq g k3 = inq g k \<and> outq g k3 = outq g k"
    using fr 3 unfolding frame_contract_def by (elim conjE) metis
  then show "same_flow inq outq arrived before g k (snd (sys_setfl os f fl k))"
    using ar(4) [OF 3] br(4) [OF 3] 3 by (simp add: same_flow_def)
  show "same_flow inq outq arrived before g k (sys_close os f k)" if "g \<noteq> f"
  proof -
    have "inq g (sys_close os f k) = inq g k"
      using fr that unfolding frame_contract_def by (elim conjE) metis
    then show ?thesis using frame_contractD(9) [OF fr] ar(6) [OF that] br(6) [OF that] by (simp add: same_flow_def)
  qed
  show "same_flow inq outq arrived before g k k'" if "g \<noteq> f" "sys_read os f n k = (a, k')"
  proof -
    have "inq g k' = inq g k \<and> outq g k' = outq g k"
      using sc that unfolding stream_contract_def by (elim conjE) metis
    then show ?thesis using ar(1) [OF that(2)] br(1) [OF that(2)] by (simp add: same_flow_def)
  qed
  show "same_flow inq outq arrived before g k k'" if "g \<noteq> f" "sys_write os f bs k = (wa, k')"
  proof -
    have "inq g k' = inq g k \<and> outq g k' = outq g k"
      using sc that unfolding stream_contract_def by (elim conjE) metis
    then show ?thesis using ar(2) [OF that(2)] br(2) [OF that(2)] by (simp add: same_flow_def)
  qed
qed

lemma flow_logged:
  "(\<And>k. same_flow inq outq arrived before g k (snd (call k))) \<Longrightarrow> same_flow inq outq arrived before g (kern e) (kern (logged msg call e))"
  by (metis logged_cases snd_conv)

lemma flow_nonblock:
  assumes "echo_os os inq outq interest arrived before"
  shows "same_flow inq outq arrived before g (kern e) (kern (setNonblock os f e))"
proof -
  obtain r k where r: "sys_getfl os f (kern e) = (r, k)" by fastforce
  have "same_flow inq outq arrived before g (kern e) k" using flow_calls(2) [OF assms, of g "kern e" f] r by simp
  moreover
  have "\<exists>e1 fl. setNonblock os f e = logged ''fcntl F_SETFL error'' (sys_setfl os f fl) e1 \<and> kern e1 = k"
  proof (cases r)
    case (Inl err)
    then show ?thesis
      by (intro exI [of _ "add_log (Sys ''fcntl F_GETFL error'') (e\<lparr>kern := k\<rparr>)"] exI [of _ "(- 1) OR O_NONBLOCK"])
        (simp add: setNonblock_def r)
  next
    case (Inr fl)
    then show ?thesis
      by (intro exI [of _ "e\<lparr>kern := k\<rparr>"] exI [of _ "fl OR O_NONBLOCK"]) (simp add: setNonblock_def r)
  qed
  then obtain e1 fl where e1: "setNonblock os f e = logged ''fcntl F_SETFL error'' (sys_setfl os f fl) e1" "kern e1 = k" by blast
  have "same_flow inq outq arrived before g (kern e1) (kern (setNonblock os f e))"
    unfolding e1(1) by (rule flow_logged) (rule flow_calls(3) [OF assms])
  ultimately show ?thesis unfolding e1(2) by (rule same_flow_trans)
qed

text \<open>Handling events and masks moves no byte.\<close>

definition still ::
  "(fd \<Rightarrow> 'k \<Rightarrow> bytes) \<Rightarrow> (fd \<Rightarrow> 'k \<Rightarrow> bytes) \<Rightarrow> (fd \<Rightarrow> 'k \<Rightarrow> bytes) \<Rightarrow> (fd \<Rightarrow> 'k \<Rightarrow> bytes) \<Rightarrow> ('k, 'z) conn_world_scheme \<Rightarrow>
     ('k, 'z) conn_world_scheme \<Rightarrow> bool" where
  "still inq outq arrived before w w' \<longleftrightarrow> (\<forall>g. same_flow inq outq arrived before g (kern (env w)) (kern (env w')))"

lemma still_env: "env w' = env w \<Longrightarrow> still inq outq arrived before w w'"
  by (simp add: still_def)

lemma still_trans: "still inq outq arrived before w w1 \<Longrightarrow> still inq outq arrived before w1 w2 \<Longrightarrow> still inq outq arrived before w w2"
  unfolding still_def using same_flow_trans by metis

lemma set_mask_still:
  "echo_os os inq outq interest arrived before \<Longrightarrow> set_mask os fl p on w = Inr w' \<Longrightarrow> still inq outq arrived before w w'"
  by (auto simp: set_mask_def update_event_def still_def Let_def intro!: flow_logged flow_calls(1))

lemma make_conn_still:
  assumes os: "echo_os os inq outq interest arrived before"
  shows "make_event os f ep w = Inr (p, w') \<Longrightarrow> still inq outq arrived before w w'"
    and "makeHeapObject os p l w = Inr (c, w') \<Longrightarrow> still inq outq arrived before w w'"
  by (auto simp: make_event_def get_new_object_def add_event_def makeHeapObject_def still_def Let_def
      intro!: flow_logged flow_calls(1) [OF os] flow_nonblock [OF os])

lemma send_flag_still:
  assumes os: "echo_os os inq outq interest arrived before" and run: "send_flag os c l w = Inr w'"
  shows "still inq outq arrived before w w'"
proof -
  obtain x ev where x: "conns w c = Some x"
    "(if isWritable ev then Inr (upd_conn c (x\<lparr>isWillClose := l\<rparr>) w)
      else res_bind (setWritable os (conn_event x) True (upd_conn c (x\<lparr>isWillClose := l\<rparr>) w))
             (setWriteCallback (conn_event x) (Cb_send_nonblock c))) = Inr w'"
    using run by (auto simp: send_flag_def Let_def split: if_splits)
  have s0: "still inq outq arrived before w (upd_conn c (x\<lparr>isWillClose := l\<rparr>) w)" by (rule still_env) (simp add: upd_conn_def)
  show ?thesis
  proof (cases "isWritable ev")
    case False
    with x obtain w1 where w1: "setWritable os (conn_event x) True (upd_conn c (x\<lparr>isWillClose := l\<rparr>) w) = Inr w1"
      "setWriteCallback (conn_event x) (Cb_send_nonblock c) w1 = Inr w'" by auto
    then have "still inq outq arrived before w1 w'" by (auto simp: setWriteCallback_def intro: still_env)
    then show ?thesis using s0 set_mask_still [OF os w1(1) [unfolded setWritable_def]] still_trans by metis
  qed (use x s0 in simp)
qed

lemma echo_still:
  assumes os: "echo_os os inq outq interest arrived before" and run: "whenMsgArrived os c w = Inr w'"
  shows "still inq outq arrived before w w'"
proof -
  obtain s x w1 x1 b where "send_data os c s w = Inr w1" "w' = upd_conn c (x1\<lparr>readBuffer := b\<rparr>) w1"
    using run by (auto simp: whenMsgArrived_def)
  moreover from this(1) obtain x b' where
    "send_flag os c False (upd_conn c (x\<lparr>writeBuffer := b'\<rparr>) (if conn_state x \<noteq> ESTABLISHED
       then w\<lparr>env := add_log (Fatal ''connection closed, can't send data!'') (env w)\<rparr> else w)) = Inr w1"
    by (auto simp: send_data_def Let_def)
  from send_flag_still [OF os this] have "still inq outq arrived before w w1"
    by (auto simp: still_def upd_conn_def split: if_splits)
  moreover have "still inq outq arrived before w1 (upd_conn c (x1\<lparr>readBuffer := b\<rparr>) w1)" by (rule still_env) (simp add: upd_conn_def)
  ultimately show ?thesis using still_trans by metis
qed

subsection \<open>What a handler of a connection does to the bytes\<close>

text \<open>
  It sends some of what waits and was read, and lets nothing get lost; a connection that is gone had sent
  everything that waited.  Other descriptors are left alone.
\<close>

definition passes_on ::
  "(fd \<Rightarrow> 'k \<Rightarrow> bytes) \<Rightarrow> (fd \<Rightarrow> 'k \<Rightarrow> bytes) \<Rightarrow> (fd \<Rightarrow> 'k \<Rightarrow> bytes) \<Rightarrow> (fd \<Rightarrow> 'k \<Rightarrow> bytes) \<Rightarrow> conn_id \<Rightarrow> tcp_conn \<Rightarrow>
     ('k, 'z) conn_world_scheme \<Rightarrow> ('k, 'z) conn_world_scheme \<Rightarrow> bool" where
  "passes_on inq outq arrived before c x w w' \<longleftrightarrow>
     (\<forall>g. g \<noteq> sockfd x \<longrightarrow> same_flow inq outq arrived before g (kern (env w)) (kern (env w'))) \<and>
     (case conns w' c of
        None \<Rightarrow> outq (sockfd x) (kern (env w')) = outq (sockfd x) (kern (env w)) @ contents (writeBuffer x)
      | Some y \<Rightarrow> sockfd y = sockfd x \<and> arrived (sockfd x) (kern (env w')) = arrived (sockfd x) (kern (env w)) \<and>
          before (sockfd x) (kern (env w')) = before (sockfd x) (kern (env w)) \<and>
          (\<exists>sent. outq (sockfd x) (kern (env w')) = outq (sockfd x) (kern (env w)) @ sent \<and>
             sent @ contents (writeBuffer y) @ contents (readBuffer y) @ inq (sockfd x) (kern (env w')) =
             contents (writeBuffer x) @ contents (readBuffer x) @ inq (sockfd x) (kern (env w))))"

lemma passes_on_still:
  assumes "still inq outq arrived before w w'" and "conns w' c = Some y" and "sockfd y = sockfd x"
    and "contents (writeBuffer y) @ contents (readBuffer y) = contents (writeBuffer x) @ contents (readBuffer x)"
  shows "passes_on inq outq arrived before c x w w'"
proof -
  have "contents (writeBuffer y) @ contents (readBuffer y) @ r = contents (writeBuffer x) @ contents (readBuffer x) @ r" for r
    using assms(4) by (metis append_assoc)
  then show ?thesis using assms(1-3) by (simp add: passes_on_def still_def same_flow_def)
qed

lemma passes_on_trans:
  assumes 1: "passes_on inq outq arrived before c x w w1" and x1: "conns w1 c = Some x1" and 2: "passes_on inq outq arrived before c x1 w1 w2"
    and gone: "conns w2 c = None \<Longrightarrow> outq (sockfd x) (kern (env w1)) @ contents (writeBuffer x1) =
      outq (sockfd x) (kern (env w)) @ contents (writeBuffer x)"
  shows "passes_on inq outq arrived before c x w w2"
proof -
  have f: "sockfd x1 = sockfd x" using 1 x1 by (simp add: passes_on_def)
  have others: "same_flow inq outq arrived before g (kern (env w)) (kern (env w2))" if "g \<noteq> sockfd x" for g
    using 1 2 that f same_flow_trans unfolding passes_on_def by metis
  obtain sent1 where s1: "arrived (sockfd x) (kern (env w1)) = arrived (sockfd x) (kern (env w)) \<and>
      before (sockfd x) (kern (env w1)) = before (sockfd x) (kern (env w))"
    "outq (sockfd x) (kern (env w1)) = outq (sockfd x) (kern (env w)) @ sent1"
    "sent1 @ contents (writeBuffer x1) @ contents (readBuffer x1) @ inq (sockfd x) (kern (env w1)) =
       contents (writeBuffer x) @ contents (readBuffer x) @ inq (sockfd x) (kern (env w))"
    using 1 x1 by (auto simp: passes_on_def)
  show ?thesis
  proof (cases "conns w2 c")
    case None
    then show ?thesis using others 2 gone [OF None] f by (simp add: passes_on_def)
  next
    case (Some y)
    then obtain sent2 where s2: "sockfd y = sockfd x"
      "arrived (sockfd x) (kern (env w2)) = arrived (sockfd x) (kern (env w1)) \<and>
       before (sockfd x) (kern (env w2)) = before (sockfd x) (kern (env w1))"
      "outq (sockfd x) (kern (env w2)) = outq (sockfd x) (kern (env w1)) @ sent2"
      "sent2 @ contents (writeBuffer y) @ contents (readBuffer y) @ inq (sockfd x) (kern (env w2)) =
         contents (writeBuffer x1) @ contents (readBuffer x1) @ inq (sockfd x) (kern (env w1))"
      using 2 f by (auto simp: passes_on_def)
    have "(sent1 @ sent2) @ contents (writeBuffer y) @ contents (readBuffer y) @ inq (sockfd x) (kern (env w2)) =
        contents (writeBuffer x) @ contents (readBuffer x) @ inq (sockfd x) (kern (env w))"
      using s1(3) s2(4) by (metis append_assoc)
    then show ?thesis
      using others s1(1,2) s2(1-3) Some by (simp add: passes_on_def)
  qed
qed

text \<open>Closing, when the server has no callback for it.\<close>

lemma close_passes_on:
  assumes eo: "echo_os os inq outq interest arrived before" and inv: "conn_inv interest w"
    and c: "conns w c = Some x" and st: "conn_state x \<noteq> BLANK"
    and run: "close_common os (delete_conn os) None c w = Inr w'"
  shows "passes_on inq outq arrived before c x w w'" and "conns w' c = Some y \<Longrightarrow> readBuffer y = readBuffer x"
proof -
  note os = echo_osD(1) [OF eo]
  have bi: "buf_inv (writeBuffer x)" using event_of [OF inv c] by metis
  have "passes_on inq outq arrived before c x w w' \<and> (\<forall>y. conns w' c = Some y \<longrightarrow> readBuffer y = readBuffer x)"
  proof (cases "contents (writeBuffer x) = []")
    case False
    obtain w2 where w2: "close_common os (delete_conn os) None c w = Inr w2" "conns w2 c = Some (x\<lparr>isWillClose := True\<rparr>)"
      using close_pending [OF os inv c st False, of "delete_conn os" None] by metis
    then have c': "conns w' c = Some (x\<lparr>isWillClose := True\<rparr>)" using run by simp
    have "readableBytes (writeBuffer x) > 0" using False length_contents [OF bi] by (metis length_greater_0_conv)
    then obtain w1 where "setReadable os (conn_event x) False w = Inr w1" "send_flag os c True w1 = Inr w'"
      using run c by (auto simp: close_common_def)
    then have "still inq outq arrived before w w'"
      using set_mask_still [OF eo] send_flag_still [OF eo] still_trans unfolding setReadable_def by blast
    from passes_on_still [OF this c'] show ?thesis using c' by simp
  next
    case True
    then have rb: "readableBytes (writeBuffer x) = 0" using bi length_contents by force
    obtain w1 where w1: "res_bind (destroy os c w) (delete_conn os c) = Inr w1" "conns w1 c = None"
      "\<And>g. outq g (kern (env w1)) = outq g (kern (env w))"
      "kern (env w1) = (let k = snd (sys_epoll_ctl os (loop_ep w (conn_loop x)) CtlDel (sockfd x)
          (events (the (evs w (conn_event x))), conn_event x) (kern (env w)))
        in if sockfd x \<noteq> 0 then sys_close os (sockfd x) k else k)"
      using dispose_spec [OF os inv c] by metis
    have "w' = w1" using run c rb w1(1) by (simp add: close_common_def)
    moreover have "same_flow inq outq arrived before g (kern (env w)) (kern (env w1))" if "g \<noteq> sockfd x" for g
      using same_flow_trans [OF flow_calls(1) [OF eo] flow_calls(4) [OF eo that]] flow_calls(1) [OF eo]
      by (simp add: w1(4) Let_def)
    ultimately show ?thesis using w1(2,3) True by (simp add: passes_on_def)
  qed
  then show "passes_on inq outq arrived before c x w w'" "conns w' c = Some y \<Longrightarrow> readBuffer y = readBuffer x" by blast+
qed

text \<open>The server: it echoes whatever comes, and sets no other callback.\<close>

definition echo_server :: "'k os \<Rightarrow> 'k server \<Rightarrow> bool" where
  "echo_server os srv \<longleftrightarrow> codec srv = UNLIMITED_MODEL \<and> connMsgCallback srv = Some (whenMsgArrived os) \<and>
     connEstaCallback srv = None \<and> connCloseCallback srv = None"

lemma echo_server_env:
  assumes "os_contract os inq outq interest" and "echo_server os srv"
  shows "server_env_ok os inq outq interest srv"
  using assms echo_callback_ok [OF assms(1)] by (simp add: server_env_ok_def echo_server_def)

text \<open>
  \<open>main\<close>: the limit on files, a new socket, the server with its callback, started with three helper threads, up to the
  run of the main loop.  (\<open>getMaxFiles\<close> is called for its output.)
\<close>

definition pingpong_server :: "'k os \<Rightarrow> fd \<Rightarrow> 'k server" where
  "pingpong_server os f = setConnMsgCallback (whenMsgArrived os) (bare_server f UNLIMITED_MODEL)"

definition pingpong_main ::
  "'k os \<Rightarrow> 'k sock_os \<Rightarrow> ('k \<Rightarrow> (errno + fd) \<times> 'k) \<Rightarrow> ('k \<Rightarrow> errno option \<times> 'k) \<Rightarrow> ('k \<Rightarrow> (nat \<times> nat) \<times> 'k) \<Rightarrow> sockaddr \<Rightarrow>
     loop_id \<Rightarrow> 'k sworld \<Rightarrow> ('k server \<times> 'k sworld) res" where
  "pingpong_main os sos eventfd raise_limit get_limit addr l w =
     (let (r, e) = setMaxFiles raise_limit 1048576 (env w);
          e1 = (if r < 0 then add_log (Sys ''getMaxFiles error'') e else e);
          (_, e2) = getMaxFiles get_limit e1;
          (f, e3) = makeNewSocket sos e2;
          srv = pingpong_server os f in
      res_bind (new_tcp_server os sos eventfd raise_limit False srv addr l (w\<lparr>env := e3\<rparr>)) (\<lambda>(p, w1).
        res_bind (server_start sos srv 3 w1) (\<lambda>w2. Inr (srv, w2))))"

lemma pingpong_server_echoes: "echo_server os (pingpong_server os f)"
  by (simp add: echo_server_def pingpong_server_def setConnMsgCallback_def)

lemma closeConnection_passes_on:
  assumes eo: "echo_os os inq outq interest arrived before" and srv: "echo_server os srv" and inv: "conn_inv interest w"
    and c: "conns w c = Some x" and st: "conn_state x \<noteq> BLANK" and run: "closeConnection os srv c cb w = Inr w'"
  shows "passes_on inq outq arrived before c x w w'" and "conns w' c = Some y \<Longrightarrow> readBuffer y = readBuffer x"
proof -
  have "close_common os (delete_conn os) None c w = Inr w'"
    using c by (cases rule: closeConnection_cases [of w c x os srv cb]) (use run srv in \<open>simp_all add: echo_server_def\<close>)
  from close_passes_on [OF eo inv c st this] show "passes_on inq outq arrived before c x w w'"
    "conns w' c = Some y \<Longrightarrow> readBuffer y = readBuffer x" by blast+
qed

lemma send_passes_on:
  assumes eo: "echo_os os inq outq interest arrived before" and srv: "echo_server os srv" and inv: "conn_inv interest w"
    and c: "conns w c = Some x" and st: "conn_state x \<noteq> BLANK"
    and run: "send_nonblock os (activeClose os srv) c w = Inr w'"
  shows "passes_on inq outq arrived before c x w w' \<and> (\<forall>y. conns w' c = Some y \<longrightarrow> readBuffer y = readBuffer x)"
proof -
  note os = echo_osD(1) [OF eo] and sc = stream_contractD [OF os_contractD(1) [OF echo_osD(1) [OF eo]]]
  have bi: "buf_inv (writeBuffer x)" using event_of [OF inv c] by metis
  obtain a k where wr: "sys_write os (sockfd x) (contents (writeBuffer x)) (kern (env w)) = (a, k)" by fastforce
  show ?thesis
  proof (cases a)
    case (WrErr e)
    with send_nonblock_error [of w c x os e k "activeClose os srv"] c bi wr run show ?thesis by simp
  next
    case (WrBytes n)
    obtain w1 x1 where f: "send_nonblock os (activeClose os srv) c w =
        (if contents (writeBuffer x1) = [] \<and> isWillClose x then activeClose os srv c w1 else Inr w1)"
      "conn_inv interest w1" "conns w1 c = Some x1" "x1 = x\<lparr>writeBuffer := writeBuffer x1\<rparr>"
      "contents (writeBuffer x) = take n (contents (writeBuffer x)) @ contents (writeBuffer x1)"
      "outq (sockfd x) (kern (env w1)) = outq (sockfd x) (kern (env w)) @ take n (contents (writeBuffer x))"
      "kern (env w1) = k \<or> (\<exists>ep f m. kern (env w1) = snd (sys_epoll_ctl os ep CtlMod f m k))"
      by (rule send_nonblock_flush [OF os inv c st wr [unfolded WrBytes], of "activeClose os srv"]) (rule that, assumption+)
    have x1: "sockfd x1 = sockfd x" "readBuffer x1 = readBuffer x" "conn_state x1 = conn_state x" by (subst f(4), simp)+
    have k1: "same_flow inq outq arrived before g k (kern (env w1))" for g
      using f(7) flow_calls(1) [OF eo] by auto
    have others: "same_flow inq outq arrived before g (kern (env w)) (kern (env w1))" if "g \<noteq> sockfd x" for g
      using same_flow_trans [OF flow_calls(6) [OF eo that wr] k1] .
    have own: "inq (sockfd x) (kern (env w1)) = inq (sockfd x) (kern (env w))"
      "arrived (sockfd x) (kern (env w1)) = arrived (sockfd x) (kern (env w))"
      "before (sockfd x) (kern (env w1)) = before (sockfd x) (kern (env w))"
      using k1 [of "sockfd x"] sc(8) [OF wr] arrival_contractD(2) [OF echo_osD(2) [OF eo] wr]
      arrival_contractD(2) [OF echo_osD(3) [OF eo] wr] by (simp_all add: same_flow_def)
    have sent: "take n (contents (writeBuffer x)) @ contents (writeBuffer x1) @ r = contents (writeBuffer x) @ r" for r
      using f(5) by (metis append_assoc)
    have p1: "passes_on inq outq arrived before c x w w1"
      using others own f(3,6) x1 sent by (simp add: passes_on_def)
    show ?thesis
    proof (cases "contents (writeBuffer x1) = [] \<and> isWillClose x")
      case False
      then have "w' = w1" using f(1) run by (metis sum.inject(2))
      then show ?thesis using p1 f(3) x1(2) by simp
    next
      case True
      then have cl: "closeConnection os srv c (destoryCallback x1) w1 = Inr w'"
        using f(1,3) run by (simp add: activeClose_def)
      have st1: "conn_state x1 \<noteq> BLANK" using st x1(3) by simp
      note p2 = closeConnection_passes_on [OF eo srv f(2,3) st1 cl]
      have "outq (sockfd x) (kern (env w1)) @ contents (writeBuffer x1) = outq (sockfd x) (kern (env w)) @ contents (writeBuffer x)"
        using f(5,6) by (metis append_assoc)
      then have "passes_on inq outq arrived before c x w w'" by (rule passes_on_trans [OF p1 f(3) p2(1)])
      moreover have "readBuffer y = readBuffer x" if "conns w' c = Some y" for y
        using p2(2) [OF that] x1(2) by (rule trans)
      ultimately show ?thesis by blast
    qed
  qed
qed

lemma message_passes_on:
  assumes eo: "echo_os os inq outq interest arrived before" and srv: "echo_server os srv" and inv: "conn_inv interest w"
    and c: "conns w c = Some x" and st: "conn_state x \<noteq> BLANK"
    and run: "preConnMsgCallback os srv c w = Inr w'"
  shows "passes_on inq outq arrived before c x w w' \<and>
    (\<forall>y. conns w' c = Some y \<longrightarrow> contents (readBuffer x) = [] \<longrightarrow> contents (readBuffer y) = [])"
proof -
  note os = echo_osD(1) [OF eo]
  let ?l = "Some (localEventLoop w)" and ?f = "sockfd x"
  from os inv c show ?thesis
  proof (cases rule: read_step)
    case no_memory
    then show ?thesis using run c by (simp add: preConnMsgCallback_def)
  next
    case (got n b e)
    have others: "same_flow inq outq arrived before g (kern (env w)) (kern e)" if "g \<noteq> ?f" for g
      using read_from_socket_keeps [of os ?f "\<lambda>k. (inq g k, outq g k, arrived g k, before g k)", OF _ got(1)] flow_calls(5) [OF eo that]
      by (auto simp: same_flow_def)
    have own: "arrived ?f (kern e) = arrived ?f (kern (env w))" "before ?f (kern e) = before ?f (kern (env w))"
      by (rule read_from_socket_keeps [OF _ got(1)], rule arrival_contractD(1) [OF echo_osD(2) [OF eo]], assumption)
        (rule read_from_socket_keeps [OF _ got(1)], rule arrival_contractD(1) [OF echo_osD(3) [OF eo]], assumption)
    define x1 where "x1 = x\<lparr>conn_data := ?l, readBuffer := b\<rparr>"
    have x1: "sockfd x1 = ?f" "writeBuffer x1 = writeBuffer x" "readBuffer x1 = b" "conn_state x1 = conn_state x"
      by (simp_all add: x1_def)
    have st1: "conn_state x1 \<noteq> BLANK" using st x1(4) by simp
    have read: "conn_inv interest w1" "conns w1 c = Some x1" "passes_on inq outq arrived before c x w w1"
      "outq ?f (kern (env w1)) = outq ?f (kern (env w))"
      if w1: "w1 = (upd_conn c x1 w)\<lparr>env := e\<lparr>logs := lg\<rparr>\<rparr>" for w1 lg
    proof -
      have i: "interest ep (kern (e\<lparr>logs := lg\<rparr>)) = interest ep (kern (env w))" for ep by (simp add: got(3))
      note k = conn_inv_received [OF inv c st got(2) i w1 [unfolded x1_def], folded x1_def]
      show "conn_inv interest w1" "conns w1 c = Some x1" by (rule k(1), rule k(3))
      show "outq ?f (kern (env w1)) = outq ?f (kern (env w))" using got(4) by (simp add: w1)
      show "passes_on inq outq arrived before c x w w1"
        using k(3) others own got(4,5) by (simp add: passes_on_def x1 w1)
    qed
    have closing: ?thesis
      if w1: "w1 = (upd_conn c x1 w)\<lparr>env := e\<lparr>logs := lg\<rparr>\<rparr>" and cl: "closeConnection os srv c None w1 = Inr w'" and n: "n \<le> 0"
      for w1 lg
    proof -
      note r = read [OF w1]
      note p2 = closeConnection_passes_on [OF eo srv r(1,2) st1 cl]
      have "outq ?f (kern (env w1)) @ contents (writeBuffer x1) = outq ?f (kern (env w)) @ contents (writeBuffer x)"
        using r(4) x1(2) by simp
      then have "passes_on inq outq arrived before c x w w'" by (rule passes_on_trans [OF r(3,2) p2(1)])
      moreover have "contents (readBuffer y) = contents (readBuffer x)" if "conns w' c = Some y" for y
        using p2(2) [OF that] x1(3) got(6) [OF n] by (simp only:)
      ultimately show ?thesis by metis
    qed
    define w1 where "w1 = (upd_conn c x1 w)\<lparr>env := e\<lparr>logs := logs e\<rparr>\<rparr>"
    define w2 where "w2 = (upd_conn c x1 w)\<lparr>env := e\<lparr>logs := logs e @ [Sys ''read from socket error'']\<rparr>\<rparr>"
    have eq: "preConnMsgCallback os srv c w =
       (if n = 0 then closeConnection os srv c None w1 else if n < 0 then closeConnection os srv c None w2
        else whenMsgArrived os c w1)"
      using c got(1) srv
      by (simp add: preConnMsgCallback_def w1_def w2_def x1_def Let_def upd_conn_def add_log_def echo_server_def)
    consider "n = 0" | "n < 0" | "0 < n" by linarith
    then show ?thesis
    proof cases
      case 1
      then show ?thesis using closing [OF w1_def] run eq by simp
    next
      case 2
      then show ?thesis using closing [OF w2_def] run eq by simp
    next
      case 3
      then have run1: "whenMsgArrived os c w1 = Inr w'" using run eq by simp
      note r = read [OF w1_def]
      from os r(1,2) st1 show ?thesis
      proof (cases rule: whenMsgArrived_cases)
        case (echoed w3 y)
        then have w3: "w3 = w'" using run1 by simp
        have "sockfd y = sockfd x1" by (subst echoed(8)) simp
        then have "passes_on inq outq arrived before c x1 w1 w'"
          using passes_on_still [OF echo_still [OF eo run1], of c y x1] echoed(4-6) w3 by simp
        then have "passes_on inq outq arrived before c x w w'"
          by (rule passes_on_trans [OF r(3,2)]) (use echoed(4) w3 in simp)
        then show ?thesis using echoed(4,5) w3 by simp
      qed (use run1 in simp_all)
    qed
  qed
qed

subsection \<open>The account of a connection\<close>

text \<open>
  What was sent on the connection, what waits and what is unread is what has arrived; between two events nothing is in
  the read buffer.
\<close>

definition echo_account ::
  "(fd \<Rightarrow> 'k \<Rightarrow> bytes) \<Rightarrow> (fd \<Rightarrow> 'k \<Rightarrow> bytes) \<Rightarrow> (fd \<Rightarrow> 'k \<Rightarrow> bytes) \<Rightarrow> (fd \<Rightarrow> 'k \<Rightarrow> bytes) \<Rightarrow> tcp_conn \<Rightarrow> 'k \<Rightarrow> bool" where
  "echo_account inq outq arrived before x k \<longleftrightarrow> 0 < sockfd x \<and> contents (readBuffer x) = [] \<and>
     (\<exists>s. outq (sockfd x) k = before (sockfd x) k @ s \<and>
        s @ contents (writeBuffer x) @ inq (sockfd x) k = arrived (sockfd x) k)"

definition echo_inv ::
  "(fd \<Rightarrow> 'k \<Rightarrow> (fd \<rightharpoonup> epoll_event)) \<Rightarrow> (fd \<Rightarrow> 'k \<Rightarrow> bytes) \<Rightarrow> (fd \<Rightarrow> 'k \<Rightarrow> bytes) \<Rightarrow> (fd \<Rightarrow> 'k \<Rightarrow> bytes) \<Rightarrow> (fd \<Rightarrow> 'k \<Rightarrow> bytes) \<Rightarrow>
     'k sworld \<Rightarrow> bool" where
  "echo_inv interest inq outq arrived before w \<longleftrightarrow> server_inv interest w \<and>
     (\<forall>c x. conns w c = Some x \<longrightarrow> echo_account inq outq arrived before x (kern (env w)))"

lemma echo_invD:
  assumes "echo_inv interest inq outq arrived before w"
  shows "server_inv interest w" and "conns w c = Some x \<Longrightarrow> echo_account inq outq arrived before x (kern (env w))"
  using assms unfolding echo_inv_def by blast+

lemma echo_account_same:
  "echo_account inq outq arrived before x k \<Longrightarrow> same_flow inq outq arrived before (sockfd x) k k' \<Longrightarrow> echo_account inq outq arrived before x k'"
  by (simp add: echo_account_def same_flow_def)

lemma echo_account_passes_on:
  assumes acc: "echo_account inq outq arrived before x (kern (env w))" and p: "passes_on inq outq arrived before c x w w'"
    and y: "conns w' c = Some y" "contents (readBuffer y) = []"
  shows "echo_account inq outq arrived before y (kern (env w'))"
proof -
  obtain s where s: "outq (sockfd x) (kern (env w)) = before (sockfd x) (kern (env w)) @ s" "contents (readBuffer x) = []"
    "s @ contents (writeBuffer x) @ inq (sockfd x) (kern (env w)) = arrived (sockfd x) (kern (env w))"
    using acc by (auto simp: echo_account_def)
  obtain sent where t: "sockfd y = sockfd x" "arrived (sockfd x) (kern (env w')) = arrived (sockfd x) (kern (env w))"
    "before (sockfd x) (kern (env w')) = before (sockfd x) (kern (env w))"
    "outq (sockfd x) (kern (env w')) = outq (sockfd x) (kern (env w)) @ sent"
    "sent @ contents (writeBuffer y) @ inq (sockfd x) (kern (env w')) = contents (writeBuffer x) @ inq (sockfd x) (kern (env w))"
    using p y s(2) by (auto simp: passes_on_def)
  have "(s @ sent) @ contents (writeBuffer y) @ inq (sockfd x) (kern (env w')) = arrived (sockfd x) (kern (env w'))"
    unfolding append_assoc t(2,5) by (rule s(3))
  moreover have "outq (sockfd x) (kern (env w')) = before (sockfd x) (kern (env w')) @ (s @ sent)"
    by (simp add: t(3,4) s(1))
  moreover have "0 < sockfd x" using acc by (simp add: echo_account_def)
  ultimately show ?thesis unfolding echo_account_def t(1) using y(2) by blast
qed

lemma echo_inv_handler:
  assumes inv: "echo_inv interest inq outq arrived before w" and c: "conns w c = Some x"
    and new: "server_inv interest w'" and fr: "frame c (conn_event x) w w'" and p: "passes_on inq outq arrived before c x w w'"
    and rb: "\<And>y. conns w' c = Some y \<Longrightarrow> contents (readBuffer x) = [] \<Longrightarrow> contents (readBuffer y) = []"
  shows "echo_inv interest inq outq arrived before w'"
proof -
  note i = echo_invD [OF inv]
  have "echo_account inq outq arrived before y (kern (env w'))" if y: "conns w' d = Some y" for d y
  proof (cases "d = c")
    case True
    have "contents (readBuffer x) = []" using i(2) [OF c] by (simp add: echo_account_def)
    then show ?thesis using echo_account_passes_on [OF i(2) [OF c] p] y True rb by blast
  next
    case False
    then have y0: "conns w d = Some y" using y frameD(1) [OF fr] by simp
    have "0 \<le> sockfd x" using i(2) [OF c] by (simp add: echo_account_def)
    then have "sockfd y \<noteq> sockfd x" using open_fds_differ [OF server_invD(1) [OF i(1)] c y0] False by blast
    then show ?thesis using echo_account_same [OF i(2) [OF y0]] p by (simp add: passes_on_def)
  qed
  then show ?thesis using new by (simp add: echo_inv_def)
qed

subsection \<open>Accepting\<close>

lemma new_connection_still:
  assumes os: "echo_os os inq outq interest arrived before" and run: "new_connection os srv f w = Inr (c, w')"
  shows "still inq outq arrived before w w'"
proof -
  obtain l p q w1 w2 w3 where s: "make_event os f (loop_ep w l) (w\<lparr>pool := p\<rparr>) = Inr (q, w1)"
    "makeHeapObject os q l w1 = Inr (c, w2)" "setReadCallback q (Cb_conn_msg c) w2 = Inr w3" "setReadable os q True w3 = Inr w'"
    using run by (auto simp: new_connection_def Let_def)
  have "still inq outq arrived before w (w\<lparr>pool := p\<rparr>)" by (rule still_env) simp
  moreover have "still inq outq arrived before (w\<lparr>pool := p\<rparr>) w1" "still inq outq arrived before w1 w2" "still inq outq arrived before w2 w3"
    "still inq outq arrived before w3 w'"
    using make_conn_still [OF os] s set_mask_still [OF os]
    by (blast, blast, auto simp: setReadCallback_def setReadable_def intro: still_env)
  ultimately show ?thesis using still_trans by blast
qed

lemma echo_accept_pass:
  assumes eo: "echo_os os inq outq interest arrived before" and srv: "echo_server os srv"
    and inv: "echo_inv interest inq outq arrived before w" and run: "accept_pass os srv w = Inr (go, w')"
  shows "echo_inv interest inq outq arrived before w'"
proof -
  note os = echo_osD(1) [OF eo] and i = echo_invD [OF inv] and ar = arrival_contractD [OF echo_osD(2) [OF eo]]
    and br = arrival_contractD [OF echo_osD(3) [OF eo]]
  have new: "server_inv interest w'" using accept_pass_ok(2) [OF echo_server_env [OF os srv] i(1) run] by blast
  obtain f e where acc: "socket_accept os (listenfd srv) (env w) = (f, e)" by fastforce
  obtain a k where sa: "sys_accept os (listenfd srv) (kern (env w)) = (a, k)" by fastforce
  have k: "kern e = k" using acc sa by (auto simp: socket_accept_def split: sum.splits if_splits)
  have qs: "inq g k = inq g (kern (env w))" "outq g k = outq g (kern (env w))" for g
    using os_contractD(3) [OF os] sa unfolding frame_contract_def by (elim conjE, metis)+
  have old: "echo_account inq outq arrived before y k" if y: "conns w d = Some y" for d y
  proof -
    obtain ev where ev: "evs w (conn_event y) = Some ev" "ev_fd ev = sockfd y"
      using event_of [OF server_invD(1) [OF i(1)] y] by metis
    have "interest (epoller ev) (kern (env w)) (sockfd y) \<noteq> None"
      using registeredD(2) [OF conn_invD(1) [OF server_invD(1) [OF i(1)]] ev(1)] ev(2) i(2) [OF y] by (simp add: echo_account_def)
    then have "a \<noteq> Inr (sockfd y)" using frame_contractD(10) [OF os_contractD(3) [OF os]] sa by metis
    then have "arrived (sockfd y) k = arrived (sockfd y) (kern (env w))" "before (sockfd y) k = before (sockfd y) (kern (env w))"
      using ar(7,8) br(7,8) sa by (cases a; auto)+
    then show ?thesis using echo_account_same [OF i(2) [OF y]] qs by (simp add: same_flow_def)
  qed
  show ?thesis
  proof (cases "f \<le> 0")
    case True
    then have "w' = w\<lparr>env := e\<rparr>" using run acc by (simp add: accept_pass_def)
    then show ?thesis using new old k by (simp add: echo_inv_def)
  next
    case False
    define w0 where "w0 = w\<lparr>env := e\<rparr>"
    obtain c where n: "new_connection os srv f w0 = Inr (c, w')"
      using run acc False srv by (auto simp: accept_pass_def w0_def echo_server_def)
    note a = socket_accept_cases [OF os_contractD(3) [OF os] acc]
    have inv0: "server_inv interest w0" using server_inv_env [OF i(1)] a(1) by (simp add: w0_def)
    obtain l p where lp: "getNextPool (pool w0) = Inr (l, p)" using n by (auto simp: new_connection_def)
    have fresh: "interest ep (kern (env w0)) f = None" for ep using a(2) False by (simp add: w0_def)
    obtain w1 where w1: "new_connection os srv f w0 = Inr (next_conn w0, w1)"
      "conns w1 = (conns w0)(next_conn w0 \<mapsto> new_conn (next_ev w0) f l)"
      using new_connection_spec [OF os inv0 fresh lp, of srv] by metis
    have cw: "conns w' = (conns w)(next_conn w0 \<mapsto> new_conn (next_ev w0) f l)" using w1 n by (simp add: w0_def)
    have st: "same_flow inq outq arrived before g k (kern (env w'))" for g
      using new_connection_still [OF eo n] k by (simp add: still_def w0_def)
    have "a = Inr f" using a(3) False sa by auto
    then have "arrived f k = inq f k" "before f k = outq f k" using ar(8) br(8) sa by simp_all
    then have fresh_acc: "echo_account inq outq arrived before (new_conn (next_ev w0) f l) k"
      using False by (auto simp: echo_account_def)
    have acck: "echo_account inq outq arrived before y k" if y: "conns w' d = Some y" for d y
    proof (cases "d = next_conn w0")
      case True
      then have "y = new_conn (next_ev w0) f l" using y by (simp add: cw)
      then show ?thesis using fresh_acc by (simp only:)
    next
      case False
      then have "conns w d = Some y" using y by (simp add: cw)
      then show ?thesis by (rule old)
    qed
    have "echo_account inq outq arrived before y (kern (env w'))" if "conns w' d = Some y" for d y
      using echo_account_same [OF acck [OF that] st] .
    then show ?thesis using new by (simp add: echo_inv_def)
  qed
qed

lemma echo_acceptCallback:
  assumes eo: "echo_os os inq outq interest arrived before" and srv: "echo_server os srv"
    and "echo_inv interest inq outq arrived before w" and run: "acceptCallback os srv w = Some (Inr w')"
  shows "echo_inv interest inq outq arrived before w'"
proof -
  have "os' = os \<and> srv' = srv \<and> echo_inv interest inq outq arrived before w0 \<longrightarrow>
      (\<forall>w'. r = Inr w' \<longrightarrow> echo_inv interest inq outq arrived before w')"
    if "acceptCallback os' srv' w0 = Some r" for os' srv' w0 r
  proof (rule acceptCallback.raw_induct [where P = "\<lambda>os' srv' w0 r. os' = os \<and> srv' = srv \<and>
      echo_inv interest inq outq arrived before w0 \<longrightarrow> (\<forall>w'. r = Inr w' \<longrightarrow> echo_inv interest inq outq arrived before w')", OF _ that], goal_cases)
    case (1 rec os' srv' w0 r)
    show ?case
    proof (intro impI allI, elim conjE)
      fix w' assume same: "r = Inr w'" "os' = os" "srv' = srv" and inv: "echo_inv interest inq outq arrived before w0"
      show "echo_inv interest inq outq arrived before w'"
      proof (cases "accept_pass os srv w0")
        case (Inl err)
        then show ?thesis using 1(2) same by auto
      next
        case (Inr t)
        obtain go w1 where t: "t = (go, w1)" by (cases t)
        have p: "echo_inv interest inq outq arrived before w1" using echo_accept_pass [OF eo srv inv] Inr t by blast
        show ?thesis
        proof (cases go)
          case False
          then show ?thesis using 1(2) same Inr t p by auto
        next
          case True
          then have "rec os srv w1 = Some r" using 1(2) same Inr t by simp
          from 1(1) [OF this] p same(1) show ?thesis by blast
        qed
      qed
    qed
  qed
  from this [OF run] show ?thesis using assms(3) by blast
qed

subsection \<open>The life of the server\<close>

definition echo_others_ok ::
  "(fd \<Rightarrow> 'k \<Rightarrow> (fd \<rightharpoonup> epoll_event)) \<Rightarrow> (fd \<Rightarrow> 'k \<Rightarrow> bytes) \<Rightarrow> (fd \<Rightarrow> 'k \<Rightarrow> bytes) \<Rightarrow> (fd \<Rightarrow> 'k \<Rightarrow> bytes) \<Rightarrow> (fd \<Rightarrow> 'k \<Rightarrow> bytes) \<Rightarrow>
     (callback \<Rightarrow> 'k sworld \<Rightarrow> 'k sworld res) \<Rightarrow> bool" where
  "echo_others_ok interest inq outq arrived before rest \<longleftrightarrow> others_ok interest rest \<and>
     (\<forall>cb w w'. echo_inv interest inq outq arrived before w \<longrightarrow> rest cb w = Inr w' \<longrightarrow> echo_inv interest inq outq arrived before w')"

lemma echo_callback_keeps:
  assumes eo: "echo_os os inq outq interest arrived before" and srv: "echo_server os srv"
    and others: "echo_others_ok interest inq outq arrived before rest"
    and inv: "echo_inv interest inq outq arrived before w" and ev: "evs w p = Some ev" and cb: "handle ev = Some cb"
    and run: "server_callback os srv rest cb w = Inr w'"
  shows "echo_inv interest inq outq arrived before w'"
proof -
  note os = echo_osD(1) [OF eo] and i = echo_invD [OF inv]
  note ci = server_invD(1) [OF i(1)] and env = echo_server_env [OF echo_osD(1) [OF eo] srv]
  have new: "server_inv interest w'"
    using server_callback_ok [OF env _ i(1) ev cb] others run by (auto simp: echo_others_ok_def)
  have owned: "\<exists>x. conns w c = Some x \<and> conn_state x \<noteq> BLANK" if "names_conn cb c" for c
    using named_owner [OF ci ev, of c] handle_named [OF cb that] server_invD(2) [OF i(1)] by metis
  have rest: ?thesis if "server_callback os srv rest cb w = rest cb w"
    using that others inv run unfolding echo_others_ok_def by metis
  show ?thesis
  proof (cases cb)
    case Cb_accept
    then obtain "acceptCallback os srv w = Some (Inr w')"
      using run by (auto simp: server_callback_def split: option.splits)
    then show ?thesis using echo_acceptCallback [OF eo srv inv] by blast
  next
    case (Cb_conn_msg c)
    then obtain x where x: "conns w c = Some x" "conn_state x \<noteq> BLANK" using owned [of c] by auto
    have r: "preConnMsgCallback os srv c w = Inr w'" using run Cb_conn_msg by (simp add: server_callback_def)
    have "frame c (conn_event x) w w'" using preConnMsg_keeps [OF env ci x r] by blast
    then show ?thesis using echo_inv_handler [OF inv x(1) new] message_passes_on [OF eo srv ci x r] by blast
  next
    case (Cb_send_nonblock c)
    then obtain x where x: "conns w c = Some x" "conn_state x \<noteq> BLANK" using owned [of c] by auto
    have r: "send_nonblock os (activeClose os srv) c w = Inr w'" using run Cb_send_nonblock by (simp add: server_callback_def)
    have "frame c (conn_event x) w w'" using server_source.send_nonblock_keeps [OF env ci x r] by blast
    then show ?thesis using echo_inv_handler [OF inv x(1) new] send_passes_on [OF eo srv ci x r] by (metis)
  qed (rule rest, simp add: server_callback_def)+
qed

interpretation echo_loop: dispatcher interest "echo_inv interest inq outq arrived before" "\<lambda>_. server_callback os srv rest"
  "echo_os os inq outq interest arrived before \<and> echo_server os srv \<and> echo_others_ok interest inq outq arrived before rest"
  for os inq outq interest arrived before srv rest
proof unfold_locales
  fix w :: "'a sworld"
  show "registered interest w" if "echo_inv interest inq outq arrived before w"
    using conn_invD(1) [OF server_invD(1) [OF echo_invD(1) [OF that]]] .
  show "echo_inv interest inq outq arrived before (w\<lparr>evs := es\<rparr>)"
    if "echo_inv interest inq outq arrived before w" "same_but_revents w es" for es
    using that(1) conn_inv_revents [OF server_invD(1) [OF echo_invD(1) [OF that(1)]] that(2)]
    by (simp add: echo_inv_def server_inv_def)
  show "echo_inv interest inq outq arrived before (w\<lparr>env := add_log l (env w)\<rparr>)" if "echo_inv interest inq outq arrived before w" for l
    using that server_inv_env [OF echo_invD(1) [OF that], of "add_log l (env w)"] by (simp add: echo_inv_def)
  show "server_callback os srv rest cb w \<noteq> Inl Use_after_free \<and>
      (\<forall>w'. server_callback os srv rest cb w = Inr w' \<longrightarrow> echo_inv interest inq outq arrived before w' \<and> keeps_events {p} w w')"
    if ok: "echo_os os inq outq interest arrived before \<and> echo_server os srv \<and> echo_others_ok interest inq outq arrived before rest"
      and inv: "echo_inv interest inq outq arrived before w" and ev: "evs w p = Some ev" "handle ev = Some cb" for p ev cb
  proof -
    have "server_env_ok os inq outq interest srv" "others_ok interest rest"
      using ok echo_server_env [OF echo_osD(1)] by (auto simp: echo_others_ok_def)
    note s = server_callback_ok [OF this echo_invD(1) [OF inv] ev]
    then show ?thesis using echo_callback_keeps [OF _ _ _ inv ev] ok by blast
  qed
qed

text \<open>
  The loops make passes in any order; in between the kernel moves on: more bytes arrive, and interest lists and what
  was taken for sending stay as they are.
\<close>

inductive echo_life ::
  "'k os \<Rightarrow> (fd \<Rightarrow> 'k \<Rightarrow> bytes) \<Rightarrow> (fd \<Rightarrow> 'k \<Rightarrow> bytes) \<Rightarrow> (fd \<Rightarrow> 'k \<Rightarrow> (fd \<rightharpoonup> epoll_event)) \<Rightarrow> (fd \<Rightarrow> 'k \<Rightarrow> bytes) \<Rightarrow>
     (fd \<Rightarrow> 'k \<Rightarrow> bytes) \<Rightarrow> 'k server \<Rightarrow> (callback \<Rightarrow> 'k sworld \<Rightarrow> 'k sworld res) \<Rightarrow> 'k sworld \<Rightarrow> 'k sworld \<Rightarrow> bool"
  for os inq outq interest arrived before srv rest w0 where
  start: "echo_life os inq outq interest arrived before srv rest w0 w0"
| pass: "echo_life os inq outq interest arrived before srv rest w0 w \<Longrightarrow>
    wait_answer_ok interest (loop_ep w l) (kern (env w)) answer \<Longrightarrow>
    loop_pass (server_callback os srv rest) answer (w\<lparr>localEventLoop := l\<rparr>) = Inr w' \<Longrightarrow>
    echo_life os inq outq interest arrived before srv rest w0 w'"
| kernel: "echo_life os inq outq interest arrived before srv rest w0 w \<Longrightarrow>
    (\<And>ep. interest ep k = interest ep (kern (env w))) \<Longrightarrow>
    (\<And>f. outq f k = outq f (kern (env w)) \<and>
       before f k = before f (kern (env w)) \<and>
       (\<exists>more. inq f k = inq f (kern (env w)) @ more \<and> arrived f k = arrived f (kern (env w)) @ more)) \<Longrightarrow>
    echo_life os inq outq interest arrived before srv rest w0 (w\<lparr>env := (env w)\<lparr>kern := k\<rparr>\<rparr>)"

lemma echo_inv_loop: "echo_inv interest inq outq arrived before (w\<lparr>localEventLoop := l\<rparr>) = echo_inv interest inq outq arrived before w"
proof -
  have "registered interest (w\<lparr>localEventLoop := l\<rparr>) = registered interest w" by (simp add: registered_def)
  then show ?thesis by (simp add: echo_inv_def server_inv_def conn_inv_def conn_ok_def)
qed

lemma echo_life_inv:
  assumes ok: "echo_os os inq outq interest arrived before" "echo_server os srv" "echo_others_ok interest inq outq arrived before rest"
    and inv: "echo_inv interest inq outq arrived before w0" and life: "echo_life os inq outq interest arrived before srv rest w0 w"
  shows "echo_inv interest inq outq arrived before w"
  using life
proof induction
  case start
  show ?case by (rule inv)
next
  case (pass w l answer w')
  have "echo_os os inq outq interest arrived before \<and> echo_server os srv \<and> echo_others_ok interest inq outq arrived before rest"
    using ok by blast
  from echo_loop.pass_keeps [OF this, of "w\<lparr>localEventLoop := l\<rparr>" "loop_ep w l" answer] pass
  show ?case by (simp add: echo_inv_loop)
next
  case (kernel w k)
  note i = echo_invD [OF kernel.IH]
  have "server_inv interest (w\<lparr>env := (env w)\<lparr>kern := k\<rparr>\<rparr>)"
    by (rule server_inv_env [OF i(1)]) (simp add: kernel.hyps(2))
  moreover have "echo_account inq outq arrived before x k" if x: "conns w c = Some x" for c x
  proof -
    obtain s where s: "outq (sockfd x) (kern (env w)) = before (sockfd x) (kern (env w)) @ s" "contents (readBuffer x) = []"
      "s @ contents (writeBuffer x) @ inq (sockfd x) (kern (env w)) = arrived (sockfd x) (kern (env w))"
      using i(2) [OF x] by (auto simp: echo_account_def)
    obtain more where m: "outq (sockfd x) k = outq (sockfd x) (kern (env w))" "before (sockfd x) k = before (sockfd x) (kern (env w))"
      "inq (sockfd x) k = inq (sockfd x) (kern (env w)) @ more" "arrived (sockfd x) k = arrived (sockfd x) (kern (env w)) @ more"
      using kernel.hyps(3) by blast
    have "s @ contents (writeBuffer x) @ inq (sockfd x) k = arrived (sockfd x) k"
      unfolding m(3,4) s(3) [symmetric] by simp
    moreover have "0 < sockfd x" using i(2) [OF x] by (simp add: echo_account_def)
    ultimately show ?thesis using s(1,2) m(1,2) by (auto simp: echo_account_def)
  qed
  ultimately show ?case by (simp add: echo_inv_def)
qed

text \<open>\<open>main\<close> establishes the invariant from which the life begins.\<close>

lemma pingpong_starts:
  assumes eo: "echo_os os inq outq interest arrived before" and sos: "sock_contract sos outq interest"
    and inv: "server_inv interest w" and empty: "conns w = Map.empty"
    and run: "pingpong_main os sos eventfd raise_limit get_limit addr l w = Inr (srv, w')" and f: "0 \<le> listenfd srv"
    and evfd: "\<And>k. \<exists>g k'. eventfd k = (Inr g, k') \<and> g \<noteq> listenfd srv \<and>
      (\<forall>ep. interest ep k' = interest ep k \<and> interest ep k g = None)"
    and limit: "\<And>k ep. interest ep (snd (raise_limit k)) = interest ep k"
      "\<And>k ep. interest ep (snd (get_limit k)) = interest ep k"
  shows "echo_server os srv \<and> echo_inv interest inq outq arrived before w'"
proof -
  obtain r e where lim: "setMaxFiles raise_limit 1048576 (env w) = (r, e)" by fastforce
  define e1 where "e1 = (if r < 0 then add_log (Sys ''getMaxFiles error'') e else e)"
  obtain n e2 where get: "getMaxFiles get_limit e1 = (n, e2)" by fastforce
  obtain g e3 where sock: "makeNewSocket sos e2 = (g, e3)" by fastforce
  obtain p w1 where w1: "new_tcp_server os sos eventfd raise_limit False (pingpong_server os g) addr l (w\<lparr>env := e3\<rparr>) = Inr (p, w1)"
    "srv = pingpong_server os g" "server_start sos srv 3 w1 = Inr w'"
    using run lim get sock by (auto simp: pingpong_main_def e1_def [symmetric] Let_def)
  have g: "listenfd srv = g" by (simp add: w1(2) pingpong_server_def setConnMsgCallback_def)
  have i1: "interest ep (kern e1) = interest ep (kern (env w))" for ep
    using lim limit(1) [of ep "kern (env w)"] by (auto simp: setMaxFiles_def e1_def split: prod.splits option.splits)
  have i2: "interest ep (kern e2) = interest ep (kern e1)" for ep
    using get limit(2) [of ep "kern e1"] by (auto simp: getMaxFiles_def split: prod.splits)
  note i3 = socket_interest(2) [OF sos sock]
  have inv0: "server_inv interest (w\<lparr>env := e3\<rparr>)" by (rule server_inv_env [OF inv]) (simp add: i1 i2 i3)
  have fresh: "interest ep (kern (env (w\<lparr>env := e3\<rparr>))) (listenfd srv) = None" for ep
  proof (rule makeNewSocket_cases [of sos e2])
    show ?thesis if "sys_socket sos (kern e2) = (Inr h, k)" "makeNewSocket sos e2 = (h, e2\<lparr>kern := k\<rparr>)" for h k
      using sock_contractD(8) [OF sos that(1)] that(2) sock i3 g by simp
    show ?thesis if "makeNewSocket sos e2 = (- 1, add_log (Sys ''socket error'') (e2\<lparr>kern := k\<rparr>))" for k
      using that sock f g by simp
  qed
  obtain w2 where w2: "new_tcp_server os sos eventfd raise_limit False srv addr l (w\<lparr>env := e3\<rparr>) = Inr (Suc (next_ev w), w2)"
    "server_inv interest w2" "conns w2 = conns w"
    using new_tcp_server_spec [OF echo_osD(1) [OF eo] sos inv0 evfd limit(1) fresh, of False addr l] by auto
  then have "w2 = w1" using w1(1,2) by simp
  then have "server_inv interest w'" "conns w' = Map.empty"
    using server_start_inv [OF sos _ w1(3)] w2(2,3) w1(3) empty by (auto simp: server_start_def Let_def)
  then show ?thesis using pingpong_server_echoes w1(2) by (simp add: echo_inv_def)
qed

text \<open>
  C7: The ping-pong server, from end to end.  Whatever the order of passes, arrivals and partial writes, on every live
  connection what was sent back, followed by what waits in its buffer and what the kernel holds unread, is exactly
  what its client has sent: nothing is lost, repeated, reordered or sent to another client.  When an event destroys a
  connection, everything that was read from it has been sent back.
\<close>

theorem echo_server_conserves:
  assumes "echo_os os inq outq interest arrived before" and "echo_server os srv" and "echo_others_ok interest inq outq arrived before rest"
    and "echo_inv interest inq outq arrived before w0" and "echo_life os inq outq interest arrived before srv rest w0 w"
    and "conns w c = Some x"
  shows "(\<exists>sent. outq (sockfd x) (kern (env w)) = before (sockfd x) (kern (env w)) @ sent \<and>
      sent @ contents (writeBuffer x) @ inq (sockfd x) (kern (env w)) = arrived (sockfd x) (kern (env w))) \<and>
    (\<forall>cb \<in> {Cb_conn_msg c, Cb_send_nonblock c}. \<forall>w'. server_callback os srv rest cb w = Inr w' \<longrightarrow> conns w' c = None \<longrightarrow>
      (\<exists>sent. outq (sockfd x) (kern (env w')) = before (sockfd x) (kern (env w)) @ sent \<and>
         sent @ inq (sockfd x) (kern (env w)) = arrived (sockfd x) (kern (env w))))"
proof -
  have inv: "echo_inv interest inq outq arrived before w" by (rule echo_life_inv [OF assms(1-5)])
  note i = echo_invD [OF inv]
  obtain s where s: "outq (sockfd x) (kern (env w)) = before (sockfd x) (kern (env w)) @ s"
    "s @ contents (writeBuffer x) @ inq (sockfd x) (kern (env w)) = arrived (sockfd x) (kern (env w))"
    using i(2) [OF assms(6)] by (auto simp: echo_account_def)
  have "\<exists>sent. outq (sockfd x) (kern (env w')) = before (sockfd x) (kern (env w)) @ sent \<and>
      sent @ inq (sockfd x) (kern (env w)) = arrived (sockfd x) (kern (env w))"
    if cb: "cb \<in> {Cb_conn_msg c, Cb_send_nonblock c}" and run: "server_callback os srv rest cb w = Inr w'" and gone: "conns w' c = None"
    for cb w'
  proof -
    have "passes_on inq outq arrived before c x w w'"
      using cb run message_passes_on [OF assms(1,2) server_invD(1) [OF i(1)] assms(6) server_invD(2) [OF i(1) assms(6)]]
        send_passes_on [OF assms(1,2) server_invD(1) [OF i(1)] assms(6) server_invD(2) [OF i(1) assms(6)]]
      by (auto simp: server_callback_def)
    then have "outq (sockfd x) (kern (env w')) = before (sockfd x) (kern (env w)) @ (s @ contents (writeBuffer x))"
      using gone s(1) by (simp add: passes_on_def)
    then show ?thesis using s(2) by (metis append_assoc)
  qed
  then show ?thesis using s by blast
qed

text \<open>A kernel for the witness: it also notes what has arrived and what was sent before on a descriptor.\<close>

type_synonym echo_sim = "sim \<times> (fd \<Rightarrow> bytes) \<times> (fd \<Rightarrow> bytes)"

definition echo_call :: "(sim \<Rightarrow> 'b \<times> sim) \<Rightarrow> echo_sim \<Rightarrow> 'b \<times> echo_sim" where
  "echo_call call k = (case call (fst k) of (b, k1) \<Rightarrow> (b, (k1, snd k)))"

definition echo_accept :: "fd \<Rightarrow> echo_sim \<Rightarrow> (errno + fd) \<times> echo_sim" where
  "echo_accept f k =
     (case sim_accept f (fst k) of
        (Inl e, k1) \<Rightarrow> (Inl e, (k1, snd k))
      | (Inr c, k1) \<Rightarrow> (Inr c, (k1, (fst (snd k))(c := sim_inq c k1), (snd (snd k))(c := sim_outq c k1))))"

definition echo_sim_os :: "echo_sim os" where
  "echo_sim_os = \<lparr>sys_read = (\<lambda>f n. echo_call (sim_read f n)), sys_write = (\<lambda>f bs. echo_call (sim_write f bs)),
     sys_close = (\<lambda>f k. (sim_close f (fst k), snd k)), sys_accept = echo_accept,
     sys_getfl = (\<lambda>f k. (Inr 2, k)), sys_setfl = (\<lambda>f fl k. (None, k)),
     sys_epoll_ctl = (\<lambda>ep op f m. echo_call (sim_epoll_ctl ep op f m))\<rparr>"

lemma echo_sim_ok:
  "echo_os echo_sim_os (\<lambda>f k. sim_inq f (fst k)) (\<lambda>f k. sim_outq f (fst k)) (\<lambda>ep k. sim_interest ep (fst k))
     (\<lambda>f k. fst (snd k) f) (\<lambda>f k. snd (snd k) f)"
proof -
  have "stream_contract echo_sim_os (\<lambda>f k. sim_inq f (fst k)) (\<lambda>f k. sim_outq f (fst k))"
    using sim_stream_contract
    by (auto simp: stream_contract_def echo_sim_os_def echo_call_def split: prod.splits)
  moreover have "epoll_contract echo_sim_os (\<lambda>ep k. sim_interest ep (fst k))"
    using sim_epoll_contract
    by (auto simp: epoll_contract_def echo_sim_os_def echo_call_def split: prod.splits)
  moreover have "frame_contract echo_sim_os (\<lambda>f k. sim_inq f (fst k)) (\<lambda>f k. sim_outq f (fst k)) (\<lambda>ep k. sim_interest ep (fst k))"
    using sim_frame_contract unfolding frame_contract_def
    by (auto simp: echo_sim_os_def echo_call_def echo_accept_def split: prod.splits sum.splits) metis+
  moreover have "arrival_contract echo_sim_os (\<lambda>f k. sim_inq f (fst k)) (\<lambda>f k. fst (snd k) f)"
    "arrival_contract echo_sim_os (\<lambda>f k. sim_outq f (fst k)) (\<lambda>f k. snd (snd k) f)"
    by (auto simp: arrival_contract_def echo_sim_os_def echo_call_def echo_accept_def split: prod.splits sum.splits)
  ultimately show ?thesis by (simp add: echo_os_def os_contract_def)
qed

text \<open>Connection 0 with \<open>hi\<close> read and waiting, \<open>lo\<close> unread, and a kernel that takes one byte.\<close>

definition echo_demo_kern :: echo_sim where
  "echo_demo_kern =
     (sim_init\<lparr>sim_reg := [((3, 7), (demo_mask ''hi'', 0))], sim_wr := \<lambda>_. [WrBytes 1], sim_rd := \<lambda>_. [RdBytes ''lo'']\<rparr>,
      (\<lambda>_. ''hilo''), \<lambda>_. [])"

definition echo_demo :: "echo_sim sworld" where
  "echo_demo =
     \<lparr>env = \<lparr>kern = echo_demo_kern, logs = []\<rparr>, evs = [0 \<mapsto> demo_event ''hi''], next_ev = 1,
      conns = [0 \<mapsto> demo_conn ''hi''], next_conn = 1, loop_ep = (\<lambda>_. 3), localEventLoop = 1,
      closed_conns = Map.empty, pool = new_pool 1 []\<rparr>"

definition echo_demo_server :: "echo_sim server" where
  "echo_demo_server = \<lparr>listenfd = 4, codec = UNLIMITED_MODEL, connMsgCallback = Some (whenMsgArrived echo_sim_os),
     connEstaCallback = None, connCloseCallback = None\<rparr>"

lemma echo_demo_inv:
  "echo_inv (\<lambda>ep k. sim_interest ep (fst k)) (\<lambda>f k. sim_inq f (fst k)) (\<lambda>f k. sim_outq f (fst k))
     (\<lambda>f k. fst (snd k) f) (\<lambda>f k. snd (snd k) f) echo_demo"
proof -
  have i: "sim_interest ep (fst (kern (env echo_demo))) f = (if ep = 3 \<and> f = 7 then Some (demo_mask ''hi'', 0) else None)" for ep f
    by (auto simp: sim_interest_def echo_demo_def echo_demo_kern_def)
  have d: "evs echo_demo = [0 \<mapsto> demo_event ''hi'']" "conns echo_demo = [0 \<mapsto> demo_conn ''hi'']" "next_ev echo_demo = 1"
    "next_conn echo_demo = 1" "loop_ep echo_demo l = 3" for l by (simp_all add: echo_demo_def)
  have reg: "registered (\<lambda>ep k. sim_interest ep (fst k)) echo_demo"
    by (auto simp: registered_def i d demo_event_def split: if_splits)
  have ok: "conn_ok echo_demo 0 (demo_conn ''hi'')"
    by (auto simp: conn_ok_def demo_event_def isWritable_def demo_mask_def mask_defs
        cb_own_def named_conns_def d demo_conn_def new_conn_def contents_def buf_inv_def
        new_buffer_def IO_BUFFER_SIZE_def vec_max_def names_conn_def)
  have "server_inv (\<lambda>ep k. sim_interest ep (fst k)) echo_demo"
    using reg ok d by (auto simp: server_inv_def conn_inv_def split: if_splits)
  moreover have "echo_account (\<lambda>f k. sim_inq f (fst k)) (\<lambda>f k. sim_outq f (fst k)) (\<lambda>f k. fst (snd k) f) (\<lambda>f k. snd (snd k) f)
      (demo_conn ''hi'') (kern (env echo_demo))"
    by (simp add: echo_account_def echo_demo_def echo_demo_kern_def sim_inq_def sim_outq_def)
  ultimately show ?thesis by (auto simp: echo_inv_def d split: if_splits)
qed

lemma echo_demo_pass:
  "\<exists>w. loop_pass (server_callback echo_sim_os echo_demo_server (\<lambda>cb. Inr)) (Inr [(0x004, 0)]) (echo_demo\<lparr>localEventLoop := 1\<rparr>) = Inr w \<and>
     conns w 0 = Some ((demo_conn ''hi'')\<lparr>writeBuffer := \<lparr>vec = ''hi'', readIndex = 1, writeIndex = 2\<rparr>\<rparr>) \<and>
     fst (kern (env w)) = (fst echo_demo_kern)\<lparr>sim_wr := (\<lambda>_. [WrBytes 1])(7 := []), sim_out := (\<lambda>_. [])(7 := ''h'')\<rparr> \<and>
     snd (kern (env w)) = snd echo_demo_kern"
proof -
  have h: "handle ((demo_event ''hi'')\<lparr>revents := 4\<rparr>) = Some (Cb_send_nonblock 0)"
    by (simp add: handle_def demo_event_def and_flag_iff mask_defs)
  show ?thesis
    by (simp add: loop_pass_at_def poll_def echo_demo_def h server_callback_def send_nonblock_def echo_sim_os_def echo_call_def
        sim_write_def echo_demo_kern_def demo_conn_def new_conn_def peek_bytes_def readableBytes_def retrieve_def sz_sub_def
        peek_def block_at_def to_size_t_def retrieve_body_def sz_add_def Let_def upd_conn_def sim_init_def)
qed

text \<open>One byte is sent, then two more bytes arrive.\<close>

theorem echo_server_conserves_witness:
  "\<exists>w x sent. echo_life echo_sim_os (\<lambda>f k. sim_inq f (fst k)) (\<lambda>f k. sim_outq f (fst k)) (\<lambda>ep k. sim_interest ep (fst k))
      (\<lambda>f k. fst (snd k) f) (\<lambda>f k. snd (snd k) f) echo_demo_server (\<lambda>cb. Inr) echo_demo w \<and>
    conns w 0 = Some x \<and> contents (writeBuffer x) = ''i'' \<and> sim_inq 7 (fst (kern (env w))) = ''lo!'' \<and>
    sim_outq 7 (fst (kern (env w))) = sent \<and> sent @ ''i'' @ ''lo!'' = ''hilo!''"
proof -
  let ?inq = "\<lambda>f (k :: echo_sim). sim_inq f (fst k)" and ?outq = "\<lambda>f (k :: echo_sim). sim_outq f (fst k)"
    and ?int = "\<lambda>ep (k :: echo_sim). sim_interest ep (fst k)" and ?arr = "\<lambda>f (k :: echo_sim). fst (snd k) f"
    and ?bef = "\<lambda>f (k :: echo_sim). snd (snd k) f"
  let ?life = "echo_life echo_sim_os ?inq ?outq ?int ?arr ?bef echo_demo_server (\<lambda>cb. Inr) echo_demo"
  obtain w where w: "loop_pass (server_callback echo_sim_os echo_demo_server (\<lambda>cb. Inr)) (Inr [(0x004, 0)])
      (echo_demo\<lparr>localEventLoop := 1\<rparr>) = Inr w"
    "conns w 0 = Some ((demo_conn ''hi'')\<lparr>writeBuffer := \<lparr>vec = ''hi'', readIndex = 1, writeIndex = 2\<rparr>\<rparr>)"
    "fst (kern (env w)) = (fst echo_demo_kern)\<lparr>sim_wr := (\<lambda>_. [WrBytes 1])(7 := []), sim_out := (\<lambda>_. [])(7 := ''h'')\<rparr>"
    "snd (kern (env w)) = snd echo_demo_kern"
    using echo_demo_pass by blast
  have "?life w"
    by (rule echo_life.pass [OF echo_life.start _ w(1)])
      (auto simp: wait_answer_ok_def sim_interest_def echo_demo_def echo_demo_kern_def)
  define k where "k = ((fst (kern (env w)))\<lparr>sim_rd := \<lambda>_. [RdBytes ''lo'', RdBytes ''!'']\<rparr>, \<lambda>_ :: fd. ''hilo!'', \<lambda>_ :: fd. [] :: bytes)"
  let ?w = "w\<lparr>env := (env w)\<lparr>kern := k\<rparr>\<rparr>"
  have life: "?life ?w"
  proof (rule echo_life.kernel [OF \<open>?life w\<close>])
    show "?int ep k = ?int ep (kern (env w))" for ep by (simp add: k_def sim_interest_def fun_eq_iff)
    show "?outq f k = ?outq f (kern (env w)) \<and> ?bef f k = ?bef f (kern (env w)) \<and>
        (\<exists>more. ?inq f k = ?inq f (kern (env w)) @ more \<and> ?arr f k = ?arr f (kern (env w)) @ more)" for f
      by (rule conjI conjI exI [of _ "''!''"])+ (simp_all add: k_def w(3,4) sim_inq_def sim_outq_def echo_demo_kern_def)
  qed
  have c: "conns ?w 0 = Some ((demo_conn ''hi'')\<lparr>writeBuffer := \<lparr>vec = ''hi'', readIndex = 1, writeIndex = 2\<rparr>\<rparr>)"
    using w(2) by simp
  have srv: "echo_server echo_sim_os echo_demo_server" by (simp add: echo_server_def echo_demo_server_def)
  have others: "echo_others_ok ?int ?inq ?outq ?arr ?bef (\<lambda>cb. Inr)" by (simp add: echo_others_ok_def others_ok_def keeps_events_def)
  obtain sent where sent: "?outq 7 k = sent" "sent @ ''i'' @ ?inq 7 k = ''hilo!''"
    using echo_server_conserves [OF echo_sim_ok srv others echo_demo_inv life c]
    by (auto simp: contents_def k_def)
  have q: "?inq 7 k = ''lo!''" by (simp add: k_def sim_inq_def)
  show ?thesis
  proof (rule exI [of _ ?w], rule exI, rule exI [of _ sent], intro conjI)
    show "?life ?w" by (rule life)
    show "conns ?w 0 = Some ((demo_conn ''hi'')\<lparr>writeBuffer := \<lparr>vec = ''hi'', readIndex = 1, writeIndex = 2\<rparr>\<rparr>)" by (rule c)
    show "sent @ ''i'' @ ''lo!'' = ''hilo!''" using sent(2) unfolding q .
  qed (use q sent(1) in \<open>simp_all add: contents_def\<close>)
qed

end
