(* ===== verification/HttpServer.thy ===== *)
theory HttpServer imports ServerCorrect begin

section \<open>HttpServer.h: parsing requests in place, answering them\<close>

text \<open>
  The HTTP server parses a request inside the read buffer: fields are ended by null characters
  written over their separators and named by pointers.  A pointer is an index into the buffer's
  vector; following it beyond the vector is \<open>Out_of_bounds\<close>.  The lemmas describe the parser on a
  memory \<open>A @ x @ c # B\<close> with the pointer at \<open>length A\<close>; the properties are the round trip of a
  printed request and what happens to requests that are not of that shape.
\<close>

subsection \<open>Data\<close>

record http_request =
  req_method :: nat
  req_url :: nat
  req_version :: nat
  req_headers :: "(nat \<times> nat) list"

record http_response =
  response_line :: string
  resp_headers :: string
  response_body :: string

definition CRLF :: string where
  "CRLF = [CHR 0x0D, CHR 0x0A]"

abbreviation NUL :: char where "NUL \<equiv> CHR 0x00"
abbreviation CR :: char where "CR \<equiv> CHR 0x0D"
abbreviation LF :: char where "LF \<equiv> CHR 0x0A"
abbreviation SP :: char where "SP \<equiv> CHR 0x20"

subsection \<open>The parser\<close>

definition mem_at :: "bytes \<Rightarrow> nat \<Rightarrow> char res" where
  "mem_at v i = (if i < length v then Inr (v ! i) else Inl Out_of_bounds)"

text \<open>The loops \<open>while (...) ++ptr\<close>: move on to the first byte at which the loop stops.\<close>

function scan :: "(char \<Rightarrow> bool) \<Rightarrow> bytes \<Rightarrow> nat \<Rightarrow> nat res" where
  "scan stop v i =
     res_bind (mem_at v i) (\<lambda>c. if stop c then Inr i else scan stop v (Suc i))"
  by pat_completeness auto
termination
  by (relation "measure (\<lambda>(_, v, i). length v - i)") (auto simp: mem_at_def split: if_splits)

declare scan.simps [simp del]

definition readField :: "bytes \<Rightarrow> nat \<Rightarrow> char \<Rightarrow> (bytes \<times> nat) res" where
  "readField v ptr ch =
     res_bind (scan (\<lambda>c. c = ch) v ptr) (\<lambda>p.
       let v' = v[p := NUL] in
       res_bind (scan (\<lambda>c. c \<noteq> ch) v' (p + 1)) (\<lambda>q. Inr (v', q)))"

definition readLastField :: "bytes \<Rightarrow> nat \<Rightarrow> (bytes \<times> nat) res" where
  "readLastField v ptr =
     res_bind (scan (\<lambda>c. c = CR \<or> c = SP) v ptr) (\<lambda>p.
       let v' = v[p := NUL] in
       res_bind (scan (\<lambda>c. c \<noteq> SP) v' (p + 1)) (\<lambda>q.
         res_bind (mem_at v' q) (\<lambda>c.
           Inr (v', (if c = CR then q + 1 else q) + 1))))"

lemma scan_bounds: "scan stop v i = Inr j \<Longrightarrow> i \<le> j \<and> j < length v"
proof (induction stop v i rule: scan.induct)
  case (1 stop v i)
  from "1.prems" obtain c where c: "mem_at v i = Inr c"
    by (subst (asm) scan.simps) auto
  then have i: "i < length v" by (simp add: mem_at_def split: if_splits)
  show ?case
  proof (cases "stop c")
    case True
    with "1.prems" c i show ?thesis by (subst (asm) scan.simps) simp
  next
    case False
    with "1.prems" c have "scan stop v (Suc i) = Inr j" by (subst (asm) scan.simps) simp
    with "1.IH" [OF c False] show ?thesis by simp
  qed
qed

lemma readField_bounds:
  "readField v p ch = Inr (v', q) \<Longrightarrow> length v' = length v \<and> p < q \<and> q < length v"
  by (auto simp: readField_def Let_def dest!: scan_bounds)

lemma readLastField_bounds:
  "readLastField v p = Inr (v', q) \<Longrightarrow> length v' = length v \<and> p < q"
  by (auto simp: readLastField_def Let_def dest!: scan_bounds split: if_splits)

text \<open>The loop over the header lines; one line is \<open>header_line\<close>.\<close>

definition header_line :: "bytes \<Rightarrow> nat \<Rightarrow> (bytes \<times> nat \<times> (nat \<times> nat)) res" where
  "header_line v ptr =
     res_bind (readField v ptr (CHR '':'')) (\<lambda>(v1, p1).
       res_bind (scan (\<lambda>c. c \<noteq> SP) v1 p1) (\<lambda>p2.
         res_bind (readLastField v1 p2) (\<lambda>(v2, p3). Inr (v2, p3, (ptr, p2)))))"

lemma header_line_bounds:
  "header_line v p = Inr (v', q, kv) \<Longrightarrow> length v' = length v \<and> p < q"
  by (auto simp: header_line_def dest!: scan_bounds readField_bounds readLastField_bounds)

function header_lines :: "bytes \<Rightarrow> nat \<Rightarrow> (bytes \<times> nat \<times> (nat \<times> nat) list) res" where
  "header_lines v ptr =
     res_bind (mem_at v ptr) (\<lambda>c.
       if c = CR then Inr (v, ptr, [])
       else
         res_bind (header_line v ptr) (\<lambda>r.
           res_bind (header_lines (fst r) (fst (snd r))) (\<lambda>(v2, p2, kvs).
             Inr (v2, p2, snd (snd r) # kvs))))"
  by pat_completeness auto
termination
  by (relation "measure (\<lambda>(v, p). length v - p)")
    (auto simp: mem_at_def dest!: header_line_bounds split: if_splits)

declare header_lines.simps [simp del]

text \<open>The parsed request, the memory after it and the pointer behind it.\<close>

definition parse_request :: "bytes \<Rightarrow> nat \<Rightarrow> (http_request \<times> bytes \<times> nat) res" where
  "parse_request v ptr =
     res_bind (readField v ptr SP) (\<lambda>(v1, p1).
       res_bind (readField v1 p1 SP) (\<lambda>(v2, p2).
         res_bind (readLastField v2 p2) (\<lambda>(v3, p3).
           res_bind (header_lines v3 p3) (\<lambda>(v4, p4, kvs).
             res_bind (scan (\<lambda>c. c = NUL) v4 p4) (\<lambda>p5.
               Inr (\<lparr>req_method = ptr, req_url = p1, req_version = p2, req_headers = kvs\<rparr>, v4, p5 + 1))))))"

text \<open>The C string at a pointer.\<close>

definition c_string :: "bytes \<Rightarrow> nat \<Rightarrow> string res" where
  "c_string v p = res_bind (scan (\<lambda>c. c = NUL) v p) (\<lambda>q. Inr (block_at v p (q - p)))"

subsection \<open>Responses\<close>

definition new_response :: http_response where
  "new_response = \<lparr>response_line = ''HTTP/1.1 200 OK'' @ CRLF,
     resp_headers = ''content-type: text/html; charset=utf-8'' @ CRLF @ ''connection: close'' @ CRLF,
     response_body = []\<rparr>"

definition addHeader :: "string \<Rightarrow> string \<Rightarrow> http_response \<Rightarrow> http_response" where
  "addHeader key val r = r\<lparr>resp_headers := resp_headers r @ key @ '': '' @ val @ CRLF\<rparr>"

definition addBody :: "string \<Rightarrow> http_response \<Rightarrow> http_response" where
  "addBody body r = (addHeader ''content-length'' (to_string (length body)) r)\<lparr>response_body := body\<rparr>"

definition response_to_string :: "http_response \<Rightarrow> string" where
  "response_to_string r = response_line r @ resp_headers r @ CRLF @ response_body r"

definition bad_request_head :: string where
  "bad_request_head = ''HTTP/1.1 400 Bad Request'' @ CRLF @ ''content-type: text/html; charset=utf-8'' @ CRLF @
     ''content-length: 49'' @ CRLF @ ''connection: close'' @ CRLF"

definition bad_request_body :: string where
  "bad_request_body = ''<title>The Service haven't been provided.</title>'' @ CRLF"

definition line_text :: "string \<Rightarrow> string" where
  "line_text s = s @ [LF]"

definition quoted :: "string \<Rightarrow> string" where
  "quoted s = [CHR 0x22] @ s @ [CHR 0x22]"

definition welcome_page :: string where
  "welcome_page = concat (map line_text
     [''<!DOCTYPE html>'', ''<html>'', ''<head>'', ''<title>Welcome to Dagger!</title>'', ''<style>'', ''body {'',
      ''width: 35em;'', ''margin: 0 auto;'', ''font-family: Tahoma, Verdana, Arial, sans-serif;'', ''}'',
      ''</style>'', ''</head>'', ''<body>'', ''<h1>Welcome to nginx!</h1>'',
      ''<p>If you see this page, the nginx web server is successfully installed and'',
      ''working. Further configuration is required.</p>'', [],
      ''<p>For online documentation and support please refer to'',
      ''<a href='' @ quoted ''http://nginx.org/'' @ ''>nginx.org</a>.<br/>'',
      ''Commercial support is available at'',
      ''<a href='' @ quoted ''http://nginx.com/'' @ ''>nginx.com</a>.</p>'', [],
      ''<p><em>Thank you for using nginx.</em></p>'', ''</body>'']) @ ''</html>''"

text \<open>The answer when no service of that name is set.\<close>

definition answer_to :: "string \<Rightarrow> string" where
  "answer_to url =
     (if url = ''/'' then response_to_string (addBody welcome_page new_response)
      else bad_request_head @ CRLF @ bad_request_body)"

subsection \<open>The message callback of the server\<close>

text \<open>
  Parse, drop the request from the buffer, then run the service of that name or answer and close.
  The request's strings are read after the request has been dropped, from memory that is still as
  the parser left it.
\<close>

definition handleRequest ::
  "'k os \<Rightarrow> 'k server \<Rightarrow> (string \<rightharpoonup> 'k cb) \<Rightarrow> conn_id \<Rightarrow> 'k sworld \<Rightarrow> 'k sworld res" where
  "handleRequest os srv services conn w =
     res_bind (deref (conns w) conn) (\<lambda>x.
       res_bind (parse_request (vec (readBuffer x)) (peek (readBuffer x))) (\<lambda>(req, v, ptr).
         let b = (readBuffer x)\<lparr>vec := v\<rparr> in
         res_bind (retrieve b (sz_sub ptr (peek b))) (\<lambda>(_, b').
           let w1 = upd_conn conn (x\<lparr>readBuffer := b'\<rparr>) w in
           res_bind (c_string v (req_url req)) (\<lambda>url.
             case services url of
               Some handler \<Rightarrow> handler conn w1
             | None \<Rightarrow> res_bind (send_data os conn (answer_to url) w1) (activeClose os srv conn)))))"

subsection \<open>Scanning a memory in pieces\<close>

lemma scan_step:
  assumes "i < length v" and "\<not> stop (v ! i)"
  shows "scan stop v i = scan stop v (Suc i)"
  using assms by (subst scan.simps) (simp add: mem_at_def)

lemma scan_stop:
  assumes "i < length v" and "stop (v ! i)"
  shows "scan stop v i = Inr i"
  using assms by (subst scan.simps) (simp add: mem_at_def)

lemma scan_end: "scan stop v (length v) = Inl Out_of_bounds"
  by (subst scan.simps) (simp add: mem_at_def)

lemma scan_skip:
  "(\<And>c. c \<in> set x \<Longrightarrow> \<not> stop c) \<Longrightarrow>
     scan stop (A @ x @ B) (length A) = scan stop (A @ x @ B) (length A + length x)"
proof (induction x arbitrary: A)
  case Nil
  then show ?case by simp
next
  case (Cons c x)
  have "scan stop (A @ (c # x) @ B) (length A) = scan stop (A @ (c # x) @ B) (Suc (length A))"
    using Cons.prems by (intro scan_step) (simp_all add: nth_append)
  also have "\<dots> = scan stop ((A @ [c]) @ x @ B) (length (A @ [c]))" by simp
  also have "\<dots> = scan stop ((A @ [c]) @ x @ B) (length (A @ [c]) + length x)"
    by (rule Cons.IH, rule Cons.prems) simp
  finally show ?case by simp
qed

text \<open>The two outcomes of a scan: it stops behind \<open>x\<close>, or runs off the end of the memory.\<close>

lemma scan_at:
  assumes "\<And>c. c \<in> set x \<Longrightarrow> \<not> stop c" and "stop d"
  shows "scan stop (A @ x @ d # B) (length A) = Inr (length A + length x)"
proof -
  have "scan stop (A @ x @ d # B) (length A) = scan stop (A @ x @ d # B) (length A + length x)"
    using assms(1) by (rule scan_skip)
  also have "\<dots> = Inr (length A + length x)"
    using assms(2) by (intro scan_stop) (simp_all add: nth_append)
  finally show ?thesis .
qed

lemma scan_off:
  assumes "\<And>c. c \<in> set x \<Longrightarrow> \<not> stop c"
  shows "scan stop (A @ x) (length A) = Inl Out_of_bounds"
  using scan_skip [of x stop A "[]"] assms scan_end [of stop "A @ x"] by simp

lemma scan_here:
  "stop d \<Longrightarrow> scan stop (A @ d # B) (length A) = Inr (length A)"
  using scan_at [of "[]" stop d A B] by simp

lemma list_update_piece: "(A @ x @ d # B)[length A + length x := e] = A @ x @ e # B"
  by (simp add: list_update_append)

lemma readField_piece:
  assumes "ch \<notin> set x" and "d \<noteq> ch"
  shows "readField (A @ x @ ch # d # B) (length A) ch =
    Inr ((A @ x @ [NUL]) @ d # B, length (A @ x @ [NUL]))"
proof -
  have "scan (\<lambda>c. c = ch) (A @ x @ ch # d # B) (length A) = Inr (length A + length x)"
    using assms(1) by (intro scan_at) auto
  moreover have "scan (\<lambda>c. c \<noteq> ch) ((A @ x @ [NUL]) @ d # B) (length (A @ x @ [NUL])) = Inr (length (A @ x @ [NUL]))"
    using assms(2) by (intro scan_here) simp
  ultimately show ?thesis
    by (simp add: readField_def list_update_piece Let_def)
qed

text \<open>A field that ends at a carriage return: the line feed behind it is skipped.\<close>

lemma readLastField_piece:
  assumes "CR \<notin> set x" and "SP \<notin> set x"
  shows "readLastField (A @ x @ CR # LF # B) (length A) =
    Inr ((A @ x @ [NUL, LF]) @ B, length (A @ x @ [NUL, LF]))"
proof -
  have "scan (\<lambda>c. c = CR \<or> c = SP) (A @ x @ CR # LF # B) (length A) = Inr (length A + length x)"
    using assms by (intro scan_at) auto
  moreover have "scan (\<lambda>c. c \<noteq> SP) ((A @ x @ [NUL]) @ LF # B) (length (A @ x @ [NUL])) = Inr (length (A @ x @ [NUL]))"
    by (intro scan_here) simp
  ultimately show ?thesis
    by (simp add: readLastField_def list_update_piece Let_def mem_at_def nth_append)
qed

text \<open>A field that ends at a space with something behind it: one character is skipped.\<close>

lemma readLastField_space:
  assumes "CR \<notin> set x" and "SP \<notin> set x" and "c \<noteq> SP" and "c \<noteq> CR"
  shows "readLastField (A @ x @ SP # c # B) (length A) =
    Inr ((A @ x @ [NUL]) @ c # B, length (A @ x @ [NUL]) + 1)"
proof -
  have "scan (\<lambda>c. c = CR \<or> c = SP) (A @ x @ SP # c # B) (length A) = Inr (length A + length x)"
    using assms by (intro scan_at) auto
  moreover have "scan (\<lambda>c. c \<noteq> SP) ((A @ x @ [NUL]) @ c # B) (length (A @ x @ [NUL])) = Inr (length (A @ x @ [NUL]))"
    using assms(3) by (intro scan_here) simp
  ultimately show ?thesis
    using assms(4) by (simp add: readLastField_def list_update_piece Let_def mem_at_def nth_append)
qed

subsection \<open>The parser on a printed request\<close>

text \<open>
  A header line as it is sent and as the parser leaves it in memory, the pointers it makes for the
  lines from address \<open>n\<close> on, and the fields for which this works: a header value with a space in it
  does not (see the last property).
\<close>

fun hdr_text :: "string \<times> string \<Rightarrow> string" where
  "hdr_text (k, v) = k @ '': '' @ v @ CRLF"

fun hdr_mem :: "string \<times> string \<Rightarrow> bytes" where
  "hdr_mem (k, v) = k @ [NUL, SP] @ v @ [NUL, LF]"

fun hdr_ptrs :: "nat \<Rightarrow> (string \<times> string) list \<Rightarrow> (nat \<times> nat) list" where
  "hdr_ptrs n [] = []"
| "hdr_ptrs n ((k, v) # hs) = (n, n + length k + 2) # hdr_ptrs (n + length (hdr_text (k, v))) hs"

definition print_request :: "string \<Rightarrow> string \<Rightarrow> string \<Rightarrow> (string \<times> string) list \<Rightarrow> string" where
  "print_request m u ver hs = m @ [SP] @ u @ [SP] @ ver @ CRLF @ concat (map hdr_text hs) @ CRLF"

definition word_ok :: "string \<Rightarrow> bool" where
  "word_ok x \<longleftrightarrow> NUL \<notin> set x \<and> CR \<notin> set x \<and> SP \<notin> set x"

definition key_ok :: "string \<Rightarrow> bool" where
  "key_ok k \<longleftrightarrow> k \<noteq> [] \<and> NUL \<notin> set k \<and> CR \<notin> set k \<and> CHR '':'' \<notin> set k"

lemma length_hdr_mem [simp]: "length (hdr_mem h) = length (hdr_text h)"
  by (cases h) (simp add: CRLF_def)

lemma length_concat_hdr [simp]: "length (concat (map hdr_mem hs)) = length (concat (map hdr_text hs))"
  by (induction hs) simp_all

lemma header_line_piece:
  assumes k: "key_ok k" and v: "word_ok v"
  shows "header_line (A @ hdr_text (k, v) @ B) (length A) =
    Inr (A @ hdr_mem (k, v) @ B, length A + length (hdr_text (k, v)), (length A, length A + length k + 2))"
proof -
  obtain d y where d: "v @ CR # LF # B = d # y" "d \<noteq> SP"
    using v by (cases v) (auto simp: word_ok_def)
  let ?A1 = "A @ k @ [NUL]" and ?A2 = "A @ k @ [NUL, SP]"
  have "readField (A @ k @ CHR '':'' # SP # v @ CR # LF # B) (length A) (CHR '':'') =
      Inr (?A1 @ SP # v @ CR # LF # B, length ?A1)"
    using k by (intro readField_piece) (simp_all add: key_ok_def)
  moreover have "scan (\<lambda>c. c \<noteq> SP) (?A1 @ SP # v @ CR # LF # B) (length ?A1) = Inr (length ?A2)"
    using scan_at [of "[SP]" "\<lambda>c. c \<noteq> SP" d ?A1 y] d by simp
  moreover have "readLastField (?A2 @ v @ CR # LF # B) (length ?A2) =
      Inr ((?A2 @ v @ [NUL, LF]) @ B, length (?A2 @ v @ [NUL, LF]))"
    using v by (intro readLastField_piece) (simp_all add: word_ok_def)
  ultimately show ?thesis
    by (simp add: header_line_def CRLF_def)
qed

lemma header_lines_piece:
  "(\<And>k v. (k, v) \<in> set hs \<Longrightarrow> key_ok k \<and> word_ok v) \<Longrightarrow>
     header_lines (A @ concat (map hdr_text hs) @ CR # B) (length A) =
       Inr (A @ concat (map hdr_mem hs) @ CR # B, length A + length (concat (map hdr_text hs)),
            hdr_ptrs (length A) hs)"
proof (induction hs arbitrary: A)
  case Nil
  then show ?case by (subst header_lines.simps) (simp add: mem_at_def nth_append)
next
  case (Cons h hs)
  obtain k v where h: "h = (k, v)" by (cases h)
  have kv: "key_ok k" "word_ok v" using Cons.prems h by auto
  let ?R = "concat (map hdr_text hs) @ CR # B"
  obtain c k' where k: "k = c # k'" "c \<noteq> CR" using kv(1) by (cases k) (auto simp: key_ok_def)
  have at: "mem_at (A @ hdr_text h @ ?R) (length A) = Inr c"
    by (simp add: h k mem_at_def nth_append)
  have line: "header_line (A @ hdr_text h @ ?R) (length A) =
      Inr (A @ hdr_mem h @ ?R, length A + length (hdr_text h), (length A, length A + length k + 2))"
    using header_line_piece [OF kv] h by simp
  have rest: "header_lines ((A @ hdr_mem h) @ ?R) (length (A @ hdr_mem h)) =
      Inr ((A @ hdr_mem h) @ concat (map hdr_mem hs) @ CR # B,
           length (A @ hdr_mem h) + length (concat (map hdr_text hs)), hdr_ptrs (length (A @ hdr_mem h)) hs)"
    by (rule Cons.IH, rule Cons.prems) simp
  have "header_lines (A @ hdr_text h @ ?R) (length A) =
      Inr (A @ hdr_mem h @ concat (map hdr_mem hs) @ CR # B,
           length A + length (hdr_text h) + length (concat (map hdr_text hs)),
           (length A, length A + length k + 2) # hdr_ptrs (length A + length (hdr_text h)) hs)"
    using at k(2) line rest by (subst header_lines.simps) simp
  then show ?case by (simp add: h add.assoc)
qed

text \<open>The memory the parser leaves.\<close>

definition request_mem :: "string \<Rightarrow> string \<Rightarrow> string \<Rightarrow> (string \<times> string) list \<Rightarrow> bytes" where
  "request_mem m u ver hs =
     m @ [NUL] @ u @ [NUL] @ ver @ [NUL, LF] @ concat (map hdr_mem hs) @ [CR, NUL]"

lemma parse_request_piece:
  assumes m: "word_ok m" and u: "word_ok u" "u \<noteq> []" and ver: "word_ok ver"
    and hs: "\<And>k v. (k, v) \<in> set hs \<Longrightarrow> key_ok k \<and> word_ok v"
  shows "parse_request (A @ (m @ [SP] @ u @ [SP] @ ver @ CRLF @ concat (map hdr_text hs) @ [CR, NUL]) @ B) (length A) =
    Inr (\<lparr>req_method = length A, req_url = length A + length m + 1,
          req_version = length A + length m + length u + 2,
          req_headers = hdr_ptrs (length A + length m + length u + length ver + 4) hs\<rparr>,
         A @ request_mem m u ver hs @ B, length A + length (print_request m u ver hs))"
proof -
  let ?H = "concat (map hdr_text hs)" and ?M = "concat (map hdr_mem hs)"
  let ?A1 = "A @ m @ [NUL]"
  let ?A2 = "?A1 @ u @ [NUL]"
  let ?A3 = "?A2 @ ver @ [NUL, LF]"
  let ?R3 = "?H @ CR # NUL # B" and ?R2 = "ver @ CR # LF # ?H @ CR # NUL # B"
  obtain d y where d: "u @ SP # ?R2 = d # y" "d \<noteq> SP"
    using u by (cases u) (auto simp: word_ok_def)
  obtain d' y' where d': "?R2 = d' # y'" "d' \<noteq> SP"
    using ver by (cases ver) (auto simp: word_ok_def)
  have 1: "readField (A @ m @ SP # u @ SP # ?R2) (length A) SP = Inr (?A1 @ u @ SP # ?R2, length ?A1)"
    using m d readField_piece [of SP m d A y] by (simp add: word_ok_def)
  have 2: "readField (?A1 @ u @ SP # ?R2) (length ?A1) SP = Inr (?A2 @ ?R2, length ?A2)"
    using u d' readField_piece [of SP u d' ?A1 y'] by (simp add: word_ok_def)
  have 3: "readLastField (?A2 @ ?R2) (length ?A2) = Inr (?A3 @ ?R3, length ?A3)"
    using ver readLastField_piece [of ver ?A2 ?R3] by (simp add: word_ok_def)
  have 4: "header_lines (?A3 @ ?R3) (length ?A3) =
      Inr (?A3 @ ?M @ CR # NUL # B, length ?A3 + length ?H, hdr_ptrs (length ?A3) hs)"
    using hs by (rule header_lines_piece)
  have 5: "scan (\<lambda>c. c = NUL) ((?A3 @ ?M) @ [CR] @ NUL # B) (length (?A3 @ ?M)) =
      Inr (length (?A3 @ ?M) + length [CR])"
    by (rule scan_at) simp_all
  show ?thesis
    using 1 2 3 4 5
    by (simp add: parse_request_def request_mem_def print_request_def CRLF_def add.assoc eval_nat_numeral)
qed

lemma c_string_piece:
  assumes "NUL \<notin> set x"
  shows "c_string (A @ x @ NUL # B) (length A) = Inr x"
proof -
  have "scan (\<lambda>c. c = NUL) (A @ x @ NUL # B) (length A) = Inr (length A + length x)"
    using assms by (intro scan_at) auto
  then show ?thesis by (simp add: c_string_def block_at_def)
qed

lemma hdr_ptrs_strings:
  "(\<And>k v. (k, v) \<in> set hs \<Longrightarrow> key_ok k \<and> word_ok v) \<Longrightarrow>
     map (\<lambda>(p, q). (c_string (A @ concat (map hdr_mem hs) @ B) p, c_string (A @ concat (map hdr_mem hs) @ B) q))
       (hdr_ptrs (length A) hs) = map (\<lambda>(k, v). (Inr k, Inr v)) hs"
proof (induction hs arbitrary: A)
  case Nil
  then show ?case by simp
next
  case (Cons h hs)
  obtain k v where h: "h = (k, v)" by (cases h)
  have kv: "NUL \<notin> set k" "NUL \<notin> set v" using Cons.prems [of k v] h by (auto simp: key_ok_def word_ok_def)
  let ?R = "concat (map hdr_mem hs) @ B"
  have 1: "c_string (A @ hdr_mem h @ ?R) (length A) = Inr k"
    using c_string_piece [OF kv(1), of A "SP # v @ NUL # LF # ?R"] h by simp
  have 2: "c_string (A @ hdr_mem h @ ?R) (length A + length k + 2) = Inr v"
    using c_string_piece [OF kv(2), of "A @ k @ [NUL, SP]" "LF # ?R"] h by simp
  have 3: "map (\<lambda>(p, q). (c_string ((A @ hdr_mem h) @ ?R) p, c_string ((A @ hdr_mem h) @ ?R) q))
       (hdr_ptrs (length (A @ hdr_mem h)) hs) = map (\<lambda>(k, v). (Inr k, Inr v)) hs"
    by (rule Cons.IH, rule Cons.prems) simp
  show ?case using 1 2 3 by (simp add: h CRLF_def)
qed

subsection \<open>The codec in front of the parser\<close>

lemma memmem_skip_piece:
  "hd needle \<notin> set x \<Longrightarrow> needle \<noteq> [] \<Longrightarrow>
     memmem (x @ y) needle = map_option (\<lambda>i. length x + i) (memmem y needle)"
proof (induction x)
  case Nil
  then show ?case by (cases "memmem y needle") simp_all
next
  case (Cons c x)
  have "take (length needle) (c # x @ y) \<noteq> needle" using Cons.prems by (cases needle) auto
  then show ?case using Cons by (cases "memmem y needle") auto
qed

lemma memmem_line:
  assumes "CR \<notin> set x" and "d \<noteq> CR"
  shows "memmem (x @ CR # LF # d # y) CRLFCRLF = map_option (\<lambda>i. length x + 2 + i) (memmem (d # y) CRLFCRLF)"
proof -
  have "memmem (CR # LF # d # y) CRLFCRLF = map_option (\<lambda>i. 2 + i) (memmem (d # y) CRLFCRLF)"
    using assms(2) by (cases "memmem (d # y) CRLFCRLF") (auto simp: CRLFCRLF_def)
  then show ?thesis
    using memmem_skip_piece [of CRLFCRLF x "CR # LF # d # y"] assms(1)
    by (cases "memmem (d # y) CRLFCRLF") (auto simp: CRLFCRLF_def)
qed

lemma memmem_end:
  "CR \<notin> set x \<Longrightarrow> memmem (x @ CR # LF # CR # LF # y) CRLFCRLF = Some (length x)"
  using memmem_skip_piece [of CRLFCRLF x "CR # LF # CR # LF # y"] by (simp add: CRLFCRLF_def)

text \<open>The first empty line of a printed request is its last line.\<close>

lemma memmem_lines:
  "CR \<notin> set x \<Longrightarrow> (\<And>k v. (k, v) \<in> set hs \<Longrightarrow> key_ok k \<and> word_ok v) \<Longrightarrow>
     memmem (x @ CRLF @ concat (map hdr_text hs) @ CRLF @ B) CRLFCRLF =
       Some (length x + length (concat (map hdr_text hs)))"
proof (induction hs arbitrary: x)
  case Nil
  then show ?case by (simp add: CRLF_def memmem_end)
next
  case (Cons h hs)
  obtain k v where h: "h = (k, v)" by (cases h)
  have kv: "key_ok k" "word_ok v" using Cons.prems(2) h by auto
  obtain c k' where k: "k = c # k'" "c \<noteq> CR" using kv(1) by (cases k) (auto simp: key_ok_def)
  have "memmem ((k @ '': '' @ v) @ CRLF @ concat (map hdr_text hs) @ CRLF @ B) CRLFCRLF =
      Some (length (k @ '': '' @ v) + length (concat (map hdr_text hs)))"
    using kv by (intro Cons.IH, simp add: key_ok_def word_ok_def) (rule Cons.prems(2), simp)
  then show ?case
    using memmem_line [OF Cons.prems(1) k(2), of "k' @ '': '' @ v @ CRLF @ concat (map hdr_text hs) @ CRLF @ B"]
    by (simp add: h k(1) CRLF_def)
qed

lemma vec_split:
  "buf_inv b \<Longrightarrow> vec b = take (readIndex b) (vec b) @ contents b @ drop (writeIndex b) (vec b)"
  using buf_inv_bounds [of b]
  by (simp add: contents_def) (metis append_take_drop_id drop_drop le_add_diff_inverse2)

lemma contents_pieces:
  "length A = readIndex b \<Longrightarrow> length x = writeIndex b - readIndex b \<Longrightarrow>
     contents (b\<lparr>vec := A @ x @ Z\<rparr>) = x"
  by (simp add: contents_def)

text \<open>What the codec leaves of a complete request: the last byte is a null character.\<close>

lemma codec_on_request:
  assumes inv: "buf_inv b" and con: "contents b = print_request m u ver hs @ rest"
    and ok: "word_ok m" "word_ok u" "word_ok ver" "\<And>k v. (k, v) \<in> set hs \<Longrightarrow> key_ok k \<and> word_ok v"
  obtains b' where "codec_check (HTTP_MODEL d) b = (True, b', [])" "buf_inv b'"
    "readIndex b' = readIndex b" "writeIndex b' = writeIndex b"
    "vec b' = take (readIndex b) (vec b) @
       (m @ [SP] @ u @ [SP] @ ver @ CRLF @ concat (map hdr_text hs) @ [CR, NUL]) @ rest @ drop (writeIndex b) (vec b)"
proof -
  let ?H = "concat (map hdr_text hs)" and ?x = "m @ [SP] @ u @ [SP] @ ver"
  let ?A = "take (readIndex b) (vec b)" and ?Z = "drop (writeIndex b) (vec b)"
  have lenA: "length ?A = readIndex b" using buf_inv_bounds [OF inv] by simp
  define i where "i = length ?x + length ?H"
  have "memmem (?x @ CRLF @ ?H @ CRLF @ rest) CRLFCRLF = Some i"
    unfolding i_def using ok(1-3) by (intro memmem_lines, simp add: word_ok_def) (rule ok(4))
  then have f: "findStr b CRLFCRLF = Some (readIndex b + i)"
    by (simp add: findStr_def peek_all [OF inv] con print_request_def peek_def)
  define b' where "b' = b\<lparr>vec := (vec b)[readIndex b + (i + 3) := NUL]\<rparr>"
  have chk: "codec_check (HTTP_MODEL d) b = (True, b', [])"
    using f by (simp add: http_request_default_callback_def b'_def add.assoc)
  have i: "i + 3 < length (contents b)" by (simp add: con print_request_def CRLF_def i_def)
  have "vec b = (?A @ ?x @ CRLF @ ?H @ [CR]) @ [] @ LF # rest @ ?Z"
    using vec_split [OF inv] con by (simp add: print_request_def CRLF_def)
  moreover have "length (?A @ ?x @ CRLF @ ?H @ [CR]) + length ([] :: bytes) = readIndex b + (i + 3)"
    using lenA by (simp add: CRLF_def i_def)
  ultimately have "(vec b)[readIndex b + (i + 3) := NUL] = (?A @ ?x @ CRLF @ ?H @ [CR]) @ [] @ NUL # rest @ ?Z"
    using list_update_piece [of "?A @ ?x @ CRLF @ ?H @ [CR]" "[]" LF "rest @ ?Z" NUL] by metis
  then show ?thesis
    using chk contents_update(2) [OF inv i, of NUL] by (intro that [of b']) (simp_all add: b'_def)
qed

text \<open>The pointers of a request parsed at address \<open>n\<close>, and the strings they point to.\<close>

definition request_ptrs :: "nat \<Rightarrow> string \<Rightarrow> string \<Rightarrow> string \<Rightarrow> (string \<times> string) list \<Rightarrow> http_request" where
  "request_ptrs n m u ver hs = \<lparr>req_method = n, req_url = n + length m + 1,
     req_version = n + length m + length u + 2,
     req_headers = hdr_ptrs (n + length m + length u + length ver + 4) hs\<rparr>"

definition request_reads :: "bytes \<Rightarrow> http_request \<Rightarrow> string \<Rightarrow> string \<Rightarrow> string \<Rightarrow> (string \<times> string) list \<Rightarrow> bool" where
  "request_reads v req m u ver hs \<longleftrightarrow>
     c_string v (req_method req) = Inr m \<and> c_string v (req_url req) = Inr u \<and>
     c_string v (req_version req) = Inr ver \<and>
     map (\<lambda>(p, q). (c_string v p, c_string v q)) (req_headers req) = map (\<lambda>(k, v). (Inr k, Inr v)) hs"

lemma request_ptrs_read:
  assumes "word_ok m" "word_ok u" "word_ok ver"
    and hs: "\<And>k v. (k, v) \<in> set hs \<Longrightarrow> key_ok k \<and> word_ok v"
  shows "request_reads (A @ request_mem m u ver hs @ B) (request_ptrs (length A) m u ver hs) m u ver hs"
proof -
  let ?M = "concat (map hdr_mem hs)"
  have nul: "NUL \<notin> set m" "NUL \<notin> set u" "NUL \<notin> set ver" using assms(1-3) by (simp_all add: word_ok_def)
  show ?thesis
    using c_string_piece [OF nul(1), of A "u @ [NUL] @ ver @ [NUL, LF] @ ?M @ [CR, NUL] @ B"]
      c_string_piece [OF nul(2), of "A @ m @ [NUL]" "ver @ [NUL, LF] @ ?M @ [CR, NUL] @ B"]
      c_string_piece [OF nul(3), of "A @ m @ [NUL] @ u @ [NUL]" "LF # ?M @ [CR, NUL] @ B"]
      hdr_ptrs_strings [OF hs, of hs "A @ m @ [NUL] @ u @ [NUL] @ ver @ [NUL, LF]" "[CR, NUL] @ B"]
    by (simp add: request_reads_def request_ptrs_def request_mem_def add.assoc eval_nat_numeral)
qed

text \<open>Overwriting the data in place and dropping a front piece of it.\<close>

lemma retrieve_front:
  assumes inv: "buf_inv b" and same: "readIndex b' = readIndex b" "writeIndex b' = writeIndex b"
    and v: "v = take (readIndex b) (vec b) @ (x @ y) @ drop (writeIndex b) (vec b)"
    and len: "length (x @ y) = length (contents b)"
  obtains b2 where "retrieve (b'\<lparr>vec := v\<rparr>) (sz_sub (readIndex b + length x) (peek b')) = Inr (Some (peek b), b2)"
    "buf_inv b2" "contents b2 = y"
proof -
  note bounds = buf_inv_bounds [OF inv]
  define b1 where "b1 = b'\<lparr>vec := v\<rparr>"
  have w: "length (x @ y) = writeIndex b - readIndex b"
    using len length_contents [OF inv] readable_eq [OF inv] by simp
  have "length v = length (vec b)" using w bounds by (simp add: v)
  then have inv1: "buf_inv b1" using inv same by (simp add: b1_def buf_inv_def)
  have con1: "contents b1 = x @ y"
    using contents_pieces [of "take (readIndex b) (vec b)" b' "x @ y" "drop (writeIndex b) (vec b)"] w same bounds
    by (simp add: b1_def v)
  have n: "length x \<le> readableBytes b1"
    using length_contents [OF inv1] con1 by simp
  have "readIndex b + length x < 2 ^ 64" using w bounds by simp
  then have sub: "sz_sub (readIndex b + length x) (peek b') = length x"
    by (subst sz_sub_exact) (simp_all add: peek_def same)
  show ?thesis
    using that [of "b1\<lparr>readIndex := readIndex b1 + length x\<rparr>"] retrieve_ok [OF inv1 n] sub con1 same
    by (simp add: b1_def peek_def)
qed

lemma request_parsed:
  assumes inv: "buf_inv b" and con: "contents b = print_request m u ver hs @ rest"
    and ok: "word_ok m" "word_ok u" "u \<noteq> []" "word_ok ver"
      "\<And>k v. (k, v) \<in> set hs \<Longrightarrow> key_ok k \<and> word_ok v"
  obtains b' req v ptr b2 where "codec_check (HTTP_MODEL d) b = (True, b', [])"
    "parse_request (vec b') (peek b') = Inr (req, v, ptr)" "request_reads v req m u ver hs"
    "retrieve (b'\<lparr>vec := v\<rparr>) (sz_sub ptr (peek b')) = Inr (Some (peek b), b2)"
    "buf_inv b2" "contents b2 = rest"
proof -
  let ?A = "take (readIndex b) (vec b)" and ?Z = "drop (writeIndex b) (vec b)"
  have lenA: "length ?A = readIndex b" using buf_inv_bounds [OF inv] by simp
  obtain b' where b': "codec_check (HTTP_MODEL d) b = (True, b', [])"
    "readIndex b' = readIndex b" "writeIndex b' = writeIndex b"
    "vec b' = ?A @ (m @ [SP] @ u @ [SP] @ ver @ CRLF @ concat (map hdr_text hs) @ [CR, NUL]) @ rest @ ?Z"
    using codec_on_request [OF inv con ok(1,2,4,5)] by metis
  define v where "v = ?A @ request_mem m u ver hs @ rest @ ?Z"
  have len: "length (request_mem m u ver hs) = length (print_request m u ver hs)"
    by (simp add: request_mem_def print_request_def CRLF_def)
  have "parse_request (vec b') (peek b') =
      Inr (request_ptrs (readIndex b) m u ver hs, v, readIndex b + length (request_mem m u ver hs))"
    using parse_request_piece [OF ok, where A = ?A and B = "rest @ ?Z"] b'(2,4) lenA
    by (simp add: peek_def request_ptrs_def v_def len)
  moreover have "request_reads v (request_ptrs (readIndex b) m u ver hs) m u ver hs"
    using request_ptrs_read [OF ok(1,2,4,5), where A = ?A and B = "rest @ ?Z"] lenA by (simp add: v_def)
  moreover obtain b2 where "retrieve (b'\<lparr>vec := v\<rparr>)
      (sz_sub (readIndex b + length (request_mem m u ver hs)) (peek b')) = Inr (Some (peek b), b2)"
      "buf_inv b2" "contents b2 = rest"
    using retrieve_front [OF inv b'(2,3), of v "request_mem m u ver hs" rest] con len by (auto simp: v_def)
  ultimately show ?thesis using b'(1) that by blast
qed

subsection \<open>The message callback on a complete request\<close>

lemma answer_length: "answer_to u \<noteq> []" "length (answer_to u) \<le> vec_max"
proof -
  have "length (answer_to u) \<le> 4096"
    by (simp add: answer_to_def response_to_string_def addBody_def addHeader_def new_response_def
        bad_request_head_def bad_request_body_def welcome_page_def line_text_def quoted_def CRLF_def to_string.simps)
  then show "length (answer_to u) \<le> vec_max" by (simp add: vec_max_def)
  show "answer_to u \<noteq> []"
    by (simp add: answer_to_def response_to_string_def addBody_def addHeader_def new_response_def bad_request_head_def)
qed

text \<open>A request in the read buffer: it is dropped and answered, and the connection closed.\<close>

lemma handleRequest_answers:
  assumes inv: "conn_inv interest w" and c: "conns w c = Some x" and st: "conn_state x \<noteq> BLANK"
    and b: "buf_inv b" "contents b = print_request m u ver hs @ rest"
      "codec_check (HTTP_MODEL d) b = (True, readBuffer x, lg)"
    and ok: "word_ok m" "word_ok u" "u \<noteq> []" "word_ok ver"
      "\<And>k v. (k, v) \<in> set hs \<Longrightarrow> key_ok k \<and> word_ok v"
    and none: "services u = None"
  obtains b2 w1 where "handleRequest os srv services c w =
      res_bind (send_data os c (answer_to u) w1) (activeClose os srv c)"
    "conn_inv interest w1" "frame c (conn_event x) w w1" "conns w1 c = Some (x\<lparr>readBuffer := b2\<rparr>)"
    "contents b2 = rest" "kern (env w1) = kern (env w)"
proof (rule request_parsed [OF b(1,2) ok, of d])
  fix b' req v ptr b2
  assume p: "codec_check (HTTP_MODEL d) b = (True, b', [])"
    "parse_request (vec b') (peek b') = Inr (req, v, ptr)" "request_reads v req m u ver hs"
    "retrieve (b'\<lparr>vec := v\<rparr>) (sz_sub ptr (peek b')) = Inr (Some (peek b), b2)"
    "buf_inv b2" "contents b2 = rest"
  have b': "b' = readBuffer x" using p(1) b(3) by simp
  define w1 where "w1 = (upd_conn c (x\<lparr>conn_data := conn_data x, readBuffer := b2\<rparr>) w)\<lparr>env := env w\<rparr>"
  note k = conn_inv_received [OF inv c st p(5) refl w1_def]
  have w1: "w1 = upd_conn c (x\<lparr>readBuffer := b2\<rparr>) w" by (simp add: w1_def upd_conn_def)
  have pk: "peek (b'\<lparr>vec := v\<rparr>) = peek b'" by (simp add: peek_def)
  have "handleRequest os srv services c w = res_bind (send_data os c (answer_to u) w1) (activeClose os srv c)"
    using c p(2-4) none by (simp add: handleRequest_def b' [symmetric] pk w1 request_reads_def)
  then show ?thesis
    using k p(6) by (intro that [of w1 b2]) (simp_all add: w1_def)
qed (assumption | simp)+

subsection \<open>Properties\<close>

text \<open>
  C5: parsing inverts printing: with a request in the buffer, and whatever behind it, the codec
  reports it complete and the parser finds its method, target, version and headers, in order, as C
  strings in the buffer; dropping what the parser consumed leaves exactly what followed.
\<close>

theorem http_request_round_trip:
  assumes "buf_inv b" and "contents b = print_request m u ver hs @ rest"
    and "word_ok m" and "word_ok u" and "u \<noteq> []" and "word_ok ver"
    and "\<And>k v. (k, v) \<in> set hs \<Longrightarrow> key_ok k \<and> word_ok v"
  shows "\<exists>b' req v ptr b2. codec_check (HTTP_MODEL d) b = (True, b', []) \<and>
    parse_request (vec b') (peek b') = Inr (req, v, ptr) \<and>
    c_string v (req_method req) = Inr m \<and> c_string v (req_url req) = Inr u \<and>
    c_string v (req_version req) = Inr ver \<and>
    map (\<lambda>(p, q). (c_string v p, c_string v q)) (req_headers req) = map (\<lambda>(k, v). (Inr k, Inr v)) hs \<and>
    retrieve (b'\<lparr>vec := v\<rparr>) (sz_sub ptr (peek b')) = Inr (Some (peek b), b2) \<and>
    buf_inv b2 \<and> contents b2 = rest"
proof (rule request_parsed [OF assms, of d])
  fix b' req v ptr b2
  assume *: "codec_check (HTTP_MODEL d) b = (True, b', [])"
    "parse_request (vec b') (peek b') = Inr (req, v, ptr)" "request_reads v req m u ver hs"
    "retrieve (b'\<lparr>vec := v\<rparr>) (sz_sub ptr (peek b')) = Inr (Some (peek b), b2)"
    "buf_inv b2" "contents b2 = rest"
  show ?thesis
    by (intro exI conjI)
      (rule *(1), rule *(2), use *(3) in \<open>simp_all only: request_reads_def\<close>, rule *(4), rule *(5), rule *(6))
qed (assumption | simp)+

theorem http_request_round_trip_witness:
  "\<exists>b' req v ptr. codec_check (HTTP_MODEL 0)
      (\<lparr>vec = print_request ''GET'' ''/a'' ''H'' [(''k'', ''v'')] @ ''next'', readIndex = 0, writeIndex = 22\<rparr>) =
        (True, b', []) \<and>
     parse_request (vec b') 0 = Inr (req, v, ptr) \<and> c_string v (req_url req) = Inr ''/a''"
proof -
  let ?t = "print_request ''GET'' ''/a'' ''H'' [(''k'', ''v'')]"
  let ?b = "\<lparr>vec = ?t @ ''next'', readIndex = 0, writeIndex = 22\<rparr>"
  have len: "length ?t = 18" by (simp add: print_request_def CRLF_def)
  then have inv: "buf_inv ?b" by (simp add: buf_inv_def vec_max_def)
  have con: "contents ?b = ?t @ ''next''" using len by (simp add: contents_def)
  have words: "word_ok ''GET''" "word_ok ''/a''" "''/a'' \<noteq> []" "word_ok ''H''" by (simp_all add: word_ok_def)
  have hs: "key_ok k \<and> word_ok v" if "(k, v) \<in> set [(''k'', ''v'')]" for k v
    using that by (auto simp: key_ok_def word_ok_def)
  obtain b' req v ptr where r: "codec_check (HTTP_MODEL 0) ?b = (True, b', [])"
    "parse_request (vec b') (peek b') = Inr (req, v, ptr)" "c_string v (req_url req) = Inr ''/a''"
    using http_request_round_trip [OF inv con words hs, of 0] by blast
  have "peek b' = 0" using codec_check_keeps(3) [OF inv r(1)] by (simp add: peek_def)
  then show ?thesis using r by auto
qed

text \<open>
  A header value with a space in it is cut at the space.  When one character follows the space,
  the parser takes the end of that line for the end of the headers: whatever lines come behind it
  (\<open>B\<close>) are not parsed.
\<close>

theorem http_value_with_space:
  assumes "key_ok k" and "word_ok x" and "x \<noteq> []" and "c \<noteq> SP" and "c \<noteq> CR"
  shows "\<exists>v ptr. header_lines (A @ k @ '': '' @ x @ [SP, c] @ CRLF @ B) (length A) =
      Inr (v, ptr, [(length A, length A + length k + 2)]) \<and>
    c_string v (length A) = Inr k \<and> c_string v (length A + length k + 2) = Inr x"
proof -
  obtain d y where d: "x @ SP # c # CR # LF # B = d # y" "d \<noteq> SP"
    using assms(2,3) by (cases x) (auto simp: word_ok_def)
  obtain e k' where k: "k = e # k'" "e \<noteq> CR" using assms(1) by (cases k) (auto simp: key_ok_def)
  let ?A1 = "A @ k @ [NUL]" and ?A2 = "A @ k @ [NUL, SP]" and ?R = "CR # LF # B"
  let ?v = "(?A2 @ x @ [NUL]) @ c # ?R" and ?p = "length (?A2 @ x @ [NUL]) + 1"
  let ?line = "A @ k @ '': '' @ x @ [SP, c] @ CRLF @ B"
  have 1: "readField (A @ k @ CHR '':'' # SP # x @ SP # c # ?R) (length A) (CHR '':'') =
      Inr (?A1 @ SP # x @ SP # c # ?R, length ?A1)"
    using assms(1) by (intro readField_piece) (simp_all add: key_ok_def)
  have 2: "scan (\<lambda>c. c \<noteq> SP) (?A1 @ SP # x @ SP # c # ?R) (length ?A1) = Inr (length ?A2)"
    using scan_at [of "[SP]" "\<lambda>c. c \<noteq> SP" d ?A1 y] d by simp
  have 3: "readLastField (?A2 @ x @ SP # c # ?R) (length ?A2) = Inr (?v, ?p)"
    using assms(2,4,5) by (intro readLastField_space) (simp_all add: word_ok_def)
  have line: "header_line ?line (length A) = Inr (?v, ?p, (length A, length A + length k + 2))"
    using 1 2 3 by (simp add: header_line_def CRLF_def)
  have rest: "header_lines ?v ?p = Inr (?v, ?p, [])"
    by (subst header_lines.simps) (simp add: mem_at_def nth_append)
  have at: "mem_at ?line (length A) = Inr e" by (simp add: mem_at_def nth_append k(1))
  have "header_lines ?line (length A) = Inr (?v, ?p, [(length A, length A + length k + 2)])"
    using at k(2) line rest by (subst header_lines.simps) simp
  moreover have "c_string ?v (length A) = Inr k"
    using c_string_piece [of k A "SP # x @ NUL # c # ?R"] assms(1) by (simp add: key_ok_def)
  moreover have "c_string ?v (length A + length k + 2) = Inr x"
    using c_string_piece [of x ?A2 "c # ?R"] assms(2) by (simp add: word_ok_def)
  ultimately show ?thesis by blast
qed

theorem http_value_with_space_witness:
  "\<exists>v ptr. header_lines (''Agent'' @ '': '' @ ''ab'' @ '' c'' @ CRLF @ ''Host: h'' @ CRLF @ CRLF) 0 = Inr (v, ptr, [(0, 7)])"
  using http_value_with_space [of "''Agent''" "''ab''" "CHR ''c''" "[]" "''Host: h'' @ CRLF @ CRLF"]
  by (auto simp: key_ok_def word_ok_def)

text \<open>
  The codec's verdict does not protect the parser: a message that ends with an empty line but
  holds no space is reported complete, and unless bytes left over in the vector stop it, the parser
  runs beyond the end of the buffer.
\<close>

theorem http_spaceless_overrun:
  assumes "buf_inv b" and "contents b = x @ CRLF @ CRLF" and "SP \<notin> set x"
    and "SP \<notin> set (drop (writeIndex b) (vec b))"
  shows "\<exists>b' lg. codec_check (HTTP_MODEL d) b = (True, b', lg) \<and>
    parse_request (vec b') (peek b') = Inl Out_of_bounds"
proof -
  let ?A = "take (readIndex b) (vec b)" and ?Z = "drop (writeIndex b) (vec b)"
  have lenA: "length ?A = readIndex b" using buf_inv_bounds [OF assms(1)] by simp
  have occ: "occurs_at (contents b) CRLFCRLF (length x)"
    by (simp add: assms(2) occurs_at_def CRLF_def CRLFCRLF_def)
  obtain p where f: "findStr b CRLFCRLF = Some p"
    using findStr_cases(1) [OF assms(1)] occ by (cases "findStr b CRLFCRLF") blast+
  define b' where "b' = b\<lparr>vec := (vec b)[p + 3 := NUL]\<rparr>"
  obtain j where j: "p = readIndex b + j"
    using findStr_cases(2) [OF assms(1) f] by blast
  have "vec b = ?A @ (x @ CRLF @ CRLF @ ?Z)" using vec_split [OF assms(1)] assms(2) by simp
  then have "(vec b)[length ?A + (j + 3) := NUL] = ?A @ (x @ CRLF @ CRLF @ ?Z)[j + 3 := NUL]"
    by (metis add_diff_cancel_left' le_add1 linorder_not_less list_update_append)
  then have v: "vec b' = ?A @ (x @ CRLF @ CRLF @ ?Z)[j + 3 := NUL]"
    using lenA by (simp add: b'_def j add.assoc)
  have "SP \<notin> set ((x @ CRLF @ CRLF @ ?Z)[j + 3 := NUL])"
    using assms(3,4) set_update_subset_insert [of "x @ CRLF @ CRLF @ ?Z" "j + 3" NUL] by (auto simp: CRLF_def)
  then have "scan (\<lambda>c. c = SP) (vec b') (length ?A) = Inl Out_of_bounds"
    unfolding v by (intro scan_off) auto
  then have "parse_request (vec b') (peek b') = Inl Out_of_bounds"
    using lenA by (simp add: parse_request_def readField_def peek_def b'_def)
  moreover have "codec_check (HTTP_MODEL d) b = (True, b', [])"
    using f by (simp add: http_request_default_callback_def b'_def)
  ultimately show ?thesis by blast
qed

theorem http_spaceless_overrun_witness:
  "\<exists>b' lg. codec_check (HTTP_MODEL 0) \<lparr>vec = ''x'' @ CRLF @ CRLF @ replicate 3 NUL, readIndex = 0, writeIndex = 5\<rparr> =
      (True, b', lg) \<and> parse_request (vec b') (peek b') = Inl Out_of_bounds"
proof -
  let ?b = "\<lparr>vec = ''x'' @ CRLF @ CRLF @ replicate 3 NUL, readIndex = 0, writeIndex = 5\<rparr>"
  have inv: "buf_inv ?b" by (simp add: buf_inv_def vec_max_def CRLF_def)
  have con: "contents ?b = ''x'' @ CRLF @ CRLF" by (simp add: contents_def CRLF_def)
  show ?thesis by (rule http_spaceless_overrun [OF inv con]) (simp_all add: CRLF_def)
qed

text \<open>
  The length a response announces is the length of its body: \<open>to_string\<close> of a response with a
  body is the status line, header lines of which the last is the length in decimal, an empty line
  and the body.  The fixed answer to an unknown target is not made this way: it announces 49 bytes
  and has a body of 51.
\<close>

theorem response_length_header:
  "(\<exists>h digits. response_to_string (addBody body new_response) =
      response_line new_response @ h @ ''content-length: '' @ digits @ CRLF @ CRLF @ body \<and>
      atoi digits = int (length body) \<and> (\<forall>c\<in>set digits. is_digit c)) \<and>
   (\<exists>h t. bad_request_head = h @ ''content-length: 49'' @ CRLF @ t) \<and> length bad_request_body = 51"
proof (intro conjI)
  show "\<exists>h digits. response_to_string (addBody body new_response) =
      response_line new_response @ h @ ''content-length: '' @ digits @ CRLF @ CRLF @ body \<and>
      atoi digits = int (length body) \<and> (\<forall>c\<in>set digits. is_digit c)"
  proof (intro exI conjI ballI)
    show "response_to_string (addBody body new_response) = response_line new_response @ resp_headers new_response @
        ''content-length: '' @ to_string (length body) @ CRLF @ CRLF @ body"
      by (simp add: response_to_string_def addBody_def addHeader_def new_response_def)
    show "atoi (to_string (length body)) = int (length body)"
      using atoi_digits [OF to_string_nonempty to_string_digits] by simp
  qed (rule to_string_digits)
  show "\<exists>h t. bad_request_head = h @ ''content-length: 49'' @ CRLF @ t"
    unfolding bad_request_head_def by (metis append.assoc)
  show "length bad_request_body = 51" by (simp add: bad_request_body_def CRLF_def)
qed

theorem response_length_header_witness:
  "\<exists>h digits. response_to_string (addBody ''hi'' new_response) =
      response_line new_response @ h @ ''content-length: '' @ digits @ CRLF @ CRLF @ ''hi'' \<and> atoi digits = 2"
  using response_length_header [of "''hi''"] by auto

text \<open>
  C20: a complete request for a target without a service is answered, with the welcome page or the error page, behind
  whatever was still to be sent, and the connection is marked to be closed: after any number of runs of \<open>sendNonblock\<close>
  the kernel has been given exactly the bytes its writes have taken of it, in order, and the connection is closed when
  these are all the bytes, not before; without a close callback that close returns and the connection is gone.  A write
  that fails, with \<open>EAGAIN\<close> or any other error, ends the program instead.  Unless a write takes nothing, as many runs
  as bytes are enough.
\<close>

theorem http_answer_then_close:
  assumes "server_env_ok os inq outq interest srv"
    and "conn_inv interest w" and "conns w c = Some x" and "conn_state x \<noteq> BLANK"
    and "conn_data x = Some (localEventLoop w)" and "destoryCallback x = None"
    and "buf_inv b" and "contents b = print_request m u ver hs @ rest"
    and "codec_check (HTTP_MODEL d) b = (True, readBuffer x, lg)"
    and "word_ok m" and "word_ok u" and "u \<noteq> []" and "word_ok ver"
    and "\<And>k v. (k, v) \<in> set hs \<Longrightarrow> key_ok k \<and> word_ok v" and "services u = None"
  shows "case handleRequest os srv services c w of
      Inl err \<Rightarrow> err = Length_error
    | Inr w1 \<Rightarrow> \<exists>x1. conns w1 c = Some x1 \<and> sockfd x1 = sockfd x \<and> isWillClose x1 \<and>
        contents (writeBuffer x1) = contents (writeBuffer x) @ answer_to u \<and>
        outq (sockfd x) (kern (env w1)) = outq (sockfd x) (kern (env w)) \<and>
        (\<forall>n. delivery os outq interest (activeClose os srv) c x1 w1 n \<and>
          (connCloseCallback srv = None \<and> \<not> refused (write_answers os (activeClose os srv) c n w1) \<and>
             taken (write_answers os (activeClose os srv) c n w1) = length (contents (writeBuffer x1)) \<longrightarrow>
           (\<exists>w2. flush os (activeClose os srv) c n w1 = Inr w2 \<and> conns w2 c = None \<and>
              outq (sockfd x) (kern (env w2)) =
                outq (sockfd x) (kern (env w)) @ contents (writeBuffer x) @ answer_to u)))"
proof -
  note os = server_env_okD(1) [OF assms(1)]
  obtain b2 w1 where h: "handleRequest os srv services c w =
      res_bind (send_data os c (answer_to u) w1) (activeClose os srv c)"
    "conn_inv interest w1" "frame c (conn_event x) w w1" "conns w1 c = Some (x\<lparr>readBuffer := b2\<rparr>)"
    "kern (env w1) = kern (env w)"
    using handleRequest_answers [where services = services and u = u and os = os and srv = srv, OF assms(2-4,7-15)]
    by metis
  have st1: "conn_state (x\<lparr>readBuffer := b2\<rparr>) \<noteq> BLANK" using assms(4) by simp
  have ne1: "answer_to u \<noteq> [] \<or> contents (writeBuffer (x\<lparr>readBuffer := b2\<rparr>)) \<noteq> []"
    by (simp add: answer_length(1))
  from os h(2,4) st1 answer_length(2) ne1 show ?thesis
  proof (cases rule: send_data_spec)
    case too_long
    then show ?thesis using h(1) by simp
  next
    case (sent w2 x2)
    have x2: "conn_state x2 \<noteq> BLANK" "conn_data x2 = Some (localEventLoop w2)" "destoryCallback x2 = None"
      "sockfd x2 = sockfd x"
      using assms(4-6) frameD(6) [OF h(3)] frameD(6) [OF sent(3)] by (subst sent(7), simp)+
    have ne: "contents (writeBuffer x2) \<noteq> []" using sent(5) answer_length(1) by simp
    from deferred_close [OF assms(1) sent(2,4) x2(1) ne x2(2,3)] obtain w3 where
      d: "closeConnection os srv c None w2 = Inr w3" "conns w3 c = Some (x2\<lparr>isWillClose := True\<rparr>)"
        "outq (sockfd x2) (kern (env w3)) = outq (sockfd x2) (kern (env w2))"
      and all: "\<And>n. delivery os outq interest (activeClose os srv) c (x2\<lparr>isWillClose := True\<rparr>) w3 n"
      and gone: "\<And>n. connCloseCallback srv = None \<and> \<not> refused (write_answers os (activeClose os srv) c n w3) \<and>
           taken (write_answers os (activeClose os srv) c n w3) = length (contents (writeBuffer x2)) \<longrightarrow>
         (\<exists>w4. flush os (activeClose os srv) c n w3 = Inr w4 \<and> conns w4 c = None \<and>
            outq (sockfd x2) (kern (env w4)) = outq (sockfd x2) (kern (env w2)) @ contents (writeBuffer x2))"
      by blast
    have run: "handleRequest os srv services c w = Inr w3"
      using h(1) sent(1) d(1) activeClose_eq [OF sent(4)] x2(3) by simp
    have con: "contents (writeBuffer x2) = contents (writeBuffer x) @ answer_to u"
      "outq (sockfd x) (kern (env w2)) = outq (sockfd x) (kern (env w))"
      using sent(5,8) h(5) by simp_all
    have "(\<exists>w4. flush os (activeClose os srv) c n w3 = Inr w4 \<and> conns w4 c = None \<and>
        outq (sockfd x) (kern (env w4)) = outq (sockfd x) (kern (env w)) @ contents (writeBuffer x) @ answer_to u)"
      if "connCloseCallback srv = None \<and> \<not> refused (write_answers os (activeClose os srv) c n w3) \<and>
        taken (write_answers os (activeClose os srv) c n w3) = length (contents (writeBuffer (x2\<lparr>isWillClose := True\<rparr>)))" for n
      using gone [of n] that con x2(4) by simp
    then show ?thesis
      unfolding run sum.case using d(2,3) all con x2(4)
      by (intro exI [of _ "x2\<lparr>isWillClose := True\<rparr>"]) simp
  qed
qed

theorem http_answer_then_close_witness:
  "case handleRequest drip_os (demo_server (HTTP_MODEL 0) None) Map.empty 0
      ((demo_world sim_init [])\<lparr>conns := [0 \<mapsto> (demo_conn [])\<lparr>readBuffer :=
         snd (http_request_default_callback
           \<lparr>vec = print_request ''GET'' ''/x'' ''H'' [], readIndex = 0, writeIndex = 12\<rparr> 0)\<rparr>]\<rparr>) of
     Inl err \<Rightarrow> err = Length_error
   | Inr w1 \<Rightarrow> \<exists>x1. conns w1 0 = Some x1 \<and> isWillClose x1 \<and> contents (writeBuffer x1) = answer_to ''/x'' \<and>
       (\<forall>n. delivery drip_os sim_outq sim_interest (activeClose drip_os (demo_server (HTTP_MODEL 0) None)) 0 x1 w1 n)"
proof -
  let ?srv = "demo_server (HTTP_MODEL 0) None"
  let ?b = "\<lparr>vec = print_request ''GET'' ''/x'' ''H'' [], readIndex = 0, writeIndex = 12\<rparr>"
  let ?b' = "snd (http_request_default_callback ?b 0)"
  let ?x = "(demo_conn [])\<lparr>readBuffer := ?b'\<rparr>"
  let ?w = "(demo_world sim_init [])\<lparr>conns := [0 \<mapsto> ?x]\<rparr>"
  have len: "length (print_request ''GET'' ''/x'' ''H'' []) = 12" by (simp add: print_request_def CRLF_def)
  then have b: "buf_inv ?b" "contents ?b = print_request ''GET'' ''/x'' ''H'' [] @ []"
    by (simp_all add: buf_inv_def vec_max_def contents_def)
  have words: "word_ok ''GET''" "word_ok ''/x''" "''/x'' \<noteq> []" "word_ok ''H''" by (simp_all add: word_ok_def)
  have hs: "key_ok k \<and> word_ok v" if "(k, v) \<in> set []" for k v :: string using that by simp
  obtain b0 where "codec_check (HTTP_MODEL 0) ?b = (True, b0, [])"
    using codec_on_request [where d = 0, OF b words(1,2,4) hs] by blast
  then have chk: "codec_check (HTTP_MODEL 0) ?b = (True, readBuffer ?x, [])"
    by (cases "http_request_default_callback ?b 0") simp
  have b': "buf_inv ?b'" using codec_check_keeps(1) [OF b(1) chk] by simp
  have inv0: "conn_inv sim_interest (demo_world sim_init [])" by (rule server_invD(1) [OF demo_server_inv]) simp
  have "?w = (upd_conn 0 ((demo_conn [])\<lparr>conn_data := Some 1, readBuffer := ?b'\<rparr>) (demo_world sim_init []))
      \<lparr>env := env (demo_world sim_init [])\<rparr>"
    by (simp add: upd_conn_def demo_world_def demo_conn_def new_conn_def)
  note inv = conn_inv_received(1) [OF inv0 _ _ b' refl this]
  have ok: "server_env_ok drip_os sim_inq sim_outq sim_interest ?srv" by (rule demo_env_ok) simp
  have c: "conns ?w 0 = Some ?x" by simp
  show ?thesis
    using http_answer_then_close [where services = Map.empty and u = "''/x''", OF ok inv c _ _ _ b chk words hs]
    by (auto split: sum.splits)
qed

end
