(* ===== verification/HttpRuns.thy ===== *)
theory HttpRuns imports HttpServer ServerRuns begin

section \<open>The HTTP server over its whole life\<close>

text \<open>
  The class (\<open>RtspServer\<close> in \<open>HttpServer.h\<close>) is a codec, a loop, a table of services and a \<open>TcpServer\<close> with the message
  callback of theory \<open>HttpServer\<close>.  Whatever bytes come, that callback follows no dangling pointer and keeps the
  invariant, provided the services do; so the safety of any server over its whole life holds of this one.
\<close>

subsection \<open>The class\<close>

text \<open>
  The server the constructor makes on the descriptor \<open>f\<close>.  Its message callback uses the server for closing
  only, which does not depend on the message callback.
\<close>

definition http_server :: "'k os \<Rightarrow> (string \<rightharpoonup> 'k cb) \<Rightarrow> fd \<Rightarrow> 'k server" where
  "http_server os services f =
     (let srv = bare_server f (HTTP_MODEL 0) in setConnMsgCallback (handleRequest os srv services) srv)"

text \<open>\<open>addServiceHandler\<close> replaces a service of the same name.\<close>

definition addServiceHandler :: "string \<Rightarrow> 'k cb \<Rightarrow> (string \<rightharpoonup> 'k cb) \<Rightarrow> (string \<rightharpoonup> 'k cb)" where
  "addServiceHandler name handler services = services(name \<mapsto> handler)"

text \<open>The constructor: a new socket, then the server.\<close>

definition new_http_server ::
  "'k os \<Rightarrow> 'k sock_os \<Rightarrow> ('k \<Rightarrow> (errno + fd) \<times> 'k) \<Rightarrow> ('k \<Rightarrow> errno option \<times> 'k) \<Rightarrow> bool \<Rightarrow> (string \<rightharpoonup> 'k cb) \<Rightarrow> sockaddr \<Rightarrow>
     loop_id \<Rightarrow> 'k sworld \<Rightarrow> ('k server \<times> event_id \<times> 'k sworld) res" where
  "new_http_server os sos eventfd raise_limit already services addr l w =
     (let (f, e) = makeNewSocket sos (env w); srv = http_server os services f in
      res_bind (new_tcp_server os sos eventfd raise_limit already srv addr l (w\<lparr>env := e\<rparr>)) (\<lambda>(p, w1). Inr (srv, p, w1)))"

subsection \<open>The parser follows no dangling pointer\<close>

text \<open>What can fail in the parser is an access outside the buffer.\<close>

definition only_bounds :: "'a res \<Rightarrow> bool" where
  "only_bounds r \<longleftrightarrow> (\<forall>e. r = Inl e \<longrightarrow> e = Out_of_bounds)"

lemma only_bounds_bind:
  "only_bounds r \<Longrightarrow> (\<And>x. r = Inr x \<Longrightarrow> only_bounds (f x)) \<Longrightarrow> only_bounds (res_bind r f)"
  by (cases r) (auto simp: only_bounds_def)

lemma only_bounds_Inr [simp]: "only_bounds (Inr x)"
  by (simp add: only_bounds_def)

lemma mem_at_bounds: "only_bounds (mem_at v i)"
  by (simp add: mem_at_def only_bounds_def)

lemma scan_only_bounds: "only_bounds (scan stop v i)"
proof (induction stop v i rule: scan.induct)
  case (1 stop v i)
  show ?case
    by (subst scan.simps, rule only_bounds_bind [OF mem_at_bounds]) (simp add: 1)
qed

lemma readField_only_bounds: "only_bounds (readField v p ch)"
  unfolding readField_def Let_def by (intro only_bounds_bind scan_only_bounds) simp

lemma readLastField_only_bounds: "only_bounds (readLastField v p)"
  unfolding readLastField_def Let_def by (intro only_bounds_bind scan_only_bounds mem_at_bounds) simp

lemma header_line_only_bounds: "only_bounds (header_line v p)"
  unfolding header_line_def
  by (auto intro!: only_bounds_bind scan_only_bounds readField_only_bounds readLastField_only_bounds)

lemma header_lines_only_bounds: "only_bounds (header_lines v p)"
proof (induction v p rule: header_lines.induct)
  case (1 v p)
  show ?case
  proof (subst header_lines.simps, rule only_bounds_bind [OF mem_at_bounds])
    fix ch assume c: "mem_at v p = Inr ch"
    show "only_bounds (if ch = CR then Inr (v, p, [])
        else res_bind (header_line v p) (\<lambda>r. res_bind (header_lines (fst r) (fst (snd r)))
          (\<lambda>(v2, p2, kvs). Inr (v2, p2, snd (snd r) # kvs))))"
    proof (cases "ch = CR")
      case False
      have "only_bounds (res_bind (header_lines (fst r) (fst (snd r))) (\<lambda>(v2, p2, kvs). Inr (v2, p2, snd (snd r) # kvs)))"
        if "header_line v p = Inr r" for r
        by (rule only_bounds_bind [OF 1 [OF c False that]]) (simp split: prod.splits)
      then show ?thesis using False by (simp add: only_bounds_bind [OF header_line_only_bounds])
    qed simp
  qed
qed

lemma header_lines_length: "header_lines v p = Inr (v', q, kvs) \<Longrightarrow> length v' = length v"
proof (induction v p arbitrary: v' q kvs rule: header_lines.induct)
  case (1 v p)
  from "1.prems" obtain ch where c: "mem_at v p = Inr ch" by (subst (asm) header_lines.simps) auto
  show ?case
  proof (cases "ch = CR")
    case True
    then show ?thesis using "1.prems" c by (subst (asm) header_lines.simps) simp
  next
    case False
    then obtain r v2 p2 kvs2 where r: "header_line v p = Inr r" "header_lines (fst r) (fst (snd r)) = Inr (v2, p2, kvs2)"
      "v' = v2" using "1.prems" c by (subst (asm) header_lines.simps) auto
    have "length (fst r) = length v" using header_line_bounds r(1) by (cases r) auto
    then show ?thesis using "1.IH" [OF c False r(1,2)] r(3) by simp
  qed
qed

lemma parse_request_only_bounds: "only_bounds (parse_request v p)"
  unfolding parse_request_def
  by (auto intro!: only_bounds_bind scan_only_bounds readField_only_bounds readLastField_only_bounds header_lines_only_bounds)

lemma parse_request_length: "parse_request v p = Inr (req, v', q) \<Longrightarrow> length v' = length v"
  by (auto simp: parse_request_def dest!: readField_bounds readLastField_bounds header_lines_length)

lemma c_string_only_bounds: "only_bounds (c_string v p)"
  unfolding c_string_def by (intro only_bounds_bind scan_only_bounds) simp

lemma only_bounds_live: "only_bounds r \<Longrightarrow> r \<noteq> Inl Use_after_free"
  by (auto simp: only_bounds_def)

subsection \<open>What a message callback may do, step by step\<close>

definition call_outcome ::
  "(fd \<Rightarrow> 'k \<Rightarrow> (fd \<rightharpoonup> epoll_event)) \<Rightarrow> conn_id \<Rightarrow> tcp_conn \<Rightarrow> ('k, 'z) conn_world_scheme \<Rightarrow>
     ('k, 'z) conn_world_scheme res \<Rightarrow> bool" where
  "call_outcome interest c x w r \<longleftrightarrow> r \<noteq> Inl Use_after_free \<and>
     (\<forall>w'. r = Inr w' \<longrightarrow> conn_inv interest w' \<and> frame c (conn_event x) w w' \<and>
        (case conns w' c of
           None \<Rightarrow> evs w' (conn_event x) = None
         | Some x' \<Rightarrow> conn_event x' = conn_event x \<and> sockfd x' = sockfd x \<and> conn_loop x' = conn_loop x \<and>
             conn_state x' \<noteq> BLANK))"

lemma callback_okI:
  assumes "\<And>w c x. conn_inv interest w \<Longrightarrow> conns w c = Some x \<Longrightarrow> conn_state x \<noteq> BLANK \<Longrightarrow> call_outcome interest c x w (cb c w)"
  shows "callback_ok interest cb"
  unfolding callback_ok_def using assms unfolding call_outcome_def by blast

lemma call_outcome_callback:
  "callback_ok interest cb \<Longrightarrow> conn_inv interest w \<Longrightarrow> conns w c = Some x \<Longrightarrow> conn_state x \<noteq> BLANK \<Longrightarrow>
     call_outcome interest c x w (cb c w)"
  unfolding callback_ok_def call_outcome_def by blast

lemma call_outcome_error: "e \<noteq> Use_after_free \<Longrightarrow> call_outcome interest c x w (Inl e)"
  by (simp add: call_outcome_def)

lemma call_outcome_step:
  assumes "frame c (conn_event x) w w1" and "conn_event x1 = conn_event x" "sockfd x1 = sockfd x" "conn_loop x1 = conn_loop x"
    and "call_outcome interest c x1 w1 r"
  shows "call_outcome interest c x w r"
  using assms(5) frame_trans [OF assms(1)] unfolding call_outcome_def assms(2-4) by blast

lemma call_outcome_close:
  assumes ok: "server_env_ok os inq outq interest srv" and inv: "conn_inv interest w" and c: "conns w c = Some x"
    and st: "conn_state x \<noteq> BLANK"
  shows "call_outcome interest c x w (activeClose os srv c w)"
proof -
  have "conn_inv interest w' \<and> frame c (conn_event x) w w' \<and>
        (case conns w' c of None \<Rightarrow> evs w' (conn_event x) = None
         | Some x' \<Rightarrow> conn_event x' = conn_event x \<and> sockfd x' = sockfd x \<and> conn_loop x' = conn_loop x \<and>
             conn_state x' \<noteq> BLANK)" if run: "activeClose os srv c w = Inr w'" for w'
  proof (cases "contents (writeBuffer x) = []")
    case True
    then show ?thesis using server_source.close_drops [OF ok inv c st _ run] by simp
  next
    case False
    then show ?thesis using server_source.close_keeps [OF ok inv c st _ run] st by auto
  qed
  then show ?thesis using server_source.close_live [OF ok inv c st] unfolding call_outcome_def by blast
qed

lemma call_outcome_send:
  assumes os: "os_contract os inq outq interest" and inv: "conn_inv interest w" and c: "conns w c = Some x"
    and st: "conn_state x \<noteq> BLANK" and s: "length s \<le> vec_max" "s \<noteq> []"
    and rest: "\<And>w1 x1. conn_inv interest w1 \<Longrightarrow> conns w1 c = Some x1 \<Longrightarrow> conn_state x1 \<noteq> BLANK \<Longrightarrow>
      call_outcome interest c x1 w1 (rest w1)"
  shows "call_outcome interest c x w (res_bind (send_data os c s w) rest)"
proof (rule send_data_spec [OF os inv c st s(1)])
  show "s \<noteq> [] \<or> contents (writeBuffer x) \<noteq> []" using s(2) by blast
next
  fix w1 x1
  assume a: "send_data os c s w = Inr w1" "conn_inv interest w1" "frame c (conn_event x) w w1" "conns w1 c = Some x1"
    "x1 = x\<lparr>writeBuffer := writeBuffer x1, isWillClose := False\<rparr>"
  have x1: "conn_event x1 = conn_event x" "sockfd x1 = sockfd x" "conn_loop x1 = conn_loop x" "conn_state x1 = conn_state x"
    by (subst a(5), simp)+
  have "call_outcome interest c x1 w1 (rest w1)" using rest [OF a(2,4)] x1(4) st by simp
  then show ?thesis using call_outcome_step [OF a(3) x1(1-3)] a(1) by simp
next
  assume "send_data os c s w = Inl Length_error"
  then show ?thesis by (simp add: call_outcome_error)
qed

lemma handleRequest_ok:
  assumes os: "os_contract os inq outq interest" and srv: "server_env_ok os inq outq interest srv"
    and services: "\<And>name h. services name = Some h \<Longrightarrow> callback_ok interest h"
  shows "callback_ok interest (handleRequest os srv services)"
proof (rule callback_okI)
  fix w :: "'a sworld" and c x
  assume inv: "conn_inv interest w" and c: "conns w c = Some x" and st: "conn_state x \<noteq> BLANK"
  have bi: "buf_inv (readBuffer x)" using event_of [OF inv c] by metis
  show "call_outcome interest c x w (handleRequest os srv services c w)"
  proof (cases "parse_request (vec (readBuffer x)) (peek (readBuffer x))")
    case (Inl e)
    then have "e \<noteq> Use_after_free"
      using only_bounds_live [OF parse_request_only_bounds [of "vec (readBuffer x)" "peek (readBuffer x)"]] by auto
    then show ?thesis using Inl c by (simp add: handleRequest_def call_outcome_error)
  next
    case (Inr t)
    obtain req v ptr where t: "t = (req, v, ptr)" by (cases t)
    define b where "b = (readBuffer x)\<lparr>vec := v\<rparr>"
    have len: "length v = length (vec (readBuffer x))" using parse_request_length Inr t by blast
    then have b: "buf_inv b" using bi by (simp add: buf_inv_def b_def)
    define n where "n = sz_sub ptr (peek b)"
    show ?thesis
    proof (cases "n \<le> readableBytes b")
      case False
      then have "handleRequest os srv services c w = Inl Assert_failed"
        using Inr t c retrieve_too_much [of b n] by (simp add: handleRequest_def b_def [symmetric] n_def [symmetric] Let_def)
      then show ?thesis by (simp add: call_outcome_error)
    next
      case True
      define b' where "b' = b\<lparr>readIndex := readIndex b + n\<rparr>"
      note r = retrieve_ok [OF b True, folded b'_def]
      define w1 where "w1 = (upd_conn c (x\<lparr>conn_data := conn_data x, readBuffer := b'\<rparr>) w)\<lparr>env := env w\<rparr>"
      note k = conn_inv_received [OF inv c st r(2) refl w1_def]
      have w1: "w1 = upd_conn c (x\<lparr>readBuffer := b'\<rparr>) w" by (simp add: w1_def upd_conn_def)
      have eq: "handleRequest os srv services c w = res_bind (c_string v (req_url req)) (\<lambda>url.
          case services url of Some handler \<Rightarrow> handler c w1
          | None \<Rightarrow> res_bind (send_data os c (answer_to url) w1) (activeClose os srv c))"
        unfolding w1 using Inr t c r(1) by (simp add: handleRequest_def b_def [symmetric] n_def [symmetric] Let_def)
      define x1 where "x1 = x\<lparr>conn_data := conn_data x, readBuffer := b'\<rparr>"
      have x1: "conns w1 c = Some x1" "conn_state x1 \<noteq> BLANK" "conn_event x1 = conn_event x" "sockfd x1 = sockfd x"
        "conn_loop x1 = conn_loop x"
        using k(3) st by (simp_all add: x1_def)
      have "call_outcome interest c x1 w1 (handleRequest os srv services c w)"
      proof (cases "c_string v (req_url req)")
        case (Inl e)
        then have "e \<noteq> Use_after_free" using only_bounds_live [OF c_string_only_bounds [of v "req_url req"]] by auto
        then show ?thesis using Inl eq by (simp add: call_outcome_error)
      next
        case url: (Inr url)
        show ?thesis
        proof (cases "services url")
          case (Some h)
          then show ?thesis using eq url call_outcome_callback [OF services k(1) x1(1,2)] by simp
        next
          case None
          have "call_outcome interest c x1 w1 (res_bind (send_data os c (answer_to url) w1) (activeClose os srv c))"
            by (rule call_outcome_send [OF os k(1) x1(1,2) answer_length(2,1)]) (rule call_outcome_close [OF srv])
          then show ?thesis using eq url None by simp
        qed
      qed
      then show ?thesis by (rule call_outcome_step [OF k(2) x1(3-5)])
    qed
  qed
qed

lemma http_server_ok:
  assumes "os_contract os inq outq interest" and "\<And>name h. services name = Some h \<Longrightarrow> callback_ok interest h"
  shows "server_env_ok os inq outq interest (http_server os services f)"
  unfolding http_server_def Let_def
  by (rule server_env_ok_build(2) [OF server_env_ok_build(1) [OF assms(1)]
      handleRequest_ok [OF assms(1) server_env_ok_build(1) [OF assms(1)] assms(2)]])

lemma http_server_sel [simp]: "listenfd (http_server os services f) = f"
  by (simp add: http_server_def Let_def setConnMsgCallback_def)

lemma new_http_server_life:
  assumes "new_http_server os sos eventfd raise_limit already services addr l w0 = Inr (srv, p, w)"
    and "makeNewSocket sos (env w0) = (f, e)"
  shows "srv = http_server os services f \<and>
    server_life os sos eventfd raise_limit interest srv rest (w0\<lparr>env := e\<rparr>) w"
  using assms by (auto simp: new_http_server_def Let_def intro: server_life.construct)

subsection \<open>Properties\<close>

text \<open>
  C4: The HTTP server from its constructor on: whatever bytes its clients send, in whatever portions and order its loops
  see them, and whatever its services do within their contract, no pass of a loop follows a dangling pointer and the
  invariant holds.
\<close>

theorem http_life_safe:
  assumes "os_contract os inq outq interest" and "\<forall>name h. services name = Some h \<longrightarrow> callback_ok interest h"
    and "others_ok interest rest" and "sock_contract sos outq interest" and "server_inv interest w0"
    and "makeNewSocket sos (env w0) = (f, e)" and "0 \<le> f"
    and "\<And>k. \<exists>g k'. eventfd k = (Inr g, k') \<and> g \<noteq> f \<and>
      (\<forall>ep. interest ep k' = interest ep k \<and> interest ep k g = None)"
    and "\<And>k ep. interest ep (snd (raise_limit k)) = interest ep k"
  shows "(\<forall>already addr l srv p w. new_http_server os sos eventfd raise_limit already services addr l w0 = Inr (srv, p, w) \<longrightarrow>
      srv = http_server os services f \<and> server_life os sos eventfd raise_limit interest srv rest (w0\<lparr>env := e\<rparr>) w) \<and>
    (\<forall>w. server_life os sos eventfd raise_limit interest (http_server os services f) rest (w0\<lparr>env := e\<rparr>) w \<longrightarrow>
      server_inv interest w \<and>
      (\<forall>l answer. wait_answer_ok interest (loop_ep w l) (kern (env w)) answer \<longrightarrow>
        loop_pass (server_callback os (http_server os services f) rest) answer (w\<lparr>localEventLoop := l\<rparr>) \<noteq> Inl Use_after_free))"
proof (intro conjI allI impI)
  show "srv = http_server os services f" "server_life os sos eventfd raise_limit interest srv rest (w0\<lparr>env := e\<rparr>) w"
    if "new_http_server os sos eventfd raise_limit already services addr l w0 = Inr (srv, p, w)" for already addr l srv p w
    using new_http_server_life [OF that assms(6)] by blast+
  have env: "server_env_ok os inq outq interest (http_server os services f)" by (rule http_server_ok [OF assms(1)]) (use assms(2) in blast)
  have i: "interest ep (kern e) = interest ep (kern (env w0))" for ep using socket_interest(2) [OF assms(4,6)] .
  have inv0: "server_inv interest (w0\<lparr>env := e\<rparr>)" by (rule server_inv_env [OF assms(5)]) (rule i)
  have fresh: "interest ep (kern (env (w0\<lparr>env := e\<rparr>))) (listenfd (http_server os services f)) = None" for ep
  proof (rule makeNewSocket_cases [of sos "env w0"])
    show ?thesis if "sys_socket sos (kern (env w0)) = (Inr g, k)" "makeNewSocket sos (env w0) = (g, (env w0)\<lparr>kern := k\<rparr>)" for g k
      using sock_contractD(8) [OF assms(4) that(1)] that(2) assms(6) i by simp
    show ?thesis if "makeNewSocket sos (env w0) = (- 1, add_log (Sys ''socket error'') ((env w0)\<lparr>kern := k\<rparr>))" for k
      using that assms(6,7) by simp
  qed
  have evfd: "\<exists>g k'. eventfd k = (Inr g, k') \<and> g \<noteq> listenfd (http_server os services f) \<and>
      (\<forall>ep. interest ep k' = interest ep k \<and> interest ep k g = None)" for k using assms(8) by simp
  note inv = server_life_inv [OF env assms(3,4) inv0 evfd assms(9) fresh]
  fix w
  assume life: "server_life os sos eventfd raise_limit interest (http_server os services f) rest (w0\<lparr>env := e\<rparr>) w"
  show "server_inv interest w" by (rule inv [OF life])
  show "loop_pass (server_callback os (http_server os services f) rest) answer (w\<lparr>localEventLoop := l\<rparr>) \<noteq> Inl Use_after_free"
    if "wait_answer_ok interest (loop_ep w l) (kern (env w)) answer" for l answer
    using server_loop.pass_keeps [OF conjI [OF env assms(3)], of "w\<lparr>localEventLoop := l\<rparr>" "loop_ep w l" answer] inv [OF life] that
    by (simp add: server_inv_loop)
qed

text \<open>A server with one service is made next to a connection that is already there.\<close>

definition demo_http_eventfd :: "sim \<Rightarrow> (errno + fd) \<times> sim" where
  "demo_http_eventfd k = (Inr (1 + fold max (map (snd \<circ> fst) (sim_reg k) @ sim_closed k) 8), k)"

definition demo_services :: "string \<rightharpoonup> sim cb" where
  "demo_services = addServiceHandler ''/hi'' (\<lambda>c. Inr) Map.empty"

lemma demo_http_eventfd_ok:
  "\<exists>g k'. demo_http_eventfd k = (Inr g, k') \<and> g \<noteq> 8 \<and> (\<forall>ep. sim_interest ep k' = sim_interest ep k \<and> sim_interest ep k g = None)"
proof -
  let ?xs = "map (snd \<circ> fst) (sim_reg k) @ sim_closed k"
  have "sim_interest ep k (1 + fold max ?xs 8) = None" for ep
  proof (rule ccontr)
    assume "\<not> ?thesis"
    then obtain ev where "((ep, 1 + fold max ?xs 8), ev) \<in> set (sim_reg k)"
      unfolding sim_interest_def using map_of_SomeD by fastforce
    then have "1 + fold max ?xs 8 \<in> set ?xs" by force
    from le_fold_max(2) [OF this, of 8] show False by simp
  qed
  moreover have "1 + fold max ?xs 8 \<noteq> 8" using le_fold_max(1) [of 8 ?xs] by simp
  ultimately show ?thesis by (simp add: demo_http_eventfd_def)
qed

theorem http_life_safe_witness:
  "\<exists>srv p w. new_http_server drip_os (sim_sock_os 0) demo_http_eventfd (Pair None) False demo_services demo_bind 1
      (demo_world sim_init []) = Inr (srv, p, w) \<and> listenfd srv = 8 \<and> server_inv sim_interest w"
proof -
  let ?w = "demo_world sim_init []" and ?srv = "http_server drip_os demo_services 8"
  have sock: "makeNewSocket (sim_sock_os 0) (env ?w) = (8, env ?w)"
    by (simp add: makeNewSocket_def sim_sock_os_def sim_socket_def sim_init_def)
  have serv: "\<forall>name h. demo_services name = Some h \<longrightarrow> callback_ok sim_interest h"
    by (auto simp: demo_services_def addServiceHandler_def callback_ok_def split: if_splits)
  have others: "others_ok sim_interest (\<lambda>cb. Inr)" by (simp add: others_ok_def keeps_events_def)
  have inv: "server_inv sim_interest ?w" by (rule demo_server_inv) simp
  have limit: "sim_interest ep (snd (Pair None k)) = sim_interest ep k" for k ep by simp
  note safe = http_life_safe [where services = demo_services, OF drip_os_contract serv others sim_sock_contract [of 0] inv sock _
      demo_http_eventfd_ok limit]
  have evfd: "\<exists>f k'. demo_http_eventfd k = (Inr f, k') \<and> f \<noteq> listenfd ?srv \<and>
      (\<forall>ep. sim_interest ep k' = sim_interest ep k \<and> sim_interest ep k f = None)" for k
    using demo_http_eventfd_ok [of k] by simp
  have fresh: "sim_interest ep (kern (env ?w)) (listenfd ?srv) = None" for ep by (simp add: sim_interest_def)
  obtain w where w: "new_tcp_server drip_os (sim_sock_os 0) demo_http_eventfd (Pair None) False ?srv demo_bind 1 ?w = Inr (2, w)"
    using new_tcp_server_spec [OF drip_os_contract sim_sock_contract [of 0] inv evfd limit fresh,
        where already = False and l = 1 and addr = demo_bind] by auto
  have "?w\<lparr>env := env ?w\<rparr> = ?w" by (simp add: demo_world_def)
  with sock w have new: "new_http_server drip_os (sim_sock_os 0) demo_http_eventfd (Pair None) False demo_services demo_bind 1 ?w = Inr (?srv, 2, w)"
    by (simp add: new_http_server_def Let_def del: demo_world_sel)
  have "(0 :: fd) \<le> 8" by simp
  note s = safe [OF this]
  have "server_inv sim_interest w"
    using conjunct1 [OF s, rule_format, OF new] conjunct2 [OF s, rule_format, of w] by blast
  then show ?thesis using new http_server_sel by blast
qed

end
