(* ===== verification/Logger.thy ===== *)
theory Logger imports Decimal begin

section \<open>Logger: double buffering between the program's threads and a background thread\<close>

text \<open>
  A call of \<open>log\<close> appends a line to the current buffer, exchanging it when the line does not fit; the
  background thread takes the full buffers and the current one away under the mutex, leaves empty
  ones and writes outside of it.  The first part is the work done under the mutex, the second the
  interleaving of the threads that log, the background thread and threads that call \<open>stop\<close>, one after the
  other.  There is the one background thread the constructor starts; \<open>start\<close> is public and starts another
  each time it is called, which is not modelled.  Locking a mutex a second time blocks for ever.  In
  the other theories a log call only appends to a list of entries.
\<close>

subsection \<open>Levels\<close>

datatype log_level = DEBUG | INFO | WARN | ERROR | FATAL | NUM_LOG_LEVELS

fun level_num :: "log_level \<Rightarrow> nat" where
  "level_num DEBUG = 0" | "level_num INFO = 1" | "level_num WARN = 2" | "level_num ERROR = 3"
| "level_num FATAL = 4" | "level_num NUM_LOG_LEVELS = 5"

lemma level_num_inj: "level_num a = level_num b \<Longrightarrow> a = b"
  by (cases a; cases b) simp_all

instantiation log_level :: linorder
begin

definition less_eq_log_level :: "log_level \<Rightarrow> log_level \<Rightarrow> bool" where
  "a \<le> b \<longleftrightarrow> level_num a \<le> level_num b"

definition less_log_level :: "log_level \<Rightarrow> log_level \<Rightarrow> bool" where
  "a < b \<longleftrightarrow> level_num a < level_num b"

instance
  by standard (auto simp: less_eq_log_level_def less_log_level_def intro: level_num_inj)

end

fun trans_level_to_str :: "log_level \<Rightarrow> string" where
  "trans_level_to_str INFO = ''INFO''" | "trans_level_to_str DEBUG = ''DEBUG''"
| "trans_level_to_str WARN = ''WARM''" | "trans_level_to_str FATAL = ''FATAL''"
| "trans_level_to_str ERROR = ''ERROR''" | "trans_level_to_str NUM_LOG_LEVELS = ''UNKNOWN''"

subsection \<open>What is done under the mutex\<close>

definition EMPTYS_INIT_SIZE :: nat where "EMPTYS_INIT_SIZE = 4"
definition EMPTYS_MAX_SIZE :: nat where "EMPTYS_MAX_SIZE = 20"
definition BUFFER_SIZE :: nat where "BUFFER_SIZE = 4096"

record logger =
  log_threshold :: log_level
  currentBuffer :: "string option"
  buffers :: "string list"
  emptys :: "string list"

definition new_logger :: logger where
  "new_logger = \<lparr>log_threshold = INFO, currentBuffer = Some [], buffers = [],
     emptys = replicate EMPTYS_INIT_SIZE []\<rparr>"

text \<open>
  The line that is logged: the time (\<open>stamp\<close>, what \<open>strftime\<close> makes of it, and the microseconds), the
  level, the text.
\<close>

definition prepend_msg_for_test :: "string \<Rightarrow> nat \<Rightarrow> log_level \<Rightarrow> string \<Rightarrow> string" where
  "prepend_msg_for_test stamp usec level msg =
     stamp @ to_string usec @ '' '' @ trans_level_to_str level @ ''] '' @ msg"

definition the_list :: "'a option \<Rightarrow> 'a list" where
  "the_list opt = (case opt of None \<Rightarrow> [] | Some a \<Rightarrow> [a])"

definition put_line :: "string \<Rightarrow> logger \<Rightarrow> logger" where
  "put_line msg lg =
     (let lg1 =
        (if (case currentBuffer lg of None \<Rightarrow> True | Some b \<Rightarrow> sz_sub BUFFER_SIZE (length b) < length msg)
         then
           let lg0 = lg\<lparr>buffers := buffers lg @ the_list (currentBuffer lg)\<rparr> in
           if emptys lg = [] then lg0\<lparr>currentBuffer := Some []\<rparr>
           else lg0\<lparr>currentBuffer := Some (last (emptys lg)), emptys := butlast (emptys lg)\<rparr>
         else lg) in
      lg1\<lparr>currentBuffer := map_option (\<lambda>b. b @ msg) (currentBuffer lg1)\<rparr>)"

definition wanted :: "log_level \<Rightarrow> logger \<Rightarrow> bool" where
  "wanted level lg \<longleftrightarrow> \<not> (level < log_threshold lg \<or> NUM_LOG_LEVELS \<le> level)"

definition log_line :: "string \<Rightarrow> nat \<Rightarrow> log_level \<Rightarrow> string \<Rightarrow> logger \<Rightarrow> logger" where
  "log_line stamp usec level body lg =
     (if wanted level lg then put_line (prepend_msg_for_test stamp usec level body) lg else lg)"

text \<open>The background thread's critical section: what it takes away, and the state it leaves.\<close>

fun refill :: "nat \<Rightarrow> string list \<Rightarrow> string list" where
  "refill 0 es = es"
| "refill (Suc i) es = (if length es < EMPTYS_MAX_SIZE then refill i (es @ [[]]) else es)"

definition collect :: "logger \<Rightarrow> string list \<times> logger" where
  "collect lg =
     (buffers lg @ the_list (currentBuffer lg),
      lg\<lparr>buffers := [], currentBuffer := None, emptys := refill EMPTYS_INIT_SIZE (emptys lg)\<rparr>)"

definition queued_text :: "logger \<Rightarrow> string" where
  "queued_text lg = concat (buffers lg @ the_list (currentBuffer lg))"

definition logger_inv :: "logger \<Rightarrow> bool" where
  "logger_inv lg \<longleftrightarrow> length (emptys lg) \<le> EMPTYS_MAX_SIZE \<and> set (emptys lg) \<subseteq> {[]}"

definition fits :: "logger \<Rightarrow> bool" where
  "fits lg \<longleftrightarrow> (\<forall>b \<in> set (buffers lg @ the_list (currentBuffer lg)). length b \<le> BUFFER_SIZE)"

lemma the_list_simps [simp]: "the_list None = []" "the_list (Some a) = [a]"
  by (simp_all add: the_list_def)

lemma last_empty: "logger_inv lg \<Longrightarrow> emptys lg \<noteq> [] \<Longrightarrow> last (emptys lg) = []"
  unfolding logger_inv_def using last_in_set by blast

text \<open>The three ways a line is put; in each the queued text grows by exactly the line.\<close>

lemma put_line_cases:
  assumes "logger_inv lg"
  obtains (fits) b where "currentBuffer lg = Some b" "length msg \<le> sz_sub BUFFER_SIZE (length b)"
      "put_line msg lg = lg\<lparr>currentBuffer := Some (b @ msg)\<rparr>"
    | (exchanged) es where "put_line msg lg = lg\<lparr>buffers := buffers lg @ the_list (currentBuffer lg),
        currentBuffer := Some msg, emptys := es\<rparr>" "set es \<subseteq> set (emptys lg)" "length es \<le> length (emptys lg)"
        "\<And>b. currentBuffer lg = Some b \<Longrightarrow> sz_sub BUFFER_SIZE (length b) < length msg"
proof (cases "case currentBuffer lg of None \<Rightarrow> True | Some b \<Rightarrow> sz_sub BUFFER_SIZE (length b) < length msg")
  case True
  then have t: "\<And>b. currentBuffer lg = Some b \<Longrightarrow> sz_sub BUFFER_SIZE (length b) < length msg" by simp
  show ?thesis
  proof (cases "emptys lg = []")
    case empty: True
    show ?thesis using True empty t by (intro exchanged [of "[]"]) (simp_all add: put_line_def Let_def)
  next
    case False
    show ?thesis
      using True False t last_empty [OF assms False]
      by (intro exchanged [of "butlast (emptys lg)"]) (auto simp: put_line_def Let_def dest: in_set_butlastD)
  qed
next
  case False
  then obtain b where "currentBuffer lg = Some b" "length msg \<le> sz_sub BUFFER_SIZE (length b)"
    by (auto split: option.splits)
  then show ?thesis using False by (intro fits [of b]) (simp_all add: put_line_def Let_def)
qed

lemma put_line_text: "logger_inv lg \<Longrightarrow> queued_text (put_line msg lg) = queued_text lg @ msg"
  by (cases rule: put_line_cases [of lg msg]) (auto simp: queued_text_def)

lemma put_line_inv: "logger_inv lg \<Longrightarrow> logger_inv (put_line msg lg)"
  by (cases rule: put_line_cases [of lg msg]) (auto simp: logger_inv_def)

lemma put_line_fits:
  assumes "logger_inv lg" and "fits lg" and "length msg \<le> BUFFER_SIZE"
  shows "fits (put_line msg lg)"
  using assms(1)
proof (cases rule: put_line_cases [of lg msg])
  case (fits b)
  then have "length b \<le> BUFFER_SIZE" using assms(2) by (simp add: fits_def)
  then have "sz_sub BUFFER_SIZE (length b) = BUFFER_SIZE - length b"
    by (intro sz_sub_exact) (simp_all add: BUFFER_SIZE_def)
  then show ?thesis using fits \<open>length b \<le> BUFFER_SIZE\<close> assms(2) by (auto simp: fits_def)
next
  case (exchanged es)
  then show ?thesis using assms(2,3) by (auto simp: fits_def)
qed

lemma refill_bound: "length es \<le> EMPTYS_MAX_SIZE \<Longrightarrow> length (refill i es) \<le> EMPTYS_MAX_SIZE"
  by (induction i es rule: refill.induct) auto

lemma refill_empty: "set es \<subseteq> {[]} \<Longrightarrow> set (refill i es) \<subseteq> {[]}"
  by (induction i es rule: refill.induct) auto

lemma collect_inv: "logger_inv lg \<Longrightarrow> logger_inv (snd (collect lg))"
  by (simp add: logger_inv_def collect_def refill_bound refill_empty)

lemma collect_text:
  "concat (fst (collect lg)) = queued_text lg" "queued_text (snd (collect lg)) = []"
  by (simp_all add: collect_def queued_text_def)

subsection \<open>The threads\<close>

text \<open>
  The background thread: in front of \<open>test_and_set\<close>; of the mutex; in the timed wait; writing what it
  has taken; behind its loop, in front of the mutex; writing what is left, holding it; in front of
  the mutex again; in front of \<open>notify_one\<close>; ended.
\<close>

datatype back_pc = B_test | B_lock | B_wait | B_write "string list" | B_final
  | B_final_write "string list" | B_relock | B_notify | B_end

text \<open>
  A thread in \<open>stop\<close>: none yet; in front of the mutex; in \<open>wait\<close>, which has released it; woken, in front of the mutex
  again; returned, after which there may be another call.
\<close>

datatype stop_pc = S_none | S_lock | S_wait | S_woken | S_returned

text \<open>
  \<open>held\<close>: the mutex is held between two steps (the other critical sections are one step).  Ghost state:
  everything logged so far, and whether a \<open>write\<close> has taken less than it was given.
\<close>

record log_system =
  the_logger :: logger
  running :: bool
  held :: bool
  back_at :: back_pc
  stop_at :: stop_pc
  written :: string
  logged_text :: string
  short_write :: bool

definition log_start :: log_system where
  "log_start = \<lparr>the_logger = new_logger, running = True, held = False, back_at = B_test, stop_at = S_none,
     written = [], logged_text = [], short_write = False\<rparr>"

text \<open>A step of the background thread; \<open>n\<close> is what \<open>write\<close> takes, its result is not looked at.\<close>

definition write_file :: "nat \<Rightarrow> string \<Rightarrow> log_system \<Rightarrow> log_system" where
  "write_file n b s = s\<lparr>written := written s @ take n b, short_write := short_write s \<or> n < length b\<rparr>"

definition take_buffers :: "log_system \<Rightarrow> log_system" where
  "take_buffers s = (case collect (the_logger s) of (full, lg) \<Rightarrow> s\<lparr>the_logger := lg, back_at := B_write full\<rparr>)"

fun back_step :: "nat \<Rightarrow> log_system \<Rightarrow> log_system option" where
  "back_step n s =
     (case back_at s of
        B_test \<Rightarrow> Some (if running s then s\<lparr>back_at := B_lock\<rparr> else s\<lparr>running := True, back_at := B_final\<rparr>)
      | B_lock \<Rightarrow> if held s then None
                 else Some (if buffers (the_logger s) = [] then s\<lparr>back_at := B_wait\<rparr> else take_buffers s)
      | B_wait \<Rightarrow> if held s then None else Some (take_buffers s)
      | B_write (b # bs) \<Rightarrow> Some ((write_file n b s)\<lparr>back_at := B_write bs\<rparr>)
      | B_write [] \<Rightarrow> Some (s\<lparr>back_at := B_test\<rparr>)
      | B_final \<Rightarrow>
          if held s then None
          else
            let lg = the_logger s; bs = buffers lg @ the_list (currentBuffer lg) in
            Some (s\<lparr>held := True, the_logger := lg\<lparr>buffers := bs, currentBuffer := None\<rparr>, back_at := B_final_write bs\<rparr>)
      | B_final_write (b # bs) \<Rightarrow> Some ((write_file n b s)\<lparr>back_at := B_final_write bs\<rparr>)
      | B_final_write [] \<Rightarrow> Some (s\<lparr>back_at := B_relock\<rparr>)
      | B_relock \<Rightarrow> if held s then None else Some (s\<lparr>back_at := B_notify\<rparr>)
      | B_notify \<Rightarrow> Some (s\<lparr>stop_at := (if stop_at s = S_wait then S_woken else stop_at s), held := False, back_at := B_end\<rparr>)
      | B_end \<Rightarrow> None)"

text \<open>
  \<open>willCloseCond_.wait(ul)\<close> has no predicate: \<open>Spurious\<close> is a wake-up nobody has sent.  (That of the timed wait is the step
  \<open>B_wait\<close> itself, which comes whether there was a notification, the time is up, or neither.)
\<close>

datatype log_action = Log string nat log_level string | Back nat | Stop_call | Stop_lock | Spurious | Stop_relock

fun log_exec :: "log_action \<Rightarrow> log_system \<Rightarrow> log_system option" where
  "log_exec (Log stamp usec level body) s =
     (if \<not> wanted level (the_logger s) then Some s
      else if held s then None
      else Some (s\<lparr>the_logger := log_line stamp usec level body (the_logger s),
        logged_text := logged_text s @ prepend_msg_for_test stamp usec level body\<rparr>))"
| "log_exec (Back n) s = back_step n s"
| "log_exec Stop_call s =
     (if stop_at s = S_none \<or> stop_at s = S_returned then Some (s\<lparr>running := False, stop_at := S_lock\<rparr>) else None)"
| "log_exec Stop_lock s =
     (if stop_at s = S_lock \<and> \<not> held s then Some (s\<lparr>stop_at := S_wait\<rparr>) else None)"
| "log_exec Spurious s = (if stop_at s = S_wait then Some (s\<lparr>stop_at := S_woken\<rparr>) else None)"
| "log_exec Stop_relock s =
     (if stop_at s = S_woken \<and> \<not> held s then Some (s\<lparr>stop_at := S_returned\<rparr>) else None)"

inductive log_reach :: "log_system \<Rightarrow> bool" where
  init: "log_reach log_start"
| step: "log_reach s \<Longrightarrow> log_exec a s = Some s' \<Longrightarrow> log_reach s'"

fun log_run :: "log_action list \<Rightarrow> log_system \<Rightarrow> log_system option" where
  "log_run [] s = Some s"
| "log_run (a # as) s = Option.bind (log_exec a s) (log_run as)"

lemma log_run_reach: "log_reach s \<Longrightarrow> log_run as s = Some s' \<Longrightarrow> log_reach s'"
proof (induction as arbitrary: s)
  case (Cons a as)
  then obtain s1 where "log_exec a s = Some s1" "log_run as s1 = Some s'"
    by (auto simp: bind_eq_Some_conv)
  then show ?case using Cons log_reach.step by blast
qed simp

subsection \<open>Invariants\<close>

text \<open>The text on its way to the file, in the order in which it will arrive.\<close>

definition in_transit :: "log_system \<Rightarrow> string" where
  "in_transit s =
     (case back_at s of
        B_write bs \<Rightarrow> concat bs @ queued_text (the_logger s)
      | B_final_write bs \<Rightarrow> concat bs
      | B_relock \<Rightarrow> [] | B_notify \<Rightarrow> [] | B_end \<Rightarrow> []
      | _ \<Rightarrow> queued_text (the_logger s))"

fun holding :: "back_pc \<Rightarrow> bool" where
  "holding (B_final_write bs) = True" | "holding B_relock = True" | "holding _ = False"

definition log_inv :: "log_system \<Rightarrow> bool" where
  "log_inv s \<longleftrightarrow> logger_inv (the_logger s) \<and> held s = holding (back_at s) \<and>
     back_at s \<notin> {B_notify, B_end} \<and>
     (\<not> short_write s \<longrightarrow> written s @ in_transit s = logged_text s)"

lemma write_file_sel [simp]:
  "the_logger (write_file n b s) = the_logger s" "held (write_file n b s) = held s"
  "stop_at (write_file n b s) = stop_at s" "logged_text (write_file n b s) = logged_text s"
  "back_at (write_file n b s) = back_at s"
  "short_write (write_file n b s) = (short_write s \<or> n < length b)"
  "written (write_file n b s) = written s @ take n b"
  by (simp_all add: write_file_def)

lemma take_buffers_inv:
  assumes "log_inv s" and "back_at s = B_lock \<or> back_at s = B_wait"
  shows "log_inv (take_buffers s)"
proof -
  obtain full lg where c: "collect (the_logger s) = (full, lg)" by fastforce
  have "concat full = queued_text (the_logger s)" "queued_text lg = []" "logger_inv lg"
    using collect_text [of "the_logger s"] collect_inv [of "the_logger s"] assms(1) c
    by (simp_all add: log_inv_def)
  then show ?thesis
    using assms c by (auto simp: log_inv_def take_buffers_def in_transit_def)
qed

lemma back_step_inv:
  assumes inv: "log_inv s" and st: "back_step n s = Some s'"
  shows "log_inv s'"
proof (cases "back_at s")
  case B_test
  then show ?thesis using inv st by (auto simp: log_inv_def in_transit_def split: if_splits)
next
  case B_lock
  then show ?thesis
    using inv st take_buffers_inv [OF inv] by (auto simp: log_inv_def in_transit_def split: if_splits)
next
  case B_wait
  then show ?thesis using inv st take_buffers_inv [OF inv] by (auto split: if_splits)
next
  case (B_write bs)
  then show ?thesis using inv st by (cases bs) (auto simp: log_inv_def in_transit_def)
next
  case B_final
  then show ?thesis
    using inv st by (auto simp: log_inv_def in_transit_def queued_text_def logger_inv_def Let_def split: if_splits)
next
  case (B_final_write bs)
  then show ?thesis using inv st by (cases bs) (auto simp: log_inv_def in_transit_def)
qed (use inv st in \<open>auto simp: log_inv_def split: if_splits\<close>)

lemma log_exec_inv:
  assumes inv: "log_inv s" and st: "log_exec a s = Some s'"
  shows "log_inv s'"
proof (cases a)
  case (Log stamp usec level body)
  show ?thesis
  proof (cases "wanted level (the_logger s)")
    case False
    then show ?thesis using st Log inv by simp
  next
    case want: True
    then have h: "\<not> held s" using st Log by (simp split: if_splits)
    then have nh: "\<not> holding (back_at s)" "back_at s \<notin> {B_notify, B_end}" using inv by (simp_all add: log_inv_def)
    have li: "logger_inv (the_logger s)" using inv by (simp add: log_inv_def)
    have q: "queued_text (log_line stamp usec level body (the_logger s)) =
        queued_text (the_logger s) @ prepend_msg_for_test stamp usec level body"
      "logger_inv (log_line stamp usec level body (the_logger s))"
      using put_line_text [OF li] put_line_inv [OF li] want by (simp_all add: log_line_def)
    have s': "s' = s\<lparr>the_logger := log_line stamp usec level body (the_logger s),
        logged_text := logged_text s @ prepend_msg_for_test stamp usec level body\<rparr>"
      using st Log h want by simp
    have "in_transit s' = in_transit s @ prepend_msg_for_test stamp usec level body"
      using nh q(1) by (cases "back_at s") (simp_all add: in_transit_def s')
    then show ?thesis using inv q(2) by (auto simp: log_inv_def s')
  qed
next
  case (Back n)
  then show ?thesis using back_step_inv [OF inv] st by simp
qed (use inv st in \<open>auto simp: log_inv_def in_transit_def split: if_splits cong: back_pc.case_cong\<close>)

lemma log_reach_inv: "log_reach s \<Longrightarrow> log_inv s"
proof (induction rule: log_reach.induct)
  case init
  then show ?case
    by (simp add: log_inv_def log_start_def in_transit_def queued_text_def new_logger_def logger_inv_def
        EMPTYS_INIT_SIZE_def EMPTYS_MAX_SIZE_def)
next
  case (step s a s')
  then show ?case using log_exec_inv by blast
qed

subsection \<open>Properties\<close>

text \<open>
  C29: however the threads interleave, what has been written and what is on its way, taken together and
  in this order, is exactly what has been logged: no line is lost, repeated or overtaken, provided
  every \<open>write\<close> took all it was given.  When the background thread has left its loop and written the
  rest, everything is in the file.
\<close>

theorem logger_order:
  assumes "log_reach s" and "\<not> short_write s"
  shows "written s @ in_transit s = logged_text s \<and> (back_at s = B_relock \<longrightarrow> written s = logged_text s)"
  using log_reach_inv [OF assms(1)] assms(2) by (auto simp: log_inv_def in_transit_def)

definition demo_log :: "log_action list" where
  "demo_log = [Log ''[t.'' 5 ERROR ''x'', Back 0, Stop_call, Stop_lock, Back 0, Back 0, Back 99, Back 0,
     Log ''[u.'' 6 FATAL ''y'', Back 0, Back 0, Back 99, Back 0]"

lemma demo_log_run:
  "\<exists>s. log_run demo_log log_start = Some s \<and> back_at s = B_relock \<and> \<not> short_write s \<and> stop_at s = S_wait"
proof -
  have sub: "sz_sub 4096 0 = 4096" by (simp add: sz_sub_def)
  have four: "EMPTYS_INIT_SIZE = Suc (Suc (Suc (Suc 0)))" by (simp add: EMPTYS_INIT_SIZE_def)
  have levels: "ERROR < INFO = False" "FATAL < INFO = False" "(NUM_LOG_LEVELS \<le> ERROR) = False"
    "(NUM_LOG_LEVELS \<le> FATAL) = False" by (simp_all add: less_log_level_def less_eq_log_level_def)
  have num: "to_string 5 = ''5''" "to_string 6 = ''6''" by code_simp+
  note simps = demo_log_def log_start_def new_logger_def log_line_def wanted_def levels put_line_def
    prepend_msg_for_test_def num sub BUFFER_SIZE_def four EMPTYS_MAX_SIZE_def Let_def take_buffers_def
    collect_def write_file_def
  show ?thesis by (simp add: simps)
qed

theorem logger_order_witness:
  "\<exists>s. log_run demo_log log_start = Some s \<and> back_at s = B_relock \<and> written s = logged_text s"
proof -
  obtain s where s: "log_run demo_log log_start = Some s" "back_at s = B_relock" "\<not> short_write s"
    using demo_log_run by blast
  have "log_reach s" using log_run_reach [OF log_reach.init s(1)] .
  from logger_order [OF this s(3)] s show ?thesis by blast
qed

text \<open>
  As long as no line is longer than 4096 bytes no buffer is, and there are at most 20 spare ones.
  A longer line gets a buffer to itself; from then on the unsigned difference wraps around, so every
  line goes to that buffer, however long it grows, until the background thread takes it.
\<close>

theorem buffer_limit:
  assumes "logger_inv lg"
  shows "logger_inv (put_line msg lg) \<and> logger_inv (snd (collect lg)) \<and>
    (fits lg \<and> length msg \<le> BUFFER_SIZE \<longrightarrow> fits (put_line msg lg)) \<and>
    (\<forall>b. currentBuffer lg = Some b \<and> BUFFER_SIZE < length b \<and> length b + length msg \<le> 2 ^ 64 \<longrightarrow>
       put_line msg lg = lg\<lparr>currentBuffer := Some (b @ msg)\<rparr>)"
proof -
  have "put_line msg lg = lg\<lparr>currentBuffer := Some (b @ msg)\<rparr>"
    if b: "currentBuffer lg = Some b" "BUFFER_SIZE < length b" "length b + length msg \<le> 2 ^ 64" for b
  proof -
    have "sz_sub BUFFER_SIZE (length b) = BUFFER_SIZE + 2 ^ 64 - length b"
      using b(2,3) unfolding sz_sub_def by (intro mod_less) simp
    then have "\<not> sz_sub BUFFER_SIZE (length b) < length msg" using b(3) by simp
    then show ?thesis using b(1) by (simp add: put_line_def)
  qed
  then show ?thesis using put_line_inv [OF assms] collect_inv [OF assms] put_line_fits [OF assms] by blast
qed

theorem buffer_limit_witness:
  "fits (put_line ''hello'' new_logger) \<and> length (emptys (snd (collect new_logger))) \<le> 20"
proof -
  have "logger_inv new_logger" "fits new_logger"
    by (simp_all add: logger_inv_def fits_def new_logger_def EMPTYS_INIT_SIZE_def EMPTYS_MAX_SIZE_def)
  with buffer_limit [of new_logger "''hello''"] show ?thesis
    by (auto simp: logger_inv_def BUFFER_SIZE_def EMPTYS_MAX_SIZE_def)
qed

text \<open>Once the background thread has written the rest, all that can still change is where a call of \<open>stop\<close> is.\<close>

lemma relock_exec:
  assumes "log_inv s" and "back_at s = B_relock" and "log_exec a s = Some s'"
  shows "s' = s\<lparr>running := running s', stop_at := stop_at s'\<rparr>" and "stop_at s' = S_returned \<Longrightarrow> stop_at s = S_returned"
proof -
  have h: "held s" using assms(1,2) by (simp add: log_inv_def)
  have "s' = s\<lparr>running := running s', stop_at := stop_at s'\<rparr> \<and> (stop_at s' = S_returned \<longrightarrow> stop_at s = S_returned)"
    by (cases a) (use assms(2,3) h in \<open>auto split: if_splits\<close>)
  then show "s' = s\<lparr>running := running s', stop_at := stop_at s'\<rparr>" "stop_at s' = S_returned \<Longrightarrow> stop_at s = S_returned"
    by blast+
qed

lemma relock_run:
  "log_reach s \<Longrightarrow> back_at s = B_relock \<Longrightarrow> log_run as s = Some s' \<Longrightarrow>
     s' = s\<lparr>running := running s', stop_at := stop_at s'\<rparr> \<and> (stop_at s' = S_returned \<longrightarrow> stop_at s = S_returned)"
proof (induction as arbitrary: s)
  case (Cons a as)
  then obtain s1 where s1: "log_exec a s = Some s1" "log_run as s1 = Some s'"
    by (auto simp: bind_eq_Some_conv)
  note r = relock_exec [OF log_reach_inv [OF Cons.prems(1)] Cons.prems(2) s1(1)]
  have "back_at s1 = B_relock" by (subst r(1)) (simp add: Cons.prems(2))
  from Cons.IH [OF log_reach.step [OF Cons.prems(1) s1(1)] this s1(2)]
  have i: "s' = s1\<lparr>running := running s', stop_at := stop_at s'\<rparr>" "stop_at s' = S_returned \<Longrightarrow> stop_at s1 = S_returned"
    by blast+
  have "s' = s\<lparr>running := running s', stop_at := stop_at s'\<rparr>" by (subst i(1), subst r(1)) simp
  then show ?case using i(2) r(2) by blast
qed simp

lemma stop_waits:
  "log_reach s \<Longrightarrow> stop_at s \<notin> {S_woken, S_returned} \<Longrightarrow> log_run as s = Some s' \<Longrightarrow> Spurious \<notin> set as \<Longrightarrow>
     stop_at s' \<notin> {S_woken, S_returned}"
proof (induction as arbitrary: s)
  case (Cons a as)
  then obtain s1 where s1: "log_exec a s = Some s1" "log_run as s1 = Some s'"
    by (auto simp: bind_eq_Some_conv)
  have n: "back_at s \<noteq> B_notify" using log_reach_inv [OF Cons.prems(1)] by (simp add: log_inv_def)
  have b: "stop_at s2 = stop_at s" if "back_step n s = Some s2" for n s2
    using that n by (auto simp: take_buffers_def Let_def split: back_pc.splits list.splits if_splits prod.splits)
  have "stop_at s1 \<notin> {S_woken, S_returned}"
    by (cases a) (use s1(1) b Cons.prems(2,4) in \<open>auto simp del: back_step.simps split: if_splits\<close>)
  then show ?case using Cons.IH [OF log_reach.step [OF Cons.prems(1) s1(1)] _ s1(2)] Cons.prems(4) by simp
qed simp

text \<open>
  C38: The notification \<open>stop\<close> waits for is never sent.  In no run without a spurious wake-up does \<open>stop\<close> return.  The
  background thread, having written the rest, locks the mutex it holds: from then on nothing changes any more, no line
  is logged and the mutex stays locked, except that calls of \<open>stop\<close> begin or wake up spuriously, and none that has not
  returned yet ever does, spurious wake-up or not; this state is reached.
\<close>

theorem stop_hangs:
  "(\<forall>as s. log_run as log_start = Some s \<and> Spurious \<notin> set as \<longrightarrow> stop_at s \<noteq> S_returned) \<and>
   (\<forall>s as s'. log_reach s \<and> back_at s = B_relock \<and> log_run as s = Some s' \<longrightarrow>
      s' = s\<lparr>running := running s', stop_at := stop_at s'\<rparr> \<and> held s' \<and>
      (stop_at s' = S_returned \<longrightarrow> stop_at s = S_returned)) \<and>
   (\<exists>s. log_reach s \<and> back_at s = B_relock \<and> stop_at s = S_wait)"
proof (intro conjI allI impI)
  show "stop_at s \<noteq> S_returned" if "log_run as log_start = Some s \<and> Spurious \<notin> set as" for as s
    using stop_waits [OF log_reach.init] that by (auto simp: log_start_def)
next
  fix s as s'
  assume a: "log_reach s \<and> back_at s = B_relock \<and> log_run as s = Some s'"
  then show r: "s' = s\<lparr>running := running s', stop_at := stop_at s'\<rparr>" "stop_at s' = S_returned \<Longrightarrow> stop_at s = S_returned"
    using relock_run by blast+
  have "held s" using log_reach_inv [of s] a by (simp add: log_inv_def)
  then show "held s'" by (subst r(1)) simp
next
  show "\<exists>s. log_reach s \<and> back_at s = B_relock \<and> stop_at s = S_wait"
    using demo_log_run log_run_reach [OF log_reach.init] by blast
qed

theorem stop_hangs_witness:
  "\<exists>s. log_run demo_log log_start = Some s \<and> stop_at s = S_wait \<and>
     (\<forall>as s'. log_run as s = Some s' \<longrightarrow> written s' = written s \<and> stop_at s' \<noteq> S_returned)"
proof -
  obtain s where s: "log_run demo_log log_start = Some s" "back_at s = B_relock" "stop_at s = S_wait"
    using demo_log_run by blast
  have r: "log_reach s" using log_run_reach [OF log_reach.init s(1)] .
  have "written s' = written s \<and> stop_at s' \<noteq> S_returned" if "log_run as s = Some s'" for as s'
  proof -
    have h: "s' = s\<lparr>running := running s', stop_at := stop_at s'\<rparr>" "stop_at s' = S_returned \<longrightarrow> stop_at s = S_returned"
      using stop_hangs r s(2) that by blast+
    have "written s' = written s" by (subst h(1)) simp
    then show ?thesis using h(2) s(3) by auto
  qed
  then show ?thesis using s(1,3) by blast
qed

text \<open>A spurious wake-up that comes while the background thread still runs lets \<open>stop\<close> return, with the text not written.\<close>

theorem stop_too_early:
  "\<exists>s. log_run [Log ''[t.'' 5 ERROR ''x'', Stop_call, Stop_lock, Spurious, Stop_relock] log_start = Some s \<and>
     stop_at s = S_returned \<and> written s = [] \<and> logged_text s \<noteq> []"
proof -
  have levels: "ERROR < INFO = False" "(NUM_LOG_LEVELS \<le> ERROR) = False" by (simp_all add: less_log_level_def less_eq_log_level_def)
  have num: "to_string 5 = ''5''" by code_simp
  show ?thesis by (simp add: log_start_def new_logger_def log_line_def wanted_def levels prepend_msg_for_test_def num)
qed

end
