(* ===== verification/LoggerFiles.thy ===== *)
theory LoggerFiles imports Logger begin

section \<open>Logger: levels, \<open>sync\<close>, and the file the log goes to\<close>

text \<open>
  The functions of the logger that the program calls, and \<open>setOutputFile\<close>, which changes the descriptor the
  background thread writes to, without the mutex.  The threads of theory \<open>Logger\<close> run together with a thread
  in \<open>setOutputFile\<close> and with other threads that open descriptors.
\<close>

subsection \<open>The calls\<close>

text \<open>
  \<open>formatted\<close> is what fmt makes of format and arguments.  \<open>fatal\<close> logs and returns.  \<open>sys\<close> adds the text of
  \<open>errno\<close>; the overload of \<open>log\<close> for a C string stops at its first null character.
\<close>

definition log_info :: "string \<Rightarrow> nat \<Rightarrow> string \<Rightarrow> log_action" where
  "log_info stamp usec formatted = Log stamp usec INFO formatted"

definition log_fatal :: "string \<Rightarrow> nat \<Rightarrow> string \<Rightarrow> log_action" where
  "log_fatal stamp usec formatted = Log stamp usec FATAL formatted"

definition log_sys :: "string \<Rightarrow> nat \<Rightarrow> string \<Rightarrow> string \<Rightarrow> log_action" where
  "log_sys stamp usec formatted strerror =
     Log stamp usec ERROR (formatted @ '' because '' @ strerror @ [CHR 0x0A])"

definition log_cstr :: "string \<Rightarrow> nat \<Rightarrow> log_level \<Rightarrow> string \<Rightarrow> log_action" where
  "log_cstr stamp usec level logline = Log stamp usec level (takeWhile (\<lambda>c. c \<noteq> CHR 0x00) logline)"

definition setLogLevel :: "log_level \<Rightarrow> log_system \<Rightarrow> log_system" where
  "setLogLevel level s = s\<lparr>the_logger := (the_logger s)\<lparr>log_threshold := level\<rparr>\<rparr>"

text \<open>\<open>sync\<close> prints that it is done when nothing is queued; it looks at the queue without the mutex.\<close>

definition sync_done :: "logger \<Rightarrow> bool" where
  "sync_done lg \<longleftrightarrow> buffers lg = [] \<and> (case currentBuffer lg of None \<Rightarrow> True | Some b \<Rightarrow> b = [])"

subsection \<open>The descriptor of the log\<close>

definition STDOUT_FILENO :: int where "STDOUT_FILENO = 1"

text \<open>
  Where a call of \<open>setOutputFile\<close> is: not running; in front of \<open>open\<close>; in front of the assignment; or behind the
  failed \<open>open\<close>, in \<open>exit\<close>.  The flag says that the descriptor of the log has been closed by it.
\<close>

datatype out_pc = O_none | O_open string bool bool | O_assign int bool | O_exit bool

text \<open>Where the destructor is: not begun; in its call of \<open>stop\<close>; ended.\<close>

datatype end_pc = E_none | E_stop | E_gone

text \<open>
  The open descriptors and the files they are for, the text of the files, the descriptor of the log.  Ghost state: the
  files opened for the log, latest last, the number of calls, and whether the log was written while its descriptor was
  closed.
\<close>

record out_files =
  outputFd :: int
  fd_table :: "int \<rightharpoonup> string"
  file_text :: "string \<Rightarrow> string"
  out_at :: out_pc
  end_at :: end_pc
  opened_files :: "string list"
  switches :: nat
  stray :: bool

definition out_start :: out_files where
  "out_start = \<lparr>outputFd = STDOUT_FILENO, fd_table = [0 \<mapsto> ''<stdin>'', 1 \<mapsto> ''<stdout>'', 2 \<mapsto> ''<stderr>''],
     file_text = (\<lambda>_. []), out_at = O_none, end_at = E_none, opened_files = [''<stdout>''], switches = 0, stray = False\<rparr>"

text \<open>\<open>write(outputFd_, b, ...)\<close> of a buffer of which the kernel takes \<open>n\<close> bytes: none when the descriptor is not open.\<close>

fun window :: "out_pc \<Rightarrow> bool" where
  "window (O_open name trunc closed) = closed" | "window (O_assign fd closed) = closed"
| "window (O_exit closed) = closed" | "window O_none = False"

definition write_out :: "nat \<Rightarrow> string \<Rightarrow> out_files \<Rightarrow> out_files" where
  "write_out n b f =
     (case fd_table f (outputFd f) of
        None \<Rightarrow> f\<lparr>stray := stray f \<or> window (out_at f)\<rparr>
      | Some name \<Rightarrow> f\<lparr>file_text := (file_text f)(name := file_text f name @ take n b), stray := stray f \<or> window (out_at f)\<rparr>)"

fun next_buffer :: "back_pc \<Rightarrow> string option" where
  "next_buffer (B_write (b # bs)) = Some b"
| "next_buffer (B_final_write (b # bs)) = Some b"
| "next_buffer _ = None"

definition back_out :: "nat \<Rightarrow> log_system \<times> out_files \<Rightarrow> (log_system \<times> out_files) option" where
  "back_out n = (\<lambda>(s, f).
     let n' = (if fd_table f (outputFd f) = None then 0 else n) in
     map_option (\<lambda>s'. (s', case next_buffer (back_at s) of None \<Rightarrow> f | Some b \<Rightarrow> write_out n' b f)) (back_step n' s))"

text \<open>\<open>setOutputFile\<close>: \<open>fsync\<close> and \<open>close\<close>, \<open>open\<close>, the assignment.\<close>

definition out_close :: "string \<Rightarrow> bool \<Rightarrow> out_files \<Rightarrow> out_files option" where
  "out_close name trunc f =
     (if out_at f \<noteq> O_none then None
      else if outputFd f \<noteq> STDOUT_FILENO then
        Some (f\<lparr>fd_table := (fd_table f)(outputFd f := None), out_at := O_open name trunc True, switches := Suc (switches f)\<rparr>)
      else Some (f\<lparr>out_at := O_open name trunc False, switches := Suc (switches f)\<rparr>))"

definition out_open :: "int option \<Rightarrow> out_files \<Rightarrow> out_files option" where
  "out_open r f =
     (case (out_at f, r) of
        (O_open name trunc closed, None) \<Rightarrow> Some (f\<lparr>out_at := O_exit closed\<rparr>)
      | (O_open name trunc closed, Some fd) \<Rightarrow>
          if fd < 0 \<or> fd_table f fd \<noteq> None then None
          else Some (f\<lparr>fd_table := (fd_table f)(fd \<mapsto> name),
            file_text := (if trunc then (file_text f)(name := []) else file_text f),
            out_at := O_assign fd closed, opened_files := opened_files f @ [name]\<rparr>)
      | _ \<Rightarrow> None)"

definition out_assign :: "out_files \<Rightarrow> out_files option" where
  "out_assign f = (case out_at f of O_assign fd closed \<Rightarrow> Some (f\<lparr>outputFd := fd, out_at := O_none\<rparr>) | _ \<Rightarrow> None)"

text \<open>The destructor: \<open>stop\<close>, then \<open>close\<close>.  Calls of \<open>stop\<close>, its own included, come one after the other.\<close>

definition dtor_stop :: "log_system \<times> out_files \<Rightarrow> (log_system \<times> out_files) option" where
  "dtor_stop = (\<lambda>(s, f).
     if end_at f \<noteq> E_none then None else map_option (\<lambda>s'. (s', f\<lparr>end_at := E_stop\<rparr>)) (log_exec Stop_call s))"

definition logger_destroyed :: "log_system \<times> out_files \<Rightarrow> (log_system \<times> out_files) option" where
  "logger_destroyed = (\<lambda>(s, f).
     if end_at f \<noteq> E_stop \<or> stop_at s \<noteq> S_returned then None
     else if outputFd f \<noteq> STDOUT_FILENO then Some (s, f\<lparr>fd_table := (fd_table f)(outputFd f := None), end_at := E_gone\<rparr>)
     else Some (s, f\<lparr>end_at := E_gone\<rparr>))"

text \<open>All the steps; \<open>Other_open\<close>: another thread opens a descriptor, for a connection say.\<close>

datatype out_action = Caller log_action | Set_level log_level | Out_close string bool | Out_open "int option" | Out_assign
  | Dtor_stop | Destroyed | Other_open int string

fun out_exec :: "out_action \<Rightarrow> log_system \<times> out_files \<Rightarrow> (log_system \<times> out_files) option" where
  "out_exec (Caller (Back n)) sf = back_out n sf"
| "out_exec (Caller a) sf = map_option (\<lambda>s. (s, snd sf)) (log_exec a (fst sf))"
| "out_exec (Set_level l) sf = Some (setLogLevel l (fst sf), snd sf)"
| "out_exec (Out_close name trunc) sf = map_option (Pair (fst sf)) (out_close name trunc (snd sf))"
| "out_exec (Out_open r) sf = map_option (Pair (fst sf)) (out_open r (snd sf))"
| "out_exec Out_assign sf = map_option (Pair (fst sf)) (out_assign (snd sf))"
| "out_exec Dtor_stop sf = dtor_stop sf"
| "out_exec Destroyed sf = logger_destroyed sf"
| "out_exec (Other_open fd name) sf =
     (if fd < 0 \<or> fd_table (snd sf) fd \<noteq> None then None
      else Some (fst sf, (snd sf)\<lparr>fd_table := (fd_table (snd sf))(fd \<mapsto> name)\<rparr>))"

inductive out_reach :: "log_system \<times> out_files \<Rightarrow> bool" where
  init: "out_reach (log_start, out_start)"
| step: "out_reach sf \<Longrightarrow> out_exec a sf = Some sf' \<Longrightarrow> out_reach sf'"

fun out_run :: "out_action list \<Rightarrow> log_system \<times> out_files \<Rightarrow> (log_system \<times> out_files) option" where
  "out_run [] sf = Some sf"
| "out_run (a # as) sf = Option.bind (out_exec a sf) (out_run as)"

lemma out_run_reach: "out_reach sf \<Longrightarrow> out_run as sf = Some sf' \<Longrightarrow> out_reach sf'"
proof (induction as arbitrary: sf)
  case (Cons a as)
  then obtain sf1 where "out_exec a sf = Some sf1" "out_run as sf1 = Some sf'"
    by (auto simp: bind_eq_Some_conv)
  then show ?case using Cons out_reach.step by blast
qed simp

subsection \<open>The threads of the logger do not notice\<close>

lemma setLogLevel_inv: "log_inv s \<Longrightarrow> log_inv (setLogLevel level s)"
  by (auto simp: log_inv_def setLogLevel_def in_transit_def queued_text_def logger_inv_def split: back_pc.splits)

lemma out_exec_log_inv:
  assumes "log_inv (fst sf)" and "out_exec a sf = Some sf'"
  shows "log_inv (fst sf')"
proof (cases a)
  case (Caller b)
  then show ?thesis
    using assms log_exec_inv [OF assms(1)]
    by (cases b) (auto simp: back_out_def Let_def simp del: log_exec.simps back_step.simps split: prod.splits intro: back_step_inv)
next
  case (Set_level l)
  then show ?thesis using assms setLogLevel_inv by auto
next
  case Dtor_stop
  then show ?thesis
    using assms log_exec_inv [OF assms(1)] by (auto simp: dtor_stop_def simp del: log_exec.simps split: if_splits prod.splits)
qed (use assms in \<open>auto simp: logger_destroyed_def split: if_splits prod.splits\<close>)

lemma out_reach_log_inv: "out_reach sf \<Longrightarrow> log_inv (fst sf)"
proof (induction rule: out_reach.induct)
  case init
  then show ?case using log_reach_inv [OF log_reach.init] by simp
next
  case (step sf a sf')
  then show ?case using out_exec_log_inv by blast
qed

subsection \<open>The files of the log\<close>

text \<open>
  The descriptor of the log is for the file opened last, or for the one before while the new one is still empty and
  not assigned; the files opened for the log, in order, are what was written.
\<close>

definition log_text :: "out_files \<Rightarrow> string" where
  "log_text f = concat (map (file_text f) (opened_files f))"

definition log_file :: "out_files \<Rightarrow> string \<Rightarrow> bool" where
  "log_file f name \<longleftrightarrow> (\<exists>ys zs. opened_files f = ys @ name # zs \<and> (\<forall>z \<in> set zs. file_text f z = []))"

definition files_ok :: "string \<Rightarrow> out_files \<Rightarrow> bool" where
  "files_ok text f \<longleftrightarrow>
     (\<not> window (out_at f) \<longrightarrow> (\<exists>name. fd_table f (outputFd f) = Some name \<and> log_file f name)) \<and>
     (\<forall>fd c. out_at f = O_assign fd c \<longrightarrow> (\<exists>ys name. fd_table f fd = Some name \<and> opened_files f = ys @ [name])) \<and>
     (\<forall>name. name \<notin> set (opened_files f) \<longrightarrow> file_text f name = []) \<and> log_text f = text"

definition files_inv :: "log_system \<times> out_files \<Rightarrow> bool" where
  "files_inv = (\<lambda>(s, f). \<not> stray f \<and> distinct (opened_files f) \<and> end_at f \<noteq> E_gone \<longrightarrow> files_ok (written s) f)"

lemma log_file_update [simp]:
  "log_file (f\<lparr>out_at := pc\<rparr>) name = log_file f name" "log_file (f\<lparr>fd_table := tab\<rparr>) name = log_file f name"
  "log_file (f\<lparr>outputFd := fd\<rparr>) name = log_file f name" "log_file (f\<lparr>switches := n\<rparr>) name = log_file f name"
  "log_text (f\<lparr>out_at := pc\<rparr>) = log_text f" "log_text (f\<lparr>fd_table := tab\<rparr>) = log_text f"
  "log_text (f\<lparr>outputFd := fd\<rparr>) = log_text f" "log_text (f\<lparr>switches := n\<rparr>) = log_text f"
  by (simp_all add: log_file_def log_text_def)

lemma log_file_last: "opened_files f = ys @ [name] \<Longrightarrow> log_file f name"
  by (force simp: log_file_def)

lemma back_step_written:
  "back_step n s = Some s' \<Longrightarrow>
     written s' = written s @ (case next_buffer (back_at s) of None \<Rightarrow> [] | Some b \<Rightarrow> take n b)"
  by (cases "back_at s" rule: next_buffer.cases)
    (auto simp: take_buffers_def Let_def split: if_splits prod.splits)

lemma concat_append_at:
  assumes "distinct (ys @ a # zs)" and "\<forall>z \<in> set zs. g z = []"
  shows "concat (map (g(a := g a @ t)) (ys @ a # zs)) = concat (map g (ys @ a # zs)) @ t"
proof -
  have "map (g(a := g a @ t)) ys = map g ys" using assms(1) by (intro map_cong) auto
  moreover have "map (g(a := g a @ t)) zs = map g zs" using assms(1) by (intro map_cong) auto
  moreover have "concat (map g zs) = []" using assms(2) by simp
  ultimately show ?thesis by (simp only: map_append concat_append list.map concat.simps fun_upd_same append_Nil2 append_assoc)
qed

lemma write_out_ok:
  assumes ok: "files_ok text f" and d: "distinct (opened_files f)" and st: "\<not> stray (write_out n b f)"
    and n: "n' = (if fd_table f (outputFd f) = None then 0 else n)"
  shows "files_ok (text @ take n' b) (write_out n' b f)"
proof (cases "fd_table f (outputFd f)")
  case None
  then show ?thesis using ok n by (simp add: write_out_def files_ok_def log_text_def log_file_def)
next
  case (Some name)
  then have w: "\<not> window (out_at f)" and n': "n' = n" using st n by (auto simp: write_out_def)
  then obtain ys zs where o: "opened_files f = ys @ name # zs" "\<forall>z \<in> set zs. file_text f z = []"
    using ok Some unfolding files_ok_def log_file_def by auto
  define f' where "f' = write_out n b f"
  have f': "file_text f' = (file_text f)(name := file_text f name @ take n b)" "opened_files f' = opened_files f"
    "fd_table f' = fd_table f" "outputFd f' = outputFd f" "out_at f' = out_at f"
    using Some by (simp_all add: f'_def write_out_def)
  have "log_text f' = log_text f @ take n b"
    using concat_append_at [of ys name zs "file_text f" "take n b"] d o by (simp add: log_text_def f' o(1))
  moreover have "log_file f' name"
    unfolding log_file_def f' using o d by (intro exI [of _ ys] exI [of _ zs]) auto
  moreover have "name \<in> set (opened_files f)" using o(1) by simp
  ultimately have "files_ok (text @ take n b) f'"
    using ok Some w unfolding files_ok_def by (auto simp: f')
  then show ?thesis by (simp add: f'_def n')
qed

lemma log_file_snoc: "log_file f name \<Longrightarrow> opened_files f' = opened_files f @ [new] \<Longrightarrow> file_text f' = file_text f \<Longrightarrow>
    file_text f new = [] \<Longrightarrow> log_file f' name"
  unfolding log_file_def by force

lemma out_exec_files_inv:
  assumes li: "log_inv (fst sf)" and inv: "files_inv sf" and st: "out_exec a sf = Some sf'"
  shows "files_inv sf'"
proof -
  obtain s f s' f' where sf: "sf = (s, f)" "sf' = (s', f')" by (cases sf; cases sf')
  have same: ?thesis if "written s' = written s" "f' = f" using inv that by (simp add: sf files_inv_def)
  show ?thesis
  proof (cases a)
    case (Caller b)
    show ?thesis
    proof (cases b)
      case (Back n)
      obtain s1 where s1: "back_step (if fd_table f (outputFd f) = None then 0 else n) s = Some s1" "s' = s1"
        "f' = (case next_buffer (back_at s) of None \<Rightarrow> f
           | Some b \<Rightarrow> write_out (if fd_table f (outputFd f) = None then 0 else n) b f)"
        using st Caller Back by (auto simp: sf back_out_def Let_def simp del: back_step.simps)
      define n' where "n' = (if fd_table f (outputFd f) = None then 0 else n)"
      note s1 = s1 [folded n'_def]
      note w = back_step_written [OF s1(1)]
      show ?thesis
      proof (cases "next_buffer (back_at s)")
        case None
        then show ?thesis using w s1 by (intro same) simp_all
      next
        case (Some b)
        have f': "f' = write_out n' b f" using s1(3) Some by simp
        have st1: "stray (write_out n b f) = stray (write_out n' b f)" "stray f \<Longrightarrow> stray (write_out n' b f)"
          "opened_files (write_out n' b f) = opened_files f" "end_at (write_out n' b f) = end_at f"
          by (simp_all add: write_out_def split: option.split)
        have "files_ok (written s @ take n' b) f'" if d: "\<not> stray f'" "distinct (opened_files f')" "end_at f' \<noteq> E_gone"
        proof -
          have d': "\<not> stray (write_out n b f)" "\<not> stray f" "distinct (opened_files f)" "end_at f \<noteq> E_gone" using d st1 by (auto simp: f')
          then have "files_ok (written s) f" using inv by (simp add: files_inv_def sf)
          from write_out_ok [OF this d'(3,1) n'_def] show ?thesis by (simp only: f')
        qed
        then show ?thesis using w Some s1(2) by (simp add: files_inv_def sf)
      qed
    qed (use st Caller inv in \<open>auto simp: sf files_inv_def split: if_splits\<close>)
  next
    case (Out_close name trunc)
    then have f: "s' = s" "out_close name trunc f = Some f'" using st by (auto simp: sf)
    then show ?thesis
      using inv by (auto simp: files_inv_def sf out_close_def files_ok_def split: if_splits)
  next
    case (Out_open r)
    then have f: "s' = s" "out_open r f = Some f'" using st by (auto simp: sf)
    then obtain name trunc closed where pc: "out_at f = O_open name trunc closed"
      by (auto simp: out_open_def split: out_pc.splits)
    show ?thesis
    proof (cases r)
      case None
      then show ?thesis
        using inv f pc by (auto simp: files_inv_def sf out_open_def files_ok_def)
    next
      case (Some fd)
      then have f': "fd_table f fd = None" "f' = f\<lparr>fd_table := (fd_table f)(fd \<mapsto> name),
            file_text := (if trunc then (file_text f)(name := []) else file_text f),
            out_at := O_assign fd closed, opened_files := opened_files f @ [name]\<rparr>"
        using f(2) pc by (auto simp: out_open_def split: if_splits)
      have "files_ok (written s) f'" if d: "\<not> stray f" "distinct (opened_files f @ [name])" "end_at f \<noteq> E_gone"
      proof -
        have ok: "files_ok (written s) f" using inv d by (simp add: files_inv_def sf)
        have new: "name \<notin> set (opened_files f)" using d by simp
        then have e: "file_text f name = []" using ok by (simp add: files_ok_def)
        then have t: "file_text f' = file_text f" by (auto simp: f'(2))
        have "log_text f' = log_text f" using e t by (simp add: log_text_def f'(2))
        moreover have "\<exists>nm. fd_table f' (outputFd f') = Some nm \<and> log_file f' nm" if "\<not> window (out_at f')"
        proof -
          have "\<not> window (out_at f)" using that pc by (simp add: f'(2))
          then obtain nm where nm: "fd_table f (outputFd f) = Some nm" "log_file f nm" using ok by (auto simp: files_ok_def)
          have "log_file f' nm" by (rule log_file_snoc [OF nm(2) _ t e]) (simp add: f'(2))
          moreover have "fd_table f' (outputFd f') = Some nm" using nm(1) f'(1) by (auto simp: f'(2))
          ultimately show ?thesis by blast
        qed
        ultimately show ?thesis
          using ok unfolding files_ok_def t by (auto simp: f'(2))
      qed
      then show ?thesis by (simp add: files_inv_def sf f(1)) (simp add: f'(2))
    qed
  next
    case Out_assign
    then obtain fd closed where f: "s' = s" "out_at f = O_assign fd closed" "f' = f\<lparr>outputFd := fd, out_at := O_none\<rparr>"
      using st by (auto simp: sf out_assign_def split: out_pc.splits)
    show ?thesis
      using inv f(2) log_file_last by (auto simp: files_inv_def sf files_ok_def f(1,3))
  next
    case Dtor_stop
    then have "written s' = written s" "f' = f\<lparr>end_at := E_stop\<rparr>" "end_at f = E_none"
      using st by (auto simp: sf dtor_stop_def split: if_splits)
    then show ?thesis using inv by (simp add: sf files_inv_def files_ok_def log_text_def log_file_def)
  next
    case Destroyed
    then have "end_at f' = E_gone" using st by (auto simp: sf logger_destroyed_def split: if_splits)
    then show ?thesis by (simp add: sf files_inv_def)
  next
    case (Other_open fd name)
    then have f: "s' = s" "fd_table f fd = None" "f' = f\<lparr>fd_table := (fd_table f)(fd \<mapsto> name)\<rparr>"
      using st by (auto simp: sf split: if_splits)
    show ?thesis
      using inv f(2) by (auto simp: files_inv_def sf files_ok_def f(1,3))
  qed (use st inv in \<open>auto simp: sf files_inv_def setLogLevel_def\<close>)
qed

lemma out_reach_files_inv: "out_reach sf \<Longrightarrow> files_inv sf"
proof (induction rule: out_reach.induct)
  case init
  show ?case
    by (auto simp: files_inv_def files_ok_def out_start_def log_file_def log_text_def log_start_def STDOUT_FILENO_def)
next
  case (step sf a sf')
  then show ?case using out_exec_files_inv out_reach_log_inv by blast
qed

text \<open>The first call finds the log on \<open>stdout\<close>, which it does not close.\<close>

definition first_switch :: "out_files \<Rightarrow> bool" where
  "first_switch f \<longleftrightarrow> (switches f = 0 \<longrightarrow> outputFd f = STDOUT_FILENO \<and> out_at f = O_none) \<and>
     (switches f \<le> 1 \<longrightarrow> \<not> window (out_at f) \<and> \<not> stray f)"

lemma out_reach_first: "out_reach sf \<Longrightarrow> first_switch (snd sf)"
proof (induction rule: out_reach.induct)
  case init
  show ?case by (simp add: first_switch_def out_start_def)
next
  case (step sf a sf')
  obtain s f s' f' where sf: "sf = (s, f)" "sf' = (s', f')" by (cases sf; cases sf')
  have inv: "first_switch f" using step.IH sf by simp
  have wr: "first_switch (write_out n b f)" for n b
    using inv by (auto simp: first_switch_def write_out_def split: option.split)
  have "first_switch f'"
  proof (cases a)
    case (Caller b)
    then show ?thesis
      using step.hyps(2) inv wr
      by (cases b) (auto simp: sf back_out_def Let_def simp del: back_step.simps split: if_splits option.splits)
  next
    case (Out_close name trunc)
    then show ?thesis
      using step.hyps(2) inv by (auto simp: sf out_close_def first_switch_def split: if_splits)
  next
    case (Out_open r)
    then show ?thesis
      using step.hyps(2) inv
      by (auto simp: sf out_open_def first_switch_def split: out_pc.splits option.splits if_splits)
  next
    case Out_assign
    then show ?thesis
      using step.hyps(2) inv by (auto simp: sf out_assign_def first_switch_def split: out_pc.splits)
  next
    case Dtor_stop
    then show ?thesis using step.hyps(2) inv by (auto simp: sf dtor_stop_def first_switch_def split: if_splits)
  next
    case Destroyed
    then show ?thesis using step.hyps(2) inv by (auto simp: sf logger_destroyed_def first_switch_def split: if_splits)
  qed (use step.hyps(2) inv in \<open>auto simp: sf first_switch_def split: if_splits\<close>)
  then show ?case by (simp add: sf)
qed

text \<open>What is queued or taken, before the end of the program, is what \<open>sync\<close> says it has looked at, or is being written.\<close>

lemma sync_done_queued: "sync_done lg \<longleftrightarrow> buffers lg = [] \<and> concat (the_list (currentBuffer lg)) = []"
  by (auto simp: sync_done_def split: option.splits)

subsection \<open>Properties\<close>

text \<open>
  C30: Changing the file of the log.  As long as the logger has not been destroyed, in every interleaving in which the log
  was not written between the \<open>close\<close> and the assignment in \<open>setOutputFile\<close>, the files that were opened for the log, one
  after the other, and what is on its way are together exactly what has been logged, if no file is opened twice and no
  \<open>write\<close> takes less than it was given; and between two calls the descriptor of the log is open on one of these files.
  The first call, which finds the log on \<open>stdout\<close>, never disturbs it.
\<close>

theorem output_switch:
  assumes "out_reach (s, f)" and "distinct (opened_files f)" and "\<not> short_write s" and "\<not> stray f \<or> switches f \<le> 1"
    and "end_at f \<noteq> E_gone"
  shows "concat (map (file_text f) (opened_files f)) @ in_transit s = logged_text s \<and>
    (out_at f = O_none \<longrightarrow> (\<exists>name \<in> set (opened_files f). fd_table f (outputFd f) = Some name))"
proof -
  have "\<not> stray f" using assms(4) out_reach_first [OF assms(1)] by (auto simp: first_switch_def)
  then have ok: "files_ok (written s) f"
    using out_reach_files_inv [OF assms(1)] assms(2,5) by (simp add: files_inv_def)
  have "written s @ in_transit s = logged_text s"
    using out_reach_log_inv [OF assms(1)] assms(3) by (simp add: log_inv_def)
  then show ?thesis
    using ok unfolding files_ok_def log_text_def log_file_def by auto
qed

text \<open>The log goes to \<open>stdout\<close>, then to a file.\<close>

definition demo_switch :: "out_action list" where
  "demo_switch = [Caller (log_info ''[t.'' 5 ''x''), Caller (Back 0), Caller (Back 0), Caller (Back 0), Caller (Back 99),
     Out_close ''a.log'' True, Out_open (Some 3), Caller (log_sys ''[u.'' 6 ''y'' ''z''), Out_assign, Caller (Back 0), Caller (Back 0),
     Caller (Back 0), Caller (Back 0), Caller (Back 99)]"

text \<open>The log goes to a file; while it is changed another thread accepts a connection and gets the freed descriptor.\<close>

definition demo_stray :: "out_action list" where
  "demo_stray = [Out_close ''a.log'' True, Out_open (Some 3), Out_assign, Caller (log_info ''[t.'' 5 ''x''),
     Out_close ''b.log'' True, Other_open 3 ''client'', Caller (Back 0), Caller (Back 0), Caller (Back 0), Caller (Back 99)]"

lemmas demo_out_simps = log_start_def new_logger_def log_line_def wanted_def put_line_def prepend_msg_for_test_def BUFFER_SIZE_def
  EMPTYS_MAX_SIZE_def Let_def take_buffers_def collect_def write_file_def log_info_def log_sys_def out_start_def STDOUT_FILENO_def
  back_out_def out_close_def out_open_def out_assign_def write_out_def in_transit_def queued_text_def sync_done_def

lemma demo_out_facts:
  "sz_sub 4096 0 = 4096" "EMPTYS_INIT_SIZE = Suc (Suc (Suc (Suc 0)))" "ERROR < INFO = False" "INFO < INFO = False"
  "(NUM_LOG_LEVELS \<le> ERROR) = False" "(NUM_LOG_LEVELS \<le> INFO) = False" "to_string 5 = ''5''" "to_string 6 = ''6''"
  by (simp_all add: sz_sub_def EMPTYS_INIT_SIZE_def less_log_level_def less_eq_log_level_def) code_simp+

lemma demo_switch_run:
  "\<exists>s f. out_run demo_switch (log_start, out_start) = Some (s, f) \<and> opened_files f = [''<stdout>'', ''a.log''] \<and>
     \<not> short_write s \<and> \<not> stray f \<and> file_text f ''a.log'' \<noteq> [] \<and> end_at f \<noteq> E_gone"
  by (simp add: demo_switch_def demo_out_simps demo_out_facts)

lemma demo_stray_run:
  "\<exists>s f. out_run demo_stray (log_start, out_start) = Some (s, f) \<and> opened_files f = [''<stdout>'', ''a.log''] \<and>
     \<not> short_write s \<and> file_text f ''client'' = logged_text s \<and> logged_text s \<noteq> [] \<and> log_text f = []"
  by (simp add: demo_stray_def demo_out_simps demo_out_facts log_text_def)

theorem output_switch_witness:
  "\<exists>s f. out_run demo_switch (log_start, out_start) = Some (s, f) \<and>
     file_text f ''<stdout>'' @ file_text f ''a.log'' @ in_transit s = logged_text s \<and> file_text f ''a.log'' \<noteq> []"
proof -
  obtain s f where run: "out_run demo_switch (log_start, out_start) = Some (s, f)"
    "opened_files f = [''<stdout>'', ''a.log'']" "\<not> short_write s" "\<not> stray f" "file_text f ''a.log'' \<noteq> []" "end_at f \<noteq> E_gone"
    using demo_switch_run by blast
  have "out_reach (s, f)" using out_run_reach [OF out_reach.init run(1)] .
  from output_switch [OF this] run show ?thesis by auto
qed

text \<open>
  Changing the file of the log a second time can send log lines to whoever gets the closed descriptor: between
  \<open>close\<close> and the assignment the background thread still writes to its number.  A line that was logged is then at a
  client of the program, and in no file, although every \<open>write\<close> took all it was given.
\<close>

theorem output_switch_strays:
  "\<exists>s f. out_reach (s, f) \<and> \<not> short_write s \<and> distinct (opened_files f) \<and> ''client'' \<notin> set (opened_files f) \<and>
     logged_text s \<noteq> [] \<and> file_text f ''client'' = logged_text s \<and> concat (map (file_text f) (opened_files f)) = []"
proof -
  obtain s f where run: "out_run demo_stray (log_start, out_start) = Some (s, f)" "opened_files f = [''<stdout>'', ''a.log'']"
    "\<not> short_write s" "file_text f ''client'' = logged_text s" "logged_text s \<noteq> []" "log_text f = []"
    using demo_stray_run by blast
  have "out_reach (s, f)" using out_run_reach [OF out_reach.init run(1)] .
  then show ?thesis using run unfolding log_text_def by (intro exI [of _ s] exI [of _ f]) simp
qed

text \<open>Without spurious wake-ups no call of \<open>stop\<close> returns, that of the destructor included.\<close>

lemma files_run_waits:
  assumes "out_exec a sf = Some sf'" and "log_inv (fst sf)" and "stop_at (fst sf) \<notin> {S_woken, S_returned}" and "a \<noteq> Caller Spurious"
  shows "stop_at (fst sf') \<notin> {S_woken, S_returned}"
proof -
  have b: "stop_at s' = stop_at (fst sf)" if "back_step n (fst sf) = Some s'" for n s'
    using that assms(2) by (auto simp: log_inv_def take_buffers_def Let_def split: back_pc.splits list.splits if_splits prod.splits)
  show ?thesis
  proof (cases a)
    case (Caller c)
    show ?thesis
    proof (cases c)
      case (Back n)
      then show ?thesis using assms(1,3) Caller b by (auto simp: back_out_def Let_def simp del: back_step.simps split: prod.splits)
    qed (use assms Caller in \<open>auto split: if_splits\<close>)
  qed (use assms in \<open>auto simp: setLogLevel_def dtor_stop_def logger_destroyed_def split: if_splits prod.splits\<close>)
qed

lemma files_waits:
  "out_reach sf \<Longrightarrow> stop_at (fst sf) \<notin> {S_woken, S_returned} \<Longrightarrow> out_run as sf = Some sf' \<Longrightarrow> Caller Spurious \<notin> set as \<Longrightarrow>
     stop_at (fst sf') \<notin> {S_woken, S_returned}"
proof (induction as arbitrary: sf)
  case (Cons a as)
  then obtain sf1 where sf1: "out_exec a sf = Some sf1" "out_run as sf1 = Some sf'"
    by (auto simp: bind_eq_Some_conv)
  have "a \<noteq> Caller Spurious" using Cons.prems(4) by auto
  from files_run_waits [OF sf1(1) out_reach_log_inv [OF Cons.prems(1)] Cons.prems(2) this]
  show ?case using Cons.IH [OF out_reach.step [OF Cons.prems(1) sf1(1)] _ sf1(2)] Cons.prems(4) by simp
qed simp

text \<open>A spurious wake-up lets the destructor close the file before the line logged is written.\<close>

definition demo_destroyed :: "out_action list" where
  "demo_destroyed = [Out_close ''a.log'' True, Out_open (Some 3), Out_assign, Caller (log_info ''[t.'' 5 ''x''),
     Dtor_stop, Caller Stop_lock, Caller Spurious, Caller Stop_relock, Destroyed]"

lemma demo_destroyed_run:
  "\<exists>s f. out_run demo_destroyed (log_start, out_start) = Some (s, f) \<and> fd_table f (outputFd f) = None \<and>
     back_at s = B_test \<and> log_text f = [] \<and> logged_text s \<noteq> []"
  by (simp add: demo_destroyed_def demo_out_simps demo_out_facts dtor_stop_def logger_destroyed_def log_text_def)



end
