(* ===== verification/EventLoop.thy ===== *)
theory EventLoop imports Prelude begin

section \<open>EventLoop: tasks queued by other threads\<close>

text \<open>
  \<open>runInLoop\<close> queues a task and, unless the loop is already handling tasks, writes to an eventfd
  that wakes the loop; \<open>start\<close> polls, handles the events, then swaps the queue out and runs it.  The
  loop thread and any number of other threads interleave; every access to shared state is a step
  (the two accesses to the queue are critical sections of \<open>lock_\<close>, one step each).  Handling the
  polled events of connections is theory \<open>TcpServer\<close>; here an event is the wake-up or some other.
\<close>

text \<open>Where the loop thread is in \<open>start\<close>; \<open>Handle b\<close>: with the wake-up among the polled events.\<close>

datatype loop_pc = Poll | Handle bool | Set_flag | Swap | Run "nat list" | Stopped

text \<open>
  Where another thread is: in \<open>runInLoop\<close> behind the push, or in front of \<open>writeWakeUpFd\<close> (there
  \<open>stop\<close> is as well, after it has cleared \<open>looping_\<close>).
\<close>

datatype caller_pc = Idle | Pushed | Waking

text \<open>\<open>wake\<close> is the eventfd's counter.  Ghost state: the tasks run and the tasks pushed so far.\<close>

record event_loop =
  tasks :: "nat list"
  isInTaskHanding :: bool
  looping :: bool
  wake :: nat
  loop_at :: loop_pc
  callers :: "nat \<Rightarrow> caller_pc"
  executed :: "nat list"
  pushed :: "nat list"

definition loop_init :: event_loop where
  "loop_init = \<lparr>tasks = [], isInTaskHanding = False, looping = True, wake = 0, loop_at = Poll,
     callers = (\<lambda>_. Idle), executed = [], pushed = []\<rparr>"

text \<open>
  The steps: of the loop thread; another descriptor becoming ready; a caller pushing a task,
  looking at the flag, writing to the eventfd; a caller of \<open>stop\<close>.  \<open>writeWakeUpFd\<close> writes the value
  of a variable it never sets, so the value is part of the step.
\<close>

datatype loop_action = Loop_step | Other_event | Push nat nat | Look nat | Write nat nat | Stop nat

text \<open>
  eventfd: a write adds its value; the largest 64-bit value is refused, and so is a sum that does
  not fit (the descriptor is non-blocking).
\<close>

definition eventfd_write :: "nat \<Rightarrow> nat \<Rightarrow> nat" where
  "eventfd_write v n = (if v < 2 ^ 64 - 1 \<and> n + v < 2 ^ 64 - 1 then n + v else n)"

fun loop_thread :: "event_loop \<Rightarrow> event_loop option" where
  "loop_thread s =
     (case loop_at s of
        Poll \<Rightarrow> if wake s > 0 then Some (s\<lparr>loop_at := Handle True\<rparr>) else None
      | Handle w \<Rightarrow> Some (s\<lparr>wake := (if w then 0 else wake s), loop_at := Set_flag\<rparr>)
      | Set_flag \<Rightarrow> Some (s\<lparr>isInTaskHanding := True, loop_at := Swap\<rparr>)
      | Swap \<Rightarrow> Some (s\<lparr>tasks := [], loop_at := Run (tasks s)\<rparr>)
      | Run (t # ts) \<Rightarrow> Some (s\<lparr>executed := executed s @ [t], loop_at := Run ts\<rparr>)
      | Run [] \<Rightarrow> Some (s\<lparr>isInTaskHanding := False, loop_at := (if looping s then Poll else Stopped)\<rparr>)
      | Stopped \<Rightarrow> None)"

fun loop_exec :: "loop_action \<Rightarrow> event_loop \<Rightarrow> event_loop option" where
  "loop_exec Loop_step s = loop_thread s"
| "loop_exec Other_event s =
     (if loop_at s = Poll then Some (s\<lparr>loop_at := Handle (wake s > 0)\<rparr>) else None)"
| "loop_exec (Push c t) s =
     (if callers s c = Idle
      then Some (s\<lparr>tasks := tasks s @ [t], pushed := pushed s @ [t], callers := (callers s)(c := Pushed)\<rparr>)
      else None)"
| "loop_exec (Look c) s =
     (if callers s c = Pushed
      then Some (s\<lparr>callers := (callers s)(c := if isInTaskHanding s then Idle else Waking)\<rparr>)
      else None)"
| "loop_exec (Write c v) s =
     (if callers s c = Waking
      then Some (s\<lparr>wake := eventfd_write v (wake s), callers := (callers s)(c := Idle)\<rparr>)
      else None)"
| "loop_exec (Stop c) s =
     (if callers s c = Idle then Some (s\<lparr>looping := False, callers := (callers s)(c := Waking)\<rparr>) else None)"

inductive loop_reach :: "event_loop \<Rightarrow> bool" where
  init: "loop_reach loop_init"
| step: "loop_reach s \<Longrightarrow> loop_exec a s = Some s' \<Longrightarrow> loop_reach s'"

fun loop_run :: "loop_action list \<Rightarrow> event_loop \<Rightarrow> event_loop option" where
  "loop_run [] s = Some s"
| "loop_run (a # as) s = Option.bind (loop_exec a s) (loop_run as)"

lemma loop_run_reach: "loop_reach s \<Longrightarrow> loop_run as s = Some s' \<Longrightarrow> loop_reach s'"
proof (induction as arbitrary: s)
  case (Cons a as)
  then obtain s1 where "loop_exec a s = Some s1" "loop_run as s1 = Some s'"
    by (auto simp: bind_eq_Some_conv)
  then show ?case using Cons loop_reach.step by blast
qed simp

subsection \<open>Invariants\<close>

fun being_run :: "loop_pc \<Rightarrow> nat list" where
  "being_run (Run ts) = ts"
| "being_run _ = []"

text \<open>The points between a poll and the swap: what is queued now is about to be run.\<close>

fun before_swap :: "loop_pc \<Rightarrow> bool" where
  "before_swap (Handle w) = True" | "before_swap Set_flag = True" | "before_swap Swap = True"
| "before_swap _ = False"

definition queue_inv :: "event_loop \<Rightarrow> bool" where
  "queue_inv s \<longleftrightarrow> executed s @ being_run (loop_at s) @ tasks s = pushed s"

text \<open>Between \<open>isInTaskHanding_ = true\<close> and \<open>isInTaskHanding_ = false\<close>.\<close>

fun handling :: "loop_pc \<Rightarrow> bool" where
  "handling Swap = True" | "handling (Run ts) = True" | "handling _ = False"

definition flag_inv :: "event_loop \<Rightarrow> bool" where
  "flag_inv s \<longleftrightarrow> (isInTaskHanding s \<longleftrightarrow> handling (loop_at s)) \<and> (loop_at s = Stopped \<longrightarrow> \<not> looping s)"

definition wake_inv :: "event_loop \<Rightarrow> bool" where
  "wake_inv s \<longleftrightarrow> (tasks s \<noteq> [] \<longrightarrow> before_swap (loop_at s) \<or> wake s > 0 \<or> (\<exists>c. callers s c \<noteq> Idle))"

text \<open>
  What other threads and the uninitialised variable do to a run: it is undisturbed when no caller comes to look at the
  flag while the loop handles tasks, and what lies in the variable is a value an eventfd takes and wakes on.
\<close>

fun undisturbed :: "loop_action list \<Rightarrow> event_loop \<Rightarrow> bool" where
  "undisturbed [] s = True"
| "undisturbed (a # as) s \<longleftrightarrow>
     (case a of Look c \<Rightarrow> \<not> handling (loop_at s) | Write c v \<Rightarrow> 0 < v \<and> v < 2 ^ 64 - 1 | _ \<Rightarrow> True) \<and>
     (case loop_exec a s of None \<Rightarrow> True | Some s' \<Rightarrow> undisturbed as s')"

lemma loop_thread_inv:
  assumes "loop_thread s = Some s'"
  shows "queue_inv s \<Longrightarrow> queue_inv s'" and "wake_inv s \<Longrightarrow> wake_inv s'" and "flag_inv s \<Longrightarrow> flag_inv s'"
  using assms
  by (auto simp: queue_inv_def wake_inv_def flag_inv_def split: loop_pc.splits list.splits if_splits)

lemma loop_exec_queue: "loop_exec a s = Some s' \<Longrightarrow> queue_inv s \<Longrightarrow> queue_inv s'"
proof (cases a)
  case Loop_step
  then show "loop_exec a s = Some s' \<Longrightarrow> queue_inv s \<Longrightarrow> queue_inv s'" using loop_thread_inv(1) by simp
qed (auto simp: queue_inv_def split: if_splits)

lemma loop_exec_flag: "loop_exec a s = Some s' \<Longrightarrow> flag_inv s \<Longrightarrow> flag_inv s'"
proof (cases a)
  case Loop_step
  then show "loop_exec a s = Some s' \<Longrightarrow> flag_inv s \<Longrightarrow> flag_inv s'" using loop_thread_inv(3) by simp
qed (auto simp: flag_inv_def split: if_splits)

lemma loop_exec_wake:
  assumes "loop_exec a s = Some s'" and "wake_inv s" and "flag_inv s" and "undisturbed (a # as) s"
  shows "wake_inv s'"
proof (cases a)
  case Loop_step
  then show ?thesis using assms loop_thread_inv(2) by simp
next
  case (Look c)
  then show ?thesis using assms by (auto simp: wake_inv_def flag_inv_def split: if_splits)
next
  case (Write c v)
  then have "0 < eventfd_write v (wake s)" using assms(4) by (auto simp: eventfd_write_def)
  then show ?thesis using assms(1) Write by (auto simp: wake_inv_def split: if_splits)
qed (use assms in \<open>auto simp: wake_inv_def split: if_splits\<close>)

lemma loop_reach_inv: "loop_reach s \<Longrightarrow> queue_inv s \<and> flag_inv s"
proof (induction rule: loop_reach.induct)
  case init
  then show ?case by (simp add: queue_inv_def flag_inv_def loop_init_def)
next
  case (step s a s')
  then show ?case using loop_exec_queue loop_exec_flag by blast
qed

lemma loop_run_wake:
  "loop_run as s = Some s' \<Longrightarrow> undisturbed as s \<Longrightarrow> loop_reach s \<Longrightarrow> wake_inv s \<Longrightarrow> wake_inv s'"
proof (induction as arbitrary: s)
  case (Cons a as)
  then obtain s1 where s1: "loop_exec a s = Some s1" "loop_run as s1 = Some s'"
    by (auto simp: bind_eq_Some_conv)
  moreover have "undisturbed as s1" using Cons.prems(2) s1(1) by simp
  moreover have "wake_inv s1"
    using loop_exec_wake [OF s1(1) Cons.prems(4) _ Cons.prems(2)] loop_reach_inv [OF Cons.prems(3)] by blast
  ultimately show ?case using Cons.IH loop_reach.step [OF Cons.prems(3) s1(1)] by blast
qed simp

text \<open>The loop thread's own steps.\<close>

definition own_steps :: "nat \<Rightarrow> event_loop \<Rightarrow> event_loop option" where
  "own_steps n = loop_run (replicate n Loop_step)"

lemma own_steps_simps [simp]:
  "own_steps 0 s = Some s" "own_steps (Suc n) s = Option.bind (loop_thread s) (own_steps n)"
  by (simp_all add: own_steps_def)

lemma own_steps_add: "own_steps m s = Some s1 \<Longrightarrow> own_steps n s1 = Some s2 \<Longrightarrow> own_steps (m + n) s = Some s2"
  by (induction m arbitrary: s) (auto simp: bind_eq_Some_conv simp del: loop_thread.simps)

lemma run_batch:
  "loop_at s = Run ts \<Longrightarrow> own_steps (length ts) s = Some (s\<lparr>executed := executed s @ ts, loop_at := Run []\<rparr>)"
proof (induction ts arbitrary: s)
  case (Cons t ts)
  have "loop_thread s = Some (s\<lparr>executed := executed s @ [t], loop_at := Run ts\<rparr>)" using Cons.prems by simp
  then show ?case using Cons.IH [of "s\<lparr>executed := executed s @ [t], loop_at := Run ts\<rparr>"] by simp
qed simp

lemma run_queue:
  assumes "before_swap (loop_at s)" and "queue_inv s"
  shows "\<exists>n s'. n \<le> 3 + length (tasks s) \<and> own_steps n s = Some s' \<and> executed s' = pushed s"
proof -
  have "\<exists>m \<le> 3. \<exists>s1. own_steps m s = Some s1 \<and> loop_at s1 = Run (tasks s) \<and> executed s1 = executed s"
  proof (cases "loop_at s")
    case (Handle b)
    then show ?thesis by (intro exI [of _ 3]) (simp add: numeral_3_eq_3)
  next
    case Set_flag
    then show ?thesis by (intro exI [of _ 2]) (simp add: numeral_2_eq_2)
  next
    case Swap
    then show ?thesis by (intro exI [of _ 1]) simp
  qed (use assms(1) in simp_all)
  then obtain m s1 where m: "m \<le> 3" "own_steps m s = Some s1" "loop_at s1 = Run (tasks s)" "executed s1 = executed s"
    by blast
  have "executed s @ tasks s = pushed s" using assms by (cases "loop_at s") (simp_all add: queue_inv_def)
  then show ?thesis
    using own_steps_add [OF m(2) run_batch [OF m(3)]] m(1,4)
    by (intro exI [of _ "m + length (tasks s)"] exI [of _ "s1\<lparr>executed := executed s1 @ tasks s, loop_at := Run []\<rparr>"]) simp
qed

lemma run_polled:
  assumes "loop_at s = Poll" and "queue_inv s" and "tasks s \<noteq> [] \<Longrightarrow> 0 < wake s"
  shows "\<exists>n s'. n \<le> 4 + length (tasks s) \<and> own_steps n s = Some s' \<and> executed s' = pushed s"
proof (cases "tasks s = []")
  case True
  then show ?thesis using assms(1,2) by (intro exI [of _ 0] exI [of _ s]) (simp add: queue_inv_def)
next
  case False
  let ?s = "s\<lparr>loop_at := Handle True\<rparr>"
  have st: "own_steps 1 s = Some ?s" using assms(1,3) False by simp
  have "queue_inv ?s" using assms(1,2) by (simp add: queue_inv_def)
  then obtain n s' where "n \<le> 3 + length (tasks s)" "own_steps n ?s = Some s'" "executed s' = pushed s"
    using run_queue [of ?s] by auto
  then show ?thesis using own_steps_add [OF st] by (intro exI [of _ "1 + n"] exI [of _ s']) simp
qed

lemma runs_all:
  assumes "queue_inv s" and "flag_inv s" and "wake_inv s" and "looping s" and "\<forall>c. callers s c = Idle"
  shows "\<exists>n s'. n \<le> 5 + length (pushed s) \<and> own_steps n s = Some s' \<and> executed s' = pushed s"
proof -
  have len: "length (executed s) + length (being_run (loop_at s)) + length (tasks s) = length (pushed s)"
    using assms(1) by (metis add.assoc length_append queue_inv_def)
  have wake: "0 < wake s" if "tasks s \<noteq> []" "\<not> before_swap (loop_at s)" using assms(3,5) that by (simp add: wake_inv_def)
  consider (poll) "loop_at s = Poll" | (run) ts where "loop_at s = Run ts" | (before) "before_swap (loop_at s)"
    using assms(2,4) by (cases "loop_at s") (auto simp: flag_inv_def)
  then show ?thesis
  proof cases
    case poll
    then obtain n s' where "n \<le> 4 + length (tasks s)" "own_steps n s = Some s'" "executed s' = pushed s"
      using run_polled [OF poll assms(1)] wake by auto
    then show ?thesis using len by (intro exI [of _ n] exI [of _ s']) simp
  next
    case before
    obtain n s' where "n \<le> 3 + length (tasks s)" "own_steps n s = Some s'" "executed s' = pushed s"
      using run_queue [OF before assms(1)] by blast
    then show ?thesis using len by (intro exI [of _ n] exI [of _ s']) simp
  next
    case (run ts)
    let ?s = "s\<lparr>executed := executed s @ ts, loop_at := Poll, isInTaskHanding := False\<rparr>"
    have st: "own_steps (length ts + 1) s = Some ?s"
      by (rule own_steps_add [OF run_batch [OF run]]) (use assms(4) in simp)
    have "queue_inv ?s" using assms(1) run by (simp add: queue_inv_def)
    then obtain n s' where "n \<le> 4 + length (tasks s)" "own_steps n ?s = Some s'" "executed s' = pushed s"
      using run_polled [of ?s] wake run by auto
    then show ?thesis
      using own_steps_add [OF st] len run by (intro exI [of _ "length ts + 1 + n"] exI [of _ s']) simp
  qed
qed

subsection \<open>Properties\<close>

text \<open>
  C10: however the threads interleave, the tasks run so far, those of the batch being run and those
  still queued are, in this order, exactly the tasks pushed: each is run at most once and in the
  order of the pushes.
\<close>

theorem tasks_fifo:
  assumes "loop_reach s"
  shows "executed s @ being_run (loop_at s) @ tasks s = pushed s"
  using loop_reach_inv [OF assms] by (simp add: queue_inv_def)

theorem tasks_fifo_witness:
  "\<exists>s. loop_run [Push 0 7, Push 1 8, Look 0, Write 0 1, Loop_step, Loop_step, Loop_step, Loop_step, Loop_step]
      loop_init = Some s \<and> executed s = [7] \<and> loop_at s = Run [8] \<and> pushed s = [7, 8]"
proof -
  obtain s where s: "loop_run [Push 0 7, Push 1 8, Look 0, Write 0 1, Loop_step, Loop_step, Loop_step, Loop_step,
      Loop_step] loop_init = Some s" "executed s = [7]" "loop_at s = Run [8]" "tasks s = []"
    by (simp add: loop_init_def eventfd_write_def)
  then have "loop_reach s" using loop_run_reach loop_reach.init by blast
  from tasks_fifo [OF this] s show ?thesis by auto
qed

text \<open>
  C27: no wake-up is lost in a run in which no caller comes to look at the flag while the loop handles tasks and the
  value written to the eventfd is one it wakes on: whenever the callers are gone and the loop has not been stopped,
  every task pushed is run by steps of the loop thread alone, at most five and one for each task, although no other
  event comes.
\<close>

theorem no_lost_wakeup:
  assumes "loop_run as loop_init = Some s" and "undisturbed as loop_init"
    and "\<forall>c. callers s c = Idle" and "looping s"
  shows "\<exists>n s'. n \<le> 5 + length (pushed s) \<and> own_steps n s = Some s' \<and> executed s' = pushed s"
proof -
  have "wake_inv loop_init" by (simp add: wake_inv_def loop_init_def)
  then show ?thesis
    using runs_all loop_reach_inv [OF loop_run_reach [OF loop_reach.init assms(1)]]
      loop_run_wake [OF assms(1,2) loop_reach.init] assms(3,4) by blast
qed

theorem no_lost_wakeup_witness:
  "\<exists>s n s'. loop_run [Push 0 7, Push 1 8, Look 0, Write 0 1, Look 1, Write 1 3] loop_init = Some s \<and>
     own_steps n s = Some s' \<and> executed s' = [7, 8]"
proof -
  let ?as = "[Push 0 7, Push 1 8, Look 0, Write 0 1, Look 1, Write 1 3]"
  obtain s where s: "loop_run ?as loop_init = Some s" "pushed s = [7, 8]" "\<forall>c. callers s c = Idle" "looping s"
    by (simp add: loop_init_def)
  have "undisturbed ?as loop_init" by (simp add: loop_init_def)
  from no_lost_wakeup [OF s(1) this s(3,4)] s(1,2) show ?thesis by auto
qed

text \<open>
  The provisos matter.  A task pushed while the loop runs a batch (by another thread, or by a
  task of the batch itself) wakes nobody, since its caller finds the flag set, and the batch being
  run does not hold it: all callers are gone, the task is queued, and the loop sleeps until some
  other event happens by.  The same happens when the uninitialised value written is zero.
\<close>

theorem lost_wakeup:
  "(\<exists>s. loop_reach s \<and> loop_at s = Poll \<and> tasks s = [8] \<and> (\<forall>c. callers s c = Idle) \<and> looping s \<and>
      loop_thread s = None) \<and>
   (\<exists>s. loop_run [Push 0 7, Look 0, Write 0 0] loop_init = Some s \<and> loop_thread s = None \<and> tasks s = [7])"
proof -
  obtain s where s: "loop_run [Push 0 7, Look 0, Write 0 1, Loop_step, Loop_step, Loop_step, Loop_step,
      Push 0 8, Look 0, Loop_step, Loop_step] loop_init = Some s"
    "loop_at s = Poll" "tasks s = [8]" "\<forall>c. callers s c = Idle" "looping s" "loop_thread s = None"
    by (simp add: loop_init_def eventfd_write_def)
  then have "loop_reach s" using loop_run_reach loop_reach.init by blast
  moreover have "\<exists>s. loop_run [Push 0 7, Look 0, Write 0 0] loop_init = Some s \<and> loop_thread s = None \<and> tasks s = [7]"
    by (simp add: loop_init_def eventfd_write_def)
  ultimately show ?thesis using s by blast
qed

end
