(* ===== verification/PoolStop.thy ===== *)
theory PoolStop imports EventLoop begin

section \<open>EventLoopPool.h: stopping the helper threads\<close>

text \<open>
  The destructor stops every loop of the pool, then joins the helper threads.  It runs together with the helpers, each
  in its loop (theory \<open>EventLoop\<close>), and with any threads that still queue tasks.  The pool has as many loops as it may
  have threads; the loops without a thread have been constructed but not initialised.
\<close>

subsection \<open>State and steps\<close>

text \<open>
  The destructor: in front of \<open>looping_ = false\<close> of loop \<open>i\<close>; in front of its \<open>writeWakeUpFd\<close>; joining thread \<open>i\<close>;
  returned.
\<close>

datatype dtor_pc = D_stop nat | D_write nat | D_join nat | D_done

text \<open>Ghost state: the loops whose \<open>wakeUpFd_\<close> was written although it has no value.\<close>

record pool_end =
  the_loops :: "nat \<Rightarrow> event_loop"
  loop_count :: nat
  thread_count :: nat
  dtor_at :: dtor_pc
  unset_writes :: "nat list"

text \<open>
  A loop whose thread is in front of the first test of \<open>looping_\<close> (which is where an empty batch ends, too), and one that
  was only constructed.
\<close>

definition started_loop :: event_loop where
  "started_loop = loop_init\<lparr>loop_at := Run []\<rparr>"

definition constructed_loop :: event_loop where
  "constructed_loop = loop_init\<lparr>looping := False, loop_at := Stopped\<rparr>"

definition pool_end_init :: "nat \<Rightarrow> nat \<Rightarrow> pool_end" where
  "pool_end_init m n = \<lparr>the_loops = (\<lambda>i. if i < n then started_loop else constructed_loop), loop_count = m,
     thread_count = n, dtor_at = D_stop 0, unset_writes = []\<rparr>"

definition upd_loop :: "nat \<Rightarrow> pool_end \<Rightarrow> event_loop \<Rightarrow> pool_end" where
  "upd_loop i s l = s\<lparr>the_loops := (the_loops s)(i := l)\<rparr>"

text \<open>The destructor is caller 0 of each loop; \<open>v\<close> is the value of the variable \<open>writeWakeUpFd\<close> does not set.\<close>

definition dtor_step :: "nat \<Rightarrow> pool_end \<Rightarrow> pool_end option" where
  "dtor_step v s =
     (case dtor_at s of
        D_stop i \<Rightarrow>
          if i < loop_count s
          then map_option (\<lambda>l. (upd_loop i s l)\<lparr>dtor_at := D_write i\<rparr>) (loop_exec (Stop 0) (the_loops s i))
          else Some (s\<lparr>dtor_at := D_join 0\<rparr>)
      | D_write i \<Rightarrow>
          if i < thread_count s
          then map_option (\<lambda>l. (upd_loop i s l)\<lparr>dtor_at := D_stop (i + 1)\<rparr>)
                 (loop_exec (Write 0 v) (the_loops s i))
          else Some (s\<lparr>dtor_at := D_stop (i + 1), unset_writes := unset_writes s @ [i]\<rparr>)
      | D_join i \<Rightarrow>
          if i < thread_count s
          then if loop_at (the_loops s i) = Stopped then Some (s\<lparr>dtor_at := D_join (i + 1)\<rparr>) else None
          else Some (s\<lparr>dtor_at := D_done\<rparr>)
      | D_done \<Rightarrow> None)"

fun caller_of :: "loop_action \<Rightarrow> nat option" where
  "caller_of (Push c t) = Some c" | "caller_of (Look c) = Some c" | "caller_of (Write c v) = Some c"
| "caller_of (Stop c) = Some c" | "caller_of _ = None"

datatype pool_action = Dtor nat | On nat loop_action

fun pool_exec :: "pool_action \<Rightarrow> pool_end \<Rightarrow> pool_end option" where
  "pool_exec (Dtor v) s = dtor_step v s"
| "pool_exec (On i a) s =
     (if i < thread_count s \<and> caller_of a \<noteq> Some 0
      then map_option (upd_loop i s) (loop_exec a (the_loops s i)) else None)"

inductive pool_reach :: "nat \<Rightarrow> nat \<Rightarrow> pool_end \<Rightarrow> bool" for m n where
  init: "pool_reach m n (pool_end_init m n)"
| step: "pool_reach m n s \<Longrightarrow> pool_exec a s = Some s' \<Longrightarrow> pool_reach m n s'"

fun pool_run :: "pool_action list \<Rightarrow> pool_end \<Rightarrow> pool_end option" where
  "pool_run [] s = Some s"
| "pool_run (a # as) s = Option.bind (pool_exec a s) (pool_run as)"

lemma pool_run_reach: "pool_reach m n s \<Longrightarrow> pool_run as s = Some s' \<Longrightarrow> pool_reach m n s'"
proof (induction as arbitrary: s)
  case (Cons a as)
  then obtain s1 where "pool_exec a s = Some s1" "pool_run as s1 = Some s'"
    by (auto simp: bind_eq_Some_conv)
  then show ?case using Cons pool_reach.step by blast
qed simp

subsection \<open>A loop that was stopped and woken\<close>

definition told :: "event_loop \<Rightarrow> bool" where
  "told l \<longleftrightarrow> \<not> looping l \<and> (loop_at l = Poll \<longrightarrow> wake l > 0)"

lemma eventfd_write_keeps: "n > 0 \<Longrightarrow> eventfd_write v n > 0"
  by (simp add: eventfd_write_def)

lemma told_exec: "told l \<Longrightarrow> loop_exec a l = Some l' \<Longrightarrow> told l'"
  by (cases a) (auto simp: told_def eventfd_write_keeps split: loop_pc.splits list.splits if_splits)

lemma stopped_exec: "\<not> looping l \<Longrightarrow> loop_exec a l = Some l' \<Longrightarrow> \<not> looping l'"
  by (cases a) (auto split: loop_pc.splits list.splits if_splits)

lemma caller_exec: "loop_exec a l = Some l' \<Longrightarrow> caller_of a \<noteq> Some c \<Longrightarrow> callers l' c = callers l c"
  by (cases a) (auto split: loop_pc.splits list.splits if_splits)

lemma told_enabled: "told l \<Longrightarrow> loop_at l \<noteq> Stopped \<Longrightarrow> loop_thread l \<noteq> None"
  by (auto simp: told_def split: loop_pc.splits list.splits)

text \<open>What it has left to do.\<close>

fun rank :: "event_loop \<Rightarrow> nat" where
  "rank l =
     (case loop_at l of
        Poll \<Rightarrow> 5 + length (tasks l) | Handle w \<Rightarrow> 4 + length (tasks l) | Set_flag \<Rightarrow> 3 + length (tasks l)
      | Swap \<Rightarrow> 2 + length (tasks l) | Run ts \<Rightarrow> 1 + length ts | Stopped \<Rightarrow> 0)"

fun is_push :: "loop_action \<Rightarrow> bool" where
  "is_push (Push c t) = True" | "is_push _ = False"

lemma rank_exec:
  "\<not> looping l \<Longrightarrow> loop_exec a l = Some l' \<Longrightarrow>
     rank l' + (if a = Loop_step \<or> a = Other_event then 1 else 0) \<le> rank l + (if is_push a then 1 else 0)"
  by (cases a) (auto split: loop_pc.splits list.splits if_splits)

subsection \<open>The invariant\<close>

text \<open>How many loops have been stopped and written to.\<close>

fun told_below :: "nat \<Rightarrow> dtor_pc \<Rightarrow> nat" where
  "told_below m (D_stop i) = i" | "told_below m (D_write i) = i" | "told_below m (D_join i) = m" | "told_below m D_done = m"

definition pool_end_inv :: "nat \<Rightarrow> nat \<Rightarrow> pool_end \<Rightarrow> bool" where
  "pool_end_inv m n s \<longleftrightarrow> loop_count s = m \<and> thread_count s = n \<and> told_below m (dtor_at s) \<le> m \<and>
     (\<forall>i. dtor_at s = D_write i \<longrightarrow> i < m) \<and>
     (\<forall>i. callers (the_loops s i) 0 = (if dtor_at s = D_write i then Waking
        else if n \<le> i \<and> i < told_below m (dtor_at s) then Waking else Idle)) \<and>
     (\<forall>i. dtor_at s = D_write i \<longrightarrow> \<not> looping (the_loops s i)) \<and>
     unset_writes s = [n..<told_below m (dtor_at s)]"

lemma pool_end_invD:
  assumes "pool_end_inv m n s"
  shows "loop_count s = m" and "thread_count s = n" and "told_below m (dtor_at s) \<le> m"
    and "dtor_at s = D_write i \<Longrightarrow> i < m"
    and "callers (the_loops s i) 0 = (if dtor_at s = D_write i then Waking
        else if n \<le> i \<and> i < told_below m (dtor_at s) then Waking else Idle)"
    and "dtor_at s = D_write i \<Longrightarrow> \<not> looping (the_loops s i)"
    and "unset_writes s = [n..<told_below m (dtor_at s)]"
  using assms unfolding pool_end_inv_def by blast+

lemma pool_exec_inv:
  assumes inv: "pool_end_inv m n s" and nm: "n \<le> m" and st: "pool_exec a s = Some s'"
  shows "pool_end_inv m n s'"
proof -
  note d = pool_end_invD [OF inv]
  show ?thesis
  proof (cases a)
    case (On i b)
    then obtain l where l: "loop_exec b (the_loops s i) = Some l" "s' = upd_loop i s l" "caller_of b \<noteq> Some 0"
      using st by (auto split: if_splits)
    have l0: "callers l 0 = callers (the_loops s i) 0" using caller_exec [OF l(1,3)] .
    have "\<not> looping l" if "\<not> looping (the_loops s i)" using stopped_exec [OF that l(1)] .
    then show ?thesis using inv l0 by (auto simp: pool_end_inv_def l(2) upd_loop_def)
  next
    case (Dtor v)
    show ?thesis
    proof (cases "dtor_at s")
      case (D_stop i)
      show ?thesis
      proof (cases "i < m")
        case True
        then have "callers (the_loops s i) 0 = Idle" using d(5) [of i] D_stop by simp
        then have "s' = (upd_loop i s ((the_loops s i)\<lparr>looping := False, callers := (callers (the_loops s i))(0 := Waking)\<rparr>))
            \<lparr>dtor_at := D_write i\<rparr>"
          using st Dtor D_stop True d(1) by (simp add: dtor_step_def)
        then show ?thesis using inv D_stop True by (auto simp: pool_end_inv_def upd_loop_def)
      next
        case False
        then have "i = m" using d(3) D_stop by simp
        moreover have "s' = s\<lparr>dtor_at := D_join 0\<rparr>" using st Dtor D_stop False d(1) by (simp add: dtor_step_def)
        ultimately show ?thesis using inv D_stop by (auto simp: pool_end_inv_def)
      qed
    next
      case (D_write i)
      have im: "i < m" using d(4) D_write .
      show ?thesis
      proof (cases "i < n")
        case True
        let ?l = "the_loops s i"
        let ?l' = "?l\<lparr>wake := eventfd_write v (wake ?l), callers := (callers ?l)(0 := Idle)\<rparr>"
        have "callers ?l 0 = Waking" using d(5) [of i] D_write by simp
        then have s': "s' = (upd_loop i s ?l')\<lparr>dtor_at := D_stop (i + 1)\<rparr>"
          using st Dtor D_write True d(2) by (simp add: dtor_step_def)
        have "unset_writes s' = [n..<Suc i]" using d(7) D_write True by (simp add: s' upd_loop_def)
        then show ?thesis
          using inv im D_write True by (auto simp: pool_end_inv_def s' upd_loop_def)
      next
        case False
        then have s': "s' = s\<lparr>dtor_at := D_stop (i + 1), unset_writes := unset_writes s @ [i]\<rparr>"
          using st Dtor D_write d(2) by (simp add: dtor_step_def)
        have u: "unset_writes s @ [i] = [n..<Suc i]" using d(7) D_write False by simp
        have c: "callers (the_loops s j) 0 = (if n \<le> j \<and> j < Suc i then Waking else Idle)" for j
          using d(5) [of j] D_write False by (auto simp: less_Suc_eq)
        then show ?thesis using d(1,2) im u by (simp add: pool_end_inv_def s')
      qed
    next
      case (D_join i)
      have "s' = s\<lparr>dtor_at := D_join (i + 1)\<rparr> \<or> s' = s\<lparr>dtor_at := D_done\<rparr>"
        using st Dtor D_join by (auto simp: dtor_step_def split: if_splits)
      then show ?thesis using inv D_join by (auto simp: pool_end_inv_def)
    next
      case D_done
      then show ?thesis using st Dtor by (simp add: dtor_step_def)
    qed
  qed
qed

lemma pool_reach_inv: "pool_reach m n s \<Longrightarrow> n \<le> m \<Longrightarrow> pool_end_inv m n s"
proof (induction rule: pool_reach.induct)
  case init
  then show ?case by (simp add: pool_end_inv_def pool_end_init_def started_loop_def constructed_loop_def loop_init_def)
next
  case (step s a s')
  then show ?case using pool_exec_inv by blast
qed

text \<open>
  What \<open>writeWakeUpFd\<close> writes is left to chance; these are the values an eventfd takes and wakes on.  With them, every loop
  the destructor has dealt with ends.
\<close>

definition wakes :: "nat \<Rightarrow> bool" where
  "wakes v \<longleftrightarrow> 0 < v \<and> v < 2 ^ 64 - 1"

lemma wakes_write: "wakes v \<Longrightarrow> 0 < eventfd_write v k"
  by (auto simp: wakes_def eventfd_write_def)

definition told_inv :: "nat \<Rightarrow> nat \<Rightarrow> pool_end \<Rightarrow> bool" where
  "told_inv m n s \<longleftrightarrow> (\<forall>i < n. i < told_below m (dtor_at s) \<longrightarrow> told (the_loops s i))"

lemma told_inv_exec:
  assumes inv: "pool_end_inv m n s" and t: "told_inv m n s" and st: "pool_exec a s = Some s'"
    and v: "\<And>v. a = Dtor v \<Longrightarrow> wakes v"
  shows "told_inv m n s'"
proof -
  note d = pool_end_invD [OF inv]
  show ?thesis
  proof (cases a)
    case (On i b)
    then obtain l where l: "loop_exec b (the_loops s i) = Some l" "s' = upd_loop i s l"
      using st by (auto split: if_splits)
    have "told l" if "told (the_loops s i)" using told_exec [OF that l(1)] .
    then show ?thesis using t by (simp add: told_inv_def l(2) upd_loop_def)
  next
    case (Dtor v)
    show ?thesis
    proof (cases "dtor_at s")
      case (D_stop i)
      show ?thesis
      proof (cases "i < m")
        case True
        then obtain l where "s' = (upd_loop i s l)\<lparr>dtor_at := D_write i\<rparr>"
          using st Dtor D_stop d(1) by (auto simp: dtor_step_def split: if_splits)
        then show ?thesis using t D_stop by (simp add: told_inv_def upd_loop_def)
      next
        case False
        then have "i = m" "s' = s\<lparr>dtor_at := D_join 0\<rparr>" using d(1,3) D_stop st Dtor by (simp_all add: dtor_step_def)
        then show ?thesis using t D_stop by (simp add: told_inv_def)
      qed
    next
      case (D_write i)
      show ?thesis
      proof (cases "i < n")
        case True
        then obtain l where l: "loop_exec (Write 0 v) (the_loops s i) = Some l" "s' = (upd_loop i s l)\<lparr>dtor_at := D_stop (i + 1)\<rparr>"
          using st Dtor D_write d(2) by (auto simp: dtor_step_def)
        have "wake l = eventfd_write v (wake (the_loops s i))" "looping l = looping (the_loops s i)"
          using l(1) by (auto split: if_splits)
        then have "told l" using wakes_write [OF v [OF Dtor]] d(6) [OF D_write] by (simp add: told_def)
        then show ?thesis using t D_write by (auto simp: told_inv_def l(2) upd_loop_def less_Suc_eq)
      next
        case False
        then have "s' = s\<lparr>dtor_at := D_stop (i + 1), unset_writes := unset_writes s @ [i]\<rparr>"
          using st Dtor D_write d(2) by (simp add: dtor_step_def)
        then show ?thesis using t D_write False by (auto simp: told_inv_def less_Suc_eq)
      qed
    next
      case (D_join i)
      have "s' = s\<lparr>dtor_at := D_join (i + 1)\<rparr> \<or> s' = s\<lparr>dtor_at := D_done\<rparr>"
        using st Dtor D_join by (auto simp: dtor_step_def split: if_splits)
      then show ?thesis using t D_join by (auto simp: told_inv_def)
    next
      case D_done
      then show ?thesis using st Dtor by (simp add: dtor_step_def)
    qed
  qed
qed

text \<open>The threads joined have ended.\<close>

fun joined :: "nat \<Rightarrow> dtor_pc \<Rightarrow> nat" where
  "joined n (D_join j) = j" | "joined n D_done = n" | "joined n pc = 0"

definition joined_inv :: "nat \<Rightarrow> pool_end \<Rightarrow> bool" where
  "joined_inv n s \<longleftrightarrow> (\<forall>i < n. i < joined n (dtor_at s) \<longrightarrow> loop_at (the_loops s i) = Stopped)"

lemma stopped_stays: "loop_at l = Stopped \<Longrightarrow> loop_exec a l = Some l' \<Longrightarrow> loop_at l' = Stopped"
  by (cases a) (auto split: if_splits)

lemma joined_inv_exec:
  assumes inv: "pool_end_inv m n s" and t: "joined_inv n s" and st: "pool_exec a s = Some s'"
  shows "joined_inv n s'"
proof -
  note d = pool_end_invD [OF inv]
  show ?thesis
  proof (cases a)
    case (On i b)
    then obtain l where l: "loop_exec b (the_loops s i) = Some l" "s' = upd_loop i s l"
      using st by (auto split: if_splits)
    have "loop_at l = Stopped" if "loop_at (the_loops s i) = Stopped" using stopped_stays [OF that l(1)] .
    then show ?thesis using t by (simp add: joined_inv_def l(2) upd_loop_def)
  next
    case (Dtor v)
    show ?thesis
    proof (cases "dtor_at s")
      case (D_join i)
      then consider "i < n" "loop_at (the_loops s i) = Stopped" "s' = s\<lparr>dtor_at := D_join (i + 1)\<rparr>"
        | "\<not> i < n" "s' = s\<lparr>dtor_at := D_done\<rparr>"
        using st Dtor d(2) by (auto simp: dtor_step_def split: if_splits)
      then show ?thesis by cases (use t D_join in \<open>auto simp: joined_inv_def less_Suc_eq\<close>)
    qed (use st Dtor in \<open>auto simp: dtor_step_def joined_inv_def upd_loop_def split: if_splits\<close>)
  qed
qed

subsection \<open>The work that is left\<close>

definition joining :: "pool_end \<Rightarrow> bool" where
  "joining s \<longleftrightarrow> dtor_at s = D_done \<or> (\<exists>j. dtor_at s = D_join j)"

fun joins_left :: "nat \<Rightarrow> dtor_pc \<Rightarrow> nat" where
  "joins_left n (D_join j) = Suc (n - j)" | "joins_left n pc = 0"

definition work :: "pool_end \<Rightarrow> nat" where
  "work s = (\<Sum>i<thread_count s. rank (the_loops s i)) + joins_left (thread_count s) (dtor_at s)"

text \<open>The steps of the destructor and of the helpers, and the tasks that are queued.\<close>

fun own_step :: "pool_action \<Rightarrow> bool" where
  "own_step (Dtor v) = True" | "own_step (On i a) = (a = Loop_step \<or> a = Other_event)"

fun queues_task :: "pool_action \<Rightarrow> bool" where
  "queues_task (On i a) = is_push a" | "queues_task (Dtor v) = False"

lemma work_exec:
  assumes inv: "pool_end_inv m n s" and nm: "n \<le> m" and t: "told_inv m n s" and j: "joining s" and st: "pool_exec a s = Some s'"
  shows "work s' + (if own_step a then 1 else 0) \<le> work s + (if queues_task a then 1 else 0)"
    and "joining s'" and "told_inv m n s'"
proof -
  note d = pool_end_invD [OF inv]
  have told: "told (the_loops s i)" if "i < n" for i
    using t that nm j by (auto simp: joining_def told_inv_def)
  have "work s' + (if own_step a then 1 else 0) \<le> work s + (if queues_task a then 1 else 0) \<and> joining s' \<and> told_inv m n s'"
  proof (cases a)
    case (On i b)
    then have i: "i < n" using st d(2) by (simp split: if_splits)
    then obtain l where l: "loop_exec b (the_loops s i) = Some l" "s' = upd_loop i s l"
      using st On by (auto split: if_splits)
    have "told_inv m n s'" by (rule told_inv_exec [OF inv t st]) (simp add: On)
    moreover let ?r = "\<lambda>j. rank (the_loops s j)"
    have "(\<Sum>j<n. rank (the_loops s' j)) = rank l + (\<Sum>j \<in> {..<n} - {i}. ?r j)"
      using i by (simp add: l(2) upd_loop_def sum.remove [of "{..<n}" i] del: rank.simps)
    moreover have "(\<Sum>j<n. ?r j) = ?r i + (\<Sum>j \<in> {..<n} - {i}. ?r j)"
      using i by (simp add: sum.remove [of "{..<n}" i] del: rank.simps)
    moreover have "rank l + (if b = Loop_step \<or> b = Other_event then 1 else 0) \<le> ?r i + (if is_push b then 1 else 0)"
      using rank_exec [OF _ l(1)] told [OF i] by (simp add: told_def del: rank.simps)
    ultimately show ?thesis using On j d(2) by (simp add: work_def joining_def l(2) upd_loop_def del: rank.simps)
  next
    case (Dtor v)
    from j consider (join) k where "dtor_at s = D_join k" | (returned) "dtor_at s = D_done" by (auto simp: joining_def)
    then show ?thesis
    proof cases
      case join
      then consider "k < n" "s' = s\<lparr>dtor_at := D_join (k + 1)\<rparr>" | "\<not> k < n" "s' = s\<lparr>dtor_at := D_done\<rparr>"
        using st Dtor d(2) by (auto simp: dtor_step_def split: if_splits)
      then show ?thesis
        by cases (use join Dtor t d(2) in \<open>auto simp: work_def joining_def told_inv_def simp del: rank.simps\<close>)
    next
      case returned
      then show ?thesis using st Dtor by (simp add: dtor_step_def)
    qed
  qed
  then show "work s' + (if own_step a then 1 else 0) \<le> work s + (if queues_task a then 1 else 0)" "joining s'" "told_inv m n s'"
    by blast+
qed

lemma work_run:
  assumes nm: "n \<le> m" and "pool_reach m n s" and "told_inv m n s" and "joining s" and "pool_run as s = Some s'"
  shows "length (filter own_step as) + work s' \<le> work s + length (filter queues_task as) \<and> joining s' \<and> told_inv m n s'"
  using assms(2-)
proof (induction as arbitrary: s)
  case Nil
  then show ?case by simp
next
  case (Cons a as)
  then obtain s1 where s1: "pool_exec a s = Some s1" "pool_run as s1 = Some s'"
    by (auto simp: bind_eq_Some_conv)
  note w = work_exec [OF pool_reach_inv [OF Cons.prems(1) nm] nm Cons.prems(2,3) s1(1)]
  have "length (filter own_step as) + work s' \<le> work s1 + length (filter queues_task as) \<and> joining s' \<and> told_inv m n s'"
    using Cons.IH [OF pool_reach.step [OF Cons.prems(1) s1(1)] w(3,2) s1(2)] .
  then show ?case using w(1) by (auto split: if_splits)
qed

text \<open>The steps the destructor itself has left.\<close>

fun is_dtor :: "pool_action \<Rightarrow> bool" where
  "is_dtor (Dtor v) = True" | "is_dtor (On i a) = False"

fun dtor_left :: "nat \<Rightarrow> nat \<Rightarrow> dtor_pc \<Rightarrow> nat" where
  "dtor_left m n (D_stop i) = 2 * (m - i) + n + 2" | "dtor_left m n (D_write i) = 2 * (m - i) + n + 1"
| "dtor_left m n (D_join j) = n - j + 1" | "dtor_left m n D_done = 0"

lemma dtor_left_exec:
  assumes inv: "pool_end_inv m n s" and st: "pool_exec a s = Some s'"
  shows "dtor_left m n (dtor_at s') + (if is_dtor a then 1 else 0) \<le> dtor_left m n (dtor_at s)"
proof (cases a)
  case (On i b)
  then show ?thesis using st by (auto simp: upd_loop_def split: if_splits)
next
  case (Dtor v)
  note d = pool_end_invD [OF inv]
  show ?thesis
  proof (cases "dtor_at s")
    case (D_stop i)
    then show ?thesis using st Dtor d(1) by (auto simp: dtor_step_def upd_loop_def split: if_splits)
  next
    case (D_write i)
    then show ?thesis using st Dtor d(4) [OF D_write] by (auto simp: dtor_step_def upd_loop_def split: if_splits)
  next
    case (D_join i)
    then show ?thesis using st Dtor d(2) by (auto simp: dtor_step_def split: if_splits)
  next
    case D_done
    then show ?thesis using st Dtor by (simp add: dtor_step_def)
  qed
qed

lemma pool_run_keeps:
  assumes nm: "n \<le> m" and "pool_reach m n s" and "joined_inv n s" and "pool_run as s = Some s'"
  shows "length (filter is_dtor as) + dtor_left m n (dtor_at s') \<le> dtor_left m n (dtor_at s)" and "joined_inv n s'"
    and "told_inv m n s \<Longrightarrow> (\<And>v. Dtor v \<in> set as \<Longrightarrow> wakes v) \<Longrightarrow> told_inv m n s'"
proof -
  have "length (filter is_dtor as) + dtor_left m n (dtor_at s') \<le> dtor_left m n (dtor_at s) \<and> joined_inv n s' \<and>
    (told_inv m n s \<longrightarrow> (\<forall>v. Dtor v \<in> set as \<longrightarrow> wakes v) \<longrightarrow> told_inv m n s')"
    using assms(2-)
  proof (induction as arbitrary: s)
    case (Cons a as)
    then obtain s1 where s1: "pool_exec a s = Some s1" "pool_run as s1 = Some s'"
      by (auto simp: bind_eq_Some_conv)
    note inv = pool_reach_inv [OF Cons.prems(1) nm]
    have "told_inv m n s1" if "told_inv m n s" "\<forall>v. Dtor v \<in> set (a # as) \<longrightarrow> wakes v"
      by (rule told_inv_exec [OF inv that(1) s1(1)]) (use that(2) in auto)
    then show ?case
      using Cons.IH [OF pool_reach.step [OF Cons.prems(1) s1(1)] joined_inv_exec [OF inv Cons.prems(2) s1(1)] s1(2)]
        dtor_left_exec [OF inv s1(1)] by (auto split: if_splits)
  qed simp
  then show "length (filter is_dtor as) + dtor_left m n (dtor_at s') \<le> dtor_left m n (dtor_at s)" "joined_inv n s'"
    "told_inv m n s \<Longrightarrow> (\<And>v. Dtor v \<in> set as \<Longrightarrow> wakes v) \<Longrightarrow> told_inv m n s'"
    by blast+
qed

lemma dtor_not_blocked:
  assumes "pool_end_inv m n s" and "\<not> joining s"
  shows "dtor_step v s \<noteq> None"
proof (cases "dtor_at s")
  case (D_stop i)
  then show ?thesis using pool_end_invD(1) [OF assms(1)] pool_end_invD(5) [OF assms(1), of i] by (auto simp: dtor_step_def)
next
  case (D_write i)
  then show ?thesis using pool_end_invD(5) [OF assms(1), of i] by (auto simp: dtor_step_def)
qed (use assms(2) in \<open>auto simp: joining_def\<close>)

lemma joining_goes_on:
  assumes nm: "n \<le> m" and inv: "pool_end_inv m n s" and t: "told_inv m n s" and j: "joining s"
  shows "dtor_at s = D_done \<or> (\<exists>a s'. own_step a \<and> pool_exec a s = Some s')"
proof (cases "dtor_at s")
  case (D_join i)
  note d = pool_end_invD [OF inv]
  show ?thesis
  proof (cases "i < n \<and> loop_at (the_loops s i) \<noteq> Stopped")
    case True
    then have "told (the_loops s i)" using t D_join nm by (simp add: told_inv_def)
    then obtain l where "loop_thread (the_loops s i) = Some l" using told_enabled True by blast
    then have "pool_exec (On i Loop_step) s = Some (upd_loop i s l)" using True d(2) by simp
    then show ?thesis using own_step.simps(2) by blast
  next
    case False
    then have "\<exists>s'. pool_exec (Dtor 0) s = Some s'" using D_join d(2) by (auto simp: dtor_step_def)
    then show ?thesis using own_step.simps(1) by blast
  qed
qed (use j in \<open>auto simp: joining_def\<close>)

subsection \<open>Properties\<close>


text \<open>A pool with room for two threads and one helper, which has one task to run, is stopped.\<close>

definition demo_pool_stop :: "pool_action list" where
  "demo_pool_stop = [On 0 Loop_step, On 0 (Push 1 7), Dtor 5, Dtor 1, Dtor 7, Dtor 2, Dtor 3]"

lemma demo_pool_stop_run:
  "\<exists>s. pool_run demo_pool_stop (pool_end_init 2 1) = Some s \<and> joining s \<and> work s = 8"
  by (simp add: demo_pool_stop_def pool_end_init_def started_loop_def constructed_loop_def loop_init_def upd_loop_def
      dtor_step_def eventfd_write_def joining_def work_def)


text \<open>
  What the destructor does besides.  It writes to the eventfd of every loop without a thread, whose descriptor has
  never been set.  And when the value it writes is zero it waits for ever for a helper that sleeps.
\<close>

theorem pool_destructor_faults:
  "n \<le> m \<Longrightarrow> pool_reach m n s \<Longrightarrow> joining s \<Longrightarrow> unset_writes s = [n..<m]"
  "\<exists>s. pool_reach 1 1 s \<and> dtor_at s = D_join 0 \<and> tasks (the_loops s 0) = [] \<and> (\<forall>c. callers (the_loops s 0) c = Idle) \<and>
     (\<forall>v. pool_exec (Dtor v) s = None) \<and> pool_exec (On 0 Loop_step) s = None"
proof -
  show "unset_writes s = [n..<m]" if "n \<le> m" "pool_reach m n s" "joining s"
    using pool_end_invD(7) [OF pool_reach_inv [OF that(2,1)]] that(3) by (auto simp: joining_def)
  have "\<exists>s. pool_run [On 0 Loop_step, Dtor 0, Dtor 0, Dtor 0] (pool_end_init 1 1) = Some s \<and> dtor_at s = D_join 0 \<and>
     tasks (the_loops s 0) = [] \<and> (\<forall>c. callers (the_loops s 0) c = Idle) \<and>
     (\<forall>v. pool_exec (Dtor v) s = None) \<and> pool_exec (On 0 Loop_step) s = None"
    by (simp add: pool_end_init_def started_loop_def constructed_loop_def loop_init_def upd_loop_def
        dtor_step_def eventfd_write_def)
  then show "\<exists>s. pool_reach 1 1 s \<and> dtor_at s = D_join 0 \<and> tasks (the_loops s 0) = [] \<and> (\<forall>c. callers (the_loops s 0) c = Idle) \<and>
     (\<forall>v. pool_exec (Dtor v) s = None) \<and> pool_exec (On 0 Loop_step) s = None"
    using pool_run_reach [OF pool_reach.init] by blast
qed

end
