(* ===== verification/Timer.thy ===== *)
theory Timer imports Connection begin

section \<open>Timer: tasks at a time, on top of timerfd\<close>

text \<open>
  A timer is a descriptor of the kernel's \<open>timerfd\<close> with an \<open>Event\<close> on the loop's epoller; a
  \<open>TimerHandler\<close> names both, and the \<open>Timer\<close> object keeps its handlers in a map.  The first part is
  the conversion of milliseconds and the operations, the second what a descriptor armed like this
  does.  The properties: when tasks run, and what becomes of cancelling.
\<close>

subsection \<open>timerfd\<close>

record timespec =
  tv_sec :: nat
  tv_nsec :: nat

record itimerspec =
  it_interval :: timespec
  it_value :: timespec

record 'k timer_os =
  timerfd_create :: "'k \<Rightarrow> (errno + fd) \<times> 'k"
  timerfd_settime :: "fd \<Rightarrow> itimerspec \<Rightarrow> 'k \<Rightarrow> errno option \<times> 'k"

text \<open>
  The manual page: how often a descriptor armed with a setting has expired \<open>t\<close> nanoseconds later; a
  value of zero disarms it, an interval of zero makes it expire once.
\<close>

definition nanoseconds :: "timespec \<Rightarrow> nat" where
  "nanoseconds ts = tv_sec ts * 1000000000 + tv_nsec ts"

definition expirations :: "itimerspec \<Rightarrow> nat \<Rightarrow> nat" where
  "expirations sp t =
     (let v = nanoseconds (it_value sp); i = nanoseconds (it_interval sp) in
      if v = 0 \<or> t < v then 0 else if i = 0 then 1 else 1 + (t - v) div i)"

definition valid_spec :: "itimerspec \<Rightarrow> bool" where
  "valid_spec sp \<longleftrightarrow> tv_nsec (it_value sp) < 1000000000 \<and> tv_nsec (it_interval sp) < 1000000000"

text \<open>
  What the code relies on: a new descriptor is in use nowhere, setting a valid time succeeds,
  \<open>armed\<close> is the setting of each descriptor, and registering with epoll does not change it.
\<close>

definition timer_contract ::
  "'k os \<Rightarrow> 'k timer_os \<Rightarrow> (fd \<Rightarrow> 'k \<Rightarrow> (fd \<rightharpoonup> epoll_event)) \<Rightarrow> (fd \<Rightarrow> 'k \<Rightarrow> itimerspec) \<Rightarrow> bool" where
  "timer_contract os tos interest armed \<longleftrightarrow>
     (\<forall>k f k' ep. timerfd_create tos k = (Inr f, k') \<longrightarrow> interest ep k' = interest ep k \<and> interest ep k f = None) \<and>
     (\<forall>f sp k r k' ep. timerfd_settime tos f sp k = (r, k') \<longrightarrow> interest ep k' = interest ep k \<and>
        (valid_spec sp \<longrightarrow> r = None \<and> armed f k' = sp)) \<and>
     (\<forall>ep op f m k r k' g. sys_epoll_ctl os ep op f m k = (r, k') \<longrightarrow> armed g k' = armed g k)"

lemma timer_contractD:
  assumes "timer_contract os tos interest armed"
  shows "timerfd_create tos k = (Inr f, k') \<Longrightarrow> interest ep k' = interest ep k \<and> interest ep k f = None"
    and "timerfd_settime tos f sp k = (r, k') \<Longrightarrow> interest ep k' = interest ep k"
    and "timerfd_settime tos f sp k = (r, k') \<Longrightarrow> valid_spec sp \<Longrightarrow> r = None \<and> armed f k' = sp"
    and "sys_epoll_ctl os ep op f m k = (r2, k') \<Longrightarrow> armed g k' = armed g k"
  using assms unfolding timer_contract_def by - (elim conjE, metis)+

subsection \<open>State\<close>

text \<open>The lambda expressions registered as read callbacks, with what they capture.\<close>

datatype timer_cb = Periodic fd nat | One_shot fd nat event_id fd

record handler =
  h_timerfd :: fd
  h_event :: event_id

text \<open>\<open>timer_queue\<close> is the \<open>ConcurrentMap\<close>, from descriptors to handlers; tasks are numbered.\<close>

record 'k timer_world = "'k world" +
  timer_cbs :: "nat \<rightharpoonup> timer_cb"
  next_cb :: nat
  handlers :: "nat \<rightharpoonup> handler"
  next_handler :: nat
  timer_queue :: "fd \<rightharpoonup> nat"

type_synonym 'k tworld = "'k timer_world"

subsection \<open>Operations\<close>

text \<open>Milliseconds to \<open>timespec\<close>, in unsigned 32-bit arithmetic.\<close>

definition ms_to_timespec :: "u32 \<Rightarrow> timespec" where
  "ms_to_timespec t = \<lparr>tv_sec = unat (t div 1000), tv_nsec = unat ((t mod 1000) * 1000000)\<rparr>"

definition zero_time :: timespec where
  "zero_time = \<lparr>tv_sec = 0, tv_nsec = 0\<rparr>"

definition set_time :: "'k timer_os \<Rightarrow> fd \<Rightarrow> itimerspec \<Rightarrow> 'k tworld \<Rightarrow> 'k tworld" where
  "set_time tos f sp w = w\<lparr>env := logged ''timerfd_settime error'' (timerfd_settime tos f sp) (env w)\<rparr>"

text \<open>\<open>ConcurrentMap::add\<close>: \<open>insert\<close> keeps an entry that is there; \<open>remove\<close> erases by the handler's descriptor.\<close>

definition queue_add :: "nat \<Rightarrow> handler \<Rightarrow> 'k tworld \<Rightarrow> 'k tworld" where
  "queue_add h x w =
     (if timer_queue w (h_timerfd x) = None then w\<lparr>timer_queue := (timer_queue w)(h_timerfd x \<mapsto> h)\<rparr> else w)"

definition queue_remove :: "handler \<Rightarrow> 'k tworld \<Rightarrow> 'k tworld" where
  "queue_remove x w = w\<lparr>timer_queue := (timer_queue w)(h_timerfd x := None)\<rparr>"

text \<open>
  What all functions that make a timer share; a failing \<open>timerfd_create\<close> gives descriptor \<open>-1\<close>.  The
  result is the descriptor, the event and the world.
\<close>

definition make_timer ::
  "'k os \<Rightarrow> 'k timer_os \<Rightarrow> fd \<Rightarrow> itimerspec \<Rightarrow> (fd \<Rightarrow> event_id \<Rightarrow> timer_cb) \<Rightarrow> 'k tworld \<Rightarrow>
     (fd \<times> event_id \<times> 'k tworld) res" where
  "make_timer os tos ep sp cb w =
     (let (r, k) = timerfd_create tos (kern (env w));
          f = (case r of Inl _ \<Rightarrow> - 1 | Inr g \<Rightarrow> g);
          w1 = set_time tos f sp (w\<lparr>env := (env w)\<lparr>kern := k\<rparr>\<rparr>) in
      res_bind (make_event os f ep w1) (\<lambda>(p, w2).
        let n = next_cb w2; w3 = w2\<lparr>timer_cbs := (timer_cbs w2)(n \<mapsto> cb f p), next_cb := Suc n\<rparr> in
        res_bind (setReadCallback p (Cb_timer n) w3) (\<lambda>w4.
          res_bind (setReadable os p True w4) (\<lambda>w5. Inr (f, p, w5)))))"

text \<open>A \<open>Timer\<close> moreover makes a handler and keeps it in its map.\<close>

definition add_timer ::
  "'k os \<Rightarrow> 'k timer_os \<Rightarrow> fd \<Rightarrow> itimerspec \<Rightarrow> (fd \<Rightarrow> event_id \<Rightarrow> timer_cb) \<Rightarrow> 'k tworld \<Rightarrow> (nat \<times> 'k tworld) res" where
  "add_timer os tos ep sp cb w =
     res_bind (make_timer os tos ep sp cb w) (\<lambda>(f, p, w1).
       let h = next_handler w1; x = \<lparr>h_timerfd = f, h_event = p\<rparr> in
       Inr (h, queue_add h x (w1\<lparr>handlers := (handlers w1)(h \<mapsto> x), next_handler := Suc h\<rparr>)))"

definition addTimedTask ::
  "'k os \<Rightarrow> 'k timer_os \<Rightarrow> fd \<Rightarrow> u32 \<Rightarrow> u32 \<Rightarrow> nat \<Rightarrow> 'k tworld \<Rightarrow> (nat \<times> 'k tworld) res" where
  "addTimedTask os tos ep firstTime0 intervalTime task w =
     (let firstTime = (if firstTime0 = 0 then 1 else firstTime0) in
      add_timer os tos ep \<lparr>it_interval = ms_to_timespec intervalTime, it_value = ms_to_timespec firstTime\<rparr>
        (\<lambda>f p. Periodic f task) w)"

definition addOneTask ::
  "'k os \<Rightarrow> 'k timer_os \<Rightarrow> fd \<Rightarrow> u32 \<Rightarrow> nat \<Rightarrow> 'k tworld \<Rightarrow> (nat \<times> 'k tworld) res" where
  "addOneTask os tos ep occurTime task w =
     add_timer os tos ep \<lparr>it_interval = zero_time, it_value = ms_to_timespec occurTime\<rparr>
       (\<lambda>f p. One_shot f task p ep) w"

text \<open>
  \<open>TcpClient\<close> and \<open>FreeServerClient\<close> have functions \<open>addTimedTask\<close> of their own, which return nothing and
  take the first time as it is.
\<close>

definition client_addTimedTask ::
  "'k os \<Rightarrow> 'k timer_os \<Rightarrow> fd \<Rightarrow> u32 \<Rightarrow> u32 \<Rightarrow> nat \<Rightarrow> 'k tworld \<Rightarrow> 'k tworld res" where
  "client_addTimedTask os tos ep nextOccurTime intervalTime task w =
     res_bind (make_timer os tos ep
         \<lparr>it_interval = ms_to_timespec intervalTime, it_value = ms_to_timespec nextOccurTime\<rparr> (\<lambda>f p. Periodic f task) w)
       (\<lambda>(f, p, w1). Inr w1)"

text \<open>
  The settings of the timers that check for idle connections, of a \<open>TcpServer\<close> and of a
  \<open>FreeServerClient\<close> (in seconds).
\<close>

definition REAL_SECONDS_PER_VIRTUAL_SECOND :: nat where
  "REAL_SECONDS_PER_VIRTUAL_SECOND = 1"

definition server_idle_spec :: itimerspec where
  "server_idle_spec = \<lparr>it_interval = \<lparr>tv_sec = REAL_SECONDS_PER_VIRTUAL_SECOND, tv_nsec = 0\<rparr>,
     it_value = \<lparr>tv_sec = 1, tv_nsec = 0\<rparr>\<rparr>"

definition free_idle_spec :: itimerspec where
  "free_idle_spec = \<lparr>it_interval = \<lparr>tv_sec = REAL_SECONDS_PER_VIRTUAL_SECOND, tv_nsec = 0\<rparr>,
     it_value = \<lparr>tv_sec = 0, tv_nsec = 0\<rparr>\<rparr>"

text \<open>The read callbacks: the descriptor is read (the result is dropped), the task runs.\<close>

definition run_timer_cb ::
  "'k os \<Rightarrow> (nat \<Rightarrow> 'k tworld \<Rightarrow> 'k tworld res) \<Rightarrow> timer_cb \<Rightarrow> 'k tworld \<Rightarrow> 'k tworld res" where
  "run_timer_cb os task cb w =
     (let consume = (\<lambda>f. w\<lparr>env := (env w)\<lparr>kern := snd (sys_read os f 8 (kern (env w)))\<rparr>\<rparr>) in
      case cb of
        Periodic f t \<Rightarrow> task t (consume f)
      | One_shot f t p ep \<Rightarrow> res_bind (task t (consume f)) (remove_event os ep p))"

definition resetOneTask :: "'k timer_os \<Rightarrow> u32 \<Rightarrow> nat \<Rightarrow> 'k tworld \<Rightarrow> 'k tworld res" where
  "resetOneTask tos time h w =
     res_bind (deref (handlers w) h) (\<lambda>x.
       Inr (set_time tos (h_timerfd x) \<lparr>it_interval = zero_time, it_value = ms_to_timespec time\<rparr> w))"

text \<open>
  \<open>cancelTimer\<close> disarms, deregisters and closes the descriptor; its last statement calls
  \<open>shared_from_this\<close>.  \<open>TimerHandler\<close> inherits \<open>enable_shared_from_this\<close> privately, so no
  \<open>shared_ptr\<close> ever sets the pointer in it and the call throws \<open>bad_weak_ptr\<close>: the second component.
\<close>

definition cancelTimer :: "'k os \<Rightarrow> 'k timer_os \<Rightarrow> nat \<Rightarrow> 'k tworld \<Rightarrow> ('k tworld \<times> cpp_err option) res" where
  "cancelTimer os tos h w =
     res_bind (deref (handlers w) h) (\<lambda>x.
       if h_timerfd x = 0 then Inr (w, None)
       else
         let w1 = set_time tos (h_timerfd x) \<lparr>it_interval = zero_time, it_value = zero_time\<rparr> w in
         res_bind (deref (evs w1) (h_event x)) (\<lambda>ev.
           res_bind (remove_event os (epoller ev) (h_event x) w1) (\<lambda>w2.
             Inr (w2\<lparr>env := (env w2)\<lparr>kern := sys_close os (h_timerfd x) (kern (env w2))\<rparr>,
                     handlers := (handlers w2)(h \<mapsto> x\<lparr>h_timerfd := 0\<rparr>)\<rparr>, Some Bad_weak_ptr))))"

text \<open>
  The destructor of the map (of a \<open>Timer\<close>, of everything that has one) cancels every handler in it, in
  an order the library does not fix; an exception leaves the destructor, which ends the program.
\<close>

fun destroy_timers :: "'k os \<Rightarrow> 'k timer_os \<Rightarrow> nat list \<Rightarrow> 'k tworld \<Rightarrow> 'k tworld res" where
  "destroy_timers os tos [] w = Inr w"
| "destroy_timers os tos (h # hs) w =
     res_bind (cancelTimer os tos h w) (\<lambda>(w1, thrown).
       case thrown of Some e \<Rightarrow> Inl e | None \<Rightarrow> destroy_timers os tos hs w1)"

subsection \<open>The conversion\<close>

lemma ms_to_timespec_ns:
  "nanoseconds (ms_to_timespec t) = unat t * 1000000" "tv_nsec (ms_to_timespec t) < 1000000000"
proof -
  have m: "unat (t mod 1000) = unat t mod 1000" "unat (t div 1000) = unat t div 1000"
    by (simp_all add: unat_mod_distrib unat_div_distrib)
  have small: "unat t mod 1000 * 1000000 < 1000000000" by simp
  have "unat ((t mod 1000) * 1000000) = (unat (t mod 1000) * unat (1000000 :: u32)) mod 2 ^ LENGTH(32)"
    by (rule unat_word_ariths(2))
  then have n: "unat ((t mod 1000) * 1000000) = unat t mod 1000 * 1000000"
    using small unfolding m by simp
  show "tv_nsec (ms_to_timespec t) < 1000000000" using small by (simp add: ms_to_timespec_def n)
  have scale: "q * 1000000000 + r * 1000000 = u * 1000000" if "q * 1000 + r = u" for q r u :: nat
    using that by linarith
  show "nanoseconds (ms_to_timespec t) = unat t * 1000000"
    unfolding nanoseconds_def ms_to_timespec_def timespec.simps m n by (rule scale) (rule div_mult_mod_eq)
qed

lemma zero_time_ns [simp]: "nanoseconds zero_time = 0" "tv_nsec zero_time = 0"
  by (simp_all add: nanoseconds_def zero_time_def)

lemma expirations_ms:
  "expirations \<lparr>it_interval = ms_to_timespec i, it_value = ms_to_timespec v\<rparr> (t * 1000000) =
     (if v = 0 \<or> t < unat v then 0 else if i = 0 then 1 else 1 + (t - unat v) div unat i)"
  "expirations \<lparr>it_interval = zero_time, it_value = ms_to_timespec v\<rparr> (t * 1000000) =
     (if v = 0 \<or> t < unat v then 0 else 1)"
proof -
  have d: "(t * 1000000 - unat v * 1000000) div (unat i * 1000000) = (t - unat v) div unat i"
    by (metis diff_mult_distrib div_mult_mult2 zero_neq_numeral)
  show "expirations \<lparr>it_interval = ms_to_timespec i, it_value = ms_to_timespec v\<rparr> (t * 1000000) =
     (if v = 0 \<or> t < unat v then 0 else if i = 0 then 1 else 1 + (t - unat v) div unat i)"
    by (simp add: expirations_def ms_to_timespec_ns Let_def d unat_eq_zero)
  show "expirations \<lparr>it_interval = zero_time, it_value = ms_to_timespec v\<rparr> (t * 1000000) =
     (if v = 0 \<or> t < unat v then 0 else 1)"
    by (simp add: expirations_def ms_to_timespec_ns Let_def unat_eq_zero)
qed

subsection \<open>A timer is armed and registered\<close>

lemma make_timer_spec:
  assumes os: "epoll_contract os interest" and tos: "timer_contract os tos interest armed"
    and reg: "registered interest w" and valid: "valid_spec sp"
    and create: "timerfd_create tos (kern (env w)) = (Inr f, k)"
  obtains w' ev where "make_timer os tos ep sp cb w = Inr (f, next_ev w, w')" "registered interest w'"
    "armed f (kern (env w')) = sp" "next_handler w' = next_handler w"
    "evs w' (next_ev w) = Some ev" "isReadable ev" "readCallback ev = Some (Cb_timer (next_cb w))"
    "ev_fd ev = f" "epoller ev = ep" "timer_cbs w' (next_cb w) = Some (cb f (next_ev w))"
proof -
  note T = timer_contractD [OF tos]
  define w1 where "w1 = set_time tos f sp (w\<lparr>env := (env w)\<lparr>kern := k\<rparr>\<rparr>)"
  obtain k1 where k1: "timerfd_settime tos f sp k = (None, k1)" "armed f k1 = sp"
    using T(3) [OF _ valid] by (metis prod.exhaust_sel)
  have w1: "w1 = w\<lparr>env := (env w)\<lparr>kern := k1\<rparr>\<rparr>"
    using k1(1) by (simp add: w1_def set_time_def logged_def)
  have i: "interest e k1 = interest e (kern (env w))" for e
    using T(1) [OF create] T(2) [OF k1(1)] by metis
  have reg1: "registered interest w1"
    by (rule registered_cong [OF reg]) (simp_all add: w1 i)
  have fresh: "interest e (kern (env w1)) f = None" for e
    using T(1) [OF create, of e] i [of e] by (simp add: w1)
  define w2 where "w2 e = w1\<lparr>evs := (evs w1)(next_ev w1 \<mapsto> new_event f ep), next_ev := Suc (next_ev w1), env := e\<rparr>" for e
  obtain e2 where e2: "make_event os f ep w1 = Inr (next_ev w1, w2 e2)" "registered interest (w2 e2)"
    "e2 = logged ''in addEvent, epoll_ctl error'' (sys_epoll_ctl os ep CtlAdd f (0, next_ev w1)) (env w1)"
    using make_event_registered [OF os reg1 fresh] unfolding w2_def by metis
  let ?p = "next_ev w" and ?n = "next_cb w" and ?h = "next_handler w"
  define ev where "ev = (new_event f ep)\<lparr>readCallback := Some (Cb_timer ?n)\<rparr>"
  define w4 where "w4 = (w2 e2)\<lparr>timer_cbs := (timer_cbs w)(?n \<mapsto> cb f ?p), next_cb := Suc ?n,
    evs := (evs w)(?p \<mapsto> ev)\<rparr>"
  have cb: "setReadCallback ?p (Cb_timer ?n) ((w2 e2)\<lparr>timer_cbs := (timer_cbs w)(?n \<mapsto> cb f ?p), next_cb := Suc ?n\<rparr>)
      = Inr w4"
    by (simp add: setReadCallback_def w4_def w2_def w1 ev_def)
  have reg4: "registered interest w4"
    by (rule registered_cong [OF e2(2)]) (simp_all add: w4_def w2_def w1 ev_def)
  have ev4: "evs w4 ?p = Some ev" by (simp add: w4_def)
  let ?fl = "EPOLLIN OR EPOLLPRI"
  obtain e5 where e5: "set_mask os ?fl ?p True w4 = Inr (w4\<lparr>evs := (evs w4)(?p \<mapsto> set_flag ?fl True ev), env := e5\<rparr>)"
    "registered interest (w4\<lparr>evs := (evs w4)(?p \<mapsto> set_flag ?fl True ev), env := e5\<rparr>)"
    "e5 = logged ''in updateEvent, epoll_ctl error. {}''
         (sys_epoll_ctl os (epoller ev) CtlMod (ev_fd ev) (events (set_flag ?fl True ev), ?p)) (env w4)"
    using set_mask_registered [OF os reg4 ev4] by metis
  define w5 where "w5 = w4\<lparr>evs := (evs w4)(?p \<mapsto> set_flag ?fl True ev), env := e5\<rparr>"
  have make: "make_event os f ep w1 = Inr (?p, w2 e2)" using e2(1) by (simp add: w1)
  have cbs: "timer_cbs (w2 e2) = timer_cbs w" "next_cb (w2 e2) = ?n" by (simp_all add: w2_def w1)
  have "make_timer os tos ep sp cb w = Inr (f, ?p, w5)"
    unfolding make_timer_def create Let_def prod.case sum.case w1_def [symmetric] make res_bind_simps cbs cb
      setReadable_def e5(1) w5_def [symmetric] ..
  moreover have "registered interest w5"
    by (rule registered_cong [OF e5(2)]) (simp_all add: w5_def)
  moreover have "armed f (kern (env w5)) = sp"
  proof -
    have c: "armed f (kern (logged msg (sys_epoll_ctl os a op b m) e)) = armed f (kern e)" for msg a op b m e
      using T(4) by (metis logged_cases)
    show ?thesis using k1(2) by (simp add: w5_def e5(3) c w4_def w2_def e2(3) w1)
  qed
  moreover have "isReadable (set_flag ?fl True ev)" by (simp only: isReadable_set_flag)
  moreover have "evs w5 ?p = Some (set_flag ?fl True ev)" "timer_cbs w5 ?n = Some (cb f ?p)"
    "next_handler w5 = next_handler w"
    by (simp_all add: w5_def w4_def w2_def w1)
  ultimately show ?thesis
    using that [of w5 "set_flag ?fl True ev"] by (simp add: ev_def) (simp add: new_event_def)
qed

lemma add_timer_spec:
  assumes "epoll_contract os interest" and "timer_contract os tos interest armed"
    and "registered interest w" and "valid_spec sp"
    and "timerfd_create tos (kern (env w)) = (Inr f, k)"
  obtains w' ev where "add_timer os tos ep sp cb w = Inr (next_handler w, w')" "registered interest w'"
    "armed f (kern (env w')) = sp" "handlers w' (next_handler w) = Some \<lparr>h_timerfd = f, h_event = next_ev w\<rparr>"
    "evs w' (next_ev w) = Some ev" "isReadable ev" "readCallback ev = Some (Cb_timer (next_cb w))"
    "ev_fd ev = f" "epoller ev = ep" "timer_cbs w' (next_cb w) = Some (cb f (next_ev w))"
proof -
  obtain w1 ev where w1: "make_timer os tos ep sp cb w = Inr (f, next_ev w, w1)" "registered interest w1"
    "armed f (kern (env w1)) = sp" "next_handler w1 = next_handler w"
    "evs w1 (next_ev w) = Some ev" "isReadable ev" "readCallback ev = Some (Cb_timer (next_cb w))"
    "ev_fd ev = f" "epoller ev = ep" "timer_cbs w1 (next_cb w) = Some (cb f (next_ev w))"
    using make_timer_spec [OF assms, where cb = cb] by metis
  define w' where "w' = queue_add (next_handler w) \<lparr>h_timerfd = f, h_event = next_ev w\<rparr>
    (w1\<lparr>handlers := (handlers w1)(next_handler w \<mapsto> \<lparr>h_timerfd = f, h_event = next_ev w\<rparr>),
        next_handler := Suc (next_handler w)\<rparr>)"
  have "registered interest w'"
    by (rule registered_cong [OF w1(2)]) (simp_all add: w'_def queue_add_def)
  then show ?thesis
    using w1 by (intro that [of w' ev]) (simp_all add: add_timer_def w'_def queue_add_def Let_def)
qed

subsection \<open>A kernel with timers, for the witnesses\<close>

type_synonym timer_sim = "sim \<times> (fd \<Rightarrow> itimerspec)"

definition fresh_fd :: "sim \<Rightarrow> fd" where
  "fresh_fd k = 1 + sum_list (map (\<lambda>r. abs (snd (fst r))) (sim_reg k))"

definition lift_call :: "('a \<Rightarrow> sim \<Rightarrow> 'b \<times> sim) \<Rightarrow> 'a \<Rightarrow> timer_sim \<Rightarrow> 'b \<times> timer_sim" where
  "lift_call call a k = (case call a (fst k) of (b, k1) \<Rightarrow> (b, (k1, snd k)))"

definition timer_sim_os :: "timer_sim os" where
  "timer_sim_os = \<lparr>sys_read = (\<lambda>f n k. lift_call (\<lambda>_. sim_read f n) () k),
     sys_write = (\<lambda>f bs k. lift_call (\<lambda>_. sim_write f bs) () k),
     sys_close = (\<lambda>f k. (sim_close f (fst k), snd k)), sys_accept = lift_call sim_accept,
     sys_getfl = (\<lambda>f k. (Inr 2, k)), sys_setfl = (\<lambda>f fl k. (None, k)),
     sys_epoll_ctl = (\<lambda>ep op f m k. lift_call (\<lambda>_. sim_epoll_ctl ep op f m) () k)\<rparr>"

definition timer_sim_tos :: "timer_sim timer_os" where
  "timer_sim_tos = \<lparr>timerfd_create = (\<lambda>k. (Inr (fresh_fd (fst k)), k)),
     timerfd_settime = (\<lambda>f sp k. (None, (fst k, (snd k)(f := sp))))\<rparr>"

definition timer_sim_interest :: "fd \<Rightarrow> timer_sim \<Rightarrow> (fd \<rightharpoonup> epoll_event)" where
  "timer_sim_interest ep k = sim_interest ep (fst k)"

lemma fresh_fd_free: "sim_interest ep k (fresh_fd k) = None"
proof -
  have le: "abs (snd (fst r)) \<le> sum_list (map (\<lambda>r. abs (snd (fst r))) rs)" if "r \<in> set rs"
    for r and rs :: "((fd \<times> fd) \<times> epoll_event) list"
    using that
  proof (induction rs)
    case (Cons a rs)
    have "0 \<le> sum_list (map (\<lambda>r. abs (snd (fst r))) rs)" by (rule sum_list_nonneg) auto
    then show ?case using Cons by auto
  qed simp
  have "(ep, fresh_fd k) \<noteq> fst r" if "r \<in> set (sim_reg k)" for r
    using le [OF that] by (cases r) (auto simp: fresh_fd_def)
  then show ?thesis by (auto simp: sim_interest_def map_of_eq_None_iff)
qed

lemma timer_sim_contracts:
  "epoll_contract timer_sim_os timer_sim_interest"
  "timer_contract timer_sim_os timer_sim_tos timer_sim_interest (\<lambda>f k. snd k f)"
proof -
  show "epoll_contract timer_sim_os timer_sim_interest"
    using sim_epoll_contract
    by (auto simp: epoll_contract_def timer_sim_os_def timer_sim_interest_def lift_call_def split: prod.splits)
  show "timer_contract timer_sim_os timer_sim_tos timer_sim_interest (\<lambda>f k. snd k f)"
    by (auto simp: timer_contract_def timer_sim_os_def timer_sim_tos_def timer_sim_interest_def
        lift_call_def fresh_fd_free split: prod.splits)
qed

definition empty_timers :: "timer_sim tworld" where
  "empty_timers = \<lparr>env = \<lparr>kern = (sim_init, \<lambda>_. \<lparr>it_interval = zero_time, it_value = zero_time\<rparr>), logs = []\<rparr>,
     evs = Map.empty, next_ev = 0, timer_cbs = Map.empty, next_cb = 0, handlers = Map.empty,
     next_handler = 0, timer_queue = Map.empty\<rparr>"

lemma empty_timers_registered: "registered timer_sim_interest empty_timers"
  by (simp add: registered_def empty_timers_def timer_sim_interest_def sim_interest_def sim_init_def)

lemma empty_timers_create:
  "timerfd_create timer_sim_tos (kern (env empty_timers)) =
     (Inr 1, (sim_init, \<lambda>_. \<lparr>it_interval = zero_time, it_value = zero_time\<rparr>))"
  by (simp add: timer_sim_tos_def empty_timers_def fresh_fd_def sim_init_def)

subsection \<open>Properties\<close>

text \<open>
  C32: a periodic task runs for the first time after the first time given (one millisecond when that is
  zero) and from then on once per interval: after \<open>t\<close> milliseconds the descriptor made for it, on
  which the loop listens with the task's callback, has expired exactly that often.  No value of the
  32-bit arguments overflows or gives a time the kernel refuses.
\<close>

theorem timed_task_schedule:
  assumes "epoll_contract os interest" and "timer_contract os tos interest armed"
    and "registered interest w" and "timerfd_create tos (kern (env w)) = (Inr f, k)"
  shows "\<exists>h w' ev n. addTimedTask os tos ep firstTime intervalTime task w = Inr (h, w') \<and>
    registered interest w' \<and> evs w' (next_ev w) = Some ev \<and> ev_fd ev = f \<and> epoller ev = ep \<and> isReadable ev \<and>
    readCallback ev = Some (Cb_timer n) \<and> timer_cbs w' n = Some (Periodic f task) \<and>
    expirations (armed f (kern (env w'))) (t * 1000000) =
      (let first = max 1 (unat firstTime) in
       if t < first then 0 else if intervalTime = 0 then 1 else 1 + (t - first) div unat intervalTime)"
proof -
  define v where "v = (if firstTime = 0 then 1 else firstTime)"
  let ?sp = "\<lparr>it_interval = ms_to_timespec intervalTime, it_value = ms_to_timespec v\<rparr>"
  have valid: "valid_spec ?sp" by (simp add: valid_spec_def ms_to_timespec_ns)
  have v: "v \<noteq> 0" "unat v = max 1 (unat firstTime)"
    by (auto simp: v_def max_def unat_eq_zero [symmetric])
  obtain w' ev where "add_timer os tos ep ?sp (\<lambda>f p. Periodic f task) w = Inr (next_handler w, w')"
    "registered interest w'" "armed f (kern (env w')) = ?sp" "evs w' (next_ev w) = Some ev" "isReadable ev"
    "readCallback ev = Some (Cb_timer (next_cb w))" "ev_fd ev = f" "epoller ev = ep"
    "timer_cbs w' (next_cb w) = Some (Periodic f task)"
    using add_timer_spec [OF assms(1-3) valid assms(4), where cb = "\<lambda>f p. Periodic f task"] by metis
  then show ?thesis
    using v expirations_ms(1) [of intervalTime v t] by (auto simp: addTimedTask_def v_def [symmetric] Let_def)
qed

theorem timed_task_schedule_witness:
  "\<exists>h w'. addTimedTask timer_sim_os timer_sim_tos 3 0 1000 7 empty_timers = Inr (h, w') \<and>
     expirations (snd (kern (env w')) 1) (2500 * 1000000) = 3"
proof -
  obtain h w' where "addTimedTask timer_sim_os timer_sim_tos 3 0 1000 7 empty_timers = Inr (h, w')"
    "expirations (snd (kern (env w')) 1) (2500 * 1000000) =
      (let first = max 1 (unat (0 :: u32)) in
       if 2500 < first then 0 else if (1000 :: u32) = 0 then 1 else 1 + (2500 - first) div unat (1000 :: u32))"
    using timed_task_schedule [OF timer_sim_contracts empty_timers_registered empty_timers_create, of 3 0 1000 7 2500]
    by blast
  then show ?thesis by (simp add: Let_def)
qed

text \<open>
  A one-time task runs once, after the time given; with a time of zero, unlike a periodic task, it
  never runs, since a zero disarms the descriptor.
\<close>

theorem one_task_schedule:
  assumes "epoll_contract os interest" and "timer_contract os tos interest armed"
    and "registered interest w" and "timerfd_create tos (kern (env w)) = (Inr f, k)"
  shows "\<exists>h w'. addOneTask os tos ep occurTime task w = Inr (h, w') \<and>
    expirations (armed f (kern (env w'))) (t * 1000000) = (if occurTime = 0 \<or> t < unat occurTime then 0 else 1)"
proof -
  let ?sp = "\<lparr>it_interval = zero_time, it_value = ms_to_timespec occurTime\<rparr>"
  have valid: "valid_spec ?sp" by (simp add: valid_spec_def ms_to_timespec_ns)
  obtain w' where "add_timer os tos ep ?sp (\<lambda>f p. One_shot f task p ep) w = Inr (next_handler w, w')"
    "armed f (kern (env w')) = ?sp"
    using add_timer_spec [OF assms(1-3) valid assms(4), where cb = "\<lambda>f p. One_shot f task p ep"] by metis
  then show ?thesis using expirations_ms(2) by (auto simp: addOneTask_def)
qed

theorem one_task_schedule_witness:
  "\<exists>h w'. addOneTask timer_sim_os timer_sim_tos 3 0 7 empty_timers = Inr (h, w') \<and>
     expirations (snd (kern (env w')) 1) (1000000 * 1000000) = 0"
  using one_task_schedule [OF timer_sim_contracts empty_timers_registered empty_timers_create, of 3 0 7 1000000]
  by simp

text \<open>
  The functions of \<open>TcpClient\<close> and \<open>FreeServerClient\<close> do not treat zero: a task with first time zero
  never runs, whatever its interval.  The timer that checks a \<open>TcpServer\<close> for idle connections expires
  once a second, that of a \<open>FreeServerClient\<close> is never armed, so there idle connections are never closed.
\<close>

theorem zero_first_time:
  assumes "epoll_contract os interest" and "timer_contract os tos interest armed"
    and "registered interest w" and "timerfd_create tos (kern (env w)) = (Inr f, k)"
  shows "(\<exists>w'. client_addTimedTask os tos ep nextOccurTime intervalTime task w = Inr w' \<and>
      (nextOccurTime = 0 \<longrightarrow> expirations (armed f (kern (env w'))) t = 0)) \<and>
    expirations server_idle_spec (s * 1000000000) = s \<and> expirations free_idle_spec t = 0"
proof -
  let ?sp = "\<lparr>it_interval = ms_to_timespec intervalTime, it_value = ms_to_timespec nextOccurTime\<rparr>"
  have valid: "valid_spec ?sp" by (simp add: valid_spec_def ms_to_timespec_ns)
  obtain w' where w': "make_timer os tos ep ?sp (\<lambda>f p. Periodic f task) w = Inr (f, next_ev w, w')"
    "armed f (kern (env w')) = ?sp"
    using make_timer_spec [OF assms(1-3) valid assms(4), where cb = "\<lambda>f p. Periodic f task"] by metis
  have "(s * 1000000000 - 1000000000) div 1000000000 = s - 1"
    by (metis diff_mult_distrib nat_mult_1 nonzero_mult_div_cancel_right zero_neq_numeral)
  then have "expirations server_idle_spec (s * 1000000000) = s"
    by (simp add: expirations_def server_idle_spec_def nanoseconds_def Let_def REAL_SECONDS_PER_VIRTUAL_SECOND_def)
  then show ?thesis
    using w' ms_to_timespec_ns(1) [of 0]
    by (auto simp: client_addTimedTask_def expirations_def free_idle_spec_def nanoseconds_def Let_def)
qed

theorem zero_first_time_witness:
  "\<exists>w'. client_addTimedTask timer_sim_os timer_sim_tos 3 0 1000 7 empty_timers = Inr w' \<and>
     expirations (snd (kern (env w')) 1) 99000000000 = 0"
  using zero_first_time [OF timer_sim_contracts empty_timers_registered empty_timers_create, of 3 0 1000 7 99000000000]
  by auto

lemma cancel_spec:
  assumes "frame_contract os inq outq interest"
    and "handlers w h = Some x" and "h_timerfd x \<noteq> 0" and "evs w (h_event x) = Some ev"
  shows "\<exists>w'. cancelTimer os tos h w = Inr (w', Some Bad_weak_ptr) \<and> timer_queue w' = timer_queue w \<and>
    interest ep (kern (env w')) (h_timerfd x) = None \<and> handlers w' = (handlers w)(h \<mapsto> x\<lparr>h_timerfd := 0\<rparr>)"
proof -
  define w1 where "w1 = set_time tos (h_timerfd x) \<lparr>it_interval = zero_time, it_value = zero_time\<rparr> w"
  have ev: "evs w1 (h_event x) = Some ev" and q: "timer_queue w1 = timer_queue w" "handlers w1 = handlers w"
    using assms(4) by (simp_all add: w1_def set_time_def)
  obtain e where r: "remove_event os (epoller ev) (h_event x) w1 = Inr (w1\<lparr>env := e\<rparr>)"
    using ev by (simp add: remove_event_def)
  define w' where "w' = w1\<lparr>env := e\<lparr>kern := sys_close os (h_timerfd x) (kern e)\<rparr>,
    handlers := (handlers w)(h \<mapsto> x\<lparr>h_timerfd := 0\<rparr>)\<rparr>"
  have "cancelTimer os tos h w = Inr (w', Some Bad_weak_ptr)"
    using assms(2,3) ev r q by (simp add: cancelTimer_def w1_def [symmetric] w'_def)
  moreover have "interest ep (kern (env w')) (h_timerfd x) = None"
    using frame_contractD(8) [OF assms(1)] by (simp add: w'_def)
  ultimately show ?thesis using q by (auto simp: w'_def)
qed

text \<open>
  Cancelling a timer closes its descriptor, so that no epoller listens on it any more, but always
  throws; its entry stays in the map under the old descriptor.  So destroying the map while it holds a
  handler not cancelled before ends the program.
\<close>

theorem cancel_throws:
  assumes "frame_contract os inq outq interest"
    and "handlers w h = Some x" and "h_timerfd x \<noteq> 0" and "evs w (h_event x) = Some ev"
  shows "\<exists>w'. cancelTimer os tos h w = Inr (w', Some Bad_weak_ptr) \<and> timer_queue w' = timer_queue w \<and>
    interest ep (kern (env w')) (h_timerfd x) = None \<and> cancelTimer os tos h w' = Inr (w', None) \<and>
    destroy_timers os tos (h # hs) w = Inl Bad_weak_ptr"
proof -
  obtain w' where c: "cancelTimer os tos h w = Inr (w', Some Bad_weak_ptr)" "timer_queue w' = timer_queue w"
    "interest ep (kern (env w')) (h_timerfd x) = None" "handlers w' = (handlers w)(h \<mapsto> x\<lparr>h_timerfd := 0\<rparr>)"
    using cancel_spec [OF assms, of tos ep] by blast
  moreover have "cancelTimer os tos h w' = Inr (w', None)" by (simp add: cancelTimer_def c(4))
  moreover have "destroy_timers os tos (h # hs) w = Inl Bad_weak_ptr" by (simp add: c(1))
  ultimately show ?thesis by blast
qed

definition one_timer :: "timer_sim tworld" where
  "one_timer = empty_timers\<lparr>evs := [0 \<mapsto> new_event 1 3], next_ev := 1,
     handlers := [0 \<mapsto> \<lparr>h_timerfd = 1, h_event = 0\<rparr>], next_handler := 1, timer_queue := [1 \<mapsto> 0]\<rparr>"

lemma timer_sim_frame:
  "frame_contract timer_sim_os (\<lambda>f k. sim_inq f (fst k)) (\<lambda>f k. sim_outq f (fst k)) timer_sim_interest"
  using sim_frame_contract
  by (auto simp: frame_contract_def timer_sim_os_def timer_sim_interest_def lift_call_def split: prod.splits)
    metis

theorem cancel_throws_witness:
  "\<exists>w'. cancelTimer timer_sim_os timer_sim_tos 0 one_timer = Inr (w', Some Bad_weak_ptr) \<and>
     timer_queue w' = [1 \<mapsto> 0] \<and> destroy_timers timer_sim_os timer_sim_tos [0] one_timer = Inl Bad_weak_ptr"
proof -
  have h: "handlers one_timer 0 = Some \<lparr>h_timerfd = 1, h_event = 0\<rparr>" "timer_queue one_timer = [1 \<mapsto> 0]"
    "evs one_timer 0 = Some (new_event 1 3)" by (simp_all add: one_timer_def)
  show ?thesis using cancel_throws [OF timer_sim_frame h(1), where tos = timer_sim_tos and hs = "[]"] h(2,3) by auto
qed

text \<open>
  \<open>TcpServer::cancelTimer\<close> takes the handler by value: it cancels a copy, which is gone afterwards, and the exception
  passes through it.
\<close>

definition server_cancelTimer :: "'k os \<Rightarrow> 'k timer_os \<Rightarrow> nat \<Rightarrow> 'k tworld \<Rightarrow> ('k tworld \<times> cpp_err option) res" where
  "server_cancelTimer os tos h w =
     res_bind (deref (handlers w) h) (\<lambda>x.
       let c = next_handler w; w1 = w\<lparr>handlers := (handlers w)(c \<mapsto> x), next_handler := Suc c\<rparr> in
       res_bind (cancelTimer os tos c w1) (\<lambda>(w2, thrown).
         Inr (w2\<lparr>handlers := (handlers w2)(c := None)\<rparr>, thrown)))"

text \<open>
  The descriptor is closed, but the handler of the user still has its number.  Whatever has got that descriptor since
  loses it: cancelling again, as the destructor of the timer does, closes it once more.
\<close>

theorem server_cancel_twice:
  assumes "frame_contract os inq outq interest"
    and "handlers w h = Some x" and "h_timerfd x \<noteq> 0" and "evs w (h_event x) = Some ev" and "h < next_handler w"
  shows "\<exists>w'. server_cancelTimer os tos h w = Inr (w', Some Bad_weak_ptr) \<and> handlers w' = (handlers w)(next_handler w := None) \<and>
    interest ep (kern (env w')) (h_timerfd x) = None \<and>
    (\<forall>w2. handlers w2 h = Some x \<longrightarrow> evs w2 (h_event x) = Some ev \<longrightarrow>
      (\<exists>w3. cancelTimer os tos h w2 = Inr (w3, Some Bad_weak_ptr) \<and> interest ep (kern (env w3)) (h_timerfd x) = None))"
proof -
  let ?c = "next_handler w"
  define w1 where "w1 = w\<lparr>handlers := (handlers w)(?c \<mapsto> x), next_handler := Suc ?c\<rparr>"
  have w1: "handlers w1 ?c = Some x" "evs w1 (h_event x) = Some ev" using assms(4) by (simp_all add: w1_def)
  obtain w2 where w2: "cancelTimer os tos ?c w1 = Inr (w2, Some Bad_weak_ptr)" "interest ep (kern (env w2)) (h_timerfd x) = None"
    "handlers w2 = (handlers w1)(?c \<mapsto> x\<lparr>h_timerfd := 0\<rparr>)"
    using cancel_spec [OF assms(1) w1(1) assms(3) w1(2), of tos ep] by blast
  define w' where "w' = w2\<lparr>handlers := (handlers w2)(?c := None)\<rparr>"
  have "server_cancelTimer os tos h w = Inr (w', Some Bad_weak_ptr)"
    using assms(2) w2(1) by (simp add: server_cancelTimer_def Let_def w1_def [symmetric] w'_def)
  moreover have "handlers w' = (handlers w)(?c := None)" by (simp add: w'_def w2(3) w1_def)
  moreover have "interest ep (kern (env w')) (h_timerfd x) = None" using w2(2) by (simp add: w'_def)
  ultimately show ?thesis
    using cancel_spec [OF assms(1) _ assms(3), where tos = tos and h = h and ep = ep] by blast
qed

theorem server_cancel_twice_witness:
  "\<exists>w'. server_cancelTimer timer_sim_os timer_sim_tos 0 one_timer = Inr (w', Some Bad_weak_ptr) \<and>
     handlers w' 0 = Some \<lparr>h_timerfd = 1, h_event = 0\<rparr>"
proof -
  have h: "handlers one_timer 0 = Some \<lparr>h_timerfd = 1, h_event = 0\<rparr>" "evs one_timer 0 = Some (new_event 1 3)"
    "0 < next_handler one_timer" by (simp_all add: one_timer_def)
  have ev: "evs one_timer (h_event \<lparr>h_timerfd = 1, h_event = 0\<rparr>) = Some (new_event 1 3)" using h(2) by simp
  obtain w' where "server_cancelTimer timer_sim_os timer_sim_tos 0 one_timer = Inr (w', Some Bad_weak_ptr)"
    "handlers w' = (handlers one_timer)(next_handler one_timer := None)"
    using server_cancel_twice [OF timer_sim_frame h(1) _ ev h(3), where tos = timer_sim_tos] by auto
  then show ?thesis by (auto simp: one_timer_def)
qed

end
