(* ===== verification/FreeTimers.thy ===== *)
theory FreeTimers imports FreeServerClient Timer begin

section \<open>FreeServerClient.h: its timers\<close>

text \<open>
  A \<open>FreeServerClient\<close> makes its timers itself, not through a \<open>Timer\<close>: the timed tasks of the user, each on the loop the
  pool chooses next, and, in a build with \<open>IDLE_CONNECTIONS_MANAGER\<close>, the tick of the wheel on the main loop.
\<close>

text \<open>The order of the code is: the descriptor, its times, then the loop; the choice of the loop depends on neither.\<close>

definition free_addTimedTask ::
  "'k os \<Rightarrow> 'k timer_os \<Rightarrow> (loop_id \<Rightarrow> fd) \<Rightarrow> pool \<Rightarrow> u32 \<Rightarrow> u32 \<Rightarrow> nat \<Rightarrow> 'k tworld \<Rightarrow> (pool \<times> 'k tworld) res" where
  "free_addTimedTask os tos ep_of p nextOccurTime intervalTime task w =
     res_bind (getNextPool p) (\<lambda>(l, p').
       res_bind (make_timer os tos (ep_of l)
           \<lparr>it_interval = ms_to_timespec intervalTime, it_value = ms_to_timespec nextOccurTime\<rparr> (\<lambda>f q. Periodic f task) w)
         (\<lambda>(f, q, w1). Inr (p', w1)))"

text \<open>What the calls return is not looked at.  \<open>tick\<close> is the number of the task that turns the wheel.\<close>

definition free_createIdleConnTimer ::
  "'k os \<Rightarrow> 'k timer_os \<Rightarrow> fd \<Rightarrow> nat \<Rightarrow> 'k tworld \<Rightarrow> 'k tworld res" where
  "free_createIdleConnTimer os tos ep tick w =
     (let (r, k) = timerfd_create tos (kern (env w));
          f = (case r of Inl _ \<Rightarrow> - 1 | Inr g \<Rightarrow> g);
          w1 = w\<lparr>env := (env w)\<lparr>kern := snd (timerfd_settime tos f free_idle_spec k)\<rparr>\<rparr> in
      res_bind (make_event os f ep w1) (\<lambda>(p, w2).
        let n = next_cb w2; w3 = w2\<lparr>timer_cbs := (timer_cbs w2)(n \<mapsto> Periodic f tick), next_cb := Suc n\<rparr> in
        res_bind (setReadCallback p (Cb_timer n) w3) (setReadable os p True)))"

text \<open>It is the common sequence when the kernel takes the times.\<close>

lemma free_createIdleConnTimer_eq:
  assumes "timerfd_create tos (kern (env w)) = (Inr f, k)" and "timerfd_settime tos f free_idle_spec k = (None, k1)"
  shows "free_createIdleConnTimer os tos ep tick w =
    res_bind (make_timer os tos ep free_idle_spec (\<lambda>f q. Periodic f tick) w) (\<lambda>(f, q, w1). Inr w1)"
  using assms
  by (auto simp: free_createIdleConnTimer_def make_timer_def set_time_def logged_def Let_def res_bind_def split: sum.splits prod.splits)

lemma ms_spec_valid: "valid_spec \<lparr>it_interval = ms_to_timespec i, it_value = ms_to_timespec v\<rparr>"
  by (simp add: valid_spec_def ms_to_timespec_ns)

lemma free_idle_spec_never: "valid_spec free_idle_spec" "expirations free_idle_spec t = 0"
  by (simp_all add: valid_spec_def free_idle_spec_def expirations_def nanoseconds_def Let_def)

text \<open>
  The timers of a \<open>FreeServerClient\<close>.  A timed task is registered with the loop whose turn it is, with the times
  asked for, which are milliseconds in 32 bits; the first time is taken as it is, so with a first time of zero the task
  never runs.  The timer for idle connections is registered as well, but it never expires: no idle connection is ever
  closed.
\<close>

theorem free_timers:
  assumes "epoll_contract os interest" and "timer_contract os tos interest armed"
    and "registered interest w" and "timerfd_create tos (kern (env w)) = (Inr f, k)" and "getNextPool p = Inr (l, p')"
  shows "\<exists>w1 ev1 w2 ev2.
    free_addTimedTask os tos ep_of p nextOccurTime intervalTime task w = Inr (p', w1) \<and> registered interest w1 \<and>
    evs w1 (next_ev w) = Some ev1 \<and> epoller ev1 = ep_of l \<and> isReadable ev1 \<and> readCallback ev1 = Some (Cb_timer (next_cb w)) \<and>
    timer_cbs w1 (next_cb w) = Some (Periodic f task) \<and>
    expirations (armed f (kern (env w1))) (t * 1000000) =
      (if nextOccurTime = 0 \<or> t < unat nextOccurTime then 0 else if intervalTime = 0 then 1
       else 1 + (t - unat nextOccurTime) div unat intervalTime) \<and>
    free_createIdleConnTimer os tos (ep_of (single_loop p)) tick w = Inr w2 \<and> registered interest w2 \<and>
    evs w2 (next_ev w) = Some ev2 \<and> epoller ev2 = ep_of (single_loop p) \<and> isReadable ev2 \<and>
    timer_cbs w2 (next_cb w) = Some (Periodic f tick) \<and> expirations (armed f (kern (env w2))) t = 0"
proof -
  obtain w1 ev1 where 1: "make_timer os tos (ep_of l)
      \<lparr>it_interval = ms_to_timespec intervalTime, it_value = ms_to_timespec nextOccurTime\<rparr> (\<lambda>f q. Periodic f task) w =
      Inr (f, next_ev w, w1)" "registered interest w1"
    "armed f (kern (env w1)) = \<lparr>it_interval = ms_to_timespec intervalTime, it_value = ms_to_timespec nextOccurTime\<rparr>"
    "evs w1 (next_ev w) = Some ev1" "isReadable ev1" "readCallback ev1 = Some (Cb_timer (next_cb w))" "epoller ev1 = ep_of l"
    "timer_cbs w1 (next_cb w) = Some (Periodic f task)"
    by (rule make_timer_spec [OF assms(1-3) ms_spec_valid assms(4), where ep = "ep_of l" and cb = "\<lambda>f q. Periodic f task"])
      (rule that, assumption+)
  obtain w2 ev2 where 2: "make_timer os tos (ep_of (single_loop p)) free_idle_spec (\<lambda>f q. Periodic f tick) w = Inr (f, next_ev w, w2)"
    "registered interest w2" "armed f (kern (env w2)) = free_idle_spec"
    "evs w2 (next_ev w) = Some ev2" "isReadable ev2" "epoller ev2 = ep_of (single_loop p)"
    "timer_cbs w2 (next_cb w) = Some (Periodic f tick)"
    by (rule make_timer_spec [OF assms(1-3) free_idle_spec_never(1) assms(4), where ep = "ep_of (single_loop p)" and cb = "\<lambda>f q. Periodic f tick"])
      (rule that, assumption+)
  obtain k1 where k1: "timerfd_settime tos f free_idle_spec k = (None, k1)"
    using timer_contractD(3) [OF assms(2) _ free_idle_spec_never(1)] by (metis prod.exhaust_sel)
  have "free_addTimedTask os tos ep_of p nextOccurTime intervalTime task w = Inr (p', w1)"
    using assms(5) 1(1) by (simp add: free_addTimedTask_def)
  moreover have "free_createIdleConnTimer os tos (ep_of (single_loop p)) tick w = Inr w2"
    using free_createIdleConnTimer_eq [OF assms(4) k1] 2(1) by simp
  ultimately show ?thesis
    using 1(2,4-8) 2(2,4-7) expirations_ms(1) [of intervalTime nextOccurTime t] free_idle_spec_never(2) 1(3) 2(3)
    by (intro exI [of _ w1] exI [of _ ev1] exI [of _ w2] exI [of _ ev2]) simp
qed

text \<open>A task every second, the first time at once, in a pool of one loop.\<close>

theorem free_timers_witness:
  "\<exists>w1. free_addTimedTask timer_sim_os timer_sim_tos (\<lambda>_. 3) (new_pool 1 []) 0 1000 7 empty_timers = Inr (new_pool 1 [], w1) \<and>
     expirations (snd (kern (env w1)) 1) 99000000 = 0"
proof -
  have "getNextPool (new_pool 1 []) = Inr (1, new_pool 1 [])" by (simp add: getNextPool_def new_pool_def)
  from free_timers [OF timer_sim_contracts empty_timers_registered empty_timers_create this,
      where ep_of = "\<lambda>_. 3" and nextOccurTime = 0 and intervalTime = 1000 and task = 7 and t = 99 and tick = 0]
  show ?thesis by auto
qed

end
