(* ===== verification/SocketOwner.thy ===== *)
theory SocketOwner imports Socket Event begin

section \<open>Socket.h: who owns a descriptor\<close>

text \<open>
  Socket objects: made by \<open>makeNewSocket\<close> or, for a descriptor \<open>accept\<close> has returned, by \<open>makeConnected\<close>; moved, which
  leaves 0 behind; destroyed, which closes the descriptor unless it is 0; closed by \<open>resetClose\<close>.  Objects have
  addresses; \<open>acquired\<close> (ghost) are the descriptors given to new objects.  What has been closed is for the kernel to say:
  \<open>closed f\<close> counts the calls \<open>close(f)\<close> it has seen.
\<close>

record 'k sockets =
  socks :: "nat \<rightharpoonup> fd"
  next_sock :: nat
  sock_env :: "'k env"
  acquired :: "fd list"

definition no_sockets :: "'k env \<Rightarrow> 'k sockets" where
  "no_sockets e = \<lparr>socks = Map.empty, next_sock = 0, sock_env = e, acquired = []\<rparr>"

definition makeConnected :: "fd \<Rightarrow> 'k sockets \<Rightarrow> nat \<times> 'k sockets" where
  "makeConnected f s = (next_sock s, s\<lparr>socks := (socks s)(next_sock s \<mapsto> f), next_sock := Suc (next_sock s),
     acquired := acquired s @ [f]\<rparr>)"

definition new_socket :: "'k sock_os \<Rightarrow> 'k sockets \<Rightarrow> nat \<times> 'k sockets" where
  "new_socket sos s = (let (f, e) = makeNewSocket sos (sock_env s) in makeConnected f (s\<lparr>sock_env := e\<rparr>))"

text \<open>The move constructor: a new object takes the descriptor of \<open>a\<close>.\<close>

definition move_socket :: "nat \<Rightarrow> 'k sockets \<Rightarrow> (nat \<times> 'k sockets) res" where
  "move_socket a s =
     res_bind (deref (socks s) a) (\<lambda>f.
       Inr (next_sock s, s\<lparr>socks := (socks s)(a \<mapsto> 0, next_sock s \<mapsto> f), next_sock := Suc (next_sock s)\<rparr>))"

definition destroy_socket :: "'k os \<Rightarrow> nat \<Rightarrow> 'k sockets \<Rightarrow> 'k sockets res" where
  "destroy_socket os a s =
     res_bind (deref (socks s) a) (\<lambda>f.
       Inr (s\<lparr>socks := (socks s)(a := None), sock_env := close_socket os f (sock_env s)\<rparr>))"

definition reset_socket :: "'k os \<Rightarrow> 'k sock_os \<Rightarrow> nat \<Rightarrow> 'k sockets \<Rightarrow> 'k sockets res" where
  "reset_socket os sos a s =
     res_bind (deref (socks s) a) (\<lambda>f.
       let (f', e) = resetClose os sos f (sock_env s) in
       Inr (s\<lparr>socks := (socks s)(a \<mapsto> f'), sock_env := e\<rparr>))"

datatype sock_op = Make | Connected fd | Move nat | Destroy nat | Reset nat

fun sock_exec :: "'k os \<Rightarrow> 'k sock_os \<Rightarrow> sock_op \<Rightarrow> 'k sockets \<Rightarrow> 'k sockets res" where
  "sock_exec os sos Make s = Inr (snd (new_socket sos s))"
| "sock_exec os sos (Connected f) s = Inr (snd (makeConnected f s))"
| "sock_exec os sos (Move a) s = res_bind (move_socket a s) (\<lambda>(b, s'). Inr s')"
| "sock_exec os sos (Destroy a) s = destroy_socket os a s"
| "sock_exec os sos (Reset a) s = reset_socket os sos a s"

fun sock_run :: "'k os \<Rightarrow> 'k sock_os \<Rightarrow> sock_op list \<Rightarrow> 'k sockets \<Rightarrow> 'k sockets res" where
  "sock_run os sos [] s = Inr s"
| "sock_run os sos (a # as) s = res_bind (sock_exec os sos a s) (sock_run os sos as)"

subsection \<open>The account of a descriptor\<close>

definition owners :: "fd \<Rightarrow> 'k sockets \<Rightarrow> nat" where
  "owners f s = card {a. socks s a = Some f}"

text \<open>The kernel counts a call of \<open>close\<close> under its descriptor, and no call of \<open>socket\<close> or \<open>setsockopt\<close>.\<close>

definition close_count :: "'k os \<Rightarrow> 'k sock_os \<Rightarrow> (fd \<Rightarrow> 'k \<Rightarrow> nat) \<Rightarrow> bool" where
  "close_count os sos closed \<longleftrightarrow>
     (\<forall>f g k. closed f (sys_close os g k) = closed f k + (if f = g then 1 else 0)) \<and>
     (\<forall>f k. closed f (snd (sys_socket sos k)) = closed f k) \<and>
     (\<forall>f g opt k. closed f (snd (sys_setsockopt sos g opt k)) = closed f k)"

lemma close_countD:
  assumes "close_count os sos closed"
  shows "closed f (kern (snd (makeNewSocket sos e))) = closed f (kern e)"
    and "closed f (kern (close_socket os g e)) = closed f (kern e) + (if f = g \<and> g \<noteq> 0 then 1 else 0)"
    and "closed f (kern (snd (resetClose os sos g e))) = closed f (kern e) + (if f = g then 1 else 0)"
proof -
  note c = assms [unfolded close_count_def]
  show "closed f (kern (snd (makeNewSocket sos e))) = closed f (kern e)"
    using c by (auto simp: makeNewSocket_def split: prod.splits sum.splits) (metis snd_conv)+
  show "closed f (kern (close_socket os g e)) = closed f (kern e) + (if f = g \<and> g \<noteq> 0 then 1 else 0)"
    using c by (simp add: close_socket_def)
  have "closed f (kern (logged msg (sys_setsockopt sos g opt) e)) = closed f (kern e)" for msg opt
    using c by (auto simp: logged_def split: prod.splits option.splits) (metis snd_conv)+
  then show "closed f (kern (snd (resetClose os sos g e))) = closed f (kern e) + (if f = g then 1 else 0)"
    using c by (simp add: resetClose_def Let_def)
qed

definition sock_inv :: "(fd \<Rightarrow> 'k \<Rightarrow> nat) \<Rightarrow> (fd \<Rightarrow> nat) \<Rightarrow> 'k sockets \<Rightarrow> bool" where
  "sock_inv closed before s \<longleftrightarrow> (\<forall>a \<ge> next_sock s. socks s a = None) \<and>
     (\<forall>f. f \<noteq> 0 \<longrightarrow> closed f (kern (sock_env s)) + owners f s = before f + count_list (acquired s) f)"

lemma finite_owned: "sock_inv closed before s \<Longrightarrow> finite {a. socks s a = Some f}"
  by (rule finite_subset [of _ "{..<next_sock s}"]) (auto simp: sock_inv_def not_le [symmetric])

lemma owners_add:
  assumes "sock_inv closed before s" and "socks s a = None" and "socks s' = (socks s)(a \<mapsto> g)"
  shows "owners f s' = owners f s + (if f = g then 1 else 0)"
proof -
  have "{b. socks s' b = Some f} = (if f = g then insert a {b. socks s b = Some f} else {b. socks s b = Some f})"
    using assms(2,3) by auto
  then show ?thesis using finite_owned [OF assms(1), of f] assms(2) by (cases "f = g") (simp_all add: owners_def card_insert_if)
qed

lemma owners_drop:
  assumes "sock_inv closed before s" and "socks s a = Some g" and "socks s' = (socks s)(a := r)" and "r \<noteq> Some f"
  shows "owners f s' + (if f = g then 1 else 0) = owners f s"
proof -
  have "{b. socks s' b = Some f} = {b. socks s b = Some f} - {a}" using assms(3,4) by auto
  moreover have "0 < card {b. socks s b = Some f}" if "f = g"
    using that assms(2) finite_owned [OF assms(1), of f] by (auto simp: card_gt_0_iff)
  ultimately show ?thesis using finite_owned [OF assms(1), of f] assms(2) by (auto simp: owners_def)
qed

lemma sock_inv_close:
  assumes inv: "sock_inv closed before s" and f: "socks s a = Some f" and s': "socks s' = (socks s)(a := r)" "r = None \<or> r = Some 0"
    "next_sock s' = next_sock s" "acquired s' = acquired s"
    and c: "\<And>g. g \<noteq> 0 \<Longrightarrow> closed g (kern (sock_env s')) = closed g (kern (sock_env s)) + (if g = f then 1 else 0)"
  shows "sock_inv closed before s'"
proof -
  have "closed g (kern (sock_env s')) + owners g s' = before g + count_list (acquired s') g" if "g \<noteq> 0" for g
  proof -
    have "owners g s' + (if g = f then 1 else 0) = owners g s"
      by (rule owners_drop [OF inv f s'(1)]) (use s'(2) that in auto)
    then show ?thesis using c [OF that] inv that by (auto simp: sock_inv_def s'(4))
  qed
  moreover have "a < next_sock s" using inv f unfolding sock_inv_def by (metis not_le option.distinct(1))
  ultimately show ?thesis using inv by (auto simp: sock_inv_def s'(1,3))
qed

lemma makeConnected_inv:
  assumes inv: "sock_inv closed before s"
  shows "sock_inv closed before (snd (makeConnected f s))"
proof -
  have "socks s (next_sock s) = None" using inv by (simp add: sock_inv_def)
  from owners_add [OF inv this, of "snd (makeConnected f s)" f] inv show ?thesis
    by (auto simp: sock_inv_def makeConnected_def)
qed

lemma sock_exec_inv:
  assumes cc: "close_count os sos closed" and inv: "sock_inv closed before s" and run: "sock_exec os sos a s = Inr s'"
  shows "sock_inv closed before s'"
proof (cases a)
  case Make
  define s1 where "s1 = s\<lparr>sock_env := snd (makeNewSocket sos (sock_env s))\<rparr>"
  have "sock_inv closed before s1" using inv close_countD(1) [OF cc] by (simp add: sock_inv_def owners_def s1_def)
  moreover have "s' = snd (makeConnected (fst (makeNewSocket sos (sock_env s))) s1)"
    using run by (simp add: Make new_socket_def s1_def split: prod.splits)
  ultimately show ?thesis using makeConnected_inv by blast
next
  case (Connected f)
  then show ?thesis using run makeConnected_inv [OF inv] by auto
next
  case (Move b)
  then obtain f where f: "socks s b = Some f"
    "s' = s\<lparr>socks := (socks s)(b \<mapsto> 0, next_sock s \<mapsto> f), next_sock := Suc (next_sock s)\<rparr>"
    using run by (auto simp: move_socket_def)
  have n: "socks s (next_sock s) = None" using inv by (simp add: sock_inv_def)
  have "owners g s' = owners g s" if "g \<noteq> 0" for g
  proof -
    define s1 where "s1 = s\<lparr>socks := (socks s)(next_sock s \<mapsto> f), next_sock := Suc (next_sock s), acquired := acquired s @ [f]\<rparr>"
    have inv1: "sock_inv closed before s1" using makeConnected_inv [OF inv, of f] by (simp add: makeConnected_def s1_def)
    have "owners g s1 = owners g s + (if g = f then 1 else 0)"
      by (rule owners_add [OF inv n]) (simp add: s1_def)
    moreover have "owners g s' + (if g = f then 1 else 0) = owners g s1"
      by (rule owners_drop [OF inv1, where a = b and r = "Some 0"]) (use f n that in \<open>auto simp: s1_def fun_eq_iff\<close>)
    ultimately show ?thesis by simp
  qed
  then show ?thesis using inv f by (auto simp: sock_inv_def)
next
  case (Destroy b)
  then obtain f where f: "socks s b = Some f" "socks s' = (socks s)(b := None)" "next_sock s' = next_sock s"
    "acquired s' = acquired s" "sock_env s' = close_socket os f (sock_env s)"
    using run by (auto simp: destroy_socket_def)
  show ?thesis by (rule sock_inv_close [OF inv f(1,2) _ f(3,4)]) (auto simp: f(5) close_countD(2) [OF cc])
next
  case (Reset b)
  then obtain f where f: "socks s b = Some f" "socks s' = (socks s)(b \<mapsto> 0)" "next_sock s' = next_sock s"
    "acquired s' = acquired s" "sock_env s' = snd (resetClose os sos f (sock_env s))"
    using run by (auto simp: reset_socket_def resetClose_def Let_def)
  show ?thesis by (rule sock_inv_close [OF inv f(1,2) _ f(3,4)]) (simp_all add: f(5) close_countD(3) [OF cc])
qed

lemma sock_run_inv:
  "close_count os sos closed \<Longrightarrow> sock_inv closed before s \<Longrightarrow> sock_run os sos as s = Inr s' \<Longrightarrow> sock_inv closed before s'"
proof (induction as arbitrary: s)
  case (Cons a as)
  then obtain s1 where s1: "sock_exec os sos a s = Inr s1" "sock_run os sos as s1 = Inr s'" by auto
  show ?case by (rule Cons.IH [OF Cons.prems(1) sock_exec_inv [OF Cons.prems(1,2) s1(1)] s1(2)])
qed simp

text \<open>
  C33: Whatever is done with sockets, \<open>close\<close> has been called for a descriptor other than 0 as often as the descriptor was
  handed to a socket, less the sockets that still own it.  So one that is handed to one socket only is never closed
  twice, and once no socket owns it it has been closed; but a descriptor that is handed to two sockets is closed twice,
  and the descriptor 0 is never closed by a destructor.
\<close>

theorem sockets_close_once:
  assumes "close_count os sos closed" and "sock_run os sos as (no_sockets e) = Inr s"
  shows "(\<forall>f. f \<noteq> 0 \<longrightarrow>
      closed f (kern (sock_env s)) + card {a. socks s a = Some f} = closed f (kern e) + count_list (acquired s) f) \<and>
    (\<forall>f. f \<noteq> 0 \<longrightarrow> count_list (acquired s) f \<le> 1 \<longrightarrow> closed f (kern (sock_env s)) \<le> closed f (kern e) + 1) \<and>
    (\<forall>f. f \<noteq> 0 \<longrightarrow> f \<notin> ran (socks s) \<longrightarrow> closed f (kern (sock_env s)) = closed f (kern e) + count_list (acquired s) f) \<and>
    (\<forall>b s'. destroy_socket os b s = Inr s' \<longrightarrow> socks s b = Some 0 \<longrightarrow> sock_env s' = sock_env s)"
proof -
  let ?n = "\<lambda>f. closed f (kern e)"
  have "sock_inv closed ?n (no_sockets e)" by (simp add: sock_inv_def no_sockets_def owners_def)
  then have inv: "sock_inv closed ?n s" using sock_run_inv [OF assms(1)] assms(2) by blast
  then have n: "closed f (kern (sock_env s)) + card {a. socks s a = Some f} = ?n f + count_list (acquired s) f" if "f \<noteq> 0" for f
    using that by (simp add: sock_inv_def owners_def)
  moreover have "closed f (kern (sock_env s)) \<le> ?n f + 1" if "f \<noteq> 0" "count_list (acquired s) f \<le> 1" for f
    using n [OF that(1)] that(2) by linarith
  moreover have "closed f (kern (sock_env s)) = ?n f + count_list (acquired s) f" if "f \<noteq> 0" "f \<notin> ran (socks s)" for f
  proof -
    have "{a. socks s a = Some f} = {}" using that(2) by (auto simp: ran_def)
    then show ?thesis using n [OF that(1)] by (metis add.right_neutral card.empty)
  qed
  ultimately show ?thesis by (auto simp: destroy_socket_def close_socket_def)
qed

text \<open>A listening socket is moved into a server; a connection is made into two sockets by mistake.\<close>

lemma sim_close_count: "close_count sim_os (sim_sock_os err) (\<lambda>f k. count_list (sim_closed k) f)"
  by (auto simp: close_count_def sim_close_def sim_sock_os_def sim_socket_def)

theorem sockets_close_once_witness:
  "\<exists>s. sock_run sim_os (sim_sock_os 0) [Connected 5, Move 0, Destroy 0, Connected 7, Connected 7, Destroy 1, Destroy 2, Reset 3]
      (no_sockets \<lparr>kern = sim_init, logs = []\<rparr>) = Inr s \<and>
     count_list (sim_closed (kern (sock_env s))) 5 = 1 \<and> count_list (sim_closed (kern (sock_env s))) 7 = 2"
proof -
  let ?e = "\<lparr>kern = sim_init, logs = []\<rparr>"
  obtain s where s: "sock_run sim_os (sim_sock_os 0)
      [Connected 5, Move 0, Destroy 0, Connected 7, Connected 7, Destroy 1, Destroy 2, Reset 3]
      (no_sockets ?e) = Inr s" "acquired s = [5, 7, 7]" "socks s = [3 \<mapsto> 0]"
    by (simp add: no_sockets_def makeConnected_def move_socket_def destroy_socket_def reset_socket_def resetClose_def Let_def
        numeral_2_eq_2 numeral_3_eq_3 fun_eq_iff)
  have "count_list (sim_closed (kern (sock_env s))) f = count_list [5, 7, 7] f" if "f \<noteq> 0" for f
    using conjunct1 [OF conjunct2 [OF conjunct2 [OF sockets_close_once [OF sim_close_count s(1)]]], rule_format, of f] s(2,3) that
    by (simp add: sim_init_def)
  from this [of 5] this [of 7] show ?thesis using s(1) by auto
qed

end
