(* ===== verification/TimeWheeling.thy ===== *)
theory TimeWheeling imports Connection begin

section \<open>TimeWheeling.h: closing idle connections\<close>

text \<open>
  With \<open>IDLE_CONNECTIONS_MANAGER\<close> every accepted connection is put into the current bucket of a wheel
  of 600 buckets, and a timer calls \<open>eraseIdleConnections\<close> once a second.  It looks at the bucket
  behind the current one, hands what is closed or idle to the connection's own loop and moves the
  rest to the current bucket.  The lemmas give the exact effect of one call; the properties say how
  long an idle connection survives, and that the task closing it can meet a connection that has
  been closed meanwhile.
\<close>

subsection \<open>State\<close>

datatype wheel_task = DeleteConn conn_id | DestoryThenDeleteConn conn_id

text \<open>\<open>posted\<close>: the tasks given to \<open>runInLoop\<close> so far, with the loop they were given to.\<close>

record wheel =
  wheeling :: "conn_id list list"
  curBucketIndex :: nat
  posted :: "(loop_id \<times> wheel_task) list"
  wheel_logs :: "log_entry list"

definition MAX_IDLE_SECONDS :: nat where
  "MAX_IDLE_SECONDS = 600"

definition new_wheel :: wheel where
  "new_wheel = \<lparr>wheeling = replicate MAX_IDLE_SECONDS [], curBucketIndex = 0, posted = [], wheel_logs = []\<rparr>"

subsection \<open>Operations\<close>

definition addNewConnection :: "conn_id \<Rightarrow> wheel \<Rightarrow> wheel" where
  "addNewConnection c w =
     w\<lparr>wheeling := (wheeling w)[curBucketIndex w := wheeling w ! curBucketIndex w @ [c]]\<rparr>"

definition timeElasped :: "wheel \<Rightarrow> wheel" where
  "timeElasped w = w\<lparr>curBucketIndex := (curBucketIndex w + 1) mod MAX_IDLE_SECONDS\<rparr>"

text \<open>The difference of the times is one of unsigned 32-bit numbers.  (The last of the two log lines goes on
  in Chinese; its first two words stand for it.)\<close>

definition is_idle :: "u32 \<Rightarrow> tcp_conn \<Rightarrow> bool" where
  "is_idle now x \<longleftrightarrow> of_nat MAX_IDLE_SECONDS < now - lastReceiveTime x"

definition post :: "loop_id \<Rightarrow> wheel_task \<Rightarrow> wheel \<Rightarrow> wheel" where
  "post l t w = w\<lparr>posted := posted w @ [(l, t)]\<rparr>"

definition check_conn :: "(conn_id \<rightharpoonup> tcp_conn) \<Rightarrow> u32 \<Rightarrow> conn_id \<Rightarrow> wheel \<Rightarrow> wheel res" where
  "check_conn heap now c w =
     res_bind (deref heap c) (\<lambda>x.
       Inr (if conn_state x = CLOSED then post (conn_loop x) (DeleteConn c) w
            else if conn_state x = ESTABLISHED then
              if is_idle now x
              then post (conn_loop x) (DestoryThenDeleteConn c) (w\<lparr>wheel_logs := wheel_logs w @
                [Info ''conn_ destroy because of timeout, connfd = {}, lastReceiveTime = {}, now = {}'']\<rparr>)
              else addNewConnection c w
            else w\<lparr>wheel_logs := wheel_logs w @ [Info ''todo BLANK'']\<rparr>))"

fun check_bucket :: "(conn_id \<rightharpoonup> tcp_conn) \<Rightarrow> u32 \<Rightarrow> conn_id list \<Rightarrow> wheel \<Rightarrow> wheel res" where
  "check_bucket heap now [] w = Inr w"
| "check_bucket heap now (c # cs) w = res_bind (check_conn heap now c w) (check_bucket heap now cs)"

definition eraseIdleConnections :: "(conn_id \<rightharpoonup> tcp_conn) \<Rightarrow> u32 \<Rightarrow> wheel \<Rightarrow> wheel res" where
  "eraseIdleConnections heap now w =
     (if length (wheeling w) \<noteq> MAX_IDLE_SECONDS then Inl Assert_failed
      else
        let checkIndex = (curBucketIndex w + MAX_IDLE_SECONDS - 1) mod MAX_IDLE_SECONDS in
        res_bind (check_bucket heap now (wheeling w ! checkIndex) w) (\<lambda>w1.
          Inr (timeElasped (w1\<lparr>wheeling := (wheeling w1)[checkIndex := []]\<rparr>))))"

text \<open>The callback of the timer a server makes for this: the clock moves, then the wheel is checked.\<close>

definition idle_timer :: "(conn_id \<rightharpoonup> tcp_conn) \<Rightarrow> u32 \<times> wheel \<Rightarrow> (u32 \<times> wheel) res" where
  "idle_timer heap s =
     (let now = fst s + 1 in res_bind (eraseIdleConnections heap now (snd s)) (\<lambda>w. Inr (now, w)))"

text \<open>The tasks, run by the connection's loop.\<close>

fun run_wheel_task ::
  "'k os \<Rightarrow> wheel_task \<Rightarrow> ('k, 'z) conn_world_scheme \<Rightarrow> ('k, 'z) conn_world_scheme res" where
  "run_wheel_task os (DeleteConn c) w = delete_conn os c w"
| "run_wheel_task os (DestoryThenDeleteConn c) w = res_bind (destroy os c w) (delete_conn os c)"

subsection \<open>Only two buckets are in use\<close>

definition prev_index :: "wheel \<Rightarrow> nat" where
  "prev_index w = (curBucketIndex w + MAX_IDLE_SECONDS - 1) mod MAX_IDLE_SECONDS"

abbreviation bucket :: "wheel \<Rightarrow> nat \<Rightarrow> conn_id list" where
  "bucket w i \<equiv> wheeling w ! i"

definition wheel_inv :: "wheel \<Rightarrow> bool" where
  "wheel_inv w \<longleftrightarrow> length (wheeling w) = MAX_IDLE_SECONDS \<and> curBucketIndex w < MAX_IDLE_SECONDS \<and>
     (\<forall>i < MAX_IDLE_SECONDS. i \<noteq> curBucketIndex w \<longrightarrow> i \<noteq> prev_index w \<longrightarrow> bucket w i = [])"

definition managed :: "wheel \<Rightarrow> conn_id set" where
  "managed w = set (concat (wheeling w))"

text \<open>What the check makes of a connection: a task for its loop, or it stays.\<close>

definition verdict :: "(conn_id \<rightharpoonup> tcp_conn) \<Rightarrow> u32 \<Rightarrow> conn_id \<Rightarrow> (loop_id \<times> wheel_task) option" where
  "verdict heap now c =
     (case heap c of
        None \<Rightarrow> None
      | Some x \<Rightarrow>
          if conn_state x = CLOSED then Some (conn_loop x, DeleteConn c)
          else if conn_state x = ESTABLISHED \<and> is_idle now x then Some (conn_loop x, DestoryThenDeleteConn c)
          else None)"

definition survives :: "(conn_id \<rightharpoonup> tcp_conn) \<Rightarrow> u32 \<Rightarrow> conn_id \<Rightarrow> bool" where
  "survives heap now c \<longleftrightarrow> (\<exists>x. heap c = Some x \<and> conn_state x = ESTABLISHED \<and> \<not> is_idle now x)"

fun verdicts :: "(conn_id \<rightharpoonup> tcp_conn) \<Rightarrow> u32 \<Rightarrow> conn_id list \<Rightarrow> (loop_id \<times> wheel_task) list" where
  "verdicts heap now [] = []"
| "verdicts heap now (c # cs) =
     (case verdict heap now c of None \<Rightarrow> [] | Some t \<Rightarrow> [t]) @ verdicts heap now cs"

lemma wheel_index [simp]:
  assumes "wheel_inv w"
  shows "curBucketIndex w < length (wheeling w)" "prev_index w < length (wheeling w)"
    "prev_index w \<noteq> curBucketIndex w" "length (wheeling w) = MAX_IDLE_SECONDS"
  using assms by (auto simp: wheel_inv_def prev_index_def MAX_IDLE_SECONDS_def mod_if)

lemma new_wheel_inv: "wheel_inv new_wheel"
  by (simp add: wheel_inv_def new_wheel_def MAX_IDLE_SECONDS_def)

lemma managed_iff: "wheel_inv w \<Longrightarrow> c \<in> managed w \<longleftrightarrow> c \<in> set (bucket w (curBucketIndex w) @ bucket w (prev_index w))"
proof -
  assume inv: "wheel_inv w"
  note i = wheel_index [OF inv]
  have "c \<in> managed w \<longleftrightarrow> (\<exists>j < length (wheeling w). c \<in> set (bucket w j))"
    unfolding managed_def set_concat UN_iff Bex_def by (metis in_set_conv_nth)
  also have "\<dots> \<longleftrightarrow> c \<in> set (bucket w (curBucketIndex w) @ bucket w (prev_index w))"
  proof
    assume "\<exists>j < length (wheeling w). c \<in> set (bucket w j)"
    then obtain j where j: "j < MAX_IDLE_SECONDS" "c \<in> set (bucket w j)" using i(4) by auto
    then have "j = curBucketIndex w \<or> j = prev_index w"
      using inv unfolding wheel_inv_def by (metis empty_iff empty_set)
    with j(2) show "c \<in> set (bucket w (curBucketIndex w) @ bucket w (prev_index w))" by auto
  qed (use i in auto)
  finally show ?thesis .
qed

lemma check_bucket_spec:
  assumes "curBucketIndex w < length (wheeling w)" and "\<And>c. c \<in> set cs \<Longrightarrow> heap c \<noteq> None"
  shows "\<exists>w'. check_bucket heap now cs w = Inr w' \<and> curBucketIndex w' = curBucketIndex w \<and>
    posted w' = posted w @ verdicts heap now cs \<and>
    wheeling w' = (wheeling w)[curBucketIndex w := bucket w (curBucketIndex w) @ filter (survives heap now) cs]"
  using assms
proof (induction cs arbitrary: w)
  case Nil
  then show ?case by simp
next
  case (Cons c cs)
  from Cons.prems(2) [of c] obtain x where x: "heap c = Some x" by auto
  obtain w1 where w1: "check_conn heap now c w = Inr w1" "curBucketIndex w1 = curBucketIndex w"
    "posted w1 = posted w @ (case verdict heap now c of None \<Rightarrow> [] | Some t \<Rightarrow> [t])"
    "wheeling w1 = (wheeling w)[curBucketIndex w :=
       bucket w (curBucketIndex w) @ (if survives heap now c then [c] else [])]"
    using x by (auto simp: check_conn_def verdict_def survives_def post_def addNewConnection_def)
  have "curBucketIndex w1 < length (wheeling w1)" using Cons.prems(1) w1 by simp
  from Cons.IH [OF this] Cons.prems(2) obtain w2 where w2: "check_bucket heap now cs w1 = Inr w2"
    "curBucketIndex w2 = curBucketIndex w1" "posted w2 = posted w1 @ verdicts heap now cs"
    "wheeling w2 = (wheeling w1)[curBucketIndex w1 :=
       bucket w1 (curBucketIndex w1) @ filter (survives heap now) cs]"
    by auto
  show ?case
    using w1 w2 Cons.prems(1) by (intro exI [of _ w2]) simp
qed

text \<open>One call: the bucket behind the current one is judged, the survivors join the current one.\<close>

lemma erase_spec:
  assumes inv: "wheel_inv w" and live: "\<And>c. c \<in> managed w \<Longrightarrow> heap c \<noteq> None"
  shows "\<exists>w'. eraseIdleConnections heap now w = Inr w' \<and> wheel_inv w' \<and>
    posted w' = posted w @ verdicts heap now (bucket w (prev_index w)) \<and>
    bucket w' (prev_index w') =
      bucket w (curBucketIndex w) @ filter (survives heap now) (bucket w (prev_index w)) \<and>
    bucket w' (curBucketIndex w') = [] \<and>
    curBucketIndex w' = (curBucketIndex w + 1) mod MAX_IDLE_SECONDS \<and>
    wheeling w' = (wheeling w)[curBucketIndex w := bucket w (curBucketIndex w) @
      filter (survives heap now) (bucket w (prev_index w)), prev_index w := []]"
proof -
  note i = wheel_index [OF inv]
  let ?p = "prev_index w" and ?cur = "curBucketIndex w"
  obtain w1 where w1: "check_bucket heap now (bucket w ?p) w = Inr w1" "curBucketIndex w1 = ?cur"
    "posted w1 = posted w @ verdicts heap now (bucket w ?p)"
    "wheeling w1 = (wheeling w)[?cur := bucket w ?cur @ filter (survives heap now) (bucket w ?p)]"
    using check_bucket_spec [OF i(1), of "bucket w ?p" heap now] live managed_iff [OF inv] by auto
  define w' where "w' = timeElasped (w1\<lparr>wheeling := (wheeling w1)[?p := []]\<rparr>)"
  have run: "eraseIdleConnections heap now w = Inr w'"
    using w1(1) i(4) by (simp add: eraseIdleConnections_def w'_def Let_def prev_index_def)
  have cur': "curBucketIndex w' = (?cur + 1) mod MAX_IDLE_SECONDS" "wheeling w' = (wheeling w1)[?p := []]"
    by (simp_all add: w'_def timeElasped_def w1(2))
  have cur: "?cur < MAX_IDLE_SECONDS" using i by simp
  have p': "prev_index w' = ?cur"
    using cur unfolding prev_index_def cur' by (simp add: MAX_IDLE_SECONDS_def mod_if)
  have nxt: "curBucketIndex w' \<noteq> ?cur" "curBucketIndex w' \<noteq> ?p" "curBucketIndex w' < MAX_IDLE_SECONDS"
    using cur unfolding prev_index_def cur'(1) by (auto simp: MAX_IDLE_SECONDS_def mod_if)
  have b: "bucket w' j = (if j = ?p then [] else if j = ?cur
      then bucket w ?cur @ filter (survives heap now) (bucket w ?p) else bucket w j)"
    if "j < MAX_IDLE_SECONDS" for j
    using that i by (simp add: cur'(2) w1(4) nth_list_update)
  have empty: "bucket w j = []" if "j < MAX_IDLE_SECONDS" "j \<noteq> ?cur" "j \<noteq> ?p" for j
    using inv that by (simp add: wheel_inv_def)
  have "wheel_inv w'"
    using b empty nxt(3) p' i(4) by (auto simp: wheel_inv_def cur'(2) w1(4))
  moreover have "posted w' = posted w @ verdicts heap now (bucket w ?p)"
    by (simp add: w'_def timeElasped_def w1(3))
  moreover have "bucket w' ?cur = bucket w ?cur @ filter (survives heap now) (bucket w ?p)"
    using b [OF cur] i(3) by simp
  moreover have "bucket w' (curBucketIndex w') = []" using b [OF nxt(3)] nxt empty by auto
  ultimately show ?thesis using run p' cur' by (intro exI [of _ w']) (simp add: w1(4))
qed

lemma verdicts_iff:
  "t \<in> set (verdicts heap now cs) \<longleftrightarrow> (\<exists>c \<in> set cs. verdict heap now c = Some t)"
proof (induction cs)
  case (Cons c cs)
  then show ?case by (cases "verdict heap now c") auto
qed simp

lemma verdict_iff:
  "verdict heap now c = Some (l, t) \<longleftrightarrow>
     (\<exists>x. heap c = Some x \<and> conn_loop x = l \<and>
        (conn_state x = CLOSED \<and> t = DeleteConn c \<or>
         conn_state x = ESTABLISHED \<and> unat (now - lastReceiveTime x) > 600 \<and> t = DestoryThenDeleteConn c))"
  by (auto simp: verdict_def is_idle_def MAX_IDLE_SECONDS_def word_less_nat_alt split: option.splits)

subsection \<open>Properties\<close>

text \<open>
  C28: a call of \<open>eraseIdleConnections\<close> on a wheel of live connections succeeds; the bucket behind the current one is
  emptied, what it held and is established and not idle goes to the end of the current bucket in its order, the current
  bucket becomes the one behind and the next one, which is empty, the current one.  The tasks posted are, on the loop of
  the connection, a deletion for each connection of that bucket that is closed, and a destruction and deletion for each
  that is established and on which nothing was received for more than 600 seconds of the 32-bit clock; none else.
  At most the current bucket and the one behind it are filled, before and after.
\<close>

theorem wheel_tick:
  assumes "wheel_inv w" and "\<And>c. c \<in> managed w \<Longrightarrow> heap c \<noteq> None"
  shows "\<exists>w'. eraseIdleConnections heap now w = Inr w' \<and> wheel_inv w' \<and>
    posted w' = posted w @ verdicts heap now (bucket w (prev_index w)) \<and>
    curBucketIndex w' = (curBucketIndex w + 1) mod 600 \<and> prev_index w' = curBucketIndex w \<and>
    wheeling w' = (wheeling w)[curBucketIndex w := bucket w (curBucketIndex w) @
      filter (survives heap now) (bucket w (prev_index w)), prev_index w := []] \<and>
    bucket w' (curBucketIndex w') = [] \<and>
    (\<forall>l t. (l, t) \<in> set (verdicts heap now (bucket w (prev_index w))) \<longleftrightarrow>
      (\<exists>c \<in> set (bucket w (prev_index w)). \<exists>x. heap c = Some x \<and> conn_loop x = l \<and>
        (conn_state x = CLOSED \<and> t = DeleteConn c \<or>
         conn_state x = ESTABLISHED \<and> unat (now - lastReceiveTime x) > 600 \<and> t = DestoryThenDeleteConn c)))"
proof -
  obtain w' where w': "eraseIdleConnections heap now w = Inr w'" "wheel_inv w'"
    "posted w' = posted w @ verdicts heap now (bucket w (prev_index w))"
    "bucket w' (curBucketIndex w') = []" "curBucketIndex w' = (curBucketIndex w + 1) mod MAX_IDLE_SECONDS"
    "wheeling w' = (wheeling w)[curBucketIndex w := bucket w (curBucketIndex w) @
      filter (survives heap now) (bucket w (prev_index w)), prev_index w := []]"
    using erase_spec [OF assms(1), of heap now] assms(2) by blast
  have "prev_index w' = curBucketIndex w"
    using wheel_index(1,4) [OF assms(1)] unfolding prev_index_def w'(5) by (simp add: MAX_IDLE_SECONDS_def mod_if)
  then show ?thesis using w' by (auto simp: verdicts_iff verdict_iff MAX_IDLE_SECONDS_def)
qed

definition demo_wheel :: wheel where
  "demo_wheel = addNewConnection 0 new_wheel"

lemma demo_wheel_inv: "wheel_inv demo_wheel"
  by (auto simp: wheel_inv_def demo_wheel_def addNewConnection_def new_wheel_def MAX_IDLE_SECONDS_def)

lemma demo_wheel_managed: "managed demo_wheel = {0}"
proof -
  have "bucket demo_wheel (curBucketIndex demo_wheel) = [0]" "bucket demo_wheel (prev_index demo_wheel) = []"
    by (simp_all add: demo_wheel_def addNewConnection_def new_wheel_def prev_index_def MAX_IDLE_SECONDS_def)
  then show ?thesis using managed_iff [OF demo_wheel_inv] by auto
qed

theorem wheel_tick_witness:
  "\<exists>w' w''. eraseIdleConnections [0 \<mapsto> new_conn 0 7 1] 5 demo_wheel = Inr w' \<and> bucket w' 0 = [0] \<and>
     curBucketIndex w' = 1 \<and>
     eraseIdleConnections [0 \<mapsto> new_conn 0 7 1] 700 w' = Inr w'' \<and> posted w'' = [(1, DestoryThenDeleteConn 0)]"
proof -
  let ?h = "[0 \<mapsto> new_conn 0 7 1]"
  have p: "curBucketIndex demo_wheel = 0" "prev_index demo_wheel = 599" "bucket demo_wheel 0 = [0]" "bucket demo_wheel 599 = []"
    "posted demo_wheel = []" "length (wheeling demo_wheel) = 600"
    by (simp_all add: demo_wheel_def addNewConnection_def new_wheel_def prev_index_def MAX_IDLE_SECONDS_def)
  obtain w' where w': "eraseIdleConnections ?h 5 demo_wheel = Inr w'" "wheel_inv w'" "bucket w' 0 = [0]" "curBucketIndex w' = 1"
    "prev_index w' = 0" "bucket w' 1 = []" "posted w' = []"
    using wheel_tick [OF demo_wheel_inv, of ?h 5] by (auto simp: demo_wheel_managed p)
  have m: "managed w' = {0}" using managed_iff [OF w'(2)] w'(3-6) by auto
  have "verdicts ?h 700 [0] = [(1, DestoryThenDeleteConn 0)]"
    by (simp add: verdict_def is_idle_def new_conn_def MAX_IDLE_SECONDS_def)
  then obtain w'' where "eraseIdleConnections ?h 700 w' = Inr w''" "posted w'' = [(1, DestoryThenDeleteConn 0)]"
    using wheel_tick [OF w'(2), of ?h 700] by (auto simp: m w'(3,5,7))
  then show ?thesis using w'(1,3,4) by blast
qed

text \<open>
  C35: a connection that stays idle is found within two seconds: whatever the connections do in the
  meantime, after two ticks at which it is idle the task to destroy it has been given to its loop and
  the wheel has forgotten it.
\<close>

theorem wheel_two_ticks:
  assumes "wheel_inv w" and "c \<in> managed w"
    and "\<And>d. d \<in> managed w \<Longrightarrow> heap1 d \<noteq> None \<and> heap2 d \<noteq> None"
    and "heap1 c = Some x1" and "conn_state x1 = ESTABLISHED" and "is_idle (t + 1) x1"
    and "heap2 c = Some x2" and "conn_state x2 = ESTABLISHED" and "is_idle (t + 2) x2"
    and "conn_loop x1 = l" and "conn_loop x2 = l"
  shows "\<exists>w1 w2. idle_timer heap1 (t, w) = Inr (t + 1, w1) \<and> idle_timer heap2 (t + 1, w1) = Inr (t + 2, w2) \<and>
    (l, DestoryThenDeleteConn c) \<in> set (posted w2) \<and> c \<notin> managed w2"
proof -
  let ?cur = "bucket w (curBucketIndex w)" and ?prev = "bucket w (prev_index w)"
  obtain w1 where w1: "eraseIdleConnections heap1 (t + 1) w = Inr w1" "wheel_inv w1"
    "posted w1 = posted w @ verdicts heap1 (t + 1) ?prev"
    "bucket w1 (prev_index w1) = ?cur @ filter (survives heap1 (t + 1)) ?prev"
    "bucket w1 (curBucketIndex w1) = []"
    using erase_spec [OF assms(1), of heap1 "t + 1"] assms(3) by blast
  have sub: "managed w1 \<subseteq> managed w"
    using w1(4,5) managed_iff [OF assms(1)] managed_iff [OF w1(2)] by auto
  obtain w2 where w2: "eraseIdleConnections heap2 (t + 2) w1 = Inr w2" "wheel_inv w2"
    "posted w2 = posted w1 @ verdicts heap2 (t + 2) (bucket w1 (prev_index w1))"
    "bucket w2 (prev_index w2) = bucket w1 (curBucketIndex w1) @
       filter (survives heap2 (t + 2)) (bucket w1 (prev_index w1))"
    "bucket w2 (curBucketIndex w2) = []"
    using erase_spec [OF w1(2), of heap2 "t + 2"] assms(3) sub by blast
  have v: "verdict heap1 (t + 1) c = Some (l, DestoryThenDeleteConn c)"
    "verdict heap2 (t + 2) c = Some (l, DestoryThenDeleteConn c)" "\<not> survives heap2 (t + 2) c"
    using assms(4-11) by (auto simp: verdict_def survives_def)
  have "(l, DestoryThenDeleteConn c) \<in> set (posted w2)"
  proof (cases "c \<in> set ?prev")
    case True
    then show ?thesis using v(1) w1(3) w2(3) by (auto simp: verdicts_iff)
  next
    case False
    then have "c \<in> set (bucket w1 (prev_index w1))"
      using assms(2) managed_iff [OF assms(1)] w1(4) by auto
    then show ?thesis using v(2) w2(3) by (auto simp: verdicts_iff)
  qed
  moreover have "c \<notin> managed w2"
    using w2(4,5) w1(5) v(3) managed_iff [OF w2(2)] by auto
  moreover have "idle_timer heap1 (t, w) = Inr (t + 1, w1)" "idle_timer heap2 (t + 1, w1) = Inr (t + 2, w2)"
    using w1(1) w2(1) by (simp_all add: idle_timer_def Let_def ac_simps)
  ultimately show ?thesis by blast
qed

theorem wheel_two_ticks_witness:
  "\<exists>w1 w2. idle_timer [0 \<mapsto> new_conn 0 7 1] (700, demo_wheel) = Inr (701, w1) \<and>
     idle_timer [0 \<mapsto> new_conn 0 7 1] (701, w1) = Inr (702, w2) \<and>
     (1, DestoryThenDeleteConn 0) \<in> set (posted w2) \<and> 0 \<notin> managed w2"
proof -
  have i: "is_idle (700 + 1) (new_conn 0 7 1)" "is_idle (700 + 2) (new_conn 0 7 1)"
    by (simp_all add: is_idle_def new_conn_def MAX_IDLE_SECONDS_def)
  show ?thesis
    using wheel_two_ticks [OF demo_wheel_inv, of 0 "[0 \<mapsto> new_conn 0 7 1]" "[0 \<mapsto> new_conn 0 7 1]", OF _ _ _ _ i(1) _ _ i(2)]
    by (simp add: demo_wheel_managed new_conn_def)
qed

text \<open>
  The task finds the connection by its pointer and does not look at its state.  A connection the
  peer closes between the tick and the task has been destroyed by then (with idle connections
  managed, closing destroys and leaves the deletion to the wheel), so the task uses its event after
  it was freed.
\<close>

theorem wheel_task_after_close:
  assumes "destroy os c w = Inr w1"
  shows "run_wheel_task os (DestoryThenDeleteConn c) w1 = Inl Use_after_free"
proof -
  from assms obtain x w0 heap where x: "conns w c = Some x"
    "remove_event os (loop_ep w (conn_loop x)) (conn_event x) (upd_conn c (x\<lparr>conn_state := CLOSED\<rparr>) w) = Inr w0"
    "return_object (conn_event x) (evs w0) = Inr heap" "w1 = w0\<lparr>evs := heap\<rparr>"
    by (auto simp: destroy_def)
  have "conns w1 c = Some (x\<lparr>conn_state := CLOSED\<rparr>)" "evs w1 (conn_event x) = None"
    using x(2-4) by (auto simp: remove_event_def return_object_def upd_conn_def Let_def split: if_splits option.splits)
  then show ?thesis by (simp add: destroy_def remove_event_def upd_conn_def)
qed

end
