(* ===== verification/IdleServer.thy ===== *)
theory IdleServer imports TimeWheeling ServerLife begin

section \<open>TcpServer with idle connections managed\<close>

text \<open>
  The server in a build with \<open>IDLE_CONNECTIONS_MANAGER\<close>.  A new connection is put on the wheel, every message
  notes the time, and a connection that is closed is not deleted: it is destroyed and set aside (\<open>retire_conn\<close>)
  until the wheel finds it and has its loop delete it.  A timer on the main loop turns the wheel.  The handlers
  differ from the default build in these places only.
\<close>

record 'k idle_world = "'k conn_world" +
  idle_pool :: pool
  wheelPolicy :: wheel
  timeInProcess :: u32

type_synonym 'k iworld = "'k idle_world"
type_synonym 'k icb = "conn_id \<Rightarrow> 'k iworld \<Rightarrow> 'k iworld res"

record 'k idle_server =
  idle_listenfd :: fd
  idle_codec :: codec
  idle_connMsg :: "'k icb option"
  idle_connEsta :: "'k icb option"
  idle_connClose :: "'k icb option"

subsection \<open>The handlers\<close>

definition idle_closeConnection ::
  "'k os \<Rightarrow> 'k idle_server \<Rightarrow> conn_id \<Rightarrow> nat option \<Rightarrow> 'k iworld \<Rightarrow> 'k iworld res" where
  "idle_closeConnection os srv c destoryCb w =
     res_bind (deref (conns w) c) (\<lambda>x.
       if conn_data x \<noteq> Some (localEventLoop w) then Inl Assert_failed
       else if destoryCb \<noteq> None then Inl Assert_failed
       else close_common os retire_conn (idle_connClose srv) c w)"

definition idle_activeClose :: "'k os \<Rightarrow> 'k idle_server \<Rightarrow> conn_id \<Rightarrow> 'k iworld \<Rightarrow> 'k iworld res" where
  "idle_activeClose os srv c w =
     res_bind (deref (conns w) c) (\<lambda>x. idle_closeConnection os srv c (destoryCallback x) w)"

definition idle_preConnMsgCallback :: "'k os \<Rightarrow> 'k idle_server \<Rightarrow> conn_id \<Rightarrow> 'k iworld \<Rightarrow> 'k iworld res" where
  "idle_preConnMsgCallback os srv c w =
     res_bind (deref (conns w) c) (\<lambda>x0.
       let x = x0\<lparr>conn_data := Some (localEventLoop w)\<rparr> in
       case read_from_socket os (sockfd x) (env w) (readBuffer x) default_maxBytes of
         None \<Rightarrow> Inl Does_not_return
       | Some r \<Rightarrow>
           res_bind r (\<lambda>(n, b, e).
             let w1 = (upd_conn c (x\<lparr>readBuffer := b\<rparr>) w)\<lparr>env := e\<rparr> in
             if n = 0 then idle_closeConnection os srv c None w1
             else if n < 0 then
               idle_closeConnection os srv c None (w1\<lparr>env := add_log (Sys ''read from socket error'') (env w1)\<rparr>)
             else
               (case codec_check (idle_codec srv) b of
                  (ok, b', lg) \<Rightarrow>
                    let w2 = (upd_conn c (x\<lparr>readBuffer := b', lastReceiveTime := timeInProcess w1\<rparr>) w1)
                               \<lparr>env := (env w1)\<lparr>logs := logs (env w1) @ lg\<rparr>\<rparr> in
                    if ok then
                      (case idle_connMsg srv of
                         None \<Rightarrow> Inl Bad_function_call
                       | Some f \<Rightarrow> f c w2)
                    else Inr w2)))"

definition idle_new_connection :: "'k os \<Rightarrow> fd \<Rightarrow> 'k iworld \<Rightarrow> (conn_id \<times> 'k iworld) res" where
  "idle_new_connection os connfd w =
     res_bind (getNextPool (idle_pool w)) (\<lambda>(ownerEventLoop, p).
       res_bind (make_event os connfd (loop_ep w ownerEventLoop) (w\<lparr>idle_pool := p\<rparr>)) (\<lambda>(connEvent, w1).
         res_bind (makeHeapObject os connEvent ownerEventLoop w1) (\<lambda>(newConn, w2).
           res_bind (deref (conns w2) newConn) (\<lambda>x.
             let w3 = upd_conn newConn (x\<lparr>lastReceiveTime := timeInProcess w2\<rparr>) w2;
                 w4 = w3\<lparr>wheelPolicy := addNewConnection newConn (wheelPolicy w3)\<rparr> in
             res_bind (setReadCallback connEvent (Cb_conn_msg newConn) w4) (\<lambda>w5.
               res_bind (setReadable os connEvent True w5) (\<lambda>w6. Inr (newConn, w6)))))))"

definition idle_accept_pass :: "'k os \<Rightarrow> 'k idle_server \<Rightarrow> 'k iworld \<Rightarrow> (bool \<times> 'k iworld) res" where
  "idle_accept_pass os srv w =
     (let (connfd, e) = socket_accept os (idle_listenfd srv) (env w); w0 = w\<lparr>env := e\<rparr> in
      if connfd \<le> 0 then Inr (False, w0)
      else
        res_bind (idle_new_connection os connfd w0) (\<lambda>(newConn, w1).
          case idle_connEsta srv of
            None \<Rightarrow> Inr (True, w1)
          | Some f \<Rightarrow> res_bind (f newConn w1) (\<lambda>w2. Inr (True, w2))))"

partial_function (option) idle_acceptCallback :: "'k os \<Rightarrow> 'k idle_server \<Rightarrow> 'k iworld \<Rightarrow> 'k iworld res option" where
  "idle_acceptCallback os srv w =
     (case idle_accept_pass os srv w of
        Inl err \<Rightarrow> Some (Inl err)
      | Inr r \<Rightarrow> if fst r then idle_acceptCallback os srv (snd r) else Some (Inr (snd r)))"

text \<open>
  The timer: \<open>createIdleConnTimer\<close> with the calls of timerfd as arguments (their effect is the subject of
  theory \<open>Timer\<close>, and neither result is looked at), and its callback.  The wheel looks at all connections on the
  heap, the open ones and those that were closed.
\<close>

definition idle_heap :: "'k iworld \<Rightarrow> (conn_id \<rightharpoonup> tcp_conn)" where
  "idle_heap w = conns w ++ closed_conns w"

definition idle_tick :: "'k os \<Rightarrow> fd \<Rightarrow> 'k iworld \<Rightarrow> 'k iworld res" where
  "idle_tick os timerfd w =
     (let (r, k) = sys_read os timerfd 8 (kern (env w)); w1 = w\<lparr>env := (env w)\<lparr>kern := k\<rparr>\<rparr> in
      res_bind (idle_timer (idle_heap w1) (timeInProcess w1, wheelPolicy w1)) (\<lambda>(now, wh).
        Inr (w1\<lparr>timeInProcess := now, wheelPolicy := wh\<rparr>)))"

definition createIdleConnTimer ::
  "'k os \<Rightarrow> ('k \<Rightarrow> fd \<times> 'k) \<Rightarrow> (fd \<Rightarrow> 'k \<Rightarrow> 'k) \<Rightarrow> fd \<Rightarrow> 'k iworld \<Rightarrow> (fd \<times> 'k iworld) res" where
  "createIdleConnTimer os timerfd_create timerfd_settime ep w =
     (let (timerfd, k) = timerfd_create (kern (env w));
          w1 = w\<lparr>env := (env w)\<lparr>kern := timerfd_settime timerfd k\<rparr>\<rparr> in
      res_bind (make_event os timerfd ep w1) (\<lambda>(timerEvent, w2).
        res_bind (setReadCallback timerEvent (Cb_timer 0) w2) (\<lambda>w3.
          res_bind (setReadable os timerEvent True w3) (\<lambda>w4. Inr (timerfd, w4)))))"

text \<open>
  What the wheel has posted, run by the loop of the connection.  A connection that was set aside is deleted
  where it is; one that is still open is destroyed first.
\<close>

definition idle_delete :: "'k os \<Rightarrow> conn_id \<Rightarrow> 'k iworld \<Rightarrow> 'k iworld res" where
  "idle_delete os c w =
     (case closed_conns w c of
        Some x \<Rightarrow>
          let w1 = w\<lparr>closed_conns := (closed_conns w)(c := None)\<rparr> in
          Inr (if sockfd x \<noteq> 0 then w1\<lparr>env := (env w1)\<lparr>kern := sys_close os (sockfd x) (kern (env w1))\<rparr>\<rparr> else w1)
      | None \<Rightarrow> delete_conn os c w)"

fun idle_run_task :: "'k os \<Rightarrow> wheel_task \<Rightarrow> 'k iworld \<Rightarrow> 'k iworld res" where
  "idle_run_task os (DeleteConn c) w = idle_delete os c w"
| "idle_run_task os (DestoryThenDeleteConn c) w = res_bind (destroy os c w) (idle_delete os c)"

text \<open>The callbacks the loops run; \<open>rest\<close> are those of other components.\<close>

definition idle_callback ::
  "'k os \<Rightarrow> 'k idle_server \<Rightarrow> fd \<Rightarrow> (callback \<Rightarrow> 'k iworld \<Rightarrow> 'k iworld res) \<Rightarrow> callback \<Rightarrow> 'k iworld \<Rightarrow> 'k iworld res" where
  "idle_callback os srv timerfd rest cb w =
     (case cb of
        Cb_accept \<Rightarrow> (case idle_acceptCallback os srv w of None \<Rightarrow> Inl Does_not_return | Some r \<Rightarrow> r)
      | Cb_conn_msg c \<Rightarrow> idle_preConnMsgCallback os srv c w
      | Cb_send_nonblock c \<Rightarrow> send_nonblock os (idle_activeClose os srv) c w
      | Cb_timer n \<Rightarrow> idle_tick os timerfd w
      | _ \<Rightarrow> rest cb w)"

subsection \<open>What no handler does: close a descriptor, forget a connection\<close>

text \<open>
  \<open>opened k\<close> are the open descriptors.  \<open>accept\<close> returns one that was not open and opens it, \<open>close\<close> closes its
  descriptor, and the other calls the handlers make open and close nothing.
\<close>

definition fd_contract :: "'k os \<Rightarrow> ('k \<Rightarrow> fd set) \<Rightarrow> bool" where
  "fd_contract os opened \<longleftrightarrow>
     (\<forall>k. opened k \<subseteq> {0..}) \<and>
     (\<forall>f n k. opened (snd (sys_read os f n k)) = opened k) \<and>
     (\<forall>f bs k. opened (snd (sys_write os f bs k)) = opened k) \<and>
     (\<forall>f k. opened (snd (sys_getfl os f k)) = opened k) \<and>
     (\<forall>f fl k. opened (snd (sys_setfl os f fl k)) = opened k) \<and>
     (\<forall>ep op f ev k. opened (snd (sys_epoll_ctl os ep op f ev k)) = opened k) \<and>
     (\<forall>f k e k'. sys_accept os f k = (Inl e, k') \<longrightarrow> opened k' = opened k) \<and>
     (\<forall>f k c k'. sys_accept os f k = (Inr c, k') \<longrightarrow> c \<notin> opened k \<and> opened k' = insert c (opened k)) \<and>
     (\<forall>f k. opened (sys_close os f k) = opened k - {f})"

lemma fd_contractD:
  assumes "fd_contract os opened"
  shows "sys_read os f n k = (a, k') \<Longrightarrow> opened k' = opened k"
    and "sys_write os f bs k = (b, k') \<Longrightarrow> opened k' = opened k"
    and "sys_getfl os f k = (r, k') \<Longrightarrow> opened k' = opened k"
    and "opened (snd (sys_setfl os f fl k)) = opened k"
    and "opened (snd (sys_epoll_ctl os ep op f ev k)) = opened k"
    and "sys_accept os f k = (Inl e, k') \<Longrightarrow> opened k' = opened k"
    and "sys_accept os f k = (Inr c, k') \<Longrightarrow> c \<notin> opened k \<and> opened k' = insert c (opened k)"
    and "opened (sys_close os f k) = opened k - {f}"
    and "f \<in> opened k \<Longrightarrow> 0 \<le> f"
proof -
  show "sys_read os f n k = (a, k') \<Longrightarrow> opened k' = opened k"
    and "sys_write os f bs k = (b, k') \<Longrightarrow> opened k' = opened k"
    and "sys_getfl os f k = (r, k') \<Longrightarrow> opened k' = opened k"
    and "opened (snd (sys_setfl os f fl k)) = opened k"
    and "opened (snd (sys_epoll_ctl os ep op f ev k)) = opened k"
    and "sys_accept os f k = (Inl e, k') \<Longrightarrow> opened k' = opened k"
    and "sys_accept os f k = (Inr c, k') \<Longrightarrow> c \<notin> opened k \<and> opened k' = insert c (opened k)"
    and "opened (sys_close os f k) = opened k - {f}"
    using assms unfolding fd_contract_def by - (elim conjE, metis snd_conv)+
  show "f \<in> opened k \<Longrightarrow> 0 \<le> f" using assms unfolding fd_contract_def by auto
qed

definition quiet :: "('k \<Rightarrow> fd set) \<Rightarrow> ('k, 'z) conn_world_scheme \<Rightarrow> ('k, 'z) conn_world_scheme \<Rightarrow> bool" where
  "quiet opened w w' \<longleftrightarrow> closed_conns w' = closed_conns w \<and> opened (kern (env w)) \<subseteq> opened (kern (env w'))"

lemma quiet_refl [simp]: "quiet opened w w"
  by (simp add: quiet_def)

lemma quiet_trans: "quiet opened w w1 \<Longrightarrow> quiet opened w1 w2 \<Longrightarrow> quiet opened w w2"
  by (auto simp: quiet_def)

lemma logged_opened:
  "(\<And>k. opened (snd (call k)) = opened k) \<Longrightarrow> opened (kern (logged msg call e)) = opened (kern e)"
  by (metis logged_cases snd_conv)

lemma set_mask_quiet:
  "fd_contract os opened \<Longrightarrow> set_mask os fl p on w = Inr w' \<Longrightarrow> quiet opened w w'"
  by (auto simp: set_mask_def update_event_def quiet_def logged_opened fd_contractD(5) Let_def)

lemma send_flag_quiet:
  assumes os: "fd_contract os opened" and run: "send_flag os c l w = Inr w'"
  shows "quiet opened w w'"
proof -
  obtain x ev where x: "conns w c = Some x"
    "(if isWritable ev then Inr (upd_conn c (x\<lparr>isWillClose := l\<rparr>) w)
      else res_bind (setWritable os (conn_event x) True (upd_conn c (x\<lparr>isWillClose := l\<rparr>) w))
             (setWriteCallback (conn_event x) (Cb_send_nonblock c))) = Inr w'"
    using run by (auto simp: send_flag_def Let_def split: if_splits)
  have "quiet opened w (upd_conn c (x\<lparr>isWillClose := l\<rparr>) w)" by (simp add: quiet_def upd_conn_def)
  moreover have "quiet opened (upd_conn c (x\<lparr>isWillClose := l\<rparr>) w) w'"
  proof (cases "isWritable ev")
    case False
    with x obtain w1 where w1: "setWritable os (conn_event x) True (upd_conn c (x\<lparr>isWillClose := l\<rparr>) w) = Inr w1"
      "setWriteCallback (conn_event x) (Cb_send_nonblock c) w1 = Inr w'" by auto
    then have "quiet opened w1 w'" by (auto simp: setWriteCallback_def quiet_def)
    then show ?thesis using set_mask_quiet [OF os w1(1) [unfolded setWritable_def]] quiet_trans by blast
  qed (use x in simp)
  ultimately show ?thesis by (rule quiet_trans)
qed

text \<open>
  A handler of connection \<open>c\<close> leaves it open, on its descriptor and in its state, or sets it aside as closed;
  it closes no descriptor.
\<close>

definition goes_on ::
  "('k \<Rightarrow> fd set) \<Rightarrow> conn_id \<Rightarrow> tcp_conn \<Rightarrow> ('k, 'z) conn_world_scheme \<Rightarrow> ('k, 'z) conn_world_scheme \<Rightarrow> bool" where
  "goes_on opened c x w w' \<longleftrightarrow>
     opened (kern (env w)) \<subseteq> opened (kern (env w')) \<and>
     (case conns w' c of
        Some y \<Rightarrow> conn_event y = conn_event x \<and> conn_state y = conn_state x \<and> sockfd y = sockfd x \<and>
          closed_conns w' c = closed_conns w c
      | None \<Rightarrow> \<exists>z. closed_conns w' c = Some z \<and> conn_state z = CLOSED \<and> sockfd z = sockfd x)"

lemma goes_on_quiet:
  "quiet opened w w' \<Longrightarrow> conns w' c = Some y \<Longrightarrow> conn_event y = conn_event x \<Longrightarrow>
     conn_state y = conn_state x \<Longrightarrow> sockfd y = sockfd x \<Longrightarrow>
     goes_on opened c x w w'"
  by (simp add: goes_on_def quiet_def)

lemma goes_on_trans:
  "goes_on opened c x w w1 \<Longrightarrow> conns w1 c = Some x1 \<Longrightarrow> goes_on opened c x1 w1 w2 \<Longrightarrow> goes_on opened c x w w2"
  by (auto simp: goes_on_def split: option.splits)

definition idle_callback_ok ::
  "(fd \<Rightarrow> 'k \<Rightarrow> (fd \<rightharpoonup> epoll_event)) \<Rightarrow> ('k \<Rightarrow> fd set) \<Rightarrow> 'k icb \<Rightarrow> bool" where
  "idle_callback_ok interest opened f \<longleftrightarrow>
     callback_ok interest f \<and>
     (\<forall>w c x w'. conn_inv interest w \<longrightarrow> conns w c = Some x \<longrightarrow> conn_state x \<noteq> BLANK \<longrightarrow> f c w = Inr w' \<longrightarrow>
        goes_on opened c x w w')"

lemma idle_callback_okD:
  assumes "idle_callback_ok interest opened f"
  shows "callback_ok interest f"
    and "conn_inv interest w \<Longrightarrow> conns w c = Some x \<Longrightarrow> conn_state x \<noteq> BLANK \<Longrightarrow> f c w = Inr w' \<Longrightarrow>
      goes_on opened c x w w'"
  using assms unfolding idle_callback_ok_def by blast+

definition idle_env_ok ::
  "'k os \<Rightarrow> (fd \<Rightarrow> 'k \<Rightarrow> bytes) \<Rightarrow> (fd \<Rightarrow> 'k \<Rightarrow> bytes) \<Rightarrow> (fd \<Rightarrow> 'k \<Rightarrow> (fd \<rightharpoonup> epoll_event)) \<Rightarrow> ('k \<Rightarrow> fd set) \<Rightarrow>
     'k idle_server \<Rightarrow> bool" where
  "idle_env_ok os inq outq interest opened srv \<longleftrightarrow>
     os_contract os inq outq interest \<and> fd_contract os opened \<and>
     (\<forall>f. idle_connMsg srv = Some f \<longrightarrow> idle_callback_ok interest opened f) \<and>
     (\<forall>f. idle_connEsta srv = Some f \<longrightarrow> idle_callback_ok interest opened f) \<and>
     (\<forall>f. idle_connClose srv = Some f \<longrightarrow> idle_callback_ok interest opened f \<and> close_callback_ok interest f)"

lemma idle_env_okD:
  assumes "idle_env_ok os inq outq interest opened srv"
  shows "os_contract os inq outq interest" and "fd_contract os opened"
    and "idle_connMsg srv = Some f \<Longrightarrow> idle_callback_ok interest opened f"
    and "idle_connEsta srv = Some f \<Longrightarrow> idle_callback_ok interest opened f"
    and "idle_connClose srv = Some f \<Longrightarrow> idle_callback_ok interest opened f"
    and "idle_connClose srv = Some f \<Longrightarrow> close_callback_ok interest f"
  using assms by (simp_all add: idle_env_ok_def)

subsection \<open>Closing sets aside\<close>

lemma idle_closeConnection_cases:
  assumes "conns w c = Some x"
  shows "idle_closeConnection os srv c cb w = close_common os retire_conn (idle_connClose srv) c w \<or>
    idle_closeConnection os srv c cb w = Inl Assert_failed"
  using assms by (simp add: idle_closeConnection_def)

interpretation idle_close: closing_source os inq outq interest "idle_env_ok os inq outq interest opened srv" retire_conn
  "\<lambda>c. idle_closeConnection os srv c cb" "\<lambda>x. idle_connClose srv" for os inq outq interest opened srv cb
proof unfold_locales
  fix w :: "'a iworld" and c x
  assume "conns w c = Some x"
  then show "idle_closeConnection os srv c cb w = close_common os retire_conn (idle_connClose srv) c w \<or>
      idle_closeConnection os srv c cb w = Inl Assert_failed"
    by (rule idle_closeConnection_cases)
qed (rule idle_env_okD retire_disposes, (assumption | erule idle_env_okD(1))+)+

interpretation idle_source: closing_source os inq outq interest "idle_env_ok os inq outq interest opened srv" retire_conn
  "idle_activeClose os srv" "\<lambda>x. idle_connClose srv" for os inq outq interest opened srv
proof unfold_locales
  fix w :: "'a iworld" and c x
  assume c: "conns w c = Some x"
  then show "idle_activeClose os srv c w = close_common os retire_conn (idle_connClose srv) c w \<or>
      idle_activeClose os srv c w = Inl Assert_failed"
    using idle_closeConnection_cases [OF c] by (simp add: idle_activeClose_def)
qed (rule idle_env_okD retire_disposes, (assumption | erule idle_env_okD(1))+)+

lemma close_goes_on:
  assumes ok: "idle_env_ok os inq outq interest opened srv" and inv: "conn_inv interest w"
    and c: "conns w c = Some x" and st: "conn_state x \<noteq> BLANK"
    and run: "close_common os retire_conn (idle_connClose srv) c w = Inr w'"
  shows "goes_on opened c x w w'"
proof (cases "contents (writeBuffer x) = []")
  case False
  note os = idle_env_okD(1,2) [OF ok]
  have bi: "buf_inv (writeBuffer x)" using event_of [OF inv c] by metis
  obtain w2 where "close_common os retire_conn (idle_connClose srv) c w = Inr w2" "conns w2 c = Some (x\<lparr>isWillClose := True\<rparr>)"
    using close_pending [OF os(1) inv c st False, of retire_conn "idle_connClose srv"] by metis
  then have c': "conns w' c = Some (x\<lparr>isWillClose := True\<rparr>)" using run by simp
  have "readableBytes (writeBuffer x) > 0" using False length_contents [OF bi] by (metis length_greater_0_conv)
  then obtain w1 where "setReadable os (conn_event x) False w = Inr w1" "send_flag os c True w1 = Inr w'"
    using run c by (auto simp: close_common_def)
  then have "quiet opened w w'"
    using set_mask_quiet [OF os(2)] send_flag_quiet [OF os(2)] quiet_trans unfolding setReadable_def by blast
  then show ?thesis using c' by (rule goes_on_quiet) simp_all
next
  case True
  note os = idle_env_okD(1,2) [OF ok]
  have bi: "buf_inv (writeBuffer x)" using event_of [OF inv c] by metis
  then have rb: "readableBytes (writeBuffer x) = 0" using True length_contents by force
  obtain w1 x1 where w1: "goes_on opened c x w w1" "conn_inv interest w1" "conns w1 c = Some x1"
    "res_bind (destroy os c w1) (retire_conn c) = Inr w'"
  proof (cases "idle_connClose srv")
    case None
    have "goes_on opened c x w w" using c by (intro goes_on_quiet [of opened w w]) simp_all
    then show ?thesis using that [of w x] run c rb inv None by (simp add: close_common_def)
  next
    case (Some f)
    with run c rb obtain w1 where r: "f c w = Inr w1" "res_bind (destroy os c w1) (retire_conn c) = Inr w'"
      by (auto simp: close_common_def)
    have "conns w1 c \<noteq> None"
      using idle_env_okD(6) [OF ok Some] r(1) unfolding close_callback_ok_def by blast
    then obtain x1 where "conns w1 c = Some x1" by auto
    then show ?thesis
      using that [of w1 x1] r idle_callback_okD(2) [OF idle_env_okD(5) [OF ok Some] inv c st r(1)]
        callback_okD(1) [OF idle_callback_okD(1) [OF idle_env_okD(5) [OF ok Some]] inv c st r(1)] by blast
  qed
  obtain w2 where w2: "res_bind (destroy os c w1) (retire_conn c) = Inr w2" "conns w2 c = None"
    "closed_conns w2 = (closed_conns w1)(c \<mapsto> x1\<lparr>conn_state := CLOSED\<rparr>)"
    "kern (env w2) = snd (sys_epoll_ctl os (loop_ep w1 (conn_loop x1)) CtlDel (sockfd x1)
        (events (the (evs w1 (conn_event x1))), conn_event x1) (kern (env w1)))"
    using retire_spec [OF os(1) w1(2,3)] by metis
  have "goes_on opened c x1 w1 w2"
    using w2(2-4) by (simp add: goes_on_def fd_contractD(5) [OF os(2)])
  then show ?thesis using goes_on_trans [OF w1(1,3)] w1(4) w2(1) by simp
qed

lemma idle_close_goes_on:
  assumes "idle_env_ok os inq outq interest opened srv" "conn_inv interest w" "conns w c = Some x" "conn_state x \<noteq> BLANK"
    and "idle_closeConnection os srv c cb w = Inr w'"
  shows "goes_on opened c x w w'"
  using close_goes_on [OF assms(1-4)] idle_closeConnection_cases [OF assms(3), of os srv cb] assms(5) by auto

subsection \<open>What a handler of a connection does\<close>

definition idle_outcome ::
  "(fd \<Rightarrow> 'k \<Rightarrow> (fd \<rightharpoonup> epoll_event)) \<Rightarrow> ('k \<Rightarrow> fd set) \<Rightarrow> conn_id \<Rightarrow> tcp_conn \<Rightarrow> 'k iworld \<Rightarrow> 'k iworld res \<Rightarrow> bool" where
  "idle_outcome interest opened c x w r \<longleftrightarrow>
     safe_outcome interest c (conn_event x) w r \<and> (\<forall>w'. r = Inr w' \<longrightarrow> goes_on opened c x w w')"

lemma idle_outcome_trans:
  assumes "frame c (conn_event x) w w1" "goes_on opened c x w w1" "conns w1 c = Some x1" "conn_event x1 = conn_event x"
    and "idle_outcome interest opened c x1 w1 r"
  shows "idle_outcome interest opened c x w r"
  using assms safe_outcome_frame [of c "conn_event x" w w1 interest r] goes_on_trans [OF assms(2,3)]
  unfolding idle_outcome_def by auto

lemma idle_callback_outcome:
  assumes "idle_callback_ok interest opened f" "conn_inv interest w" "conns w c = Some x" "conn_state x \<noteq> BLANK"
  shows "idle_outcome interest opened c x w (f c w)"
  unfolding idle_outcome_def
  using callback_safe [OF idle_callback_okD(1) [OF assms(1)] assms(2-4)] idle_callback_okD(2) [OF assms] by blast

lemma idle_close_outcome:
  assumes "idle_env_ok os inq outq interest opened srv" "conn_inv interest w" "conns w c = Some x" "conn_state x \<noteq> BLANK"
  shows "idle_outcome interest opened c x w (idle_closeConnection os srv c cb w)"
  unfolding idle_outcome_def using idle_close.close_safe [OF assms] idle_close_goes_on [OF assms] by blast

lemma idle_send_outcome:
  assumes ok: "idle_env_ok os inq outq interest opened srv" and inv: "conn_inv interest w" and c: "conns w c = Some x"
    and st: "conn_state x \<noteq> BLANK"
  shows "idle_outcome interest opened c x w (send_nonblock os (idle_activeClose os srv) c w)"
proof -
  note os = idle_env_okD(1,2) [OF ok]
  have "goes_on opened c x w w'" if run: "send_nonblock os (idle_activeClose os srv) c w = Inr w'" for w'
  proof -
    have bi: "buf_inv (writeBuffer x)" using event_of [OF inv c] by metis
    obtain a k where wr: "sys_write os (sockfd x) (contents (writeBuffer x)) (kern (env w)) = (a, k)" by fastforce
    show ?thesis
    proof (cases a)
      case (WrErr e)
      with send_nonblock_error [of w c x os e k "idle_activeClose os srv"] c bi wr run show ?thesis by simp
    next
      case (WrBytes n)
      obtain w1 x1 where f: "send_nonblock os (idle_activeClose os srv) c w =
          (if contents (writeBuffer x1) = [] \<and> isWillClose x then idle_activeClose os srv c w1 else Inr w1)"
        "conn_inv interest w1" "conns w1 c = Some x1" "x1 = x\<lparr>writeBuffer := writeBuffer x1\<rparr>"
        "closed_conns w1 = closed_conns w"
        "kern (env w1) = k \<or> (\<exists>ep f m. kern (env w1) = snd (sys_epoll_ctl os ep CtlMod f m k))"
        using send_nonblock_flush [OF os(1) inv c st wr [unfolded WrBytes], of "idle_activeClose os srv"] by metis
      have "opened (kern (env w1)) = opened (kern (env w))"
        using f(6) fd_contractD(2) [OF os(2) wr] fd_contractD(5) [OF os(2)] by auto
      then have q: "quiet opened w w1" using f(5) by (simp add: quiet_def)
      have x1: "conn_event x1 = conn_event x" "conn_state x1 = conn_state x" "sockfd x1 = sockfd x" by (subst f(4), simp)+
      have g: "goes_on opened c x w w1" using goes_on_quiet [OF q f(3) x1] .
      have eq: "idle_activeClose os srv c w1 = idle_closeConnection os srv c (destoryCallback x1) w1"
        using f(3) by (simp add: idle_activeClose_def)
      show ?thesis
      proof (cases "contents (writeBuffer x1) = [] \<and> isWillClose x")
        case True
        then have "idle_closeConnection os srv c (destoryCallback x1) w1 = Inr w'" using f(1) run eq by simp
        then show ?thesis using goes_on_trans [OF g f(3)] idle_close_goes_on [OF ok f(2,3)] st x1 by simp
      next
        case False
        then have "w' = w1" using f(1) run by (metis sum.inject(2))
        then show ?thesis using g by simp
      qed
    qed
  qed
  then show ?thesis unfolding idle_outcome_def using idle_source.send_safe [OF ok inv c st] by blast
qed

lemma conn_inv_received_at:
  assumes inv: "conn_inv interest w" and c: "conns w c = Some x" and st: "conn_state x \<noteq> BLANK"
    and b: "buf_inv b" and e: "\<And>ep. interest ep (kern e) = interest ep (kern (env w))"
    and w1: "w1 = (upd_conn c (x\<lparr>conn_data := d, readBuffer := b, lastReceiveTime := t\<rparr>) w)\<lparr>env := e\<rparr>"
  shows "conn_inv interest w1" "frame c (conn_event x) w w1"
    "conns w1 c = Some (x\<lparr>conn_data := d, readBuffer := b, lastReceiveTime := t\<rparr>)"
proof -
  show fr: "frame c (conn_event x) w w1" and c1: "conns w1 c = Some (x\<lparr>conn_data := d, readBuffer := b, lastReceiveTime := t\<rparr>)"
    by (simp_all add: w1 upd_conn_def frame_def)
  have reg: "registered interest w1"
    by (rule registered_cong [OF conn_invD(1) [OF inv]]) (simp_all add: w1 upd_conn_def e)
  obtain ev where ev: "evs w (conn_event x) = Some ev" "ev_fd ev = sockfd x"
    "epoller ev = loop_ep w (conn_loop x)" "buf_inv (readBuffer x)" "buf_inv (writeBuffer x)"
    "c < next_conn w" "isWritable ev \<longleftrightarrow> contents (writeBuffer x) \<noteq> []"
    "isWritable ev \<Longrightarrow> writeCallback ev = Some (Cb_send_nonblock c)" "cb_own c ev"
    using event_of [OF inv c] st by metis
  have "conn_ok w1 c (x\<lparr>conn_data := d, readBuffer := b, lastReceiveTime := t\<rparr>)"
    using ev b by (simp add: conn_ok_def w1 upd_conn_def)
  then show "conn_inv interest w1"
    using conn_inv_frame [OF inv c fr reg c1] by simp
qed

lemma idle_message_outcome:
  assumes ok: "idle_env_ok os inq outq interest opened srv" and inv: "conn_inv interest w" and c: "conns w c = Some x"
    and st: "conn_state x \<noteq> BLANK"
  shows "idle_outcome interest opened c x w (idle_preConnMsgCallback os srv c w)"
proof -
  note os = idle_env_okD(1,2) [OF ok]
  let ?l = "Some (localEventLoop w)"
  from os(1) inv c show ?thesis
  proof (cases rule: read_step)
    case no_memory
    then show ?thesis using c by (simp add: idle_preConnMsgCallback_def idle_outcome_def safe_outcome_error)
  next
    case (got n b e)
    have op: "opened (kern e) = opened (kern (env w))"
      by (rule read_from_socket_keeps [OF _ got(1)]) (rule fd_contractD(1) [OF os(2)])
    have step: "idle_outcome interest opened c x w r"
      if "buf_inv b1" "w1 = (upd_conn c (x\<lparr>conn_data := ?l, readBuffer := b1, lastReceiveTime := t\<rparr>) w)\<lparr>env := e\<lparr>logs := lg\<rparr>\<rparr>"
        "\<And>x1. conn_inv interest w1 \<Longrightarrow> conns w1 c = Some x1 \<Longrightarrow> conn_state x1 \<noteq> BLANK \<Longrightarrow>
           idle_outcome interest opened c x1 w1 r" for b1 w1 lg t r
    proof -
      let ?x = "x\<lparr>conn_data := ?l, readBuffer := b1, lastReceiveTime := t\<rparr>"
      have i: "interest ep (kern (e\<lparr>logs := lg\<rparr>)) = interest ep (kern (env w))" for ep by (simp add: got(3))
      note k = conn_inv_received_at [OF inv c st that(1) i that(2)]
      have g: "goes_on opened c x w w1"
        using op by (intro goes_on_quiet [OF _ k(3)]) (simp_all add: quiet_def that(2) upd_conn_def)
      have "conn_state ?x \<noteq> BLANK" using st by simp
      then show ?thesis using idle_outcome_trans [OF k(2) g k(3)] that(3) [OF k(1,3)] by simp
    qed
    obtain v b' lg where cd: "codec_check (idle_codec srv) b = (v, b', lg)" by (metis prod_cases3)
    define w1 where "w1 = (upd_conn c (x\<lparr>conn_data := ?l, readBuffer := b, lastReceiveTime := lastReceiveTime x\<rparr>) w)
      \<lparr>env := e\<lparr>logs := logs e\<rparr>\<rparr>"
    define w2 where "w2 = (upd_conn c (x\<lparr>conn_data := ?l, readBuffer := b, lastReceiveTime := lastReceiveTime x\<rparr>) w)
      \<lparr>env := e\<lparr>logs := logs e @ [Sys ''read from socket error'']\<rparr>\<rparr>"
    define w3 where "w3 = (upd_conn c (x\<lparr>conn_data := ?l, readBuffer := b', lastReceiveTime := timeInProcess w\<rparr>) w)
      \<lparr>env := e\<lparr>logs := logs e @ lg\<rparr>\<rparr>"
    have eq: "idle_preConnMsgCallback os srv c w =
       (if n = 0 then idle_closeConnection os srv c None w1
        else if n < 0 then idle_closeConnection os srv c None w2
        else if v then (case idle_connMsg srv of None \<Rightarrow> Inl Bad_function_call | Some f \<Rightarrow> f c w3) else Inr w3)"
      using c got(1) cd
      by (simp add: idle_preConnMsgCallback_def w1_def w2_def w3_def Let_def upd_conn_def add_log_def split: option.split)
    have close1: "idle_outcome interest opened c x w (idle_closeConnection os srv c None w1)"
      by (rule step [OF got(2) w1_def]) (rule idle_close_outcome [OF ok])
    have close2: "idle_outcome interest opened c x w (idle_closeConnection os srv c None w2)"
      by (rule step [OF got(2) w2_def]) (rule idle_close_outcome [OF ok])
    have deliver: "idle_outcome interest opened c x w
        (if v then (case idle_connMsg srv of None \<Rightarrow> Inl Bad_function_call | Some f \<Rightarrow> f c w3) else Inr w3)"
    proof (rule step [OF codec_check_keeps(1) [OF got(2) cd] w3_def])
      fix x1 assume k: "conn_inv interest w3" "conns w3 c = Some x1" "conn_state x1 \<noteq> BLANK"
      have "idle_outcome interest opened c x1 w3 (Inr w3)"
        unfolding idle_outcome_def
        using safe_outcome_done [OF k(1) frame_refl k(2,3)] goes_on_quiet [OF quiet_refl k(2) refl refl refl] by blast
      moreover have "idle_outcome interest opened c x1 w3 (f c w3)" if "idle_connMsg srv = Some f" for f
        using idle_callback_outcome [OF idle_env_okD(3) [OF ok that] k] .
      moreover have "idle_outcome interest opened c x1 w3 (Inl Bad_function_call)"
        by (simp add: idle_outcome_def safe_outcome_error)
      ultimately show "idle_outcome interest opened c x1 w3
        (if v then (case idle_connMsg srv of None \<Rightarrow> Inl Bad_function_call | Some f \<Rightarrow> f c w3) else Inr w3)"
        by (auto split: option.split)
    qed
    show ?thesis unfolding eq using close1 close2 deliver by simp
  qed
qed

subsection \<open>The invariant\<close>

text \<open>
  Every connection on the heap is in one of the two buckets of the wheel that are used, or in one task that was
  posted, and there once.  The open ones are established; the closed ones still hold their descriptors, which no
  event and no other connection has.
\<close>

definition wheel_conns :: "wheel \<Rightarrow> conn_id list" where
  "wheel_conns wh = bucket wh (curBucketIndex wh) @ bucket wh (prev_index wh)"

fun task_conn :: "wheel_task \<Rightarrow> conn_id" where
  "task_conn (DeleteConn c) = c"
| "task_conn (DestoryThenDeleteConn c) = c"

definition accounted :: "wheel \<Rightarrow> conn_id list" where
  "accounted wh = wheel_conns wh @ map (task_conn \<circ> snd) (posted wh)"

definition closed_ok :: "('k \<Rightarrow> fd set) \<Rightarrow> 'k iworld \<Rightarrow> conn_id \<Rightarrow> tcp_conn \<Rightarrow> bool" where
  "closed_ok opened w c y \<longleftrightarrow>
     conns w c = None \<and> c < next_conn w \<and> conn_state y = CLOSED \<and> sockfd y \<in> opened (kern (env w)) \<and>
     (\<forall>p ev. evs w p = Some ev \<longrightarrow> ev_fd ev \<noteq> sockfd y) \<and>
     (\<forall>d z. closed_conns w d = Some z \<longrightarrow> sockfd y = sockfd z \<longrightarrow> c = d)"

definition accounting :: "'k iworld \<Rightarrow> bool" where
  "accounting w \<longleftrightarrow>
     wheel_inv (wheelPolicy w) \<and> distinct (accounted (wheelPolicy w)) \<and>
     set (accounted (wheelPolicy w)) = dom (conns w) \<union> dom (closed_conns w) \<and>
     (\<forall>l c. (l, DeleteConn c) \<in> set (posted (wheelPolicy w)) \<longrightarrow> closed_conns w c \<noteq> None)"

definition idle_inv ::
  "(fd \<Rightarrow> 'k \<Rightarrow> (fd \<rightharpoonup> epoll_event)) \<Rightarrow> ('k \<Rightarrow> fd set) \<Rightarrow> 'k iworld \<Rightarrow> bool" where
  "idle_inv interest opened w \<longleftrightarrow>
     conn_inv interest w \<and>
     (\<forall>c x. conns w c = Some x \<longrightarrow> conn_state x = ESTABLISHED \<and> sockfd x \<in> opened (kern (env w))) \<and>
     (\<forall>c y. closed_conns w c = Some y \<longrightarrow> closed_ok opened w c y) \<and> accounting w"

lemma accountingD:
  assumes "accounting w"
  shows "wheel_inv (wheelPolicy w)" and "distinct (accounted (wheelPolicy w))"
    and "set (accounted (wheelPolicy w)) = dom (conns w) \<union> dom (closed_conns w)"
    and "(l, DeleteConn c) \<in> set (posted (wheelPolicy w)) \<Longrightarrow> closed_conns w c \<noteq> None"
  using assms unfolding accounting_def by - (elim conjE, assumption | blast)+

lemma idle_invD:
  assumes "idle_inv interest opened w"
  shows "conn_inv interest w"
    and "conns w c = Some x \<Longrightarrow> conn_state x = ESTABLISHED" and "conns w c = Some x \<Longrightarrow> sockfd x \<in> opened (kern (env w))"
    and "closed_conns w c = Some y \<Longrightarrow> conns w c = None" and "closed_conns w c = Some y \<Longrightarrow> c < next_conn w"
    and "closed_conns w c = Some y \<Longrightarrow> conn_state y = CLOSED"
    and "closed_conns w c = Some y \<Longrightarrow> sockfd y \<in> opened (kern (env w))"
    and "closed_conns w c = Some y \<Longrightarrow> evs w p = Some ev \<Longrightarrow> ev_fd ev \<noteq> sockfd y"
    and "closed_conns w c = Some y \<Longrightarrow> closed_conns w d = Some z \<Longrightarrow> sockfd y = sockfd z \<Longrightarrow> c = d"
    and "accounting w"
proof -
  show "conn_inv interest w" "accounting w"
    "conns w c = Some x \<Longrightarrow> conn_state x = ESTABLISHED" "conns w c = Some x \<Longrightarrow> sockfd x \<in> opened (kern (env w))"
    using assms unfolding idle_inv_def by blast+
  have ok: "closed_ok opened w c y" if "closed_conns w c = Some y"
    using assms that unfolding idle_inv_def by blast
  show "closed_conns w c = Some y \<Longrightarrow> conns w c = None" "closed_conns w c = Some y \<Longrightarrow> c < next_conn w"
    "closed_conns w c = Some y \<Longrightarrow> conn_state y = CLOSED" "closed_conns w c = Some y \<Longrightarrow> sockfd y \<in> opened (kern (env w))"
    "closed_conns w c = Some y \<Longrightarrow> evs w p = Some ev \<Longrightarrow> ev_fd ev \<noteq> sockfd y"
    "closed_conns w c = Some y \<Longrightarrow> closed_conns w d = Some z \<Longrightarrow> sockfd y = sockfd z \<Longrightarrow> c = d"
    using ok unfolding closed_ok_def by blast+
qed

text \<open>The part of the world that no handler of a connection touches.\<close>

lemma frame_idle:
  assumes "frame c p w w'"
  shows "idle_pool w' = idle_pool w" "wheelPolicy w' = wheelPolicy w" "timeInProcess w' = timeInProcess w"
  using frameD(7) [OF assms] by (cases w; cases w'; simp)+

lemma idle_inv_handler:
  assumes os: "fd_contract os opened" and inv: "idle_inv interest opened w" and c: "conns w c = Some x"
    and out: "idle_outcome interest opened c x w (Inr w')"
  shows "idle_inv interest opened w'" and "keeps_events {conn_event x} w w'"
proof -
  note i = idle_invD [OF inv]
  have o: "conn_inv interest w'" "frame c (conn_event x) w w'"
      "conns w' c = None \<Longrightarrow> evs w' (conn_event x) = None" "goes_on opened c x w w'"
    using out by (auto simp: idle_outcome_def safe_outcome_def)
  note fr = frameD [OF o(2)]
  obtain ev where ev: "evs w (conn_event x) = Some ev" "ev_fd ev = sockfd x" "c < next_conn w"
    using event_of [OF i(1) c] by metis
  have pos: "0 \<le> sockfd x" using fd_contractD(9) [OF os i(3) [OF c]] .
  have own: "ev_fd ev1 \<noteq> sockfd x" if "q \<noteq> conn_event x" "evs w q = Some ev1" for q ev1
    using that registeredD(4) [OF conn_invD(1) [OF i(1)] ev(1) that(2)] ev(2) pos by auto
  have nc: "closed_conns w c = None" using i(4) [of c] c by (cases "closed_conns w c") auto
  have op: "opened (kern (env w)) \<subseteq> opened (kern (env w'))" using o(4) by (simp add: goes_on_def)
  have fdx: "sockfd y \<noteq> sockfd x" if "closed_conns w d = Some y" for d y
    using i(8) [OF that ev(1)] ev(2) by simp
  consider (stays) y where "conns w' c = Some y" "conn_event y = conn_event x" "conn_state y = ESTABLISHED" "sockfd y = sockfd x" "closed_conns w' = closed_conns w"
    | (retired) z where "conns w' c = None" "closed_conns w' = (closed_conns w)(c \<mapsto> z)" "conn_state z = CLOSED"
        "sockfd z = sockfd x" "evs w' (conn_event x) = None"
  proof (cases "conns w' c")
    case (Some y)
    then have y: "conn_event y = conn_event x" "conn_state y = ESTABLISHED" "sockfd y = sockfd x" "closed_conns w' c = closed_conns w c"
      using o(4) i(2) [OF c] by (simp_all add: goes_on_def)
    have "closed_conns w' d = closed_conns w d" for d using y(4) fr(8) by (cases "d = c") auto
    then show ?thesis using that(1) [OF Some] y by blast
  next
    case None
    then obtain z where z: "closed_conns w' c = Some z" "conn_state z = CLOSED" "sockfd z = sockfd x"
      using o(4) by (auto simp: goes_on_def)
    have "closed_conns w' d = ((closed_conns w)(c \<mapsto> z)) d" for d using z(1) fr(8) by auto
    then show ?thesis using that(2) [OF None] z o(3) [OF None] by blast
  qed
  note split = this
  have opn: "conn_state y = ESTABLISHED \<and> sockfd y \<in> opened (kern (env w'))" if "conns w' d = Some y" for d y
  proof (cases "d = c")
    case True
    with that o(4) i(2,3) [OF c] op show ?thesis by (auto simp: goes_on_def)
  next
    case False
    then have "conns w d = Some y" using that fr(1) by simp
    then show ?thesis using i(2,3) op by blast
  qed
  have dom: "dom (conns w') \<union> dom (closed_conns w') = dom (conns w) \<union> dom (closed_conns w)"
    using split
  proof cases
    case (stays y)
    then have "conns w' = (conns w)(c \<mapsto> y)" using frame_conns [OF o(2)] by simp
    then show ?thesis using stays c by auto
  next
    case (retired z)
    then have "conns w' = (conns w)(c := None)" using frame_conns_gone [OF o(2)] by simp
    then show ?thesis using retired(2) c by auto
  qed
  have cl: "conns w' d = None \<and> d < next_conn w' \<and> conn_state y = CLOSED \<and> sockfd y \<in> opened (kern (env w'))"
    if "closed_conns w' d = Some y" for d y
    using split
  proof cases
    case (stays z)
    then have d: "closed_conns w d = Some y" using that by simp
    then have "d \<noteq> c" using nc by auto
    then show ?thesis using i(4-7) [OF d] fr(1,4) op by auto
  next
    case (retired z)
    show ?thesis
    proof (cases "d = c")
      case True
      then have "y = z" using that retired(2) by simp
      then show ?thesis using True retired ev(3) fr(4) i(3) [OF c] op by auto
    next
      case False
      then have d: "closed_conns w d = Some y" using that retired(2) by simp
      then show ?thesis using False i(4-7) [OF d] fr(1,4) op by auto
    qed
  qed
  have evc: "ev_fd ev1 \<noteq> sockfd y" if "closed_conns w' d = Some y" "evs w' q = Some ev1" for d y q ev1
  proof (cases "q = conn_event x")
    case True
    with that(2) have ne: "conns w' c \<noteq> None" using o(3) by auto
    obtain z where z: "conns w' c = Some z" "conn_event z = conn_event x" "sockfd z = sockfd x" "closed_conns w' = closed_conns w"
      using split
    proof cases
      case (stays v)
      show ?thesis by (rule that [OF stays(1,2,4,5)])
    qed (use ne in simp)
    have "ev_fd ev1 = sockfd x" using event_of [OF o(1) z(1)] that(2) True z(2,3) by (metis option.inject)
    then show ?thesis using fdx [of d y] that(1) z(4) by simp
  next
    case False
    then have old: "evs w q = Some ev1" using that(2) fr(2) by simp
    show ?thesis
    proof (cases "d = c")
      case True
      have "sockfd y = sockfd x" using split
        by cases (use that(1) True nc in auto)
      then show ?thesis using own [OF False old] by simp
    next
      case False
      then show ?thesis using i(8) [OF _ old] that(1) fr(8) by metis
    qed
  qed
  have inj: "d = e" if "closed_conns w' d = Some y" "closed_conns w' e = Some z" "sockfd y = sockfd z" for d e y z
    using split
  proof cases
    case (stays v)
    then show ?thesis using i(9) that by simp
  next
    case (retired v)
    then show ?thesis using i(9) [of d y e z] that fdx by (auto split: if_splits)
  qed
  note acc = accountingD [OF i(10)]
  have "closed_conns w' d \<noteq> None" if "(l, DeleteConn d) \<in> set (posted (wheelPolicy w))" for l d
    using split by cases (use acc(4) [OF that] in auto)
  then have "accounting w'"
    unfolding accounting_def frame_idle [OF o(2)] dom using acc(1-3) by blast
  moreover have "closed_ok opened w' d y" if "closed_conns w' d = Some y" for d y
    unfolding closed_ok_def using cl [OF that] evc [OF that] inj [OF that] by blast
  ultimately show "idle_inv interest opened w'"
    unfolding idle_inv_def using o(1) opn by blast
  show "keeps_events {conn_event x} w w'" by (rule keeps_events_frame [OF o(2)])
qed

subsection \<open>The wheel turns\<close>

definition judged :: "(conn_id \<rightharpoonup> tcp_conn) \<Rightarrow> conn_id \<Rightarrow> bool" where
  "judged heap c \<longleftrightarrow> (\<exists>x. heap c = Some x \<and> (conn_state x = ESTABLISHED \<or> conn_state x = CLOSED))"

lemma verdicts_account:
  assumes "\<forall>c \<in> set cs. judged heap c"
  shows "mset (map (task_conn \<circ> snd) (verdicts heap now cs)) + mset (filter (survives heap now) cs) = mset cs"
  using assms
proof (induction cs)
  case (Cons c cs)
  then obtain x where "heap c = Some x" "conn_state x = ESTABLISHED \<or> conn_state x = CLOSED"
    by (auto simp: judged_def)
  with Cons show ?case by (auto simp: verdict_def survives_def)
qed simp

text \<open>A tick moves connections to the other bucket or to a task, and loses none.\<close>

lemma erase_accounts:
  assumes inv: "wheel_inv wh" and heap: "\<forall>c \<in> set (wheel_conns wh). judged heap c"
  obtains wh' where "eraseIdleConnections heap now wh = Inr wh'" "wheel_inv wh'"
    "mset (accounted wh') = mset (accounted wh)"
    "\<And>l c. (l, DeleteConn c) \<in> set (posted wh') \<Longrightarrow>
      (l, DeleteConn c) \<in> set (posted wh) \<or> (\<exists>x. heap c = Some x \<and> conn_state x = CLOSED)"
proof -
  let ?p = "bucket wh (prev_index wh)"
  have live: "heap c \<noteq> None" if "c \<in> managed wh" for c
    using that heap managed_iff [OF inv] by (auto simp: wheel_conns_def judged_def)
  then obtain wh' where w': "eraseIdleConnections heap now wh = Inr wh'" "wheel_inv wh'"
    "posted wh' = posted wh @ verdicts heap now ?p"
    "bucket wh' (prev_index wh') = bucket wh (curBucketIndex wh) @ filter (survives heap now) ?p"
    "bucket wh' (curBucketIndex wh') = []"
    using erase_spec [OF inv, of heap now] by blast
  have "mset (map (task_conn \<circ> snd) (verdicts heap now ?p)) + mset (filter (survives heap now) ?p) = mset ?p"
    using heap by (intro verdicts_account) (simp add: wheel_conns_def)
  then have "mset (accounted wh') = mset (accounted wh)"
    by (simp add: accounted_def wheel_conns_def w'(3-5) ac_simps)
  moreover have "\<exists>x. heap c = Some x \<and> conn_state x = CLOSED" if "(l, DeleteConn c) \<in> set (verdicts heap now ?p)" for l c
    using that unfolding verdicts_iff by (auto simp: verdict_def split: option.splits if_splits)
  ultimately show ?thesis using that [OF w'(1,2)] w'(3) by fastforce
qed

lemma idle_heap_judged:
  assumes "idle_inv interest opened w" and "c \<in> dom (conns w) \<union> dom (closed_conns w)"
  shows "judged (idle_heap w) c"
proof (cases "closed_conns w c")
  case None
  then show ?thesis
    using assms idle_invD(2) [OF assms(1)] by (auto simp: judged_def idle_heap_def map_add_def)
next
  case (Some y)
  then show ?thesis
    using idle_invD(6) [OF assms(1) Some] by (auto simp: judged_def idle_heap_def)
qed

lemma idle_inv_env:
  assumes inv: "idle_inv interest opened w"
    and e: "\<And>ep. interest ep (kern e) = interest ep (kern (env w))" "opened (kern (env w)) \<subseteq> opened (kern e)"
  shows "idle_inv interest opened (w\<lparr>env := e\<rparr>)"
proof -
  have "conn_inv interest (w\<lparr>env := e\<rparr>)"
    by (rule conn_inv_same [OF idle_invD(1) [OF inv]]) (simp_all add: e(1))
  then show ?thesis
    using inv e(2) by (auto simp: idle_inv_def closed_ok_def accounting_def)
qed

lemma idle_tick_ok:
  assumes ok: "idle_env_ok os inq outq interest opened srv" and inv: "idle_inv interest opened w"
  obtains w' where "idle_tick os timerfd w = Inr w'" "idle_inv interest opened w'" "keeps_events {} w w'"
    "conns w' = conns w" "closed_conns w' = closed_conns w" "timeInProcess w' = timeInProcess w + 1"
proof -
  note os = idle_env_okD(1,2) [OF ok]
  obtain r k where r: "sys_read os timerfd 8 (kern (env w)) = (r, k)" by fastforce
  define w1 where "w1 = w\<lparr>env := (env w)\<lparr>kern := k\<rparr>\<rparr>"
  have w1: "timeInProcess w1 = timeInProcess w" "wheelPolicy w1 = wheelPolicy w" by (simp_all add: w1_def)
  have inv1: "idle_inv interest opened w1"
    unfolding w1_def
    by (rule idle_inv_env [OF inv])
      (simp_all add: frame_contractD(1) [OF os_contractD(3) [OF os(1)] r] fd_contractD(1) [OF os(2) r])
  note acc = accountingD [OF idle_invD(10) [OF inv1]]
  have "\<forall>c \<in> set (wheel_conns (wheelPolicy w1)). judged (idle_heap w1) c"
    using acc(3) idle_heap_judged [OF inv1] by (auto simp: accounted_def)
  then obtain wh where wh: "eraseIdleConnections (idle_heap w1) (timeInProcess w1 + 1) (wheelPolicy w1) = Inr wh" "wheel_inv wh"
    "mset (accounted wh) = mset (accounted (wheelPolicy w1))"
    "\<And>l c. (l, DeleteConn c) \<in> set (posted wh) \<Longrightarrow>
      (l, DeleteConn c) \<in> set (posted (wheelPolicy w1)) \<or> (\<exists>x. idle_heap w1 c = Some x \<and> conn_state x = CLOSED)"
    using erase_accounts [OF acc(1)] by metis
  define w' where "w' = w1\<lparr>timeInProcess := timeInProcess w1 + 1, wheelPolicy := wh\<rparr>"
  have run: "idle_tick os timerfd w = Inr w'"
    using r wh(1) by (simp add: idle_tick_def idle_timer_def w1_def [symmetric] w1 w'_def Let_def)
  have del: "closed_conns w' c \<noteq> None" if "(l, DeleteConn c) \<in> set (posted wh)" for l c
    using wh(4) [OF that]
  proof
    assume "(l, DeleteConn c) \<in> set (posted (wheelPolicy w1))"
    then show ?thesis using acc(4) by (simp add: w'_def)
  next
    assume "\<exists>x. idle_heap w1 c = Some x \<and> conn_state x = CLOSED"
    then show ?thesis
      using idle_invD(2) [OF inv1, of c] by (auto simp: idle_heap_def map_add_def w'_def split: option.splits)
  qed
  have "set (accounted wh) = set (accounted (wheelPolicy w1))" "distinct (accounted wh)"
    using wh(3) acc(2) by (metis mset_eq_setD, metis mset_eq_imp_distinct_iff)
  then have "accounting w'"
    using wh(2) acc(3) del by (auto simp: accounting_def w'_def)
  moreover have "conn_inv interest w'"
    by (rule conn_inv_same [OF idle_invD(1) [OF inv1]]) (simp_all add: w'_def)
  ultimately have "idle_inv interest opened w'"
    using inv1 by (simp add: idle_inv_def closed_ok_def w'_def)
  then show ?thesis
    using that [OF run] by (simp add: keeps_events_def w'_def w1_def)
qed

subsection \<open>What was posted runs\<close>

text \<open>\<open>take_task\<close>: the task leaves the queue of its loop.\<close>

definition take_task :: "loop_id \<Rightarrow> wheel_task \<Rightarrow> 'k iworld \<Rightarrow> 'k iworld" where
  "take_task l t w = w\<lparr>wheelPolicy := (wheelPolicy w)\<lparr>posted := remove1 (l, t) (posted (wheelPolicy w))\<rparr>, localEventLoop := l\<rparr>"

lemma take_task_accounts:
  assumes inv: "idle_inv interest opened w" and t: "(l, t) \<in> set (posted (wheelPolicy w))" and c: "task_conn t = c"
  shows "wheel_inv (wheelPolicy (take_task l t w))" "distinct (accounted (wheelPolicy (take_task l t w)))"
    "set (accounted (wheelPolicy (take_task l t w))) = dom (conns w) \<union> dom (closed_conns w) - {c}"
    "\<And>l' d. (l', DeleteConn d) \<in> set (posted (wheelPolicy (take_task l t w))) \<Longrightarrow> closed_conns w d \<noteq> None \<and> d \<noteq> c"
proof -
  note acc = accountingD [OF idle_invD(10) [OF inv]]
  let ?wh = "wheelPolicy w" and ?wh' = "wheelPolicy (take_task l t w)"
  have same: "wheeling ?wh' = wheeling ?wh" "curBucketIndex ?wh' = curBucketIndex ?wh"
    "posted ?wh' = remove1 (l, t) (posted ?wh)" by (simp_all add: take_task_def)
  then have p: "prev_index ?wh' = prev_index ?wh" by (simp add: prev_index_def)
  show "wheel_inv ?wh'" using acc(1) by (simp add: wheel_inv_def same p)
  have "mset (map (task_conn \<circ> snd) (posted ?wh)) = add_mset c (mset (map (task_conn \<circ> snd) (posted ?wh')))"
  proof -
    obtain ts us where "posted ?wh = ts @ (l, t) # us" "(l, t) \<notin> set ts" using split_list_first [OF t] by blast
    then show ?thesis using c by (simp add: same(3) remove1_append)
  qed
  then have m: "mset (accounted ?wh) = add_mset c (mset (accounted ?wh'))"
    by (simp add: accounted_def wheel_conns_def same p)
  then have "mset (accounted ?wh) = mset (c # accounted ?wh')" by simp
  then have d: "distinct (c # accounted ?wh')" "set (accounted ?wh) = set (c # accounted ?wh')"
    using acc(2) by (metis mset_eq_imp_distinct_iff, metis mset_eq_setD)
  then show "distinct (accounted ?wh')" by simp
  show "set (accounted ?wh') = dom (conns w) \<union> dom (closed_conns w) - {c}"
    using d acc(3) by auto
  show "closed_conns w e \<noteq> None \<and> e \<noteq> c" if "(l', DeleteConn e) \<in> set (posted ?wh')" for l' e
  proof
    have "(l', DeleteConn e) \<in> set (posted ?wh)" using that unfolding same(3) using set_remove1_subset by fast
    then show "closed_conns w e \<noteq> None" by (rule acc(4))
    have "e \<in> set (accounted ?wh')" using that by (force simp: accounted_def)
    then show "e \<noteq> c" using d(1) by auto
  qed
qed

lemma conn_inv_registered:
  assumes "conn_inv interest w" and "registered interest w'"
    and "conns w' = conns w" "evs w' = evs w" "next_conn w' = next_conn w" "loop_ep w' = loop_ep w"
  shows "conn_inv interest w'"
  using assms by (simp add: conn_inv_def conn_ok_def)

lemma idle_delete_ok:
  assumes ok: "idle_env_ok os inq outq interest opened srv" and inv: "idle_inv interest opened w"
    and t: "(l, DeleteConn c) \<in> set (posted (wheelPolicy w))"
  obtains w' where "idle_run_task os (DeleteConn c) (take_task l (DeleteConn c) w) = Inr w'" "idle_inv interest opened w'"
    "conns w' = conns w" "closed_conns w' = (closed_conns w)(c := None)"
proof -
  note os = idle_env_okD(1,2) [OF ok] and i = idle_invD [OF inv]
  obtain x where x: "closed_conns w c = Some x" using accountingD(4) [OF i(10) t] by auto
  define w0 where "w0 = take_task l (DeleteConn c) w"
  note acc = take_task_accounts [OF inv t, of c, folded w0_def, simplified]
  have w0: "conns w0 = conns w" "closed_conns w0 = closed_conns w" "evs w0 = evs w" "env w0 = env w"
    "next_ev w0 = next_ev w" "next_conn w0 = next_conn w" "loop_ep w0 = loop_ep w"
    by (simp_all add: w0_def take_task_def)
  define k where "k = (if sockfd x \<noteq> 0 then sys_close os (sockfd x) (kern (env w)) else kern (env w))"
  define w' where "w' = w0\<lparr>closed_conns := (closed_conns w)(c := None), env := (env w)\<lparr>kern := k\<rparr>\<rparr>"
  have run: "idle_run_task os (DeleteConn c) w0 = Inr w'"
    using x by (simp add: idle_delete_def Let_def w'_def k_def w0)
  have k: "opened (kern (env w)) - {sockfd x} \<subseteq> opened k"
    by (simp add: k_def fd_contractD(8) [OF os(2)])
  have "registered interest w'"
  proof (cases "sockfd x = 0")
    case True
    then show ?thesis
      by (intro registered_cong [OF conn_invD(1) [OF i(1)]]) (simp_all add: w'_def k_def w0)
  next
    case False
    then show ?thesis
      by (intro registered_close [OF os_contractD(3) [OF os(1)] conn_invD(1) [OF i(1)] i(8) [OF x]])
        (simp_all add: w'_def k_def w0)
  qed
  then have ci: "conn_inv interest w'"
    by (rule conn_inv_registered [OF i(1)]) (simp_all add: w'_def w0)
  have opn: "conn_state y = ESTABLISHED \<and> sockfd y \<in> opened k" if y: "conns w d = Some y" for d y
  proof -
    obtain ev where "evs w (conn_event y) = Some ev" "ev_fd ev = sockfd y" using event_of [OF i(1) y] by metis
    then have "sockfd y \<noteq> sockfd x" using i(8) [OF x] by metis
    then show ?thesis using i(2,3) [OF y] k by auto
  qed
  have cl: "closed_ok opened w' d y" if "closed_conns w' d = Some y" for d y
  proof -
    from that have d: "closed_conns w d = Some y" "d \<noteq> c" by (auto simp: w'_def split: if_splits)
    then have "sockfd y \<noteq> sockfd x" using i(9) [OF x d(1)] by auto
    then show ?thesis
      using i(4-9) [OF d(1)] k by (auto simp: closed_ok_def w'_def w0 split: if_splits)
  qed
  have c: "conns w c = None" using i(4) [OF x] .
  have "accounting w'"
    using acc c unfolding accounting_def w'_def by (auto simp: w0)
  then have "idle_inv interest opened w'"
    using ci opn cl by (simp add: idle_inv_def) (simp add: w'_def w0)
  then show ?thesis using that [of w'] run by (simp add: w0_def w'_def take_task_def)
qed

lemma idle_destroy_ok:
  assumes ok: "idle_env_ok os inq outq interest opened srv" and inv: "idle_inv interest opened w"
    and t: "(l, DestoryThenDeleteConn c) \<in> set (posted (wheelPolicy w))" and x: "conns w c = Some x"
  obtains w' where "idle_run_task os (DestoryThenDeleteConn c) (take_task l (DestoryThenDeleteConn c) w) = Inr w'"
    "idle_inv interest opened w'" "conns w' = (conns w)(c := None)" "closed_conns w' = closed_conns w"
proof -
  note os = idle_env_okD(1,2) [OF ok] and i = idle_invD [OF inv]
  define w0 where "w0 = take_task l (DestoryThenDeleteConn c) w"
  note acc = take_task_accounts [OF inv t, of c, folded w0_def, simplified]
  have w0: "conns w0 = conns w" "closed_conns w0 = closed_conns w" "evs w0 = evs w" "env w0 = env w"
    "next_ev w0 = next_ev w" "next_conn w0 = next_conn w" "loop_ep w0 = loop_ep w"
    by (simp_all add: w0_def take_task_def)
  have nc: "closed_conns w c = None" using i(4) [of c] x by (cases "closed_conns w c") auto
  have inv0: "conn_inv interest w0" by (rule conn_inv_same [OF i(1)]) (simp_all add: w0)
  have x0: "conns w0 c = Some x" using x w0 by simp
  obtain ev where ev: "evs w (conn_event x) = Some ev" "ev_fd ev = sockfd x" using event_of [OF i(1) x] by metis
  define k0 where "k0 = snd (sys_epoll_ctl os (loop_ep w0 (conn_loop x)) CtlDel (sockfd x)
        (events (the (evs w0 (conn_event x))), conn_event x) (kern (env w0)))"
  obtain w' where w': "res_bind (destroy os c w0) (delete_conn os c) = Inr w'" "conn_inv interest w'"
    "frame c (conn_event x) w0 w'" "conns w' c = None" "evs w' (conn_event x) = None"
    "kern (env w') = (if sockfd x \<noteq> 0 then sys_close os (sockfd x) k0 else k0)" "closed_conns w' = closed_conns w0"
    using dispose_spec [OF os(1) inv0 x0] unfolding k0_def Let_def by metis
  note fr = frameD [OF w'(3)]
  obtain e' where "destroy os c w0 = Inr (w0\<lparr>conns := (conns w0)(c \<mapsto> x\<lparr>conn_state := CLOSED\<rparr>), evs := (evs w0)(conn_event x := None), env := e'\<rparr>)"
    using destroy_spec [OF os(1) inv0 x0] by metis
  then have run: "idle_run_task os (DestoryThenDeleteConn c) w0 = Inr w'"
    using w'(1) nc by (simp add: idle_delete_def w0)
  have k: "opened (kern (env w)) - {sockfd x} \<subseteq> opened (kern (env w'))"
    using w'(6) by (auto simp: fd_contractD(5,8) [OF os(2)] k0_def w0)
  have conns: "conns w' = (conns w)(c := None)" using frame_conns_gone [OF w'(3,4)] w0(1) by simp
  have opn: "conn_state y = ESTABLISHED \<and> sockfd y \<in> opened (kern (env w'))" if "conns w' d = Some y" for d y
  proof -
    from that have d: "conns w d = Some y" "d \<noteq> c" by (auto simp: conns split: if_splits)
    then have "sockfd y \<noteq> sockfd x" using open_fds_differ [OF i(1) x d(1)] fd_contractD(9) [OF os(2) i(3) [OF x]] by blast
    then show ?thesis using i(2,3) [OF d(1)] k by auto
  qed
  have cl: "closed_ok opened w' d y" if "closed_conns w' d = Some y" for d y
  proof -
    from that have d: "closed_conns w d = Some y" using w'(7) w0 by simp
    have ne: "sockfd y \<noteq> sockfd x" using i(8) [OF d ev(1)] ev(2) by simp
    have "ev_fd ev' \<noteq> sockfd y" if "evs w' p = Some ev'" for p ev'
    proof -
      have "p \<noteq> conn_event x" using that w'(5) by auto
      then have "evs w p = Some ev'" using that fr(2) w0 by simp
      then show ?thesis using i(8) [OF d] by blast
    qed
    then show ?thesis
      using i(4-7) [OF d] i(9) [OF d] k ne fr(4) w'(7) unfolding closed_ok_def by (auto simp: conns w0)
  qed
  have wh: "wheelPolicy w' = wheelPolicy w0" using frame_idle(2) [OF w'(3)] .
  have dom: "dom (conns w) \<union> dom (closed_conns w) - {c} = dom (conns w') \<union> dom (closed_conns w')"
    using nc by (auto simp: conns w'(7) w0)
  have "accounting w'"
    unfolding accounting_def wh using acc dom w'(7) w0(2) by auto
  then have "idle_inv interest opened w'"
    unfolding idle_inv_def using w'(2) opn cl by blast
  then show ?thesis using that [of w'] run conns w'(7) w0(2) by (simp add: w0_def)
qed

lemma idle_task_late:
  assumes "closed_conns w c = Some x" and "idle_inv interest opened w"
  shows "idle_run_task os (DestoryThenDeleteConn c) (take_task l t w) = Inl Use_after_free"
  using idle_invD(4) [OF assms(2,1)] by (simp add: destroy_def take_task_def)

subsection \<open>Accepting\<close>

lemma addNewConnection_accounts:
  assumes "wheel_inv wh"
  shows "wheel_inv (addNewConnection c wh)" "posted (addNewConnection c wh) = posted wh"
    "mset (accounted (addNewConnection c wh)) = add_mset c (mset (accounted wh))"
proof -
  note i = wheel_index [OF assms]
  let ?wh = "addNewConnection c wh"
  have same: "curBucketIndex ?wh = curBucketIndex wh" "prev_index ?wh = prev_index wh" "posted ?wh = posted wh"
    "length (wheeling ?wh) = length (wheeling wh)"
    by (simp_all add: addNewConnection_def prev_index_def)
  have b: "bucket ?wh j = (if j = curBucketIndex wh then bucket wh j @ [c] else bucket wh j)" if "j < length (wheeling wh)" for j
    using that by (simp add: addNewConnection_def nth_list_update)
  show "posted ?wh = posted wh" by (rule same(3))
  have m: "MAX_IDLE_SECONDS = length (wheeling wh)" by (rule i(4) [symmetric])
  show "wheel_inv ?wh"
    using assms b unfolding wheel_inv_def same m by auto
  show "mset (accounted ?wh) = add_mset c (mset (accounted wh))"
    using b [OF i(1)] b [OF i(2)] i(3) by (simp add: accounted_def wheel_conns_def same)
qed

lemma setNonblock_opened:
  assumes "fd_contract os opened"
  shows "opened (kern (setNonblock os f e)) = opened (kern e)"
proof -
  obtain r k where r: "sys_getfl os f (kern e) = (r, k)" by fastforce
  show ?thesis
    using fd_contractD(3) [OF assms r] by (cases r) (simp_all add: setNonblock_def r logged_opened fd_contractD(4) [OF assms])
qed

lemma make_conn_quiet:
  assumes os: "fd_contract os opened"
  shows "make_event os f ep w = Inr (p, w') \<Longrightarrow> quiet opened w w'"
    and "makeHeapObject os p l w = Inr (c, w') \<Longrightarrow> quiet opened w w'"
  by (auto simp: make_event_def get_new_object_def add_event_def makeHeapObject_def quiet_def Let_def
      logged_opened fd_contractD(5) [OF os] setNonblock_opened [OF os])

lemma idle_new_connection_quiet:
  assumes os: "fd_contract os opened" and run: "idle_new_connection os f w = Inr (c, w')"
  shows "quiet opened w w'"
proof -
  obtain l p q w1 w2 x w5 where s: "make_event os f (loop_ep w l) (w\<lparr>idle_pool := p\<rparr>) = Inr (q, w1)"
    "makeHeapObject os q l w1 = Inr (c, w2)"
    "setReadCallback q (Cb_conn_msg c) ((upd_conn c (x\<lparr>lastReceiveTime := timeInProcess w2\<rparr>) w2)
        \<lparr>wheelPolicy := addNewConnection c (wheelPolicy w2)\<rparr>) = Inr w5"
    "setReadable os q True w5 = Inr w'"
    using run by (auto simp: idle_new_connection_def Let_def upd_conn_def)
  have "quiet opened w (w\<lparr>idle_pool := p\<rparr>)" by (simp add: quiet_def)
  moreover have "quiet opened w2 w5" using s(3) by (auto simp: setReadCallback_def quiet_def upd_conn_def)
  moreover have "quiet opened w5 w'" using s(4) set_mask_quiet [OF os] by (simp add: setReadable_def)
  moreover have "quiet opened (w\<lparr>idle_pool := p\<rparr>) w1" "quiet opened w1 w2"
    using make_conn_quiet [OF os] s(1,2) by blast+
  ultimately show ?thesis using quiet_trans by blast
qed

lemma idle_new_connection_ok:
  assumes ok: "idle_env_ok os inq outq interest opened srv" and inv: "idle_inv interest opened w"
    and fresh: "\<And>ep. interest ep (kern (env w)) f = None" and f: "f \<in> opened (kern (env w))"
    and new: "\<And>d y. closed_conns w d = Some y \<Longrightarrow> sockfd y \<noteq> f"
    and pool: "getNextPool (idle_pool w) = Inr (l, p)"
  obtains w' x where "idle_new_connection os f w = Inr (next_conn w, w')" "idle_inv interest opened w'"
    "conns w' (next_conn w) = Some x" "conn_state x = ESTABLISHED" "conn_event x = next_ev w" "keeps_events {} w w'"
    "evs w (next_ev w) = None"
proof -
  note os = idle_env_okD(1,2) [OF ok] and i = idle_invD [OF inv]
  let ?c = "next_conn w" and ?x = "new_conn (next_ev w) f l"
  define w0 where "w0 = w\<lparr>idle_pool := p\<rparr>"
  have w0: "evs w0 = evs w" "env w0 = env w" "next_ev w0 = next_ev w" "conns w0 = conns w" "closed_conns w0 = closed_conns w"
    "next_conn w0 = next_conn w" "loop_ep w0 = loop_ep w" "wheelPolicy w0 = wheelPolicy w" "timeInProcess w0 = timeInProcess w"
    by (simp_all add: w0_def)
  have inv0: "conn_inv interest w0" by (rule conn_inv_same [OF i(1)]) (simp_all add: w0)
  have fresh0: "interest ep (kern (env w0)) f = None" for ep using fresh by (simp add: w0)
  obtain w1 e where mk: "make_event os f (loop_ep w0 l) w0 = Inr (next_ev w0, w1)"
    "makeHeapObject os (next_ev w0) l w1 = Inr (next_conn w0, with_conn f l e w0)"
    "conn_inv interest (with_conn f l e w0)"
    using make_conn_spec [OF os(1) inv0 fresh0] by metis
  define w2 where "w2 = with_conn f l e w0"
  have w2: "wheelPolicy w2 = wheelPolicy w" "timeInProcess w2 = timeInProcess w" "closed_conns w2 = closed_conns w"
    by (simp_all add: w2_def with_conn_def w0)
  have x2: "conns w2 ?c = Some ?x" by (simp add: w2_def w0)
  define x where "x = ?x\<lparr>lastReceiveTime := timeInProcess w\<rparr>"
  define w3 where "w3 = upd_conn ?c x w2"
  have w3': "w3 = (upd_conn ?c (?x\<lparr>conn_data := conn_data ?x, readBuffer := readBuffer ?x, lastReceiveTime := timeInProcess w\<rparr>) w2)
      \<lparr>env := env w2\<rparr>" by (cases w2) (simp add: w3_def x_def new_conn_def upd_conn_def)
  have st: "conn_state ?x \<noteq> BLANK" by simp
  have inv3: "conn_inv interest w3"
    using conn_inv_received_at(1) [OF mk(3) [folded w2_def] x2 st _ _ w3'] by (simp add: w2_def)
  define w4 where "w4 = w3\<lparr>wheelPolicy := addNewConnection ?c (wheelPolicy w)\<rparr>"
  have inv4: "conn_inv interest w4" by (rule conn_inv_same [OF inv3]) (simp_all add: w4_def)
  have x4: "conns w4 ?c = Some x" "evs w4 (conn_event x) = Some (new_event f (loop_ep w l))"
    by (simp_all add: w4_def w3_def upd_conn_def w2_def x_def w0)
  obtain w' ev where w': "res_bind (setReadCallback (conn_event x) (Cb_conn_msg ?c) w4) (setReadable os (conn_event x) True) = Inr w'"
    "conn_inv interest w'" "frame ?c (conn_event x) w4 w'" "conns w' = conns w4" "evs w' = (evs w4)(conn_event x \<mapsto> ev)"
    "ev_fd ev = f"
    using listening_conn [OF os(1) inv4 x4] by (metis new_event_sel(1))
  have px: "conn_event x = next_ev w" by (simp add: x_def)
  obtain w5 where "setReadCallback (next_ev w) (Cb_conn_msg ?c) w4 = Inr w5" "setReadable os (next_ev w) True w5 = Inr w'"
    using w'(1) px by auto
  then have run: "idle_new_connection os f w = Inr (?c, w')"
    using pool mk(1,2) x2
    by (simp add: idle_new_connection_def w0_def [symmetric] w0 w2_def [symmetric] w2 x_def [symmetric] w3_def [symmetric] px)
      (simp add: w4_def w3_def upd_conn_def w2)
  have q: "quiet opened w w'" by (rule idle_new_connection_quiet [OF os(2) run])
  have sel: "conns w' = (conns w)(?c \<mapsto> x)" "next_conn w' = Suc ?c" "evs w' = (evs w)(next_ev w \<mapsto> ev)"
    "wheelPolicy w' = addNewConnection ?c (wheelPolicy w)"
    using w'(4,5) frameD(4) [OF w'(3)] frame_idle(2) [OF w'(3)]
    by (simp_all add: w4_def w3_def upd_conn_def w2_def w0 px)
  have old: "evs w (next_ev w) = None"
    using registeredD(1) [OF conn_invD(1) [OF i(1)], of "next_ev w"] by (cases "evs w (next_ev w)") auto
  have nc: "conns w ?c = None" "closed_conns w ?c = None"
    using event_of [OF i(1), of ?c] i(5) [of ?c] by (metis less_irrefl option.exhaust)+
  note acc = accountingD [OF i(10)] and add = addNewConnection_accounts [OF accountingD(1) [OF i(10)], of ?c]
  have "mset (accounted (wheelPolicy w')) = mset (?c # accounted (wheelPolicy w))" using add(3) sel(4) by simp
  then have "distinct (accounted (wheelPolicy w')) = distinct (?c # accounted (wheelPolicy w))"
    "set (accounted (wheelPolicy w')) = set (?c # accounted (wheelPolicy w))"
    by (metis mset_eq_imp_distinct_iff, metis mset_eq_setD)
  then have "accounting w'"
    using acc add(1,2) nc q unfolding accounting_def by (auto simp: sel quiet_def)
  moreover have "conn_state y = ESTABLISHED \<and> sockfd y \<in> opened (kern (env w'))" if "conns w' d = Some y" for d y
    using that i(2,3) [of d y] f q by (auto simp: sel(1) x_def quiet_def split: if_splits)
  moreover have "closed_ok opened w' d y" if "closed_conns w' d = Some y" for d y
  proof -
    from that q have d: "closed_conns w d = Some y" by (simp add: quiet_def)
    then have "d \<noteq> ?c" using nc by auto
    then show ?thesis
      using i(4-9) [OF d] new [OF d] q w'(6) unfolding closed_ok_def by (auto simp: sel quiet_def less_Suc_eq split: if_splits)
  qed
  ultimately have "idle_inv interest opened w'" unfolding idle_inv_def using w'(2) by blast
  moreover have "keeps_events {} w w'" by (simp add: keeps_events_def sel)
  ultimately show ?thesis
    using that [OF run _ _ _ px _ old] sel(1) by (simp add: x_def)
qed

lemma idle_accept_pass_ok:
  assumes ok: "idle_env_ok os inq outq interest opened srv" and inv: "idle_inv interest opened w"
  shows "idle_accept_pass os srv w \<noteq> Inl Use_after_free \<and>
    (\<forall>go w'. idle_accept_pass os srv w = Inr (go, w') \<longrightarrow> idle_inv interest opened w' \<and> keeps_events {} w w')"
proof -
  note os = idle_env_okD(1,2) [OF ok]
  obtain f e where acc: "socket_accept os (idle_listenfd srv) (env w) = (f, e)" by fastforce
  obtain a k where sa: "sys_accept os (idle_listenfd srv) (kern (env w)) = (a, k)" by fastforce
  have k: "kern e = k" using acc sa by (auto simp: socket_accept_def split: sum.splits if_splits)
  note a = socket_accept_cases [OF os_contractD(3) [OF os(1)] acc]
  define w0 where "w0 = w\<lparr>env := e\<rparr>"
  have op: "opened (kern (env w)) \<subseteq> opened (kern e)"
    using fd_contractD(6,7) [OF os(2)] sa k by (cases a) auto
  have inv0: "idle_inv interest opened w0"
    unfolding w0_def by (rule idle_inv_env [OF inv a(1) op])
  show ?thesis
  proof (cases "f \<le> 0")
    case True
    then show ?thesis using acc inv0 by (simp add: idle_accept_pass_def w0_def keeps_events_def)
  next
    case False
    then obtain k' where "sys_accept os (idle_listenfd srv) (kern (env w)) = (Inr f, k')" "e = (env w)\<lparr>kern := k'\<rparr>"
      using a(3) by auto
    then have f: "f \<notin> opened (kern (env w))" "f \<in> opened (kern (env w0))"
      using fd_contractD(7) [OF os(2)] by (auto simp: w0_def)
    have fresh: "interest ep (kern (env w0)) f = None" for ep using a(2) False by (simp add: w0_def)
    have new: "sockfd y \<noteq> f" if "closed_conns w0 d = Some y" for d y
      using idle_invD(7) [OF inv, of d y] that f(1) by (auto simp: w0_def)
    show ?thesis
    proof (cases "getNextPool (idle_pool w0)")
      case (Inl err)
      then have "idle_accept_pass os srv w = Inl err"
        using acc False by (simp add: idle_accept_pass_def w0_def idle_new_connection_def)
      then show ?thesis using getNextPool_errors [OF Inl] by auto
    next
      case (Inr lp)
      obtain l p where lp: "getNextPool (idle_pool w0) = Inr (l, p)" using Inr by (cases lp) simp
      obtain w1 x where n: "idle_new_connection os f w0 = Inr (next_conn w0, w1)" "idle_inv interest opened w1"
        "conns w1 (next_conn w0) = Some x" "conn_state x = ESTABLISHED" "conn_event x = next_ev w0" "keeps_events {} w0 w1"
        "evs w0 (next_ev w0) = None"
        by (rule idle_new_connection_ok [OF ok inv0 fresh f(2) new lp])
      have k1: "keeps_events {} w w1" "evs w (next_ev w0) = None" using n(6,7) by (simp_all add: keeps_events_def w0_def)
      have st: "conn_state x \<noteq> BLANK" using n(4) by simp
      have pass: "idle_accept_pass os srv w = (case idle_connEsta srv of None \<Rightarrow> Inr (True, w1)
          | Some g \<Rightarrow> res_bind (g (next_conn w0) w1) (\<lambda>w2. Inr (True, w2)))"
        using acc False n(1) by (simp add: idle_accept_pass_def w0_def split: option.split)
      show ?thesis
      proof (cases "idle_connEsta srv")
        case None
        then show ?thesis using pass n(2) k1 by simp
      next
        case (Some g)
        note out = idle_callback_outcome [OF idle_env_okD(4) [OF ok Some] idle_invD(1) [OF n(2)] n(3) st]
        show ?thesis
        proof (cases "g (next_conn w0) w1")
          case (Inl err)
          then show ?thesis using pass Some out by (auto simp: idle_outcome_def safe_outcome_def)
        next
          case (Inr w2)
          note h = idle_inv_handler [OF idle_env_okD(2) [OF ok] n(2,3) out [unfolded Inr]]
          have "keeps_events {} w w2"
            using keeps_events_trans [OF k1(1) h(2)] k1(2) n(5) unfolding keeps_events_def by (metis Un_iff empty_iff singletonD)
          then show ?thesis using pass Some Inr h(1) by simp
        qed
      qed
    qed
  qed
qed

lemma idle_acceptCallback_ok:
  assumes ok: "idle_env_ok os inq outq interest opened srv" and "idle_inv interest opened w"
    and run: "idle_acceptCallback os srv w = Some r"
  shows "r \<noteq> Inl Use_after_free \<and> (\<forall>w'. r = Inr w' \<longrightarrow> idle_inv interest opened w' \<and> keeps_events {} w w')"
proof -
  have "os' = os \<and> srv' = srv \<and> idle_inv interest opened w0 \<longrightarrow>
      r \<noteq> Inl Use_after_free \<and> (\<forall>w'. r = Inr w' \<longrightarrow> idle_inv interest opened w' \<and> keeps_events {} w0 w')"
    if "idle_acceptCallback os' srv' w0 = Some r" for os' srv' w0 r
  proof (rule idle_acceptCallback.raw_induct [where P = "\<lambda>os' srv' w0 r. os' = os \<and> srv' = srv \<and>
      idle_inv interest opened w0 \<longrightarrow> r \<noteq> Inl Use_after_free \<and>
      (\<forall>w'. r = Inr w' \<longrightarrow> idle_inv interest opened w' \<and> keeps_events {} w0 w')", OF _ that], goal_cases)
    case (1 rec os' srv' w0 r)
    show ?case
    proof (intro impI, elim conjE)
      assume same: "os' = os" "srv' = srv" and inv: "idle_inv interest opened w0"
      note ap = idle_accept_pass_ok [OF ok inv]
      show "r \<noteq> Inl Use_after_free \<and> (\<forall>w'. r = Inr w' \<longrightarrow> idle_inv interest opened w' \<and> keeps_events {} w0 w')"
      proof (cases "idle_accept_pass os srv w0")
        case (Inl err)
        then show ?thesis using 1(2) same ap by auto
      next
        case (Inr t)
        obtain go w1 where t: "t = (go, w1)" by (cases t)
        have p: "idle_inv interest opened w1" "keeps_events {} w0 w1" using ap Inr t by auto
        show ?thesis
        proof (cases go)
          case False
          then show ?thesis using 1(2) same Inr t p by auto
        next
          case True
          then have "rec os srv w1 = Some r" using 1(2) same Inr t by simp
          from 1(1) [OF this] p have "r \<noteq> Inl Use_after_free \<and>
              (\<forall>w'. r = Inr w' \<longrightarrow> idle_inv interest opened w' \<and> keeps_events {} w1 w')" by blast
          then show ?thesis using p keeps_events_trans [of "{}" w0 w1 "{}"] by auto
        qed
      qed
    qed
  qed
  from this [OF run] show ?thesis using assms(2) by blast
qed

subsection \<open>A pass of a loop\<close>

definition idle_others_ok ::
  "(fd \<Rightarrow> 'k \<Rightarrow> (fd \<rightharpoonup> epoll_event)) \<Rightarrow> ('k \<Rightarrow> fd set) \<Rightarrow> (callback \<Rightarrow> 'k iworld \<Rightarrow> 'k iworld res) \<Rightarrow> bool" where
  "idle_others_ok interest opened rest \<longleftrightarrow>
     (\<forall>cb w. idle_inv interest opened w \<longrightarrow> rest cb w \<noteq> Inl Use_after_free \<and>
        (\<forall>w'. rest cb w = Inr w' \<longrightarrow> idle_inv interest opened w' \<and> keeps_events {} w w'))"

lemma idle_inv_outcome:
  assumes os: "fd_contract os opened" and inv: "idle_inv interest opened w" and c: "conns w c = Some x"
    and out: "idle_outcome interest opened c x w r"
  shows "r \<noteq> Inl Use_after_free \<and> (\<forall>w'. r = Inr w' \<longrightarrow> idle_inv interest opened w' \<and> keeps_events {conn_event x} w w')"
proof (cases r)
  case (Inl err)
  then show ?thesis using out by (auto simp: idle_outcome_def safe_outcome_def)
next
  case (Inr w')
  then show ?thesis using idle_inv_handler [OF os inv c out [unfolded Inr]] by simp
qed

lemma idle_callback_keeps:
  assumes ok: "idle_env_ok os inq outq interest opened srv" and others: "idle_others_ok interest opened rest"
    and inv: "idle_inv interest opened w" and ev: "evs w p = Some ev" and cb: "handle ev = Some cb"
  shows "idle_callback os srv timerfd rest cb w \<noteq> Inl Use_after_free \<and>
    (\<forall>w'. idle_callback os srv timerfd rest cb w = Inr w' \<longrightarrow> idle_inv interest opened w' \<and> keeps_events {p} w w')"
proof -
  have up: "keeps_events {} w w' \<Longrightarrow> keeps_events {p} w w'" for w' by (simp add: keeps_events_def)
  have rest: ?thesis if "idle_callback os srv timerfd rest cb w = rest cb w"
    using others inv up that unfolding idle_others_ok_def by metis
  have owned: "\<exists>x. conns w c = Some x \<and> conn_event x = p \<and> conn_state x \<noteq> BLANK" if "names_conn cb c" for c
    using named_owner [OF idle_invD(1) [OF inv] ev, of c] handle_named [OF cb that] idle_invD(2) [OF inv, of c]
    by (metis conn_state.distinct(1))
  show ?thesis
  proof (cases cb)
    case Cb_accept
    then show ?thesis
      using idle_acceptCallback_ok [OF ok inv] up
      by (cases "idle_acceptCallback os srv w") (simp_all add: idle_callback_def)
  next
    case (Cb_conn_msg c)
    then obtain x where x: "conns w c = Some x" "conn_event x = p" "conn_state x \<noteq> BLANK" using owned [of c] by auto
    from idle_inv_outcome [OF idle_env_okD(2) [OF ok] inv x(1) idle_message_outcome [OF ok idle_invD(1) [OF inv] x(1,3)]]
    show ?thesis using Cb_conn_msg x(2) by (simp add: idle_callback_def)
  next
    case (Cb_send_nonblock c)
    then obtain x where x: "conns w c = Some x" "conn_event x = p" "conn_state x \<noteq> BLANK" using owned [of c] by auto
    from idle_inv_outcome [OF idle_env_okD(2) [OF ok] inv x(1) idle_send_outcome [OF ok idle_invD(1) [OF inv] x(1,3)]]
    show ?thesis using Cb_send_nonblock x(2) by (simp add: idle_callback_def)
  next
    case (Cb_timer n)
    obtain w' where "idle_tick os timerfd w = Inr w'" "idle_inv interest opened w'" "keeps_events {} w w'"
      using idle_tick_ok [OF ok inv] by metis
    then show ?thesis using Cb_timer up by (simp add: idle_callback_def)
  qed (rule rest, simp add: idle_callback_def)+
qed

interpretation idle_loop: dispatcher interest "idle_inv interest opened" "\<lambda>_. idle_callback os srv timerfd rest"
  "idle_env_ok os inq outq interest opened srv \<and> idle_others_ok interest opened rest" for os inq outq interest opened srv timerfd rest
proof unfold_locales
  fix w :: "'a iworld"
  show "registered interest w" if "idle_inv interest opened w" using conn_invD(1) [OF idle_invD(1) [OF that]] .
  show "idle_inv interest opened (w\<lparr>evs := es\<rparr>)"
    if inv: "idle_inv interest opened w" and same: "same_but_revents w es" for es
  proof -
    note ci = conn_inv_revents [OF idle_invD(1) [OF inv] same]
    have "ev_fd ev \<noteq> sockfd y" if "closed_conns w c = Some y" "es p = Some ev" for c y p ev
    proof -
      from same_but_revents_cases(2) [OF same that(2)]
      obtain ev0 where "evs w p = Some ev0" "ev\<lparr>revents := 0\<rparr> = ev0\<lparr>revents := 0\<rparr>" by blast
      moreover from this(2) have "ev_fd ev = ev_fd ev0" by (cases ev, cases ev0) simp
      ultimately show ?thesis using idle_invD(8) [OF inv that(1)] by simp
    qed
    then show ?thesis using inv ci by (simp add: idle_inv_def closed_ok_def accounting_def)
  qed
  show "idle_inv interest opened (w\<lparr>env := add_log l (env w)\<rparr>)" if "idle_inv interest opened w" for l
    by (rule idle_inv_env [OF that]) simp_all
  show "idle_callback os srv timerfd rest cb w \<noteq> Inl Use_after_free \<and>
      (\<forall>w'. idle_callback os srv timerfd rest cb w = Inr w' \<longrightarrow> idle_inv interest opened w' \<and> keeps_events {p} w w')"
    if "idle_env_ok os inq outq interest opened srv \<and> idle_others_ok interest opened rest" "idle_inv interest opened w"
      "evs w p = Some ev" "handle ev = Some cb" for p ev cb using idle_callback_keeps that by blast
qed

subsection \<open>The timer is made\<close>

lemma idle_inv_loop: "idle_inv interest opened (w\<lparr>localEventLoop := l\<rparr>) = idle_inv interest opened w"
proof -
  have "registered interest (w\<lparr>localEventLoop := l\<rparr>) = registered interest w" by (simp add: registered_def)
  then show ?thesis by (simp add: idle_inv_def conn_inv_def conn_ok_def closed_ok_def accounting_def)
qed

text \<open>What \<open>timerfd_create\<close> and \<open>timerfd_settime\<close> do to the kernel that the timer is made in.\<close>

definition timerfd_ok ::
  "(fd \<Rightarrow> 'k \<Rightarrow> (fd \<rightharpoonup> epoll_event)) \<Rightarrow> ('k \<Rightarrow> fd set) \<Rightarrow> ('k \<Rightarrow> fd \<times> 'k) \<Rightarrow> (fd \<Rightarrow> 'k \<Rightarrow> 'k) \<Rightarrow> 'k \<Rightarrow> bool" where
  "timerfd_ok interest opened create settime k \<longleftrightarrow>
     (case create k of (f, k') \<Rightarrow> f \<notin> opened k \<and> opened k' = insert f (opened k) \<and>
        (\<forall>ep. interest ep k' = interest ep k \<and> interest ep k f = None) \<and>
        opened (settime f k') = opened k' \<and> (\<forall>ep. interest ep (settime f k') = interest ep k'))"

lemma createIdleConnTimer_ok:
  assumes ok: "idle_env_ok os inq outq interest opened srv" and inv: "idle_inv interest opened w"
    and tfd: "timerfd_ok interest opened create settime (kern (env w))"
  obtains f w' ev where "createIdleConnTimer os create settime ep w = Inr (f, w')" "idle_inv interest opened w'"
    "evs w' = (evs w)(next_ev w \<mapsto> ev)" "ev_fd ev = f" "epoller ev = ep" "isReadable ev" "readCallback ev = Some (Cb_timer 0)"
    "conns w' = conns w" "closed_conns w' = closed_conns w" "wheelPolicy w' = wheelPolicy w"
proof -
  note os = idle_env_okD(1,2) [OF ok] and i = idle_invD [OF inv]
  obtain f k where f: "create (kern (env w)) = (f, k)" by fastforce
  define w1 where "w1 = w\<lparr>env := (env w)\<lparr>kern := settime f k\<rparr>\<rparr>"
  have k: "f \<notin> opened (kern (env w))" "opened (kern (env w1)) = insert f (opened (kern (env w)))"
    "\<And>e. interest e (kern (env w1)) = interest e (kern (env w))" "\<And>e. interest e (kern (env w1)) f = None"
    using tfd f by (simp_all add: timerfd_ok_def w1_def)
  have inv1: "idle_inv interest opened w1"
    unfolding w1_def by (rule idle_inv_env [OF inv]) (use k(2,3) in \<open>auto simp: w1_def\<close>)
  note ci1 = idle_invD(1) [OF inv1]
  obtain w2 ev e where c: "make_event os f ep w1 = Inr (next_ev w1, w2)"
    "res_bind (setReadCallback (next_ev w1) (Cb_timer 0) w2) (setReadable os (next_ev w1) True) =
       Inr (w1\<lparr>evs := (evs w1)(next_ev w1 \<mapsto> ev), next_ev := Suc (next_ev w1), env := e\<rparr>)"
    "registered interest (w1\<lparr>evs := (evs w1)(next_ev w1 \<mapsto> ev), next_ev := Suc (next_ev w1), env := e\<rparr>)"
    "ev_fd ev = f" "epoller ev = ep" "isReadable ev" "readCallback ev = Some (Cb_timer 0)" "cb_free ev"
    using event_with_callback [OF os(1) conn_invD(1) [OF ci1] k(4), of ep "Cb_timer 0"] by (metis names_conn_simps)
  define w' where "w' = w1\<lparr>evs := (evs w1)(next_ev w1 \<mapsto> ev), next_ev := Suc (next_ev w1), env := e\<rparr>"
  have sel: "conns w' = conns w" "closed_conns w' = closed_conns w" "wheelPolicy w' = wheelPolicy w" "next_conn w' = next_conn w"
    "evs w' = (evs w)(next_ev w \<mapsto> ev)" "loop_ep w' = loop_ep w" by (simp_all add: w'_def w1_def)
  obtain w3 where w3: "setReadCallback (next_ev w1) (Cb_timer 0) w2 = Inr w3" "setReadable os (next_ev w1) True w3 = Inr w'"
    using c(2) by (auto simp: w'_def)
  then have run: "createIdleConnTimer os create settime ep w = Inr (f, w')"
    using f c(1) by (simp add: createIdleConnTimer_def w1_def [symmetric])
  have "quiet opened w1 w2" using make_conn_quiet(1) [OF os(2) c(1)] .
  moreover have "quiet opened w2 w3" using w3(1) by (auto simp: setReadCallback_def quiet_def)
  moreover have "quiet opened w3 w'" using w3(2) set_mask_quiet [OF os(2)] by (simp add: setReadable_def)
  ultimately have "quiet opened w1 w'" using quiet_trans by blast
  then have op: "opened (kern (env w)) \<subseteq> opened (kern (env w'))" using k(2) by (auto simp: quiet_def)
  have "conn_inv interest w'"
  proof (rule conn_inv_extend [OF ci1])
    show "registered interest w'" using c(3) by (simp add: w'_def)
    show "evs w' q = Some ev'" if "evs w1 q = Some ev'" for q ev'
      using that fresh_next [OF conn_invD(1) [OF ci1] that] by (simp add: w'_def)
    show "cb_free ev'" if "evs w1 q = None" "evs w' q = Some ev'" for q ev'
      using that c(8) by (auto simp: w'_def split: if_splits)
  qed (simp_all add: w'_def)
  moreover have "closed_ok opened w' d y" if "closed_conns w' d = Some y" for d y
  proof -
    from that have d: "closed_conns w d = Some y" by (simp add: sel)
    have "sockfd y \<noteq> f" using i(7) [OF d] k(1) by auto
    then show ?thesis using i(4-9) [OF d] op c(4) by (auto simp: closed_ok_def sel split: if_splits)
  qed
  moreover have "accounting w'" using i(10) by (simp add: accounting_def sel)
  moreover have "conn_state x = ESTABLISHED \<and> sockfd x \<in> opened (kern (env w'))" if "conns w' d = Some x" for d x
    using i(2,3) [of d x] that op by (auto simp: sel)
  ultimately have "idle_inv interest opened w'" unfolding idle_inv_def by blast
  then show ?thesis using that [OF run _ sel(5) c(4-7) sel(1-3)] by blast
qed

subsection \<open>The life of the server\<close>

text \<open>
  The timer is made; then the loops make passes, run what the wheel has posted to them, users run callbacks on
  live connections, and the kernel moves on, in any order.
\<close>

inductive idle_life ::
  "'k os \<Rightarrow> ('k \<Rightarrow> fd \<times> 'k) \<Rightarrow> (fd \<Rightarrow> 'k \<Rightarrow> 'k) \<Rightarrow> (fd \<Rightarrow> 'k \<Rightarrow> (fd \<rightharpoonup> epoll_event)) \<Rightarrow> ('k \<Rightarrow> fd set) \<Rightarrow>
     'k idle_server \<Rightarrow> (callback \<Rightarrow> 'k iworld \<Rightarrow> 'k iworld res) \<Rightarrow> fd \<Rightarrow> 'k iworld \<Rightarrow> 'k iworld \<Rightarrow> bool"
  for os create settime interest opened srv rest timerfd w0 where
  timer: "createIdleConnTimer os create settime (loop_ep w0 l) w0 = Inr (timerfd, w) \<Longrightarrow>
    idle_life os create settime interest opened srv rest timerfd w0 w"
| pass: "idle_life os create settime interest opened srv rest timerfd w0 w \<Longrightarrow>
    wait_answer_ok interest (loop_ep w l) (kern (env w)) answer \<Longrightarrow>
    loop_pass (idle_callback os srv timerfd rest) answer (w\<lparr>localEventLoop := l\<rparr>) = Inr w' \<Longrightarrow>
    idle_life os create settime interest opened srv rest timerfd w0 w'"
| posted_task: "idle_life os create settime interest opened srv rest timerfd w0 w \<Longrightarrow>
    (l, t) \<in> set (posted (wheelPolicy w)) \<Longrightarrow> idle_run_task os t (take_task l t w) = Inr w' \<Longrightarrow>
    idle_life os create settime interest opened srv rest timerfd w0 w'"
| user: "idle_life os create settime interest opened srv rest timerfd w0 w \<Longrightarrow> idle_callback_ok interest opened f \<Longrightarrow>
    conns w c = Some x \<Longrightarrow> f c (w\<lparr>localEventLoop := conn_loop x\<rparr>) = Inr w' \<Longrightarrow>
    idle_life os create settime interest opened srv rest timerfd w0 w'"
| kernel: "idle_life os create settime interest opened srv rest timerfd w0 w \<Longrightarrow>
    (\<And>ep. interest ep k = interest ep (kern (env w))) \<Longrightarrow> opened (kern (env w)) \<subseteq> opened k \<Longrightarrow>
    idle_life os create settime interest opened srv rest timerfd w0 (w\<lparr>env := (env w)\<lparr>kern := k\<rparr>\<rparr>)"

text \<open>A posted task: a connection set aside is deleted, an open one destroyed and deleted, nothing else.\<close>

definition task_result :: "'k os \<Rightarrow> loop_id \<Rightarrow> wheel_task \<Rightarrow> 'k iworld \<Rightarrow> 'k iworld res \<Rightarrow> bool" where
  "task_result os l t w r \<longleftrightarrow>
     (case t of
        DeleteConn c \<Rightarrow> (\<exists>w'. r = Inr w' \<and> conns w' = conns w \<and> closed_conns w' = (closed_conns w)(c := None))
      | DestoryThenDeleteConn c \<Rightarrow>
          if conns w c = None then r = Inl Use_after_free
          else (\<exists>w'. r = Inr w' \<and> conns w' = (conns w)(c := None) \<and> closed_conns w' = closed_conns w))"

lemma posted_task_ok:
  assumes ok: "idle_env_ok os inq outq interest opened srv" and inv: "idle_inv interest opened w"
    and t: "(l, t) \<in> set (posted (wheelPolicy w))"
  shows "task_result os l t w (idle_run_task os t (take_task l t w)) \<and>
    (\<forall>w'. idle_run_task os t (take_task l t w) = Inr w' \<longrightarrow> idle_inv interest opened w')"
proof (cases t)
  case (DeleteConn c)
  obtain w' where "idle_run_task os t (take_task l t w) = Inr w'" "idle_inv interest opened w'"
    "conns w' = conns w" "closed_conns w' = (closed_conns w)(c := None)"
    using idle_delete_ok [OF ok inv] t DeleteConn by blast
  then show ?thesis by (simp add: task_result_def DeleteConn)
next
  case (DestoryThenDeleteConn c)
  show ?thesis
  proof (cases "conns w c")
    case None
    have "idle_run_task os t (take_task l t w) = Inl Use_after_free"
      using None by (simp add: DestoryThenDeleteConn destroy_def take_task_def)
    then show ?thesis using None by (simp add: task_result_def DestoryThenDeleteConn)
  next
    case (Some x)
    obtain w' where "idle_run_task os t (take_task l t w) = Inr w'" "idle_inv interest opened w'"
      "conns w' = (conns w)(c := None)" "closed_conns w' = closed_conns w"
      using idle_destroy_ok [OF ok inv _ Some] t DestoryThenDeleteConn by blast
    then show ?thesis using Some by (simp add: task_result_def DestoryThenDeleteConn)
  qed
qed

lemma idle_life_inv:
  assumes ok: "idle_env_ok os inq outq interest opened srv" "idle_others_ok interest opened rest"
    and inv: "idle_inv interest opened w0" and tfd: "timerfd_ok interest opened create settime (kern (env w0))"
    and life: "idle_life os create settime interest opened srv rest timerfd w0 w"
  shows "idle_inv interest opened w"
  using life
proof induction
  case (timer l w)
  obtain f w' where "createIdleConnTimer os create settime (loop_ep w0 l) w0 = Inr (f, w')" "idle_inv interest opened w'"
    by (rule createIdleConnTimer_ok [OF ok(1) inv tfd, of "loop_ep w0 l"]) blast
  then show ?case using timer by simp
next
  case (pass w l answer w')
  then show ?case
    using idle_loop.pass_keeps [OF conjI [OF ok], of "w\<lparr>localEventLoop := l\<rparr>" "loop_ep w l" answer timerfd]
    by (simp add: idle_inv_loop)
next
  case (posted_task w l t w')
  then show ?case using posted_task_ok [OF ok(1)] by blast
next
  case (user w f c x w')
  let ?w = "w\<lparr>localEventLoop := conn_loop x\<rparr>"
  have i: "idle_inv interest opened ?w" using user.IH by (simp add: idle_inv_loop)
  have c: "conns ?w c = Some x" using user.hyps(3) by simp
  have "conn_state x \<noteq> BLANK" using idle_invD(2) [OF i c] by simp
  then show ?case
    using idle_inv_outcome [OF idle_env_okD(2) [OF ok(1)] i c idle_callback_outcome [OF user.hyps(2) idle_invD(1) [OF i] c]] user.hyps(4) by blast
next
  case (kernel w k)
  then show ?case using idle_inv_env [of interest opened w "(env w)\<lparr>kern := k\<rparr>"] by simp
qed

subsection \<open>The small kernel, with the descriptors it has open\<close>

text \<open>Descriptors waiting at the listening socket 4 are not open yet, closed ones stay closed; the other numbers from 0 on are open.\<close>

definition sim_opened :: "sim \<Rightarrow> fd set" where
  "sim_opened k = {0..} - (set (sim_closed k) \<union> set (sim_ready k 4))"

definition idle_accept :: "fd \<Rightarrow> sim \<Rightarrow> (errno + fd) \<times> sim" where
  "idle_accept f k =
     (if f \<noteq> 4 then (Inl EAGAIN, k)
      else case sim_ready k f of
        [] \<Rightarrow> (Inl EAGAIN, k)
      | c # cs \<Rightarrow>
          if c \<in> set cs \<or> c \<in> set (sim_closed k) then (Inl EMFILE, k) else sim_accept f k)"

definition idle_os :: "sim os" where
  "idle_os = sim_os\<lparr>sys_accept := idle_accept\<rparr>"

lemma idle_os_contract: "os_contract idle_os sim_inq sim_outq sim_interest"
proof -
  have same: "idle_accept f k = (Inl EAGAIN, k) \<or> idle_accept f k = (Inl EMFILE, k) \<or> idle_accept f k = sim_accept f k" for f k
    by (simp add: idle_accept_def split: list.split)
  have "frame_contract idle_os sim_inq sim_outq sim_interest"
    using sim_frame_contract same unfolding frame_contract_def idle_os_def
    by (simp add: sim_os_def) (metis Pair_inject sum.distinct(1))
  then show ?thesis
    using sim_stream_contract sim_epoll_contract
    by (simp add: os_contract_def stream_contract_def epoll_contract_def idle_os_def)
qed

lemma sim_fd_contract: "fd_contract idle_os sim_opened"
  unfolding fd_contract_def
  by (auto simp: idle_os_def sim_opened_def sim_read_def sim_write_def sim_close_def sim_epoll_ctl_def idle_accept_def
        sim_accept_def Let_def split: list.splits rd_answer.splits wr_answer.splits if_splits ctl_op.splits)

text \<open>A server whose only connection, on descriptor 7, was closed and found by the wheel; descriptor 9 is free.\<close>

definition idle_demo :: "sim idle_world" where
  "idle_demo =
     \<lparr>env = \<lparr>kern = sim_init\<lparr>sim_closed := [9]\<rparr>, logs = []\<rparr>, evs = Map.empty, next_ev = 1, conns = Map.empty,
      next_conn = 1, loop_ep = (\<lambda>_. 3), localEventLoop = 1,
      closed_conns = [0 \<mapsto> (new_conn 0 7 1)\<lparr>conn_state := CLOSED\<rparr>],
      idle_pool = new_pool 1 [], wheelPolicy = new_wheel\<lparr>posted := [(1, DeleteConn 0)]\<rparr>, timeInProcess = 0\<rparr>"

definition idle_demo_server :: "sim idle_server" where
  "idle_demo_server = \<lparr>idle_listenfd = 4, idle_codec = UNLIMITED_MODEL, idle_connMsg = None, idle_connEsta = None, idle_connClose = None\<rparr>"

definition demo_timerfd :: "sim \<Rightarrow> fd \<times> sim" where
  "demo_timerfd k = (9, k\<lparr>sim_closed := []\<rparr>)"

lemma idle_demo_inv: "idle_inv sim_interest sim_opened idle_demo"
proof -
  have "conn_inv sim_interest idle_demo"
    by (auto simp: conn_inv_def registered_def idle_demo_def sim_interest_def sim_init_def)
  moreover have "bucket new_wheel i = []" if "i < MAX_IDLE_SECONDS" for i using that by (simp add: new_wheel_def)
  then have "accounting idle_demo"
    using new_wheel_inv wheel_index [OF new_wheel_inv]
    by (auto simp: accounting_def accounted_def wheel_conns_def idle_demo_def wheel_inv_def prev_index_def)
  ultimately show ?thesis
    by (auto simp: idle_inv_def closed_ok_def idle_demo_def sim_opened_def sim_init_def split: if_splits)
qed

subsection \<open>Property\<close>

text \<open>
  C3: The whole server with idle connections managed.  After any sequence of passes, posted tasks, callbacks of users and
  changes of the kernel the invariant holds; every connection on the heap, open or set aside, is in the wheel or in
  one posted task, exactly once, so none is leaked and none deleted twice; handling what \<open>epoll_wait\<close> reports next
  follows no dangling pointer.  A posted task deletes its connection and touches no other; the one case that fails is
  the task to destroy an idle connection that closed before the task ran, which follows a dangling pointer.
\<close>

theorem idle_life_safe:
  assumes "idle_env_ok os inq outq interest opened srv" and "idle_others_ok interest opened rest"
    and "idle_inv interest opened w0" and "timerfd_ok interest opened create settime (kern (env w0))"
    and "idle_life os create settime interest opened srv rest timerfd w0 w"
  shows "idle_inv interest opened w \<and>
    (\<forall>c. count (mset (accounted (wheelPolicy w))) c = (if conns w c = None \<and> closed_conns w c = None then 0 else 1)) \<and>
    (\<forall>l answer. wait_answer_ok interest (loop_ep w l) (kern (env w)) answer \<longrightarrow>
       loop_pass (idle_callback os srv timerfd rest) answer (w\<lparr>localEventLoop := l\<rparr>) \<noteq> Inl Use_after_free) \<and>
    (\<forall>(l, t) \<in> set (posted (wheelPolicy w)). task_result os l t w (idle_run_task os t (take_task l t w)))"
proof -
  have inv: "idle_inv interest opened w" by (rule idle_life_inv [OF assms])
  note acc = accountingD [OF idle_invD(10) [OF inv]]
  have "count (mset (accounted (wheelPolicy w))) c = (if conns w c = None \<and> closed_conns w c = None then 0 else 1)" for c
    using acc(2,3) by (auto simp: distinct_count_atmost_1)
  moreover have "loop_pass (idle_callback os srv timerfd rest) answer (w\<lparr>localEventLoop := l\<rparr>) \<noteq> Inl Use_after_free"
    if "wait_answer_ok interest (loop_ep w l) (kern (env w)) answer" for l answer
    using idle_loop.pass_keeps [OF conjI [OF assms(1,2)], of "w\<lparr>localEventLoop := l\<rparr>" "loop_ep w l" answer timerfd] that inv
    by (simp add: idle_inv_loop)
  moreover have "task_result os l t w (idle_run_task os t (take_task l t w))" if "(l, t) \<in> set (posted (wheelPolicy w))" for l t
    using posted_task_ok [OF assms(1) inv that] by blast
  ultimately show ?thesis using inv by blast
qed

text \<open>The timer is made and the posted task deletes the connection.\<close>

theorem idle_life_safe_witness:
  "\<exists>w. idle_life idle_os demo_timerfd (\<lambda>_ k. k) sim_interest sim_opened idle_demo_server (\<lambda>cb. Inr) 9 idle_demo w \<and>
    closed_conns w 0 \<noteq> None \<and>
    (\<exists>w'. idle_run_task idle_os (DeleteConn 0) (take_task 1 (DeleteConn 0) w) = Inr w' \<and> closed_conns w' 0 = None)"
proof -
  have ok: "idle_env_ok idle_os sim_inq sim_outq sim_interest sim_opened idle_demo_server"
    by (simp add: idle_env_ok_def idle_os_contract sim_fd_contract idle_demo_server_def)
  have others: "idle_others_ok sim_interest sim_opened (\<lambda>cb. Inr)" by (simp add: idle_others_ok_def keeps_events_def)
  have tfd: "timerfd_ok sim_interest sim_opened demo_timerfd (\<lambda>_ k. k) (kern (env idle_demo))"
    by (auto simp: timerfd_ok_def demo_timerfd_def sim_opened_def sim_interest_def idle_demo_def sim_init_def)
  obtain f w where w: "createIdleConnTimer idle_os demo_timerfd (\<lambda>_ k. k) (loop_ep idle_demo 1) idle_demo = Inr (f, w)"
    "closed_conns w = closed_conns idle_demo" "wheelPolicy w = wheelPolicy idle_demo"
    by (rule createIdleConnTimer_ok [OF ok idle_demo_inv tfd, of "loop_ep idle_demo 1"]) blast
  have "f = 9" using w(1) by (auto simp: createIdleConnTimer_def demo_timerfd_def Let_def)
  then have life: "idle_life idle_os demo_timerfd (\<lambda>_ k. k) sim_interest sim_opened idle_demo_server (\<lambda>cb. Inr) 9 idle_demo w"
    using w(1) idle_life.timer by blast
  have "(1, DeleteConn 0) \<in> set (posted (wheelPolicy w))" by (simp add: w(3) idle_demo_def)
  then have "task_result idle_os 1 (DeleteConn 0) w (idle_run_task idle_os (DeleteConn 0) (take_task 1 (DeleteConn 0) w))"
    using idle_life_safe [OF ok others idle_demo_inv tfd life] by blast
  then show ?thesis using life by (auto simp: task_result_def w(2) idle_demo_def)
qed

end
