(* ===== verification/Asio.thy ===== *)
theory Asio imports HttpServer "HOL-Library.Sublist" begin

section \<open>examples/asio: the servers written with boost::asio\<close>

text \<open>
  Both programs are chains of asynchronous operations: a handler starts the next operation and returns.  The
  library is not part of the repository; it is a list of outstanding operations and steps that complete one of
  them, in any order, as its documentation says: a read fills the buffer it was given, a write that succeeds
  has sent its whole buffer, and the memory of a buffer must stay valid until then.  The handlers, translated
  from the sources, decide what is outstanding next.
\<close>

subsection \<open>asio_server.cpp\<close>

text \<open>
  A write operation knows the connection whose \<open>data_\<close> it sends and the length; the last component of both is
  what its handler has captured as \<open>self\<close>.  A \<open>Connection\<close> is kept alive by the handlers that hold such a
  \<open>shared_ptr\<close> to it, and by nothing else.  \<open>received\<close> and \<open>sent\<close>
  record what the library has read from and written to the socket of a connection.
\<close>

datatype asio_op = Accept_op | Read_op nat "nat option" | Write_op nat nat "nat option"

fun op_conn :: "asio_op \<Rightarrow> nat option" where
  "op_conn Accept_op = None"
| "op_conn (Read_op c self) = Some c"
| "op_conn (Write_op c n self) = Some c"

fun held_by :: "asio_op \<Rightarrow> nat option" where
  "held_by Accept_op = None"
| "held_by (Read_op c self) = self"
| "held_by (Write_op c n self) = self"

record asio_world =
  ops :: "asio_op list"
  objs :: "nat \<rightharpoonup> bytes"
  next_obj :: nat
  received :: "nat \<Rightarrow> bytes"
  sent :: "nat \<Rightarrow> bytes"

definition data_size :: nat where
  "data_size = 2048"

definition async_read :: "nat \<Rightarrow> asio_world \<Rightarrow> asio_world" where
  "async_read c w = w\<lparr>ops := ops w @ [Read_op c (Some c)]\<rparr>"

definition async_write :: "nat \<Rightarrow> nat \<Rightarrow> asio_world \<Rightarrow> asio_world" where
  "async_write c n w = w\<lparr>ops := ops w @ [Write_op c n (Some c)]\<rparr>"

text \<open>The handlers; \<open>ec\<close>: an error is reported, \<open>data\<close>: what the memory of a new object holds in \<open>data_\<close>, which nothing
  initialises.\<close>

definition read_handler :: "nat \<Rightarrow> bool \<Rightarrow> nat \<Rightarrow> asio_world \<Rightarrow> asio_world" where
  "read_handler c ec n w = (if ec then w else async_write c n w)"

definition write_handler :: "nat \<Rightarrow> bool \<Rightarrow> asio_world \<Rightarrow> asio_world" where
  "write_handler c ec w = (if ec then w else async_read c w)"

definition async_accept :: "asio_world \<Rightarrow> asio_world" where
  "async_accept w = w\<lparr>ops := ops w @ [Accept_op]\<rparr>"

definition handle_accept :: "bool \<Rightarrow> bytes \<Rightarrow> asio_world \<Rightarrow> asio_world" where
  "handle_accept ec data w =
     async_accept
       (if ec then w
        else
          let c = next_obj w in
          async_read c (w\<lparr>objs := (objs w)(c \<mapsto> data), next_obj := Suc c\<rparr>))"

definition asio_server :: asio_world where
  "asio_server = async_accept \<lparr>ops = [], objs = Map.empty, next_obj = 0, received = (\<lambda>_. []), sent = (\<lambda>_. [])\<rparr>"

text \<open>A handler that has run is destroyed, and a connection that no handler holds any more with it.\<close>

definition drop_unheld :: "asio_world \<Rightarrow> asio_world" where
  "drop_unheld w = w\<lparr>objs := (\<lambda>c. if Some c \<in> held_by ` set (ops w) then objs w c else None)\<rparr>"

text \<open>What \<open>io_service::run\<close> can do: complete an operation and run its handler.\<close>

inductive asio_run :: "asio_world \<Rightarrow> bool" where
  start: "asio_run asio_server"
| accepted: "asio_run w \<Longrightarrow> ops w = xs @ Accept_op # ys \<Longrightarrow> length data = data_size \<Longrightarrow>
    w' = handle_accept ec data (w\<lparr>ops := xs @ ys\<rparr>) \<Longrightarrow>
    asio_run (drop_unheld w')"
| read: "asio_run w \<Longrightarrow> ops w = xs @ Read_op c self # ys \<Longrightarrow> objs w c = Some d \<Longrightarrow> bs \<noteq> [] \<Longrightarrow> length bs \<le> length d \<Longrightarrow>
    w' = read_handler c False (length bs) (w\<lparr>ops := xs @ ys, objs := (objs w)(c \<mapsto> blit d 0 bs),
      received := (received w)(c := received w c @ bs)\<rparr>) \<Longrightarrow>
    asio_run (drop_unheld w')"
| read_failed: "asio_run w \<Longrightarrow> ops w = xs @ Read_op c self # ys \<Longrightarrow> w' = read_handler c True n (w\<lparr>ops := xs @ ys\<rparr>) \<Longrightarrow>
    asio_run (drop_unheld w')"
| written: "asio_run w \<Longrightarrow> ops w = xs @ Write_op c n self # ys \<Longrightarrow> objs w c = Some d \<Longrightarrow>
    w' = write_handler c False (w\<lparr>ops := xs @ ys, sent := (sent w)(c := sent w c @ take n d)\<rparr>) \<Longrightarrow>
    asio_run (drop_unheld w')"
| write_failed: "asio_run w \<Longrightarrow> ops w = xs @ Write_op c n self # ys \<Longrightarrow> objs w c = Some d \<Longrightarrow> m \<le> n \<Longrightarrow>
    w' = write_handler c True (w\<lparr>ops := xs @ ys, sent := (sent w)(c := sent w c @ take m d)\<rparr>) \<Longrightarrow>
    asio_run (drop_unheld w')"

subsection \<open>Its invariant\<close>

text \<open>What is outstanding for a connection says how far the echo is.\<close>

fun op_ok :: "asio_world \<Rightarrow> asio_op \<Rightarrow> bool" where
  "op_ok w Accept_op \<longleftrightarrow> True"
| "op_ok w (Read_op c self) \<longleftrightarrow> self = Some c \<and> c < next_obj w \<and> (\<exists>d. objs w c = Some d \<and> length d = data_size) \<and> sent w c = received w c"
| "op_ok w (Write_op c n self) \<longleftrightarrow> self = Some c \<and> c < next_obj w \<and>
     (\<exists>d. objs w c = Some d \<and> length d = data_size \<and> n \<le> data_size \<and> sent w c @ take n d = received w c)"

lemma op_ok_held: "op_ok w p \<Longrightarrow> held_by p = op_conn p"
  by (cases p) auto

lemma drop_unheld_live:
  assumes "\<And>p. p \<in> set (ops w) \<Longrightarrow> op_ok w p" and "objs (drop_unheld w) c \<noteq> None"
  shows "Some c \<in> op_conn ` set (ops w)"
proof -
  obtain p where "p \<in> set (ops w)" "held_by p = Some c"
    using assms(2) by (auto simp: drop_unheld_def split: if_splits)
  then show ?thesis using op_ok_held [OF assms(1)] by (metis image_eqI)
qed

text \<open>One accept operation, and at most one operation for each connection.\<close>

definition asio_inv :: "asio_world \<Rightarrow> bool" where
  "asio_inv w \<longleftrightarrow> distinct (map op_conn (ops w)) \<and> Accept_op \<in> set (ops w) \<and> (\<forall>p \<in> set (ops w). op_ok w p) \<and>
     (\<forall>c. objs w c \<noteq> None \<longrightarrow> Some c \<in> op_conn ` set (ops w)) \<and>
     (\<forall>c. prefix (sent w c) (received w c)) \<and> (\<forall>c \<ge> next_obj w. received w c = [])"

lemma op_ok_other:
  assumes "op_ok w p" and "op_conn p \<noteq> Some c" and "next_obj w \<le> next_obj w'"
    and "\<And>d. d \<noteq> c \<Longrightarrow> objs w' d = objs w d \<and> received w' d = received w d \<and> sent w' d = sent w d"
  shows "op_ok w' p"
  using assms by (cases p) auto

text \<open>A step for connection \<open>c\<close> leaves at most one operation for it, and the other connections alone.\<close>

lemma asio_inv_step:
  assumes inv: "asio_inv w" and ops: "ops w = xs @ p # ys" and c: "op_conn p = Some c"
    and w': "next_obj w' = next_obj w" "ops w' = xs @ ys @ new" "new = [] \<or> (\<exists>q. new = [q] \<and> op_conn q = Some c \<and> op_ok w' q)"
      "\<And>d. d \<noteq> c \<Longrightarrow> objs w' d = objs w d \<and> received w' d = received w d \<and> sent w' d = sent w d"
      "prefix (sent w' c) (received w' c)"
  shows "asio_inv (drop_unheld w')"
proof -
  have d: "distinct (map op_conn (xs @ p # ys))" and ok: "\<forall>q \<in> set (xs @ p # ys). op_ok w q"
    and acc: "Accept_op \<in> set (xs @ ys)"
    using inv c unfolding asio_inv_def ops by (auto simp: in_set_conv_decomp)
  have other: "op_conn q \<noteq> Some c" if "q \<in> set (xs @ ys)" for q
    using d c that by (auto simp: image_iff)
  have old: "op_ok w' q" if "q \<in> set (xs @ ys)" for q
    using op_ok_other [of w q c w'] ok other [OF that] that w'(1,4) by auto
  have okd: "op_ok (drop_unheld w') q" if "q \<in> set (ops w')" for q
  proof -
    have "op_ok w' q" using that old w'(2,3) by auto
    then show ?thesis using that by (cases q) (auto simp: drop_unheld_def intro!: rev_image_eqI [of q])
  qed
  have new: "distinct (map op_conn (ops (drop_unheld w')))" using d other w'(2,3) c by (auto simp: drop_unheld_def)
  have "prefix (sent w' e) (received w' e)" for e
    using inv w'(4,5) unfolding asio_inv_def by (cases "e = c") auto
  moreover have "Some e \<in> op_conn ` set (ops (drop_unheld w'))" if "objs (drop_unheld w') e \<noteq> None" for e
  proof -
    have "op_ok w' q" if "q \<in> set (ops w')" for q using that old w'(2,3) by auto
    from drop_unheld_live [OF this that] show ?thesis by (simp add: drop_unheld_def)
  qed
  moreover have "received w' e = []" if "next_obj w \<le> e" for e
  proof -
    have "e \<noteq> c" using ok c that by (cases p) auto
    then show ?thesis using inv w'(4) that unfolding asio_inv_def by auto
  qed
  ultimately show ?thesis
    using new okd acc w'(1) unfolding asio_inv_def by (auto simp: drop_unheld_def w'(2))
qed

text \<open>An accept operation that has completed is replaced by the next one, behind the first read of the new connection.\<close>

lemma asio_inv_accept:
  assumes inv: "asio_inv w" and ops: "ops w = xs @ Accept_op # ys" and data: "length data = data_size"
  shows "asio_inv (drop_unheld (handle_accept ec data (w\<lparr>ops := xs @ ys\<rparr>)))"
proof -
  define n where "n = next_obj w"
  define w' where "w' = handle_accept ec data (w\<lparr>ops := xs @ ys\<rparr>)"
  note defs = handle_accept_def async_accept_def async_read_def Let_def
  have w': "received w' = received w" "sent w' = sent w" "n \<le> next_obj w'" "\<And>d. d \<noteq> n \<Longrightarrow> objs w' d = objs w d"
    "ops w' = xs @ ys @ (if ec then [] else [Read_op n (Some n)]) @ [Accept_op]"
    by (auto simp: w'_def n_def defs)
  have ok: "op_ok w q" if "q \<in> set (xs @ ys)" for q
    using inv that unfolding asio_inv_def ops by auto
  have d: "distinct (map op_conn (xs @ Accept_op # ys))" using inv unfolding asio_inv_def ops by auto
  have fresh: "op_conn q \<noteq> Some n" if "q \<in> set (xs @ ys)" for q
    using ok [OF that] by (cases q) (auto simp: n_def)
  then have fresh': "Some n \<notin> op_conn ` set (xs @ ys)" by force
  have old: "op_ok w' q" if "q \<in> set (xs @ ys)" for q
    using ok [OF that] fresh [OF that] w' by (intro op_ok_other [of w q n w']) (auto simp: n_def)
  have pre: "prefix (sent w e) (received w e)" for e using inv unfolding asio_inv_def by blast
  have "received w n = []" using inv unfolding asio_inv_def n_def by blast
  with pre [of n] have "received w n = [] \<and> sent w n = []" by simp
  then have "op_ok w' (Read_op n (Some n))" if "\<not> ec"
    using that data by (simp add: w'_def n_def defs)
  then have okn: "op_ok w' q" if "q \<in> set (ops w')" for q
    using that old unfolding w'(5) by (auto split: if_splits)
  have okd: "op_ok (drop_unheld w') q" if "q \<in> set (ops w')" for q
    using okn [OF that] that by (cases q) (auto simp: drop_unheld_def intro!: rev_image_eqI [of q])
  have "distinct (map op_conn (ops w'))"
    unfolding w'(5) using d fresh' by (auto simp: image_iff eq_commute [of None])
  moreover have "received w' e = []" if "next_obj w' \<le> e" for e
    using inv w'(3) that unfolding asio_inv_def w'(1) n_def by (meson order_trans)
  moreover have "prefix (sent w' e) (received w' e)" for e
    using pre unfolding w'(1,2) .
  moreover have "Accept_op \<in> set (ops w')" unfolding w'(5) by simp
  moreover have "Some e \<in> op_conn ` set (ops w')" if "objs (drop_unheld w') e \<noteq> None" for e
    by (rule drop_unheld_live [OF okn that])
  ultimately have "asio_inv (drop_unheld w')"
    using okd unfolding asio_inv_def by (simp add: drop_unheld_def)
  then show ?thesis unfolding w'_def .
qed

lemma asio_run_inv: "asio_run w \<Longrightarrow> asio_inv w"
proof (induction rule: asio_run.induct)
  case start
  show ?case by (simp add: asio_server_def async_accept_def asio_inv_def)
next
  case (accepted w xs ys data w' ec)
  then show ?case using asio_inv_accept by blast
next
  case (read w xs c self ys d bs w')
  then have "op_ok w (Read_op c self)" by (simp add: asio_inv_def)
  with read show ?case
    by (intro asio_inv_step [of w xs "Read_op c self" ys c w' "[Write_op c (length bs) (Some c)]"])
      (auto simp: read_handler_def async_write_def blit_def)
next
  case (read_failed w xs c self ys w' n)
  then have "op_ok w (Read_op c self)" by (simp add: asio_inv_def)
  with read_failed show ?case
    by (intro asio_inv_step [of w xs "Read_op c self" ys c w' "[]"]) (auto simp: read_handler_def)
next
  case (written w xs c n self ys d w')
  then have "op_ok w (Write_op c n self)" by (simp add: asio_inv_def)
  with written show ?case
    by (intro asio_inv_step [of w xs "Write_op c n self" ys c w' "[Read_op c (Some c)]"])
      (auto simp: write_handler_def async_read_def)
next
  case (write_failed w xs c n self ys d m w')
  then have "op_ok w (Write_op c n self)" by (simp add: asio_inv_def)
  moreover have "take n d = take m d @ take (n - m) (drop m d)" using write_failed(4) by (metis le_add_diff_inverse take_add)
  ultimately have "received w c = (sent w c @ take m d) @ take (n - m) (drop m d)" using write_failed(3) by simp
  then have "prefix (sent w c @ take m d) (received w c)" by (rule prefixI)
  with write_failed \<open>op_ok w (Write_op c n self)\<close> show ?case
    by (intro asio_inv_step [of w xs "Write_op c n self" ys c w' "[]"]) (auto simp: write_handler_def)
qed

text \<open>
  C37: However the library orders the operations and whichever of them fail: one accept is outstanding and at most
  one operation for a connection, a \<open>Connection\<close> lives exactly as long as an operation of its own is
  outstanding, and the bytes sent to a client are a prefix of those received from it.  While a read is
  outstanding they are all of them; while a write is, what it is given is alive and is exactly the rest.
\<close>

theorem asio_echo:
  assumes "asio_run w"
  shows "distinct (map op_conn (ops w)) \<and> Accept_op \<in> set (ops w) \<and>
    (\<forall>c. objs w c \<noteq> None \<longleftrightarrow> Some c \<in> op_conn ` set (ops w)) \<and>
    (\<forall>c. prefix (sent w c) (received w c)) \<and>
    (\<forall>c self. Read_op c self \<in> set (ops w) \<longrightarrow> self = Some c \<and> sent w c = received w c) \<and>
    (\<forall>c n self. Write_op c n self \<in> set (ops w) \<longrightarrow>
       self = Some c \<and> (\<exists>d. objs w c = Some d \<and> sent w c @ take n d = received w c))"
proof -
  have inv: "asio_inv w" by (rule asio_run_inv) (rule assms)
  then have ok: "op_ok w p" if "p \<in> set (ops w)" for p
    using that by (simp add: asio_inv_def)
  have "objs w c \<noteq> None" if "Some c \<in> op_conn ` set (ops w)" for c
  proof -
    from that obtain p where "p \<in> set (ops w)" "op_conn p = Some c" by force
    with ok [of p] have "op_ok w p" and "op_conn p = Some c" by auto
    then show ?thesis by (cases p) auto
  qed
  moreover have "self = Some c \<and> sent w c = received w c" if "Read_op c self \<in> set (ops w)" for c self
    using ok [OF that] by simp
  moreover have "self = Some c \<and> (\<exists>d. objs w c = Some d \<and> sent w c @ take n d = received w c)"
    if "Write_op c n self \<in> set (ops w)" for c n self
    using ok [OF that] by auto
  ultimately show ?thesis using inv unfolding asio_inv_def by blast
qed

lemma asio_echo_witness:
  "\<exists>w. asio_run w \<and> Read_op 0 (Some 0) \<in> set (ops w) \<and> received w 0 = ''hi'' \<and> sent w 0 = ''hi''"
proof -
  define d :: bytes where "d = replicate data_size (CHR 0x00)"
  define w1 where "w1 = drop_unheld (handle_accept False d (asio_server\<lparr>ops := [] @ []\<rparr>))"
  define w2 where "w2 = drop_unheld (read_handler 0 False (length ''hi'') (w1\<lparr>ops := [] @ [Accept_op],
    objs := (objs w1)(0 \<mapsto> blit d 0 ''hi''), received := (received w1)(0 := received w1 0 @ ''hi'')\<rparr>))"
  define w3 where "w3 = drop_unheld (write_handler 0 False (w2\<lparr>ops := [Accept_op] @ [],
    sent := (sent w2)(0 := sent w2 0 @ take 2 (blit d 0 ''hi''))\<rparr>))"
  note defs = drop_unheld_def handle_accept_def async_accept_def async_read_def read_handler_def async_write_def
    write_handler_def asio_server_def
  have 1: "asio_run w1" unfolding w1_def
    by (rule asio_run.accepted [OF asio_run.start, of "[]" "[]" d _ False]) (simp_all add: asio_server_def async_accept_def d_def)
  have w1: "ops w1 = [Read_op 0 (Some 0), Accept_op]" "objs w1 0 = Some d" by (simp_all add: w1_def defs)
  have 2: "asio_run w2" unfolding w2_def
    by (rule asio_run.read [OF 1, of "[]" 0 "Some 0" "[Accept_op]" d "''hi''"]) (simp_all add: w1 d_def data_size_def)
  have w2: "ops w2 = [Accept_op, Write_op 0 2 (Some 0)]" "objs w2 0 = Some (blit d 0 ''hi'')"
    by (simp_all add: w2_def defs)
  have 3: "asio_run w3" unfolding w3_def
    by (rule asio_run.written [OF 2, of "[Accept_op]" 0 2 "Some 0" "[]"]) (simp_all add: w2)
  have r: "received w3 0 = ''hi''" by (simp add: w3_def w2_def w1_def defs)
  moreover have "Read_op 0 (Some 0) \<in> set (ops w3)" by (simp add: w3_def defs)
  ultimately show ?thesis using asio_echo [OF 3] 3 by metis
qed

subsection \<open>asio_multi_server.cpp\<close>

text \<open>
  The pool hands out its services in turn.  A session is created for its accept already, with the service it
  will use; \<open>session_service\<close> is that service and whether \<open>socket_\<close> is open.  A write holds the address of the
  string it sends: \<open>strings\<close> are the strings that are allocated, \<open>k\<close> of the \<open>n\<close> bytes have been sent.
\<close>

datatype multi_op = Multi_accept nat | Multi_read nat | Multi_write nat nat nat nat

fun multi_conn :: "multi_op \<Rightarrow> nat" where
  "multi_conn (Multi_accept c) = c"
| "multi_conn (Multi_read c) = c"
| "multi_conn (Multi_write c a k n) = c"

fun is_accept :: "multi_op \<Rightarrow> bool" where
  "is_accept (Multi_accept c) = True"
| "is_accept _ = False"

record multi_world =
  multi_ops :: "multi_op list"
  sessions :: "nat \<rightharpoonup> nat \<times> bool"
  next_session :: nat
  nextIOService :: nat
  strings :: "nat \<rightharpoonup> bytes"
  next_string :: nat
  answered :: "nat \<Rightarrow> bytes"

definition pool_size :: nat where
  "pool_size = 3"

definition getIOService :: "nat \<Rightarrow> nat \<Rightarrow> (nat \<times> nat) res" where
  "getIOService n nxt =
     (if n \<le> nxt then Inl Out_of_bounds
      else let nxt' = Suc nxt in Inr (nxt, if nxt' = n then 0 else nxt'))"

definition asio_reply :: bytes where
  "asio_reply =
     ''HTTP/1.1 200 OK'' @ CRLF @ ''content-type: text/html; charset=utf-8'' @ CRLF @ ''content-length: 49'' @ CRLF @
     ''connection: close'' @ CRLF @ CRLF @ ''<title>The Service haven't been provided.</title>'' @ CRLF"

lemma asio_reply_length:
  "\<exists>h b. asio_reply = h @ ''content-length: 49'' @ CRLF @ ''connection: close'' @ CRLF @ CRLF @ b \<and> length b = 51"
  unfolding asio_reply_def
  by (rule exI [of _ "''HTTP/1.1 200 OK'' @ CRLF @ ''content-type: text/html; charset=utf-8'' @ CRLF"],
      rule exI [of _ "''<title>The Service haven't been provided.</title>'' @ CRLF"]) (simp add: CRLF_def)

definition multi_async_accept :: "multi_world \<Rightarrow> multi_world res" where
  "multi_async_accept w =
     res_bind (getIOService pool_size (nextIOService w)) (\<lambda>(service, nxt).
       let c = next_session w in
       Inr (w\<lparr>nextIOService := nxt, sessions := (sessions w)(c \<mapsto> (service, True)), next_session := Suc c,
              multi_ops := multi_ops w @ [Multi_accept c]\<rparr>))"

definition multi_async_read :: "nat \<Rightarrow> multi_world \<Rightarrow> multi_world" where
  "multi_async_read c w = w\<lparr>multi_ops := multi_ops w @ [Multi_read c]\<rparr>"

text \<open>
  The local \<open>data\<close> is a new string.  The library may send \<open>k\<close> bytes of it at once; the rest is left to the
  operation.  When the function returns, the string is gone.
\<close>

definition multi_async_write :: "nat \<Rightarrow> nat \<Rightarrow> multi_world \<Rightarrow> multi_world" where
  "multi_async_write k c w =
     (let a = next_string w;
          w1 = w\<lparr>strings := (strings w)(a \<mapsto> asio_reply), next_string := Suc a\<rparr>;
          w2 = w1\<lparr>answered := (answered w1)(c := answered w1 c @ take k asio_reply),
                  multi_ops := multi_ops w1 @ [Multi_write c a (min k (length asio_reply)) (length asio_reply)]\<rparr> in
      w2\<lparr>strings := (strings w2)(a := None)\<rparr>)"

text \<open>The handlers of the three operations, and \<open>main\<close> up to its call of \<open>run\<close>.\<close>

definition multi_accepted :: "bool \<Rightarrow> nat \<Rightarrow> multi_world \<Rightarrow> multi_world res" where
  "multi_accepted ec c w = multi_async_accept (if ec then w else multi_async_read c w)"

definition multi_read_handler :: "bool \<Rightarrow> nat \<Rightarrow> nat \<Rightarrow> multi_world \<Rightarrow> multi_world" where
  "multi_read_handler ec k c w = (if ec then w else multi_async_write k c w)"

definition multi_write_handler :: "nat \<Rightarrow> multi_world \<Rightarrow> multi_world" where
  "multi_write_handler c w = w\<lparr>sessions := (sessions w)(c := map_option (\<lambda>(s, open). (s, False)) (sessions w c))\<rparr>"

definition multi_server :: "multi_world res" where
  "multi_server =
     multi_async_accept \<lparr>multi_ops = [], sessions = Map.empty, next_session = 0, nextIOService = 0,
       strings = Map.empty, next_string = 0, answered = (\<lambda>_. [])\<rparr>"

definition drop_sessions :: "multi_world \<Rightarrow> multi_world" where
  "drop_sessions w = w\<lparr>sessions := (\<lambda>c. if c \<in> multi_conn ` set (multi_ops w) then sessions w c else None)\<rparr>"

text \<open>
  The steps of the library.  To send what is left it reads the string of the operation, and reading a string
  that is gone is an error.
\<close>

inductive multi_run :: "multi_world res \<Rightarrow> bool" where
  start: "multi_run multi_server"
| accepted: "multi_run (Inr w) \<Longrightarrow> multi_ops w = xs @ Multi_accept c # ys \<Longrightarrow>
    r = multi_accepted ec c (w\<lparr>multi_ops := xs @ ys\<rparr>) \<Longrightarrow> multi_run (res_bind r (\<lambda>w'. Inr (drop_sessions w')))"
| read: "multi_run (Inr w) \<Longrightarrow> multi_ops w = xs @ Multi_read c # ys \<Longrightarrow>
    w' = multi_read_handler ec k c (w\<lparr>multi_ops := xs @ ys\<rparr>) \<Longrightarrow> multi_run (Inr (drop_sessions w'))"
| more: "multi_run (Inr w) \<Longrightarrow> multi_ops w = xs @ Multi_write c a k n # ys \<Longrightarrow> k < n \<Longrightarrow> strings w a = Some s \<Longrightarrow>
    w' = w\<lparr>multi_ops := xs @ Multi_write c a (Suc k) n # ys, answered := (answered w)(c := answered w c @ [s ! k])\<rparr> \<Longrightarrow>
    multi_run (Inr w')"
| gone: "multi_run (Inr w) \<Longrightarrow> Multi_write c a k n \<in> set (multi_ops w) \<Longrightarrow> k < n \<Longrightarrow> strings w a = None \<Longrightarrow>
    multi_run (Inl Use_after_free)"
| written: "multi_run (Inr w) \<Longrightarrow> multi_ops w = xs @ Multi_write c a k n # ys \<Longrightarrow> k = n \<or> ec \<Longrightarrow>
    w' = multi_write_handler c (w\<lparr>multi_ops := xs @ ys\<rparr>) \<Longrightarrow> multi_run (Inr (drop_sessions w'))"

text \<open>
  Everything is turned over to a session in turn, and every outstanding write has lost its string.
\<close>

fun multi_op_ok :: "multi_world \<Rightarrow> multi_op \<Rightarrow> bool" where
  "multi_op_ok w (Multi_accept c) \<longleftrightarrow> c < next_session w \<and> answered w c = []"
| "multi_op_ok w (Multi_read c) \<longleftrightarrow> c < next_session w \<and> answered w c = []"
| "multi_op_ok w (Multi_write c a k n) \<longleftrightarrow>
     c < next_session w \<and> n = length asio_reply \<and> k \<le> n \<and> answered w c = take k asio_reply"

definition multi_inv :: "multi_world \<Rightarrow> bool" where
  "multi_inv w \<longleftrightarrow>
     nextIOService w = next_session w mod pool_size \<and>
     (\<forall>c s b. sessions w c = Some (s, b) \<longrightarrow> s = c mod pool_size) \<and>
     strings w = Map.empty \<and>
     distinct (map multi_conn (multi_ops w)) \<and>
     (\<exists>c. filter is_accept (multi_ops w) = [Multi_accept c]) \<and>
     (\<forall>p \<in> set (multi_ops w). multi_op_ok w p) \<and>
     (\<forall>c. prefix (answered w c) asio_reply) \<and> (\<forall>c \<ge> next_session w. answered w c = [])"

lemma getIOService_turn:
  "n = k mod pool_size \<Longrightarrow> getIOService pool_size n = Inr (k mod pool_size, Suc k mod pool_size)"
  by (simp add: getIOService_def pool_size_def mod_Suc)

lemma multi_async_accept_turn:
  "nextIOService w = next_session w mod pool_size \<Longrightarrow>
   multi_async_accept w = Inr (w\<lparr>nextIOService := Suc (next_session w) mod pool_size,
     sessions := (sessions w)(next_session w \<mapsto> (next_session w mod pool_size, True)),
     next_session := Suc (next_session w), multi_ops := multi_ops w @ [Multi_accept (next_session w)]\<rparr>)"
  by (simp add: multi_async_accept_def getIOService_turn Let_def)

lemma multi_op_ok_conn: "multi_op_ok w p \<Longrightarrow> multi_conn p < next_session w"
  by (cases p) auto

lemma multi_op_ok_other:
  assumes "multi_op_ok w p" and "multi_conn p \<noteq> c" and "next_session w \<le> next_session w'"
    and "\<And>d. d \<noteq> c \<Longrightarrow> answered w' d = answered w d"
  shows "multi_op_ok w' p"
  using assms by (cases p) auto

lemma drop_sessions_keeps [simp]:
  "nextIOService (drop_sessions w) = nextIOService w" "next_session (drop_sessions w) = next_session w"
  "strings (drop_sessions w) = strings w" "multi_ops (drop_sessions w) = multi_ops w"
  "answered (drop_sessions w) = answered w" "next_string (drop_sessions w) = next_string w"
  by (simp_all add: drop_sessions_def)

lemma drop_sessions_Some: "sessions (drop_sessions w) c = Some x \<Longrightarrow> sessions w c = Some x"
  by (simp add: drop_sessions_def split: if_splits)

lemma multi_op_ok_drop [simp]: "multi_op_ok (drop_sessions w) p = multi_op_ok w p"
  by (cases p) auto

lemma multi_inv_drop: "multi_inv w \<Longrightarrow> multi_inv (drop_sessions w)"
  unfolding multi_inv_def by (auto dest: drop_sessions_Some)

text \<open>A step of a session that has been accepted.\<close>

lemma multi_inv_step:
  assumes inv: "multi_inv w" and ops: "multi_ops w = xs @ p # ys" "\<not> is_accept p" and c: "c = multi_conn p"
    and w': "nextIOService w' = nextIOService w" "next_session w' = next_session w" "strings w' = strings w"
      "\<forall>d s b. sessions w' d = Some (s, b) \<longrightarrow> (\<exists>b'. sessions w d = Some (s, b'))"
      "multi_ops w' = xs @ ys @ new"
      "new = [] \<or> (\<exists>q. new = [q] \<and> multi_conn q = c \<and> \<not> is_accept q \<and> multi_op_ok w' q)"
      "\<And>d. d \<noteq> c \<Longrightarrow> answered w' d = answered w d" "prefix (answered w' c) asio_reply"
  shows "multi_inv (drop_sessions w')"
proof -
  have ok: "multi_op_ok w q" if "q \<in> set (xs @ p # ys)" for q
    using inv that unfolding multi_inv_def ops by blast
  have d: "distinct (map multi_conn (xs @ p # ys))" using inv unfolding multi_inv_def ops by blast
  have lt: "c < next_session w" using multi_op_ok_conn [of w p] ok c by simp
  have other: "multi_conn q \<noteq> c" if "q \<in> set (xs @ ys)" for q
    using d c that by (auto simp: image_iff)
  have old: "multi_op_ok w' q" if "q \<in> set (xs @ ys)" for q
    by (rule multi_op_ok_other [of w q c]) (use ok [of q] other [OF that] that w'(2,7) in auto)
  have "distinct (map multi_conn (xs @ ys @ new))"
    using w'(6) d c by (elim disjE exE conjE) simp_all
  moreover have "filter is_accept (multi_ops w') = filter is_accept (multi_ops w)"
    using ops(2) w'(6) unfolding w'(5) ops by auto
  moreover have "\<forall>q \<in> set (multi_ops w'). multi_op_ok w' q"
    using old w'(6) unfolding w'(5) by auto
  moreover have "prefix (answered w' e) asio_reply" for e
    using inv w'(7,8) unfolding multi_inv_def by (cases "e = c") auto
  moreover have "answered w' e = []" if "next_session w \<le> e" for e
    using inv w'(7) [of e] lt that unfolding multi_inv_def by auto
  moreover have "sessions w' e = Some (s, b) \<longrightarrow> s = e mod pool_size" for e s b
    using inv w'(4) unfolding multi_inv_def by blast
  ultimately have "multi_inv w'"
    using inv w'(1-3,5) unfolding multi_inv_def by simp
  then show ?thesis by (rule multi_inv_drop)
qed

text \<open>A step of the accept: \<open>w1\<close> is the state when the next session is created.\<close>

lemma multi_inv_accept:
  assumes inv: "multi_inv w" and ops: "multi_ops w = xs @ Multi_accept c # ys"
    and r: "multi_accepted ec c (w\<lparr>multi_ops := xs @ ys\<rparr>) = Inr w'"
  shows "multi_inv (drop_sessions w')"
proof -
  define n where "n = next_session w"
  define rs where "rs = (if ec then [] else [Multi_read c])"
  have turn: "nextIOService w = n mod pool_size" using inv unfolding multi_inv_def n_def by blast
  then have w': "nextIOService w' = Suc n mod pool_size" "next_session w' = Suc n" "strings w' = strings w"
    "answered w' = answered w" "multi_ops w' = xs @ ys @ rs @ [Multi_accept n]"
    "sessions w' = (sessions w)(n \<mapsto> (n mod pool_size, True))"
    using r by (auto simp: multi_accepted_def multi_async_read_def multi_async_accept_turn n_def rs_def split: if_splits)
  have ok: "multi_op_ok w q" if "q \<in> set (xs @ Multi_accept c # ys)" for q
    using inv that unfolding multi_inv_def ops by blast
  have d: "distinct (map multi_conn (xs @ Multi_accept c # ys))" using inv unfolding multi_inv_def ops by blast
  have lt: "multi_conn q < n" if "q \<in> set (xs @ ys @ [Multi_accept c])" for q
    using multi_op_ok_conn [of w q] ok [of q] that by (auto simp: n_def)
  then have "n \<notin> multi_conn ` set (xs @ ys @ [Multi_accept c])" by blast
  then have "distinct (map multi_conn (xs @ ys @ rs @ [Multi_accept n]))"
    using d by (auto simp: rs_def)
  moreover have "filter is_accept (xs @ ys @ rs @ [Multi_accept n]) = [Multi_accept n]"
  proof -
    obtain c' where "filter is_accept (xs @ Multi_accept c # ys) = [Multi_accept c']"
      using inv unfolding multi_inv_def ops by blast
    then show ?thesis by (auto simp: rs_def append_eq_Cons_conv)
  qed
  moreover have "multi_op_ok w' q" if q: "q \<in> set (xs @ ys @ rs @ [Multi_accept n])" for q
  proof (cases "q = Multi_accept n \<or> q = Multi_read c")
    case True
    moreover have "answered w n = []" using inv unfolding multi_inv_def n_def by blast
    ultimately show ?thesis using ok [of "Multi_accept c"] by (auto simp: w' n_def)
  next
    case False
    with q have "q \<in> set (xs @ ys)" by (auto simp: rs_def split: if_splits)
    then have "multi_op_ok w q" "multi_conn q < n" using ok [of q] lt [of q] by simp_all
    then show ?thesis
      by (rule multi_op_ok_other [OF _ less_imp_neq]) (simp_all add: w'(2,4) n_def [symmetric])
  qed
  moreover have "answered w e = []" if "Suc n \<le> e" for e
    using inv that unfolding multi_inv_def n_def by (meson Suc_leD)
  moreover have "prefix (answered w e) asio_reply" "strings w = Map.empty" for e
    using inv unfolding multi_inv_def by blast+
  moreover have "s = e mod pool_size" if "sessions w' e = Some (s, b)" for e s b
  proof -
    have "sessions w e = Some (s, b) \<Longrightarrow> s = e mod pool_size" using inv unfolding multi_inv_def by blast
    then show ?thesis using that by (auto simp: w' split: if_splits)
  qed
  ultimately have "multi_inv w'"
    unfolding multi_inv_def w'(1-5) by (intro conjI) blast+
  then show ?thesis by (rule multi_inv_drop)
qed

lemma multi_accepted_returns:
  "multi_inv w \<Longrightarrow> \<exists>w'. multi_accepted ec c (w\<lparr>multi_ops := os\<rparr>) = Inr w'"
  unfolding multi_inv_def multi_accepted_def by (auto simp: multi_async_read_def multi_async_accept_turn)

lemma multi_run_inv: "multi_run r \<Longrightarrow> (\<forall>w. r = Inr w \<longrightarrow> multi_inv w) \<and> (\<forall>e. r = Inl e \<longrightarrow> e = Use_after_free)"
proof (induction rule: multi_run.induct)
  case start
  show ?case by (auto simp: multi_server_def multi_async_accept_turn multi_inv_def split: if_splits)
next
  case (accepted w xs c ys r ec)
  then have inv: "multi_inv w" by blast
  obtain w' where "r = Inr w'" using multi_accepted_returns [OF inv] accepted(3) by blast
  then show ?case using multi_inv_accept [OF inv accepted(2)] accepted(3) by simp
next
  case (read w xs c ys w' ec k)
  then have inv: "multi_inv w" by blast
  then have "multi_op_ok w (Multi_read c)" using read(2) unfolding multi_inv_def by auto
  moreover have "sessions w' = sessions w" "strings w = Map.empty \<Longrightarrow> strings w' = strings w"
    using read(3) by (auto simp: multi_read_handler_def multi_async_write_def Let_def)
  moreover have "strings w = Map.empty" using inv unfolding multi_inv_def by blast
  ultimately have "multi_inv (drop_sessions w')" using read(3)
    by (intro multi_inv_step [OF inv read(2), of c w'
          "if ec then [] else [Multi_write c (next_string w) (min k (length asio_reply)) (length asio_reply)]"])
      (auto simp: multi_read_handler_def multi_async_write_def Let_def take_is_prefix min_def)
  then show ?case by blast
next
  case (more w xs c a k n ys s w')
  then show ?case unfolding multi_inv_def by auto
next
  case (gone w c a k n)
  show ?case by simp
next
  case (written w xs c a k n ys ec w')
  then have inv: "multi_inv w" by blast
  then have "prefix (answered w c) asio_reply" unfolding multi_inv_def by blast
  then have "multi_inv (drop_sessions w')" using written(4)
    by (intro multi_inv_step [OF inv written(2), of c w' "[]"]) (auto simp: multi_write_handler_def split: if_splits)
  then show ?case by blast
qed

text \<open>
  The sessions are spread over the services in turn and a client gets no byte that is not of the reply.  But a
  write that is outstanding has lost the string it sends, which \<open>async_write\<close> had as a local variable: unless
  the library has taken all of the reply before \<open>async_write\<close> returned, it goes on with memory that is gone.
\<close>

theorem multi_server_write_gone:
  assumes "multi_run r"
  shows "(\<forall>w. r = Inr w \<longrightarrow>
      (\<forall>c s b. sessions w c = Some (s, b) \<longrightarrow> s = c mod pool_size) \<and>
      distinct (map multi_conn (multi_ops w)) \<and> length (filter is_accept (multi_ops w)) = 1 \<and>
      (\<forall>c. prefix (answered w c) asio_reply) \<and>
      (\<forall>c a k n. Multi_write c a k n \<in> set (multi_ops w) \<longrightarrow>
         strings w a = None \<and> answered w c @ drop k asio_reply = asio_reply \<and>
         (k < n \<longrightarrow> multi_run (Inl Use_after_free)))) \<and>
    (\<forall>e. r = Inl e \<longrightarrow> e = Use_after_free)"
proof (intro conjI allI impI; (elim conjE)?)
  fix w assume r: "r = Inr w"
  then have inv: "multi_inv w" using multi_run_inv [OF assms] by blast
  note i = inv [unfolded multi_inv_def]
  show "s = c mod pool_size" if "sessions w c = Some (s, b)" for c s b using i that by blast
  show "distinct (map multi_conn (multi_ops w))" using i by blast
  obtain c where "filter is_accept (multi_ops w) = [Multi_accept c]" using i by blast
  then show "length (filter is_accept (multi_ops w)) = 1" by simp
  show "prefix (answered w c) asio_reply" for c using i by blast
  fix c a k n assume m: "Multi_write c a k n \<in> set (multi_ops w)"
  show gone: "strings w a = None" using i by simp
  have "multi_op_ok w (Multi_write c a k n)" using i m by blast
  then show "answered w c @ drop k asio_reply = asio_reply" by simp
  show "multi_run (Inl Use_after_free)" if "k < n"
    using multi_run.gone [OF assms [unfolded r] m that gone] .
next
  show "e = Use_after_free" if "r = Inl e" for e using multi_run_inv [OF assms] that by blast
qed

lemma multi_server_write_gone_witness:
  "\<exists>w c n. multi_run (Inr w) \<and> Multi_write c 0 0 n \<in> set (multi_ops w) \<and> sessions w c = Some (0, True) \<and>
     strings w 0 = None \<and> multi_run (Inl Use_after_free)"
proof -
  obtain w0 where w0: "multi_server = Inr w0" "multi_ops w0 = [Multi_accept 0]" "next_session w0 = 1"
    "nextIOService w0 = 1" "sessions w0 0 = Some (0, True)" "next_string w0 = 0"
    by (simp add: multi_server_def multi_async_accept_turn pool_size_def)
  obtain w1 where w1: "multi_accepted False 0 (w0\<lparr>multi_ops := []\<rparr>) = Inr w1"
    "multi_ops w1 = [Multi_read 0, Multi_accept 1]" "sessions w1 0 = Some (0, True)" "next_string w1 = 0"
    using w0(2-) by (auto simp: multi_accepted_def multi_async_read_def multi_async_accept_turn pool_size_def)
  have 1: "multi_run (Inr (drop_sessions w1))"
    using multi_run.accepted [of w0 "[]" 0 "[]" _ False] multi_run.start w0(1,2) w1(1) by simp
  define w2 where "w2 = drop_sessions (multi_read_handler False 0 0 (drop_sessions w1\<lparr>multi_ops := [Multi_accept 1]\<rparr>))"
  have 2: "multi_run (Inr w2)" unfolding w2_def
    by (rule multi_run.read [OF 1, of "[]" 0 "[Multi_accept 1]"]) (simp_all add: w1(2))
  have m: "Multi_write 0 0 0 (length asio_reply) \<in> set (multi_ops w2)"
    by (simp add: w2_def multi_read_handler_def multi_async_write_def Let_def w1)
  have "sessions w2 0 = Some (0, True)"
    by (simp add: w2_def multi_read_handler_def multi_async_write_def Let_def w1 drop_sessions_def)
  moreover have "0 < length asio_reply" by (simp add: asio_reply_def)
  ultimately show ?thesis using multi_server_write_gone [OF 2] m 2 by blast
qed

end
