(* ===== verification/Secure.thy ===== *)
theory Secure imports Socket HttpServer begin

section \<open>examples/secure-socket: a server and a client on OpenSSL\<close>

text \<open>
  OpenSSL is not part of the repository: its calls are a record of functions over the state of kernel and library.
  \<open>0\<close> is the null pointer.  Both programs give up in several places; \<open>ssl_stop\<close> says how.  To pass a null pointer
  to the library is undefined.
\<close>

record 'k ssl_lib =
  SSL_CTX_new :: "'k \<Rightarrow> nat \<times> 'k"
  SSL_CTX_use_certificate_file :: "nat \<Rightarrow> string \<Rightarrow> 'k \<Rightarrow> int \<times> 'k"
  SSL_CTX_use_PrivateKey_file :: "nat \<Rightarrow> string \<Rightarrow> 'k \<Rightarrow> int \<times> 'k"
  SSL_new :: "nat \<Rightarrow> 'k \<Rightarrow> nat \<times> 'k"
  SSL_set_fd :: "nat \<Rightarrow> fd \<Rightarrow> 'k \<Rightarrow> 'k"
  SSL_accept :: "nat \<Rightarrow> 'k \<Rightarrow> int \<times> 'k"
  SSL_connect :: "nat \<Rightarrow> 'k \<Rightarrow> int \<times> 'k"
  SSL_write :: "nat \<Rightarrow> bytes \<Rightarrow> 'k \<Rightarrow> int \<times> 'k"
  SSL_read :: "nat \<Rightarrow> nat \<Rightarrow> 'k \<Rightarrow> (int \<times> bytes) \<times> 'k"
  SSL_shutdown :: "nat \<Rightarrow> 'k \<Rightarrow> 'k"
  SSL_free :: "nat \<Rightarrow> 'k \<Rightarrow> 'k"

datatype ssl_stop = Exit_failure string | Null_argument | Failed cpp_err

type_synonym ('k, 'a) ssl_result = "(ssl_stop \<times> 'k) + 'a"

definition ssl_bind :: "('k, 'a) ssl_result \<Rightarrow> ('a \<Rightarrow> ('k, 'b) ssl_result) \<Rightarrow> ('k, 'b) ssl_result" where
  "ssl_bind r f = (case r of Inl e \<Rightarrow> Inl e | Inr x \<Rightarrow> f x)"

lemma ssl_bind_simps [simp]: "ssl_bind (Inl e) f = Inl e" "ssl_bind (Inr x) f = f x"
  by (simp_all add: ssl_bind_def)

subsection \<open>ssl_server.cpp\<close>

definition create_socket :: "'k sock_os \<Rightarrow> sockaddr \<Rightarrow> 'k \<Rightarrow> ('k, fd \<times> 'k) ssl_result" where
  "create_socket sos a k =
     (case sys_socket sos k of
        (Inl _, k1) \<Rightarrow> Inl (Exit_failure ''Unable to create socket'', k1)
      | (Inr s, k1) \<Rightarrow>
          (case sys_bind sos s a k1 of
             (Some _, k2) \<Rightarrow> Inl (Exit_failure ''Unable to bind'', k2)
           | (None, k2) \<Rightarrow>
               (case sys_listen sos s 1 k2 of
                  (Some _, k3) \<Rightarrow> Inl (Exit_failure ''Unable to listen'', k3)
                | (None, k3) \<Rightarrow> Inr (s, k3))))"

definition create_context :: "'k ssl_lib \<Rightarrow> 'k \<Rightarrow> ('k, nat \<times> 'k) ssl_result" where
  "create_context L k =
     (let (ctx, k1) = SSL_CTX_new L k in
      if ctx = 0 then Inl (Exit_failure ''Unable to create SSL context'', k1) else Inr (ctx, k1))"

definition configure_context :: "'k ssl_lib \<Rightarrow> nat \<Rightarrow> 'k \<Rightarrow> ('k, 'k) ssl_result" where
  "configure_context L ctx k =
     (let (r, k1) = SSL_CTX_use_certificate_file L ctx ''cert.pem'' k in
      if r \<le> 0 then Inl (Exit_failure [], k1)
      else
        let (r', k2) = SSL_CTX_use_PrivateKey_file L ctx ''rsa_private_key.pem'' k1 in
        if r' \<le> 0 then Inl (Exit_failure [], k2) else Inr k2)"

definition ssl_reply :: bytes where
  "ssl_reply = ''test'' @ [CHR 0x0A]"

text \<open>One round of the loop of \<open>main\<close>.\<close>

definition serve_client :: "'k os \<Rightarrow> 'k ssl_lib \<Rightarrow> nat \<Rightarrow> fd \<Rightarrow> 'k \<Rightarrow> ('k, 'k) ssl_result" where
  "serve_client os L ctx sock k =
     (case sys_accept os sock k of
        (Inl _, k1) \<Rightarrow> Inl (Exit_failure ''Unable to accept'', k1)
      | (Inr client, k1) \<Rightarrow>
          let (ssl, k2) = SSL_new L ctx k1 in
          if ssl = 0 then Inl (Null_argument, k2)
          else
            let (r, k3) = SSL_accept L ssl (SSL_set_fd L ssl client k2);
                k4 = (if r \<le> 0 then k3 else snd (SSL_write L ssl ssl_reply k3)) in
            Inr (sys_close os client (SSL_free L ssl (SSL_shutdown L ssl k4))))"

partial_function (option) serve_clients ::
  "'k os \<Rightarrow> 'k ssl_lib \<Rightarrow> nat \<Rightarrow> fd \<Rightarrow> 'k \<Rightarrow> (ssl_stop \<times> 'k) option" where
  "serve_clients os L ctx sock k =
     (case serve_client os L ctx sock k of
        Inl stop \<Rightarrow> Some stop
      | Inr k' \<Rightarrow> serve_clients os L ctx sock k')"

definition ssl_server_main :: "'k os \<Rightarrow> 'k sock_os \<Rightarrow> 'k ssl_lib \<Rightarrow> sockaddr \<Rightarrow> 'k \<Rightarrow> (ssl_stop \<times> 'k) option" where
  "ssl_server_main os sos L a k =
     (case ssl_bind (create_context L k) (\<lambda>(ctx, k1).
             ssl_bind (configure_context L ctx k1) (\<lambda>k2.
             ssl_bind (create_socket sos a k2) (\<lambda>(sock, k3). Inr (ctx, sock, k3)))) of
        Inl stop \<Rightarrow> Some stop
      | Inr (ctx, sock, k3) \<Rightarrow> serve_clients os L ctx sock k3)"

subsection \<open>ssl_client.cpp\<close>

definition openssl_init :: "'k ssl_lib \<Rightarrow> 'k \<Rightarrow> nat \<times> 'k" where
  "openssl_init L k = (let (ctx, k1) = SSL_CTX_new L k in SSL_new L ctx k1)"

definition ssl_request :: bytes where
  "ssl_request = ''GET /s?wd=abc HTTP/1.1'' @ CRLF @ ''Host: www.baidu.com'' @ CRLF @ ''Connection: keep-alive'' @ CRLF @
     ''Cache-Control: max-age=0'' @ CRLF @
     ''sec-ch-ua: \"Google Chrome\";v=\"95\", \"Chromium\";v=\"95\", \";Not A Brand\";v=\"99\"'' @ CRLF @
     ''sec-ch-ua-mobile: ?0'' @ CRLF @ ''sec-ch-ua-platform: \"macOS\"'' @ CRLF @ ''DNT: 1'' @ CRLF @
     ''Upgrade-Insecure-Requests: 1'' @ CRLF @
     ''User-Agent: Mozilla/5.0 (Macintosh; Intel Mac OS X 10_15_7) AppleWebKit/537.36 (KHTML, like Gecko) Chrome/95.0.4638.54 Safari/537.36'' @ CRLF @
     ''Accept: text/html,application/xhtml+xml,application/xml;q=0.9,image/avif,image/webp,image/apng,*/*;q=0.8,application/signed-exchange;v=b3;q=0.9'' @ CRLF @
     ''Sec-Fetch-Site: none'' @ CRLF @ ''Sec-Fetch-Mode: navigate'' @ CRLF @ ''Sec-Fetch-User: ?1'' @ CRLF @
     ''Sec-Fetch-Dest: document'' @ CRLF @ ''Accept-Encoding: gzip, deflate, br'' @ CRLF @
     ''Accept-Language: zh-CN,zh;q=0.9'' @ CRLF"

definition buf_size :: nat where
  "buf_size = 10000"

text \<open>The read into \<open>buf\<close>, whose old content is \<open>buf\<close>, the terminating null character, and what \<open>printf\<close> prints.\<close>

definition receive_reply :: "'k ssl_lib \<Rightarrow> nat \<Rightarrow> bytes \<Rightarrow> 'k \<Rightarrow> ('k, bytes \<times> 'k) ssl_result" where
  "receive_reply L ssl buf k =
     (let ((len, bs), k') = SSL_read L ssl buf_size k in
      if len < 0 \<or> int buf_size \<le> len then Inl (Failed Out_of_bounds, k')
      else Inr (takeWhile (\<lambda>c. c \<noteq> NUL) ((blit buf 0 bs)[nat len := NUL]), k'))"

definition ssl_client_main ::
  "'k os \<Rightarrow> 'k sock_os \<Rightarrow> 'k ssl_lib \<Rightarrow> sockaddr \<Rightarrow> bytes \<Rightarrow> 'k env \<Rightarrow> ('k, bytes \<times> 'k) ssl_result" where
  "ssl_client_main os sos L a buf e =
     (let (s, e1) = makeNewSocket sos e;
          k2 = kern (sock_connect sos s a e1);
          (ssl, k3) = openssl_init L k2 in
      if ssl = 0 then Inl (Null_argument, k3)
      else
        let (err, k4) = SSL_connect L ssl (SSL_set_fd L ssl s k3) in
        if err \<le> 0 then Inl (Failed Assert_failed, k4)
        else
          let (len, k5) = SSL_write L ssl ssl_request k4 in
          if len \<noteq> int (length ssl_request) then Inl (Failed Assert_failed, k5)
          else
            ssl_bind (receive_reply L ssl buf k5) (\<lambda>(out, k6).
              Inr (out, if s \<noteq> 0 then sys_close os s k6 else k6)))"

subsection \<open>What the server leaves behind\<close>

text \<open>
  The documented effect of the calls on what is open, \<open>fds\<close>, and on the connections of the library that are
  allocated, \<open>objs\<close>: \<open>accept\<close> opens a new descriptor and \<open>SSL_new\<close> allocates a new object or returns a null
  pointer, \<open>close\<close> and \<open>SSL_free\<close> undo that, and the other calls change neither.  Of the calls that handle a client
  a model of the library must say what \<open>SSL_write\<close> and \<open>SSL_accept\<close> return; the rounds hold for every answer.
\<close>

definition ssl_contract ::
  "'k os \<Rightarrow> 'k ssl_lib \<Rightarrow> ('k \<Rightarrow> fd set) \<Rightarrow> ('k \<Rightarrow> nat set) \<Rightarrow> bool" where
  "ssl_contract os L fds objs \<longleftrightarrow>
     (\<forall>s k k'. \<forall>c. sys_accept os s k = (Inr c, k') \<longrightarrow> c \<notin> fds k \<and> fds k' = insert c (fds k) \<and> objs k' = objs k) \<and>
     (\<forall>s k k'. \<forall>e. sys_accept os s k = (Inl e, k') \<longrightarrow> fds k' = fds k \<and> objs k' = objs k) \<and>
     (\<forall>f k. fds (sys_close os f k) = fds k - {f} \<and> objs (sys_close os f k) = objs k) \<and>
     (\<forall>ctx k p k'. SSL_new L ctx k = (p, k') \<longrightarrow>
        fds k' = fds k \<and> (if p = 0 then objs k' = objs k else p \<notin> objs k \<and> objs k' = insert p (objs k))) \<and>
     (\<forall>p k. fds (SSL_free L p k) = fds k \<and> objs (SSL_free L p k) = objs k - {p}) \<and>
     (\<forall>p f k. fds (SSL_set_fd L p f k) = fds k \<and> objs (SSL_set_fd L p f k) = objs k) \<and>
     (\<forall>p k. fds (snd (SSL_accept L p k)) = fds k \<and> objs (snd (SSL_accept L p k)) = objs k) \<and>
     (\<forall>p bs k. fds (snd (SSL_write L p bs k)) = fds k \<and> objs (snd (SSL_write L p bs k)) = objs k) \<and>
     (\<forall>p k. fds (SSL_shutdown L p k) = fds k \<and> objs (SSL_shutdown L p k) = objs k)"

lemma ssl_contractD:
  assumes "ssl_contract os L fds objs"
  shows "sys_accept os s k = (Inr c, k') \<Longrightarrow> c \<notin> fds k \<and> fds k' = insert c (fds k) \<and> objs k' = objs k"
    and "sys_accept os s k = (Inl e, k') \<Longrightarrow> fds k' = fds k \<and> objs k' = objs k"
    and "fds (sys_close os f k) = fds k - {f} \<and> objs (sys_close os f k) = objs k"
    and "SSL_new L ctx k = (0, k') \<Longrightarrow> fds k' = fds k \<and> objs k' = objs k"
    and "SSL_new L ctx k = (p, k') \<Longrightarrow> p \<noteq> 0 \<Longrightarrow> fds k' = fds k \<and> p \<notin> objs k \<and> objs k' = insert p (objs k)"
    and "fds (SSL_free L p k) = fds k \<and> objs (SSL_free L p k) = objs k - {p}"
    and "fds (SSL_set_fd L p f k) = fds k \<and> objs (SSL_set_fd L p f k) = objs k"
    and "fds (snd (SSL_accept L p k)) = fds k \<and> objs (snd (SSL_accept L p k)) = objs k"
    and "fds (snd (SSL_write L p bs k)) = fds k \<and> objs (snd (SSL_write L p bs k)) = objs k"
    and "fds (SSL_shutdown L p k) = fds k \<and> objs (SSL_shutdown L p k) = objs k"
  using assms unfolding ssl_contract_def by - (elim conjE, metis)+

text \<open>A round that ends leaves nothing; one that stops the program is a failed accept or a null pointer.\<close>

lemma serve_client_cases:
  assumes c: "ssl_contract os L fds objs" and r: "serve_client os L ctx sock k = r"
  obtains (served) k' where "r = Inr k'" "fds k' = fds k" "objs k' = objs k"
  | (failed) k' where "r = Inl (Exit_failure ''Unable to accept'', k')" "fds k' = fds k" "objs k' = objs k"
  | (null) client k' where "r = Inl (Null_argument, k')" "client \<notin> fds k" "fds k' = insert client (fds k)" "objs k' = objs k"
proof (cases "sys_accept os sock k")
  case (Pair a k1)
  note c' = ssl_contractD [OF c]
  show ?thesis
  proof (cases a)
    case (Inl e)
    then have "fds k1 = fds k \<and> objs k1 = objs k" using Pair by (intro c'(2)) simp
    then show ?thesis using Inl Pair r by (intro failed [of k1]) (simp_all add: serve_client_def)
  next
    case (Inr client)
    then have k1: "client \<notin> fds k \<and> fds k1 = insert client (fds k) \<and> objs k1 = objs k" using Pair by (intro c'(1)) simp
    obtain p k2 where new: "SSL_new L ctx k1 = (p, k2)" by fastforce
    show ?thesis
    proof (cases "p = 0")
      case True
      with new c'(4) [of ctx k1 k2] have "fds k2 = fds k1 \<and> objs k2 = objs k1" by simp
      with True Pair Inr r new k1 show ?thesis by (intro null [of k2 client]) (simp_all add: serve_client_def)
    next
      case False
      obtain n k3 where acc: "SSL_accept L p (SSL_set_fd L p client k2) = (n, k3)" by fastforce
      define k4 where "k4 = (if n \<le> 0 then k3 else snd (SSL_write L p ssl_reply k3))"
      define k5 where "k5 = sys_close os client (SSL_free L p (SSL_shutdown L p k4))"
      have k2: "fds k2 = fds k1 \<and> p \<notin> objs k1 \<and> objs k2 = insert p (objs k1)" by (rule c'(5) [OF new False])
      have k3: "fds k3 = fds k2 \<and> objs k3 = objs k2"
        using c'(7) [of p client k2] c'(8) [of p "SSL_set_fd L p client k2"] acc by simp
      have k4: "fds k4 = fds k3 \<and> objs k4 = objs k3" using c'(9) by (simp add: k4_def)
      have "fds k5 = fds k - {client}" "objs k5 = objs k - {p}"
        using k1 k2 k3 k4 by (simp_all add: k5_def c'(3,6,10))
      moreover have "r = Inr k5"
        using False Pair Inr r new acc by (simp add: serve_client_def k4_def k5_def)
      ultimately show ?thesis using k1 k2 by (intro served [of k5]) simp_all
    qed
  qed
qed

text \<open>
  However many clients come and whatever their handshakes do, when the program stops it has closed every client
  and freed every object of the library: it stops at a failed \<open>accept\<close>, or at a null pointer of \<open>SSL_new\<close> with
  exactly one descriptor left, that of the client it was for.
\<close>

theorem secure_server_no_leak:
  assumes "ssl_contract os L fds objs" and "serve_clients os L ctx sock k = Some (stop, k')"
  shows "objs k' = objs k \<and>
    ((stop = Exit_failure ''Unable to accept'' \<and> fds k' = fds k) \<or>
     (stop = Null_argument \<and> (\<exists>client. client \<notin> fds k \<and> fds k' = insert client (fds k))))"
proof -
  let ?P = "\<lambda>k' k r. objs k' = objs k \<and>
    ((r = Exit_failure ''Unable to accept'' \<and> fds k' = fds k) \<or>
     (r = Null_argument \<and> (\<exists>client. client \<notin> fds k \<and> fds k' = insert client (fds k))))"
  have "os' = os \<and> L' = L \<longrightarrow> ?P (snd r) k (fst r)" if "serve_clients os' L' ctx sock k = Some r" for os' L' ctx sock k r
  proof (rule serve_clients.raw_induct [where P = "\<lambda>os' L' ctx sock k r. os' = os \<and> L' = L \<longrightarrow> ?P (snd r) k (fst r)", OF _ that],
      intro impI)
    fix rec os' L' ctx sock k r
    assume IH: "\<And>os' L' ctx sock k r. rec os' L' ctx sock k = Some r \<Longrightarrow> os' = os \<and> L' = L \<longrightarrow> ?P (snd r) k (fst r)"
      and eq: "(case serve_client os' L' ctx sock k of Inl stop \<Rightarrow> Some stop | Inr k' \<Rightarrow> rec os' L' ctx sock k') = Some r"
      and os: "os' = os \<and> L' = L"
    show "?P (snd r) k (fst r)"
      using assms(1) refl [of "serve_client os L ctx sock k"]
    proof (cases rule: serve_client_cases)
      case (served k1)
      then have "rec os' L' ctx sock k1 = Some r" using eq os by simp
      from IH [OF this] os served show ?thesis by simp
    qed (use eq os in auto)
  qed
  from this [OF assms(2)] show ?thesis by simp
qed

text \<open>A kernel for the witness: the descriptors of the clients to come, and what is open and allocated.\<close>

definition demo_accept :: "fd \<Rightarrow> fd list \<times> fd list \<times> nat list \<Rightarrow> (errno + fd) \<times> fd list \<times> fd list \<times> nat list" where
  "demo_accept s k = (case k of (q, F, Z) \<Rightarrow>
     (case q of
        [] \<Rightarrow> (Inl EAGAIN, k)
      | c # q' \<Rightarrow> if c \<in> set F then (Inl EAGAIN, (q', F, Z)) else (Inr c, (q', c # F, Z))))"

definition demo_ssl_os :: "(fd list \<times> fd list \<times> nat list) os" where
  "demo_ssl_os = \<lparr>sys_read = (\<lambda>f n k. (RdErr EAGAIN, k)), sys_write = (\<lambda>f bs k. (WrErr EAGAIN, k)),
     sys_close = (\<lambda>f (q, F, Z). (q, removeAll f F, Z)), sys_accept = demo_accept, sys_getfl = (\<lambda>f k. (Inr 0, k)),
     sys_setfl = (\<lambda>f m k. (None, k)), sys_epoll_ctl = (\<lambda>ep op f e k. (None, k))\<rparr>"

definition demo_ssl_lib :: "(fd list \<times> fd list \<times> nat list) ssl_lib" where
  "demo_ssl_lib = \<lparr>SSL_CTX_new = (\<lambda>k. (1, k)), SSL_CTX_use_certificate_file = (\<lambda>c f k. (1, k)),
     SSL_CTX_use_PrivateKey_file = (\<lambda>c f k. (1, k)),
     SSL_new = (\<lambda>c (q, F, Z). (Suc (sum_list Z), (q, F, Suc (sum_list Z) # Z))), SSL_set_fd = (\<lambda>p f k. k),
     SSL_accept = (\<lambda>p k. (1, k)), SSL_connect = (\<lambda>p k. (1, k)), SSL_write = (\<lambda>p bs k. (int (length bs), k)),
     SSL_read = (\<lambda>p n k. ((0, []), k)), SSL_shutdown = (\<lambda>p k. k),
     SSL_free = (\<lambda>p (q, F, Z). (q, F, removeAll p Z))\<rparr>"

lemma demo_ssl_contract:
  "ssl_contract demo_ssl_os demo_ssl_lib (\<lambda>(q, F, Z). set F) (\<lambda>(q, F, Z). set Z)"
proof -
  have "Suc (sum_list Z) \<notin> set Z" for Z :: "nat list"
    using member_le_sum_list [of "Suc (sum_list Z)" Z] by auto
  then show ?thesis
    by (auto simp: ssl_contract_def demo_ssl_os_def demo_ssl_lib_def demo_accept_def split: list.splits if_splits)
qed

lemma secure_server_no_leak_witness:
  "\<exists>k. serve_clients demo_ssl_os demo_ssl_lib 1 3 ([4, 5], [3], []) = Some (Exit_failure ''Unable to accept'', k) \<and>
     (case k of (q, F, Z) \<Rightarrow> set F = {3} \<and> set Z = {})"
proof -
  have r: "serve_clients demo_ssl_os demo_ssl_lib 1 3 ([4, 5], [3], []) =
      Some (Exit_failure ''Unable to accept'', ([], [3], []))"
    by (simp add: serve_clients.simps serve_client_def demo_ssl_os_def demo_ssl_lib_def demo_accept_def Let_def)
  show ?thesis using secure_server_no_leak [OF demo_ssl_contract r] r by auto
qed

subsection \<open>The client\<close>

text \<open>
  The reply is printed up to its first null character, if the read delivered something and not the whole buffer;
  an error and a full buffer make the terminating null character go to an index outside \<open>buf\<close>.
\<close>

lemma receive_reply_cases:
  assumes "SSL_read L ssl buf_size k = ((len, bs), k')" and "length buf = buf_size"
    and "0 \<le> len \<longrightarrow> int (length bs) = len"
  shows "receive_reply L ssl buf k =
    (if 0 \<le> len \<and> len < int buf_size then Inr (takeWhile (\<lambda>c. c \<noteq> NUL) bs, k')
     else Inl (Failed Out_of_bounds, k'))"
proof (cases "0 \<le> len \<and> len < int buf_size")
  case True
  with assms(3) have n: "nat len = length bs" "length bs < length buf" using assms(2) by auto
  have "takeWhile (\<lambda>c. c \<noteq> NUL) ((blit buf 0 bs)[length bs := NUL]) = takeWhile (\<lambda>c. c \<noteq> NUL) bs"
  proof -
    have "(blit buf 0 bs)[length bs := NUL] = bs @ NUL # drop (Suc (length bs)) buf"
      using n(2) by (simp add: blit_def list_update_append Cons_nth_drop_Suc [symmetric])
    then show ?thesis
      by (auto simp: takeWhile_append intro: takeWhile_eq_all_conv [THEN iffD2, symmetric])
  qed
  with True assms(1) n(1) show ?thesis by (auto simp: receive_reply_def)
next
  case False
  with assms(1) show ?thesis by (auto simp: receive_reply_def)
qed

text \<open>
  The request has no empty line at its end, so a server that waits for complete messages never calls back.
\<close>

lemma ssl_request_incomplete: "memmem ssl_request CRLFCRLF = None"
  unfolding ssl_request_def CRLF_def CRLFCRLF_def by code_simp

end
