(* ===== verification/PingPong.thy ===== *)
theory PingPong imports Echo TcpClient "HOL-Library.Sublist" begin

section \<open>examples/ping-pong: the client, and the server without the library\<close>

text \<open>
  \<open>client.cpp\<close> opens connections, sends a block on each and then echoes what comes back, counting bytes.
  \<open>plain_server.cpp\<close> is an echo server of system calls only.  The properties: whether the first block leaves
  the client depends on which thread looks at the new connection first; and what the plain server echoes.
\<close>

subsection \<open>client.cpp\<close>

text \<open>The message callback, with the counter \<open>bytes\<close>.\<close>

definition client_whenMsgArrived ::
  "'k os \<Rightarrow> conn_id \<Rightarrow> nat \<times> ('k, 'z) conn_world_scheme \<Rightarrow> (nat \<times> ('k, 'z) conn_world_scheme) res" where
  "client_whenMsgArrived os conn = (\<lambda>(bytes, w).
     res_bind (deref (conns w) conn) (\<lambda>x.
       res_bind (send_data os conn (peek_bytes (readBuffer x) (readableBytes (readBuffer x))) w) (\<lambda>w1.
         res_bind (deref (conns w1) conn) (\<lambda>x1.
           let bytes1 = sz_add bytes (readableBytes (readBuffer x1)) in
           res_bind (retrieveAll (readBuffer x1)) (\<lambda>(_, b).
             Inr (bytes1, upd_conn conn (x1\<lparr>readBuffer := b\<rparr>) w1))))))"

text \<open>The task that prints the rate: the counter is read and cleared.\<close>

definition taskPerSecond :: "int \<times> nat \<Rightarrow> (int \<times> nat) \<times> nat" where
  "taskPerSecond = (\<lambda>(i, bytes). ((i + 1, 0), bytes))"

definition block_size :: nat where
  "block_size = 4 * 1024"

text \<open>The loop of \<open>main\<close>.  (\<open>junk\<close>: what the address variable holds if its text is no address.)\<close>

primrec open_connections :: "'k os \<Rightarrow> 'k sock_os \<Rightarrow> in_addr \<Rightarrow> bytes \<Rightarrow> nat \<Rightarrow> 'k cworld \<Rightarrow> 'k cworld res" where
  "open_connections os sos junk msg 0 w = Inr w"
| "open_connections os sos junk msg (Suc n) w =
     res_bind (init_text (\<lambda>_. False) junk ''12345'' ''127.0.0.1'' AF_INET) (\<lambda>(addr, lg).
       res_bind (client_connect os sos addr (w\<lparr>env := (env w)\<lparr>logs := logs (env w) @ lg\<rparr>\<rparr>)) (\<lambda>(c, w1).
         res_bind (send_data os c msg w1) (open_connections os sos junk msg n)))"

lemma pingpong_addr: "init_text (\<lambda>_. False) junk ''12345'' ''127.0.0.1'' AF_INET = Inr (demo_addr, [])"
  by code_simp

subsection \<open>plain_server.cpp\<close>

text \<open>The loop of \<open>main\<close>: what \<open>write\<close> answers is not looked at.  The result is the environment it ends in.\<close>

partial_function (option) plain_loop :: "'k os \<Rightarrow> fd \<Rightarrow> 'k \<Rightarrow> 'k option" where
  "plain_loop os f k =
     (case sys_read os f 2048 k of
        (RdErr _, k1) \<Rightarrow> Some k1
      | (RdBytes bs, k1) \<Rightarrow>
          if bs = [] then Some k1 else plain_loop os f (snd (sys_write os f bs k1)))"

subsection \<open>Lemmas\<close>

lemma send_flag_error: "send_flag os c l w = Inl e \<Longrightarrow> e \<noteq> Length_error"
  by (auto simp: send_flag_def setWritable_def set_mask_def update_event_def setWriteCallback_def deref_def Let_def split: if_splits option.splits)

text \<open>A connection that has just been made by \<open>connect\<close>.\<close>

definition connecting :: "'k cworld \<Rightarrow> conn_id \<Rightarrow> tcp_conn \<Rightarrow> event \<Rightarrow> bool" where
  "connecting w c x ev \<longleftrightarrow>
     conns w c = Some x \<and> writeBuffer x = new_buffer IO_BUFFER_SIZE \<and> evs w (conn_event x) = Some ev \<and> isWritable ev"

lemma connecting_buffer:
  assumes "connecting w c x ev" and "length msg \<le> IO_BUFFER_SIZE"
  shows "buf_inv (writeBuffer x)" "contents (writeBuffer x) = []" "length msg \<le> writableBytes (writeBuffer x)"
    "length msg \<le> vec_max"
  using assms by (simp_all add: connecting_def new_buffer_inv IO_BUFFER_SIZE_def vec_max_def writableBytes_def
      new_buffer_def sz_sub_def contents_def buf_inv_def)

lemma early_send_stalls:
  assumes x: "connecting w1 c x ev" and msg: "msg \<noteq> []" "length msg \<le> IO_BUFFER_SIZE"
    and good: "\<And>k1. \<exists>k2. sys_so_error sos (sockfd x) k1 = (Inr 0, k2)" and none: "cl_connEsta cl = None"
  obtains w2 w3 y ev' where "send_data os c msg w1 = Inr w2" "client_check_connect os sos junk cl c w2 = Inr w3"
    "conns w3 c = Some y" "conn_state y = ESTABLISHED" "contents (writeBuffer y) = msg"
    "evs w3 (conn_event y) = Some ev'" "\<not> isWritable ev'"
proof -
  note b = connecting_buffer [OF x msg(2)]
  have c1: "conns w1 c = Some x" "evs w1 (conn_event x) = Some ev" "isWritable ev" using x by (simp_all add: connecting_def)
  obtain b lg where send: "send_data os c msg w1 = Inr (upd_conn c (x\<lparr>writeBuffer := b, isWillClose := False\<rparr>)
      (w1\<lparr>env := (env w1)\<lparr>logs := lg\<rparr>\<rparr>))" "contents b = msg"
    using send_data_waiting [OF c1(1) b(1) c1(2,3) msg(1) b(3)] b(2) by (metis append_Nil)
  define w2 where "w2 = upd_conn c (x\<lparr>writeBuffer := b, isWillClose := False\<rparr>) (w1\<lparr>env := (env w1)\<lparr>logs := lg\<rparr>\<rparr>)"
  let ?y = "x\<lparr>writeBuffer := b, isWillClose := False\<rparr>"
  obtain k2 where er: "checkHasError sos junk (sockfd ?y) (env w2) = (False, (env w2)\<lparr>kern := k2\<rparr>)"
    using good [of "kern (env w2)"] by (auto simp: checkHasError_def)
  define v where "v = w2\<lparr>env := (env w2)\<lparr>kern := k2\<rparr>\<rparr>"
  have c2: "conns w2 c = Some ?y" "conns v c = Some ?y" "evs v (conn_event ?y) = Some ev"
    using c1(2) by (simp_all add: w2_def v_def upd_conn_def)
  have esta: "run_if_set (cl_connEsta cl) c (w2\<lparr>env := (env w2)\<lparr>kern := k2\<rparr>\<rparr>) = Inr v"
    using none by (simp add: run_if_set_def v_def)
  let ?ev = "set_flag EPOLLOUT False ev"
  have nw: "\<not> isWritable ?ev" by (simp only: isWritable_set_flag) simp
  obtain w3 where w3: "client_check_connect os sos junk cl c w2 = Inr w3"
    "conns w3 c = Some (?y\<lparr>conn_state := ESTABLISHED\<rparr>)" "evs w3 (conn_event ?y) = Some ?ev"
    using check_connect_eq [OF c2(1) er esta c2(2,3), of os] by (simp add: upd_conn_def)
  show ?thesis
    by (rule that [OF send(1) [folded w2_def] w3(1,2) _ _ _ nw]) (use w3(3) send(2) in simp_all)
qed

lemma late_send_starts:
  assumes os: "os_contract os inq outq interest" and sos: "sock_contract sos outq interest"
    and inv: "conn_inv interest w1" and x: "connecting w1 c x ev" and msg: "msg \<noteq> []" "length msg \<le> IO_BUFFER_SIZE"
    and good: "\<And>k1. \<exists>k2. sys_so_error sos (sockfd x) k1 = (Inr 0, k2)" and none: "cl_connEsta cl = None"
  obtains w2 w3 y ev' where "client_check_connect os sos junk cl c w1 = Inr w2" "send_data os c msg w2 = Inr w3"
    "conn_inv interest w3" "conns w3 c = Some y" "conn_state y = ESTABLISHED" "contents (writeBuffer y) = msg"
    "evs w3 (conn_event y) = Some ev'" "isWritable ev'" "writeCallback ev' = Some (Cb_send_nonblock c)"
proof -
  note b = connecting_buffer [OF x msg(2)]
  have c1: "conns w1 c = Some x" "evs w1 (conn_event x) = Some ev" using x by (simp_all add: connecting_def)
  obtain k2 where k2: "sys_so_error sos (sockfd x) (kern (env w1)) = (Inr 0, k2)" using good by blast
  from check_connect_keeps [OF os sos inv c1(1) b(2) c1(2) k2 none] obtain w2 where
    w2: "client_check_connect os sos junk cl c w1 = Inr w2" "conn_inv interest w2"
    "conns w2 = (conns w1)(c \<mapsto> x\<lparr>conn_state := ESTABLISHED\<rparr>)" by metis
  define z where "z = x\<lparr>conn_state := ESTABLISHED\<rparr>"
  have z: "conns w2 c = Some z" "conn_state z = ESTABLISHED" "writeBuffer z = writeBuffer x"
    using w2(3) by (simp_all add: z_def)
  have st: "conn_state z \<noteq> BLANK" using z(2) by simp
  obtain b' where b': "buf_append (writeBuffer z) msg = Inr b'"
    using b(3) by (cases rule: buf_append_cases [OF b(1,4)]) (simp_all add: z(3))
  have no: "send_data os c msg w2 \<noteq> Inl Length_error"
    using z(1) b' by (auto simp: send_data_def Let_def dest: send_flag_error)
  from os w2(2) z(1) st b(4) disjI1 [OF msg(1)] show ?thesis
  proof (cases rule: send_data_spec)
    case (sent w3 y)
    have y: "conn_state y = ESTABLISHED" "conn_state y \<noteq> BLANK" by (subst sent(7), simp add: z(2))+
    have m: "contents (writeBuffer y) = msg" using sent(5) z(3) b(2) by simp
    obtain ev' where "evs w3 (conn_event y) = Some ev'" "isWritable ev'" "writeCallback ev' = Some (Cb_send_nonblock c)"
      using conn_okE [OF conn_invD(2) [OF sent(2,4)]] y(2) m msg(1) by metis
    then show ?thesis by (rule that [OF w2(1) sent(1,2,4) y(1) m])
  qed (use no in simp)
qed

subsection \<open>Properties\<close>

text \<open>
  The first block of the ping-pong client.  If the thread that opened the connection sends before a loop has
  seen the connection established (always so without helper threads), the block stays in the write buffer of an
  established connection whose event does not ask for writability: nothing will send it, and the server has
  nothing to echo.  If a helper thread's loop sees the connection first, the block is on its way: the invariant
  holds, with the event asking for writability to run \<open>sendNonblock\<close>.
\<close>

theorem pingpong_first_block:
  assumes os: "os_contract os inq outq interest" and sos: "sock_contract sos outq interest"
    and inv: "conn_inv interest w" and pool: "getNextPool (cpool w) = Inr (l, p)"
    and sock: "sys_socket sos (kern (env w)) = (Inr f, k)"
    and good: "\<And>k1. \<exists>k2. sys_so_error sos f k1 = (Inr 0, k2)" and none: "cl_connEsta cl = None"
    and msg: "msg \<noteq> []" "length msg \<le> IO_BUFFER_SIZE"
  shows "(\<exists>w1 w2 x ev. open_connections os sos ip msg 1 w = Inr w1 \<and>
      client_callback os sos junk cl rest (Cb_check_connect (next_conn w)) w1 = Inr w2 \<and>
      conns w2 (next_conn w) = Some x \<and> conn_state x = ESTABLISHED \<and> contents (writeBuffer x) = msg \<and>
      evs w2 (conn_event x) = Some ev \<and> \<not> isWritable ev) \<and>
    (\<exists>w1 w2 w3 x ev. client_connect os sos demo_addr w = Inr (next_conn w, w1) \<and>
      client_callback os sos junk cl rest (Cb_check_connect (next_conn w)) w1 = Inr w2 \<and>
      send_data os (next_conn w) msg w2 = Inr w3 \<and> conn_inv interest w3 \<and>
      conns w3 (next_conn w) = Some x \<and> conn_state x = ESTABLISHED \<and> contents (writeBuffer x) = msg \<and>
      evs w3 (conn_event x) = Some ev \<and> isWritable ev \<and> writeCallback ev = Some (Cb_send_nonblock (next_conn w)))"
proof -
  let ?c = "next_conn w" and ?x = "(new_conn (next_ev w) f l)\<lparr>conn_state := BLANK\<rparr>"
  obtain w1 ev where w1: "client_connect os sos demo_addr w = Inr (?c, w1)" "conn_inv interest w1"
    "conns w1 = (conns w)(?c \<mapsto> ?x)" "evs w1 = (evs w)(next_ev w \<mapsto> ev)" "isWritable ev"
    using client_connect_spec [OF os sos inv pool sock] by metis
  have x: "connecting w1 ?c ?x ev" using w1(3-5) by (simp add: connecting_def new_conn_def)
  have good': "\<exists>k2. sys_so_error sos (sockfd ?x) k1 = (Inr 0, k2)" for k1 using good by (simp add: new_conn_def)
  have run: "open_connections os sos ip msg 1 w = send_data os ?c msg w1"
    using w1(1) by (cases "send_data os ?c msg w1") (simp_all add: pingpong_addr)
  obtain w2 w3 y ev' where "send_data os ?c msg w1 = Inr w2" "client_check_connect os sos junk cl ?c w2 = Inr w3"
    "conns w3 ?c = Some y" "conn_state y = ESTABLISHED" "contents (writeBuffer y) = msg"
    "evs w3 (conn_event y) = Some ev'" "\<not> isWritable ev'"
    using early_send_stalls [OF x msg good' none] by metis
  note stalls = this [folded run]
  obtain v2 v3 z ez where starts: "client_check_connect os sos junk cl ?c w1 = Inr v2" "send_data os ?c msg v2 = Inr v3"
    "conn_inv interest v3" "conns v3 ?c = Some z" "conn_state z = ESTABLISHED" "contents (writeBuffer z) = msg"
    "evs v3 (conn_event z) = Some ez" "isWritable ez" "writeCallback ez = Some (Cb_send_nonblock ?c)"
    using late_send_starts [OF os sos w1(2) x msg good' none] by metis
  have cb: "client_callback os sos junk cl rest (Cb_check_connect ?c) v = client_check_connect os sos junk cl ?c v" for v
    by (simp add: client_callback_def)
  show ?thesis unfolding cb using stalls starts w1(1) by blast
qed

theorem pingpong_first_block_witness:
  "(\<exists>w1. open_connections sim_os (sim_sock_os 0) (In_addr 0 0 0 0) ''ping'' 1 (demo_client sim_init []) = Inr w1) \<and>
   (\<exists>w1 w2 w3. client_connect sim_os (sim_sock_os 0) demo_addr (demo_client sim_init []) = Inr (1, w1) \<and>
      client_callback sim_os (sim_sock_os 0) 0 (plain_client None None) (\<lambda>cb. Inr) (Cb_check_connect 1) w1 = Inr w2 \<and>
      send_data sim_os 1 ''ping'' w2 = Inr w3 \<and> conn_inv sim_interest w3)"
proof -
  let ?w = "demo_client sim_init []"
  have inv: "conn_inv sim_interest ?w" by (rule demo_client_inv) simp
  have pool: "getNextPool (cpool ?w) = Inr (1, new_pool 1 [])"
    by (simp add: demo_client_def getNextPool_def new_pool_def)
  have sock: "sys_socket (sim_sock_os 0) (kern (env ?w)) = (Inr 8, kern (env ?w))"
    by (simp add: sim_sock_os_def sim_socket_def demo_client_def sim_init_def)
  have good: "\<exists>k2. sys_so_error (sim_sock_os 0) 8 k1 = (Inr 0, k2)" for k1 by (simp add: sim_sock_os_def)
  have sel: "next_conn ?w = 1" by (simp add: demo_client_def)
  have none: "cl_connEsta (plain_client None None) = None" by (simp add: plain_client_def)
  have msg: "''ping'' \<noteq> []" "length ''ping'' \<le> IO_BUFFER_SIZE" by (simp_all add: IO_BUFFER_SIZE_def)
  note t = pingpong_first_block [OF sim_os_contract sim_sock_contract inv pool sock good none msg,
      where ip = "In_addr 0 0 0 0" and junk = 0 and rest = "\<lambda>cb. Inr", unfolded sel]
  show ?thesis
  proof (rule conjI)
    show "\<exists>w1. open_connections sim_os (sim_sock_os 0) (In_addr 0 0 0 0) ''ping'' 1 ?w = Inr w1"
      using conjunct1 [OF t] by blast
    show "\<exists>w1 w2 w3. client_connect sim_os (sim_sock_os 0) demo_addr ?w = Inr (1, w1) \<and>
      client_callback sim_os (sim_sock_os 0) 0 (plain_client None None) (\<lambda>cb. Inr) (Cb_check_connect 1) w1 = Inr w2 \<and>
      send_data sim_os 1 ''ping'' w2 = Inr w3 \<and> conn_inv sim_interest w3"
      using conjunct2 [OF t] by blast
  qed
qed

text \<open>
  The plain server returns, for every kernel that keeps the contract of streams.  What it has written is what
  it has read with pieces left out; nothing is left out when every \<open>write\<close> takes all it is given.
\<close>

definition writes_all :: "'k os \<Rightarrow> fd \<Rightarrow> bool" where
  "writes_all os f \<longleftrightarrow> (\<forall>bs k. \<exists>k'. sys_write os f bs k = (WrBytes (length bs), k'))"

theorem plain_server_echo:
  assumes os: "stream_contract os inq outq"
  shows "\<exists>k' got out. plain_loop os f k = Some k' \<and> inq f k = got @ inq f k' \<and> outq f k' = outq f k @ out \<and>
    subseq out got \<and> (writes_all os f \<longrightarrow> out = got)"
proof (induction "length (inq f k)" arbitrary: k rule: less_induct)
  case less
  obtain a k1 where rd: "sys_read os f 2048 k = (a, k1)" by fastforce
  have o1: "outq f k1 = outq f k" using stream_contractD(4) [OF os rd] .
  show ?case
  proof (cases a)
    case (RdErr e)
    then have "plain_loop os f k = Some k1" using rd by (subst plain_loop.simps) simp
    moreover have "inq f k1 = inq f k" using stream_contractD(3) [OF os] rd RdErr by blast
    ultimately show ?thesis
      using o1 by - (rule exI [of _ k1], rule exI [of _ "[]"], rule exI [of _ "[]"], simp)
  next
    case (RdBytes bs)
    have i1: "inq f k = bs @ inq f k1" using stream_contractD(2) [OF os] rd RdBytes by blast
    show ?thesis
    proof (cases "bs = []")
      case True
      then have "plain_loop os f k = Some k1" using rd RdBytes by (subst plain_loop.simps) simp
      then show ?thesis
        using o1 i1 True by - (rule exI [of _ k1], rule exI [of _ "[]"], rule exI [of _ "[]"], simp)
    next
      case False
      obtain b k2 where wr: "sys_write os f bs k1 = (b, k2)" by fastforce
      have loop: "plain_loop os f k = plain_loop os f k2"
        using rd RdBytes False wr by (subst plain_loop.simps) simp
      have i2: "inq f k2 = inq f k1" using stream_contractD(8) [OF os wr] .
      have all: "b = WrBytes (length bs)" if "writes_all os f"
      proof -
        obtain k' where "sys_write os f bs k1 = (WrBytes (length bs), k')" using \<open>writes_all os f\<close> unfolding writes_all_def by blast
        then show ?thesis using wr by simp
      qed
      obtain n where o2: "outq f k2 = outq f k1 @ take n bs" "writes_all os f \<longrightarrow> take n bs = bs"
      proof (cases b)
        case (WrBytes n)
        show ?thesis
        proof (rule that [of n])
          show "outq f k2 = outq f k1 @ take n bs" using stream_contractD(6) [OF os wr [unfolded WrBytes]] .
          show "writes_all os f \<longrightarrow> take n bs = bs" using all WrBytes by simp
        qed
      next
        case (WrErr e)
        show ?thesis
        proof (rule that [of 0])
          show "outq f k2 = outq f k1 @ take 0 bs" using stream_contractD(7) [OF os wr [unfolded WrErr]] by simp
          show "writes_all os f \<longrightarrow> take 0 bs = bs" using all WrErr by auto
        qed
      qed
      have "length (inq f k2) < length (inq f k)" using i1 i2 False by simp
      from less [OF this] obtain k' got out where ih: "plain_loop os f k2 = Some k'" "inq f k2 = got @ inq f k'"
        "outq f k' = outq f k2 @ out" "subseq out got" "writes_all os f \<longrightarrow> out = got" by blast
      have "subseq (take n bs) bs" by (intro prefix_imp_subseq take_is_prefix)
      then have "subseq (take n bs @ out) (bs @ got)" using ih(4) by (rule list_emb_append_mono)
      then show ?thesis
        using loop ih o1 o2 i1 i2 by - (rule exI [of _ k'], rule exI [of _ "bs @ got"], rule exI [of _ "take n bs @ out"], simp)
    qed
  qed
qed

theorem plain_server_echo_witness:
  "\<exists>k'. plain_loop sim_os 5 (sim_init\<lparr>sim_rd := (\<lambda>_. [RdBytes ''ab'', RdBytes ''c'', RdBytes []])\<rparr>) = Some k' \<and>
     (\<exists>out. sim_outq 5 k' = out \<and> subseq out ''abc'')"
proof -
  define k where "k = sim_init\<lparr>sim_rd := (\<lambda>_. [RdBytes ''ab'', RdBytes ''c'', RdBytes []])\<rparr>"
  have i: "sim_inq 5 k = ''abc''" "sim_outq 5 k = []" by (simp_all add: k_def sim_inq_def sim_outq_def sim_init_def)
  obtain k' got out where r: "plain_loop sim_os 5 k = Some k'" "sim_inq 5 k = got @ sim_inq 5 k'"
    "sim_outq 5 k' = sim_outq 5 k @ out" "subseq out got"
    using plain_server_echo [OF sim_stream_contract, of 5 k] by (elim exE conjE) (rule that)
  have "subseq out (got @ sim_inq 5 k')" using r(4) by (rule subseq_rev_drop_many)
  then have "subseq out ''abc''" using r(2) i(1) by simp
  then show ?thesis unfolding k_def [symmetric] using r(1,3) i(2) by auto
qed

end
