(* ===== verification/Rtsp.thy ===== *)
theory Rtsp imports HttpServer InAddr begin

section \<open>examples/RTSP: an RTSP server on top of \<open>TcpServer\<close>\<close>

text \<open>
  The example parses a request from the read buffer with a moving pointer (an index into the buffer's
  vector, as for the HTTP server), answers it, and keeps a table of sessions.  The parser copies the
  fields into strings.  The lemmas describe the parser on a memory \<open>A @ x @ c # B\<close> with the pointer at
  \<open>length A\<close>; the properties are the parser's round trip, the life of a session, and that the message
  callback never returns.
\<close>

subsection \<open>Data\<close>

datatype session_mode = NONE | PLAYING | PAUSED | DESTORYED

record session_state =
  ss_id :: string
  ss_URI :: string
  ss_version :: string
  cur_state :: session_mode

definition new_session :: "string \<Rightarrow> string \<Rightarrow> string \<Rightarrow> session_state" where
  "new_session sid URI version = \<lparr>ss_id = sid, ss_URI = URI, ss_version = version, cur_state = NONE\<rparr>"

type_synonym session_table = "string \<rightharpoonup> session_state"

text \<open>
  A request's headers are only looked up, a response's are also printed: those are a list in the order of
  their insertion.  Both are \<open>unordered_map\<close>s, whose \<open>insert\<close> keeps what is there.
\<close>

record rtsp_request =
  r_method :: string
  r_URI :: string
  r_version :: string
  r_headers :: "string \<rightharpoonup> string"
  r_body :: string

record rtsp_response =
  s_version :: string
  status_code :: string
  status_cause :: string
  s_headers :: "(string \<times> string) list"
  s_body :: string

definition insert_header :: "string \<Rightarrow> string \<Rightarrow> (string \<rightharpoonup> string) \<Rightarrow> (string \<rightharpoonup> string)" where
  "insert_header k v m = (if m k = None then m(k \<mapsto> v) else m)"

definition respond_header :: "string \<Rightarrow> string \<Rightarrow> rtsp_response \<Rightarrow> rtsp_response" where
  "respond_header k v r =
     (if map_of (s_headers r) k = None then r\<lparr>s_headers := s_headers r @ [(k, v)]\<rparr> else r)"

subsection \<open>The parser\<close>

definition parseFieldAndBlanks :: "bytes \<Rightarrow> nat \<Rightarrow> (string \<times> nat) res" where
  "parseFieldAndBlanks v p =
     res_bind (scan (\<lambda>c. c = NUL \<or> c = SP) v p) (\<lambda>q.
       res_bind (scan (\<lambda>c. c \<noteq> SP) v q) (\<lambda>r. Inr (block_at v p (q - p), r)))"

definition parseFieldAndColon :: "bytes \<Rightarrow> nat \<Rightarrow> (string \<times> nat) res" where
  "parseFieldAndColon v p =
     res_bind (scan (\<lambda>c. c = NUL \<or> c = CHR '':'' \<or> c = CR) v p) (\<lambda>q.
       res_bind (mem_at v q) (\<lambda>c.
         if c = CR then Inr ([], q)
         else res_bind (scan (\<lambda>c. c \<noteq> CHR '':'' \<and> c \<noteq> SP) v q) (\<lambda>r. Inr (block_at v p (q - p), r))))"

definition skip_if :: "char \<Rightarrow> bytes \<Rightarrow> nat \<Rightarrow> nat res" where
  "skip_if d v p = res_bind (mem_at v p) (\<lambda>c. Inr (if c = d then p + 1 else p))"

definition parseFieldAndCRLF :: "bytes \<Rightarrow> nat \<Rightarrow> (string \<times> nat) res" where
  "parseFieldAndCRLF v p =
     res_bind (scan (\<lambda>c. c = NUL \<or> c = CR) v p) (\<lambda>q.
       res_bind (scan (\<lambda>c. c \<noteq> SP) v q) (\<lambda>r.
         res_bind (skip_if CR v r) (\<lambda>r1.
           res_bind (skip_if LF v r1) (\<lambda>r2. Inr (block_at v p (q - p), r2)))))"

lemma blanks_bounds:
  "parseFieldAndBlanks v p = Inr (s, q) \<Longrightarrow> p \<le> q \<and> q < length v \<and> (s \<noteq> [] \<longrightarrow> p < q)"
  by (fastforce simp: parseFieldAndBlanks_def block_at_def dest!: scan_bounds)

lemma colon_bounds:
  "parseFieldAndColon v p = Inr (s, q) \<Longrightarrow> p \<le> q \<and> q < length v \<and> (s \<noteq> [] \<longrightarrow> p < q)"
  by (fastforce simp: parseFieldAndColon_def block_at_def dest!: scan_bounds split: if_splits)

lemma crlf_bounds: "parseFieldAndCRLF v p = Inr (s, q) \<Longrightarrow> p \<le> q"
  by (auto simp: parseFieldAndCRLF_def skip_if_def dest!: scan_bounds)

text \<open>The loop over the header fields ends at a field that is empty.\<close>

function header_fields :: "bytes \<Rightarrow> nat \<Rightarrow> (string \<rightharpoonup> string) \<Rightarrow> ((string \<rightharpoonup> string) \<times> nat) res" where
  "header_fields v p m =
     res_bind (parseFieldAndColon v p) (\<lambda>kp.
       if fst kp = [] then Inr (m, snd kp)
       else res_bind (parseFieldAndCRLF v (snd kp)) (\<lambda>vp.
         header_fields v (snd vp) (insert_header (fst kp) (fst vp) m)))"
  by pat_completeness auto
termination
proof (relation "measure (\<lambda>(v, p, m). length v - p)")
  fix v :: bytes and p :: nat and m :: "string \<rightharpoonup> string" and kp vp
  assume "parseFieldAndColon v p = Inr kp" "fst kp \<noteq> []" "parseFieldAndCRLF v (snd kp) = Inr vp"
  then have "p < snd kp" "snd kp < length v" "snd kp \<le> snd vp"
    using colon_bounds [of v p "fst kp" "snd kp"] crlf_bounds [of v "snd kp" "fst vp" "snd vp"] by auto
  then show "((v, snd vp, insert_header (fst kp) (fst vp) m), (v, p, m)) \<in> measure (\<lambda>(v, p, m). length v - p)"
    by simp
qed simp

declare header_fields.simps [simp del]

definition rtsp_parseRequest :: "bytes \<Rightarrow> nat \<Rightarrow> (rtsp_request \<times> nat) res" where
  "rtsp_parseRequest v p =
     res_bind (parseFieldAndBlanks v p) (\<lambda>(meth, p1).
       res_bind (parseFieldAndBlanks v p1) (\<lambda>(URI, p2).
         res_bind (parseFieldAndCRLF v p2) (\<lambda>(version, p3).
           res_bind (header_fields v p3 Map.empty) (\<lambda>(m, p4).
             Inr (\<lparr>r_method = meth, r_URI = URI, r_version = version, r_headers = m, r_body = []\<rparr>, p4)))))"

subsection \<open>Responses\<close>

text \<open>
  The status line is printed into 512 bytes on the stack.  The order in which an \<open>unordered_map\<close> is
  printed is the library's choice, \<open>order\<close>.
\<close>

definition strifyResponse :: "((string \<times> string) list \<Rightarrow> (string \<times> string) list) \<Rightarrow> rtsp_response \<Rightarrow> string res" where
  "strifyResponse order r =
     (let line = c_str (s_version r) @ '' '' @ c_str (status_code r) @ '' '' @ c_str (status_cause r) @ CRLF in
      if length line < 512 then
        Inr (line @ concat (map (\<lambda>(k, v). k @ '': '' @ v @ CRLF) (order (s_headers r))) @ CRLF @
             (if s_body r = [] then [] else s_body r @ CRLF))
      else Inl Out_of_bounds)"

subsection \<open>Handling a request\<close>

text \<open>Ten digits from ten values of \<open>rand()\<close>.\<close>

definition createSessionId :: "(nat \<Rightarrow> nat) \<Rightarrow> string" where
  "createSessionId rand = map (\<lambda>i. char_of (rand i mod 10 + 48)) [0..<10]"

lemma createSessionId_digits:
  "length (createSessionId rand) = 10" "c \<in> set (createSessionId rand) \<Longrightarrow> is_digit c"
proof -
  show "length (createSessionId rand) = 10" by (simp add: createSessionId_def)
  assume "c \<in> set (createSessionId rand)"
  then obtain i where "c = char_of (rand i mod 10 + 48)" by (auto simp: createSessionId_def)
  moreover have "rand i mod 10 \<le> 9" by simp
  ultimately show "is_digit c" by (simp add: is_digit_def)
qed

text \<open>
  \<open>date\<close> and \<open>sid\<close> are what \<open>nowDate()\<close> and \<open>createSessionId()\<close> return.  A \<open>lookup\<close> that finds nothing
  fails an assertion.
\<close>

definition found :: "'a option \<Rightarrow> 'a res" where
  "found r = (case r of None \<Rightarrow> Inl Assert_failed | Some a \<Rightarrow> Inr a)"

definition rtsp_handleRequest ::
  "string \<Rightarrow> string \<Rightarrow> rtsp_request \<Rightarrow> session_table \<Rightarrow> (rtsp_response \<times> session_table) res" where
  "rtsp_handleRequest date sid req sessions =
     (let r0 = \<lparr>s_version = r_version req, status_code = ''200'', status_cause = ''OK'', s_headers = [], s_body = []\<rparr> in
      res_bind (found (r_headers req ''CSeq'')) (\<lambda>cseq.
        let r1 = respond_header ''CSeq'' cseq r0 in
        if r_method req = ''OPTIONS'' then
          Inr (respond_header ''Public'' ''DESCRIBE, SETUP, TEARDOWN, PLAY, PAUSE'' r1, sessions)
        else if r_method req = ''SETUP'' then
          (let r2 = respond_header ''Date'' date r1 in
           if sessions sid \<noteq> None then Inl Assert_failed
           else
             let sessions1 = sessions(sid \<mapsto> new_session sid (r_URI req) (r_version req));
                 r3 = respond_header ''Session'' sid r2 in
             res_bind (found (r_headers req ''Transport'')) (\<lambda>transport.
               Inr (respond_header ''Transport'' (transport @ '';server_port=554-555'') r3, sessions1)))
        else if r_method req = ''TEARDOWN'' then
          res_bind (found (r_headers req ''Session'')) (\<lambda>sid1.
            res_bind (found (sessions sid1)) (\<lambda>s.
              Inr (r1, (sessions(sid1 \<mapsto> s\<lparr>cur_state := DESTORYED\<rparr>))(sid1 := None))))
        else Inr (r1\<lparr>status_code := ''455'', status_cause := ''Method Not Valid in This State''\<rparr>, sessions)))"

text \<open>
  The message callback.  The pointer is taken before a null character is appended, which may enlarge the
  vector: its old memory is then gone.  The bytes to retrieve are counted backwards.
\<close>

definition handleRtspRequest ::
  "'k os \<Rightarrow> string \<Rightarrow> string \<Rightarrow> ((string \<times> string) list \<Rightarrow> (string \<times> string) list) \<Rightarrow> conn_id \<Rightarrow>
     session_table \<times> 'k sworld \<Rightarrow> (session_table \<times> 'k sworld) res" where
  "handleRtspRequest os date sid order conn = (\<lambda>(sessions, w).
     res_bind (deref (conns w) conn) (\<lambda>x.
       let old_p = peek (readBuffer x) in
       res_bind (buf_append (readBuffer x) [NUL]) (\<lambda>b.
         if length (vec b) \<noteq> length (vec (readBuffer x)) then Inl Use_after_free
         else
           res_bind (rtsp_parseRequest (vec b) old_p) (\<lambda>(request, p).
             res_bind (retrieve b (to_size_t (int old_p - int p))) (\<lambda>(_, b1).
               let w1 = upd_conn conn (x\<lparr>readBuffer := b1\<rparr>) w in
               res_bind (rtsp_handleRequest date sid request sessions) (\<lambda>(response, sessions1).
                 res_bind (strifyResponse order response) (\<lambda>responseStr.
                   res_bind (send_data os conn responseStr w1) (\<lambda>w2. Inr (sessions1, w2)))))))))"

subsection \<open>The parser on a printed request\<close>

definition print_rtsp :: "string \<Rightarrow> string \<Rightarrow> string \<Rightarrow> (string \<times> string) list \<Rightarrow> string" where
  "print_rtsp m u ver hs = m @ [SP] @ u @ [SP] @ ver @ CRLF @ concat (map hdr_text hs) @ CRLF"

text \<open>The texts that come back: values may hold spaces and colons, but not begin with one.\<close>

definition value_ok :: "string \<Rightarrow> bool" where
  "value_ok s \<longleftrightarrow> NUL \<notin> set s \<and> CR \<notin> set s \<and> (\<forall>c \<in> set (take 1 s). c \<noteq> SP \<and> c \<noteq> CHR '':'')"

definition insert_all :: "(string \<times> string) list \<Rightarrow> (string \<rightharpoonup> string) \<Rightarrow> (string \<rightharpoonup> string)" where
  "insert_all hs m = fold (\<lambda>(k, v). insert_header k v) hs m"

lemma block_piece [simp]: "block_at (A @ x @ B) (length A) (length x) = x"
  by (simp add: block_at_def)

lemma blanks_piece:
  assumes "NUL \<notin> set x" "SP \<notin> set x" "d \<noteq> SP"
  shows "parseFieldAndBlanks (A @ x @ SP # d # B) (length A) = Inr (x, length A + length x + 1)"
proof -
  have "scan (\<lambda>c. c = NUL \<or> c = SP) (A @ x @ SP # d # B) (length A) = Inr (length A + length x)"
    using assms by (intro scan_at) auto
  moreover have "scan (\<lambda>c. c \<noteq> SP) ((A @ x) @ [SP] @ d # B) (length (A @ x)) = Inr (length (A @ x) + length [SP])"
    using assms(3) by (intro scan_at) auto
  ultimately show ?thesis by (simp add: parseFieldAndBlanks_def)
qed

lemma crlf_piece:
  assumes "NUL \<notin> set x" "CR \<notin> set x"
  shows "parseFieldAndCRLF (A @ x @ CR # LF # B) (length A) = Inr (x, length A + length x + 2)"
proof -
  have "scan (\<lambda>c. c = NUL \<or> c = CR) (A @ x @ CR # LF # B) (length A) = Inr (length A + length x)"
    using assms by (intro scan_at) auto
  moreover have "scan (\<lambda>c. c \<noteq> SP) ((A @ x) @ CR # LF # B) (length (A @ x)) = Inr (length (A @ x))"
    by (intro scan_here) simp
  ultimately show ?thesis
    by (simp add: parseFieldAndCRLF_def skip_if_def mem_at_def nth_append)
qed

lemma colon_piece:
  assumes k: "key_ok k" and d: "d \<noteq> SP" "d \<noteq> CHR '':''"
  shows "parseFieldAndColon (A @ k @ CHR '':'' # SP # d # B) (length A) = Inr (k, length A + length k + 2)"
proof -
  have "scan (\<lambda>c. c = NUL \<or> c = CHR '':'' \<or> c = CR) (A @ k @ CHR '':'' # SP # d # B) (length A) =
      Inr (length A + length k)"
    using k by (intro scan_at) (auto simp: key_ok_def)
  moreover have "scan (\<lambda>c. c \<noteq> CHR '':'' \<and> c \<noteq> SP) ((A @ k) @ [CHR '':'', SP] @ d # B) (length (A @ k)) =
      Inr (length (A @ k) + length [CHR '':'', SP])"
    using d by (intro scan_at) auto
  ultimately show ?thesis
    by (simp add: parseFieldAndColon_def mem_at_def nth_append)
qed

lemma colon_end: "parseFieldAndColon (A @ CR # B) (length A) = Inr ([], length A)"
  using scan_here [of "\<lambda>c. c = NUL \<or> c = CHR '':'' \<or> c = CR" CR A B]
  by (simp add: parseFieldAndColon_def mem_at_def nth_append)

lemma header_fields_piece:
  "(\<And>k v. (k, v) \<in> set hs \<Longrightarrow> key_ok k \<and> value_ok v) \<Longrightarrow>
     header_fields (A @ concat (map hdr_text hs) @ CR # B) (length A) m =
       Inr (insert_all hs m, length A + length (concat (map hdr_text hs)))"
proof (induction hs arbitrary: A m)
  case Nil
  then show ?case by (subst header_fields.simps) (simp add: colon_end insert_all_def)
next
  case (Cons h hs)
  obtain k v where h: "h = (k, v)" by (cases h)
  have kv: "key_ok k" "value_ok v" using Cons.prems h by auto
  let ?R = "concat (map hdr_text hs) @ CR # B"
  obtain d y where d: "v @ CR # LF # ?R = d # y" "d \<noteq> SP" "d \<noteq> CHR '':''"
    using kv(2) by (cases v) (auto simp: value_ok_def)
  have 1: "parseFieldAndColon (A @ k @ CHR '':'' # SP # v @ CR # LF # ?R) (length A) =
      Inr (k, length A + length k + 2)"
    using colon_piece [OF kv(1) d(2,3), of A y] d(1) by simp
  let ?A1 = "A @ k @ [CHR '':'', SP]"
  have 2: "parseFieldAndCRLF (?A1 @ v @ CR # LF # ?R) (length ?A1) = Inr (v, length ?A1 + length v + 2)"
    using kv(2) by (intro crlf_piece) (simp_all add: value_ok_def)
  let ?A2 = "A @ hdr_text h"
  have 3: "header_fields (?A2 @ ?R) (length ?A2) (insert_header k v m) =
      Inr (insert_all hs (insert_header k v m), length ?A2 + length (concat (map hdr_text hs)))"
    by (rule Cons.IH, rule Cons.prems) simp
  have "k \<noteq> []" using kv(1) by (simp add: key_ok_def)
  then have "header_fields (A @ hdr_text h @ ?R) (length A) m =
      Inr (insert_all hs (insert_header k v m), length ?A2 + length (concat (map hdr_text hs)))"
    using 1 2 3 by (subst header_fields.simps) (simp add: h CRLF_def numeral_2_eq_2 add.assoc)
  then show ?case by (simp add: h insert_all_def add.assoc)
qed

subsection \<open>The parser on a memory with a null character\<close>

text \<open>With a null character at \<open>z\<close> no scan passes it, and no field function either.\<close>

lemma scan_before:
  "p \<le> z \<Longrightarrow> z < length v \<Longrightarrow> stop (v ! z) \<Longrightarrow>
     \<exists>q. scan stop v p = Inr q \<and> p \<le> q \<and> q \<le> z \<and> stop (v ! q)"
proof (induction "z - p" arbitrary: p)
  case 0
  then show ?case using scan_stop [of z v stop] by auto
next
  case (Suc n)
  show ?case
  proof (cases "stop (v ! p)")
    case True
    then show ?thesis using scan_stop [of p v stop] Suc.prems by auto
  next
    case False
    then have "scan stop v p = scan stop v (Suc p)" using Suc.prems by (intro scan_step) simp_all
    moreover have "\<exists>q. scan stop v (Suc p) = Inr q \<and> Suc p \<le> q \<and> q \<le> z \<and> stop (v ! q)"
      using Suc.hyps(2) Suc.prems by (intro Suc.hyps(1)) auto
    ultimately show ?thesis by auto
  qed
qed

lemma blanks_before:
  assumes "p \<le> z" "z < length v" "v ! z = NUL"
  shows "\<exists>s q. parseFieldAndBlanks v p = Inr (s, q) \<and> q \<le> z"
proof -
  obtain q where q: "scan (\<lambda>c. c = NUL \<or> c = SP) v p = Inr q" "q \<le> z"
    using scan_before [of p z v "\<lambda>c. c = NUL \<or> c = SP"] assms by auto
  obtain r where "scan (\<lambda>c. c \<noteq> SP) v q = Inr r" "r \<le> z"
    using scan_before [of q z v "\<lambda>c. c \<noteq> SP"] assms q(2) by auto
  then show ?thesis using q by (simp add: parseFieldAndBlanks_def)
qed

lemma colon_before:
  assumes "p \<le> z" "z < length v" "v ! z = NUL"
  shows "\<exists>s q. parseFieldAndColon v p = Inr (s, q) \<and> q \<le> z"
proof -
  obtain q where q: "scan (\<lambda>c. c = NUL \<or> c = CHR '':'' \<or> c = CR) v p = Inr q" "q \<le> z"
    using scan_before [of p z v "\<lambda>c. c = NUL \<or> c = CHR '':'' \<or> c = CR"] assms by auto
  obtain r where "scan (\<lambda>c. c \<noteq> CHR '':'' \<and> c \<noteq> SP) v q = Inr r" "r \<le> z"
    using scan_before [of q z v "\<lambda>c. c \<noteq> CHR '':'' \<and> c \<noteq> SP"] assms q(2) by auto
  then show ?thesis using q assms(2) by (simp add: parseFieldAndColon_def mem_at_def)
qed

lemma skip_before:
  assumes "p \<le> z" "z < length v" "v ! z = NUL" "d \<noteq> NUL"
  shows "\<exists>q. skip_if d v p = Inr q \<and> q \<le> z"
  using assms by (cases "p = z") (auto simp: skip_if_def mem_at_def)

lemma crlf_before:
  assumes "p \<le> z" "z < length v" "v ! z = NUL"
  shows "\<exists>s q. parseFieldAndCRLF v p = Inr (s, q) \<and> q \<le> z"
proof -
  obtain q where q: "scan (\<lambda>c. c = NUL \<or> c = CR) v p = Inr q" "q \<le> z"
    using scan_before [of p z v "\<lambda>c. c = NUL \<or> c = CR"] assms by auto
  obtain r where r: "scan (\<lambda>c. c \<noteq> SP) v q = Inr r" "r \<le> z"
    using scan_before [of q z v "\<lambda>c. c \<noteq> SP"] assms q(2) by auto
  obtain r1 where r1: "skip_if CR v r = Inr r1" "r1 \<le> z" using skip_before [of r z v CR] assms r(2) by auto
  obtain r2 where "skip_if LF v r1 = Inr r2" "r2 \<le> z" using skip_before [of r1 z v LF] assms r1(2) by auto
  then show ?thesis using q(1) r(1) r1(1) by (simp add: parseFieldAndCRLF_def)
qed

lemma header_fields_before:
  "p \<le> z \<Longrightarrow> z < length v \<Longrightarrow> v ! z = NUL \<Longrightarrow> \<exists>m' q. header_fields v p m = Inr (m', q)"
proof (induction v p m rule: header_fields.induct)
  case (1 v p m)
  obtain k q where k: "parseFieldAndColon v p = Inr (k, q)" "q \<le> z" using colon_before "1.prems" by metis
  obtain s r where s: "parseFieldAndCRLF v q = Inr (s, r)" "r \<le> z" using crlf_before k(2) "1.prems"(2,3) by metis
  show ?case
  proof (cases "k = []")
    case True
    then show ?thesis using k by (subst header_fields.simps) simp
  next
    case False
    have "\<exists>m' t. header_fields v r (insert_header k s m) = Inr (m', t)"
      using "1.IH" [OF k(1) _ , of "(s, r)"] False s "1.prems"(2,3) by simp
    then show ?thesis using k s False by (subst header_fields.simps) simp
  qed
qed

lemma parse_before:
  assumes "p \<le> z" "z < length v" "v ! z = NUL"
  shows "\<exists>req q. rtsp_parseRequest v p = Inr (req, q)"
proof -
  obtain m p1 where 1: "parseFieldAndBlanks v p = Inr (m, p1)" "p1 \<le> z" using blanks_before assms by metis
  obtain u p2 where 2: "parseFieldAndBlanks v p1 = Inr (u, p2)" "p2 \<le> z" using blanks_before 1(2) assms(2,3) by metis
  obtain s p3 where 3: "parseFieldAndCRLF v p2 = Inr (s, p3)" "p3 \<le> z" using crlf_before 2(2) assms(2,3) by metis
  obtain h p4 where "header_fields v p3 Map.empty = Inr (h, p4)" using header_fields_before 3(2) assms(2,3) by metis
  then show ?thesis using 1(1) 2(1) 3(1) by (simp add: rtsp_parseRequest_def)
qed

text \<open>The pointer never moves backwards, and when it has not moved there is no header.\<close>

lemma header_fields_bounds:
  "header_fields v p m = Inr (m', q) \<Longrightarrow> p \<le> q \<and> q < length v \<and> (q = p \<longrightarrow> m' = m)"
proof (induction v p m rule: header_fields.induct)
  case (1 v p m)
  obtain k r where k: "parseFieldAndColon v p = Inr (k, r)"
    using "1.prems" by (subst (asm) header_fields.simps) auto
  note kb = colon_bounds [OF k]
  show ?case
  proof (cases "k = []")
    case True
    then show ?thesis using "1.prems" k kb by (subst (asm) header_fields.simps) auto
  next
    case False
    then obtain s t where s: "parseFieldAndCRLF v r = Inr (s, t)" "header_fields v t (insert_header k s m) = Inr (m', q)"
      using "1.prems" k by (subst (asm) header_fields.simps) auto
    have "t \<le> q \<and> q < length v"
      using "1.IH" [OF k, of "(s, t)"] False s by simp
    then show ?thesis using crlf_bounds [OF s(1)] kb False by auto
  qed
qed

lemma parse_bounds:
  "rtsp_parseRequest v p = Inr (req, q) \<Longrightarrow> p \<le> q \<and> q < length v \<and> (q = p \<longrightarrow> r_headers req = Map.empty)"
  by (fastforce simp: rtsp_parseRequest_def dest!: blanks_bounds crlf_bounds header_fields_bounds)

subsection \<open>Lemmas\<close>

lemma insert_all_map: "insert_all hs m = map_of hs ++ m"
proof (induction hs arbitrary: m)
  case Nil
  then show ?case by (simp add: insert_all_def)
next
  case (Cons h hs)
  obtain k v where h: "h = (k, v)" by (cases h)
  have "insert_all (h # hs) m = map_of hs ++ insert_header k v m"
    using Cons.IH [of "insert_header k v m"] by (simp add: insert_all_def h)
  also have "\<dots> = map_of (h # hs) ++ m"
    by (rule ext) (auto simp: h insert_header_def map_add_def split: option.splits)
  finally show ?case .
qed

text \<open>Retrieving a number of bytes counted backwards: none, or more than there are.\<close>

lemma wrong_retrieve:
  assumes bi: "buf_inv b" and q: "p \<le> q" "q < length (vec b)"
  shows "retrieve b (to_size_t (int p - int q)) = (if q = p then Inr (retrieve_body b 0) else Inl Assert_failed)"
proof (cases "q = p")
  case True
  then show ?thesis by (simp add: to_size_t_def retrieve_def)
next
  case False
  have len: "length (vec b) < 2 ^ 63" using buf_inv_bounds [OF bi] by simp
  have "int q < int (2 ^ 63)" using q(2) len by (subst of_nat_less_iff) (rule less_trans)
  then have z: "int q < 2 ^ 63" by simp
  have "(int p - int q) mod 2 ^ 64 = (int p - int q + 2 ^ 64) mod 2 ^ 64" by simp
  also have "\<dots> = int p - int q + 2 ^ 64" using False q z by (intro mod_pos_pos_trivial) auto
  finally have "to_size_t (int p - int q) = 2 ^ 64 - (q - p)" using q by (simp add: to_size_t_def)
  moreover have "readableBytes b < 2 ^ 63" using buf_inv_bounds [OF bi] readable_eq [OF bi] by linarith
  moreover have "(2::nat) ^ 63 < 2 ^ 64 - (q - p)" using q len by simp
  ultimately have "\<not> to_size_t (int p - int q) \<le> readableBytes b" by simp
  then show ?thesis using False by (simp add: retrieve_def)
qed

text \<open>Appending one character where there is room for it.\<close>

lemma append_in_place:
  assumes bi: "buf_inv b" and room: "1 \<le> writableBytes b"
  shows "\<exists>b'. buf_append b [d] = Inr b' \<and> length (vec b') = length (vec b) \<and>
    peek b \<le> writeIndex b \<and> writeIndex b < length (vec b') \<and> vec b' ! writeIndex b = d"
proof -
  note bounds = buf_inv_bounds [OF bi]
  let ?b = "b\<lparr>vec := blit (vec b) (writeIndex b) [d], writeIndex := sz_add (writeIndex b) (length [d])\<rparr>"
  have w: "writeIndex b < length (vec b)" using room writable_eq [OF bi] by linarith
  have "make_room b (length [d]) = Inr b" using room by (simp add: make_room_def)
  then have "buf_append b [d] = Inr ?b"
    using written_spec(3) [OF bi, of "[d]" ?b] room by (simp add: buf_append_def Let_def)
  then show ?thesis
    using bounds w by (intro exI [of _ ?b]) (auto simp: peek_def blit_def nth_append)
qed

subsection \<open>Properties\<close>

text \<open>
  The parser inverts printing: with the pointer at the start of a printed request it returns the
  request's parts, its headers with the first value of each name, and leaves the pointer in front of the
  final line end.  Values may hold spaces, unlike those of the HTTP server.
\<close>

theorem rtsp_parse_round_trip:
  assumes m: "NUL \<notin> set m" "SP \<notin> set m" and u: "NUL \<notin> set u" "SP \<notin> set u" "u \<noteq> []"
    and ver: "value_ok ver" and hs: "\<And>k v. (k, v) \<in> set hs \<Longrightarrow> key_ok k \<and> value_ok v"
  shows "rtsp_parseRequest (A @ print_rtsp m u ver hs @ B) (length A) =
    Inr (\<lparr>r_method = m, r_URI = u, r_version = ver, r_headers = map_of hs, r_body = []\<rparr>,
         length A + length (print_rtsp m u ver hs) - 2)"
proof -
  let ?R3 = "concat (map hdr_text hs) @ CR # LF # B"
  let ?A1 = "A @ m @ [SP]" let ?A2 = "?A1 @ u @ [SP]" let ?A3 = "?A2 @ ver @ CRLF"
  obtain d y where d: "u @ SP # ver @ CR # LF # ?R3 = d # y" "d \<noteq> SP" using u by (cases u) auto
  obtain d' y' where d': "ver @ CR # LF # ?R3 = d' # y'" "d' \<noteq> SP" using ver by (cases ver) (auto simp: value_ok_def)
  have 1: "parseFieldAndBlanks (A @ m @ SP # u @ SP # ver @ CR # LF # ?R3) (length A) = Inr (m, length ?A1)"
    using blanks_piece [OF m d(2), of A y] d(1) by simp
  have 2: "parseFieldAndBlanks (?A1 @ u @ SP # ver @ CR # LF # ?R3) (length ?A1) = Inr (u, length ?A2)"
    using blanks_piece [OF u(1,2) d'(2), of ?A1 y'] d'(1) by simp
  have 3: "parseFieldAndCRLF (?A2 @ ver @ CR # LF # ?R3) (length ?A2) = Inr (ver, length ?A3)"
    using crlf_piece [of ver ?A2 ?R3] ver by (simp add: value_ok_def CRLF_def)
  have 4: "header_fields (?A3 @ ?R3) (length ?A3) Map.empty =
      Inr (insert_all hs Map.empty, length ?A3 + length (concat (map hdr_text hs)))"
    by (rule header_fields_piece) (rule hs)
  have "print_rtsp m u ver hs @ B = m @ SP # u @ SP # ver @ CR # LF # ?R3"
    by (simp add: print_rtsp_def CRLF_def)
  moreover have "length A + length (print_rtsp m u ver hs) - 2 = length ?A3 + length (concat (map hdr_text hs))"
    by (simp add: print_rtsp_def CRLF_def)
  ultimately show ?thesis
    using 1 2 3 4 by (simp add: rtsp_parseRequest_def insert_all_map CRLF_def)
qed

theorem rtsp_parse_round_trip_witness:
  "rtsp_parseRequest ([CHR ''x''] @ print_rtsp ''SETUP'' ''rtsp://a/b'' ''RTSP/1.0''
      [(''CSeq'', ''3''), (''Transport'', ''RTP/AVP; unicast'')] @ [NUL]) (length [CHR ''x'']) =
    Inr (\<lparr>r_method = ''SETUP'', r_URI = ''rtsp://a/b'', r_version = ''RTSP/1.0'',
          r_headers = map_of [(''CSeq'', ''3''), (''Transport'', ''RTP/AVP; unicast'')], r_body = []\<rparr>,
         length [CHR ''x''] + length (print_rtsp ''SETUP'' ''rtsp://a/b'' ''RTSP/1.0''
            [(''CSeq'', ''3''), (''Transport'', ''RTP/AVP; unicast'')]) - 2)"
  by (rule rtsp_parse_round_trip) (auto simp: value_ok_def key_ok_def)

text \<open>
  C31: A session lives from its \<open>SETUP\<close> to its \<open>TEARDOWN\<close>.  A \<open>SETUP\<close> with a sequence number and a transport,
  answered with an identifier that is new, adds a session in its first state and tells the client its
  identifier; the \<open>TEARDOWN\<close> of that identifier leaves the table as it was.  Another \<open>TEARDOWN\<close> of it ends in a
  failed assertion.
\<close>

theorem rtsp_session_life:
  assumes begins: "r_method req = ''SETUP''" "r_headers req ''CSeq'' = Some n" "r_headers req ''Transport'' = Some t"
    and new: "ss sid = None"
    and ends: "r_method req' = ''TEARDOWN''" "r_headers req' ''CSeq'' = Some n'" "r_headers req' ''Session'' = Some sid"
  shows "\<exists>resp resp'.
    rtsp_handleRequest date sid req ss = Inr (resp, ss(sid \<mapsto> new_session sid (r_URI req) (r_version req))) \<and>
    s_headers resp = [(''CSeq'', n), (''Date'', date), (''Session'', sid), (''Transport'', t @ '';server_port=554-555'')] \<and>
    status_code resp = ''200'' \<and>
    rtsp_handleRequest date' sid' req' (ss(sid \<mapsto> new_session sid (r_URI req) (r_version req))) = Inr (resp', ss) \<and>
    s_headers resp' = [(''CSeq'', n')] \<and> status_code resp' = ''200'' \<and>
    rtsp_handleRequest date'' sid'' req' ss = Inl Assert_failed"
  using assms by (auto simp: rtsp_handleRequest_def found_def respond_header_def fun_upd_idem)

definition demo_setup :: rtsp_request where
  "demo_setup = \<lparr>r_method = ''SETUP'', r_URI = ''rtsp://a/b'', r_version = ''RTSP/1.0'',
     r_headers = map_of [(''CSeq'', ''3''), (''Transport'', ''RTP/AVP'')], r_body = []\<rparr>"

definition demo_teardown :: rtsp_request where
  "demo_teardown = \<lparr>r_method = ''TEARDOWN'', r_URI = ''rtsp://a/b'', r_version = ''RTSP/1.0'',
     r_headers = map_of [(''CSeq'', ''4''), (''Session'', ''0123456789'')], r_body = []\<rparr>"

theorem rtsp_session_life_witness:
  "\<exists>resp' ss. rtsp_handleRequest ''now'' ''0123456789'' demo_teardown
      [''0123456789'' \<mapsto> new_session ''0123456789'' ''rtsp://a/b'' ''RTSP/1.0''] = Inr (resp', Map.empty) \<and>
    rtsp_handleRequest ''now'' ''0123456789'' demo_setup Map.empty = ss"
  using rtsp_session_life [of demo_setup "''3''" "''RTP/AVP''" Map.empty "''0123456789''" demo_teardown "''4''" "''now''" "''now''" "''0123456789''"]
  by (auto simp: demo_setup_def demo_teardown_def)

text \<open>
  The message callback never returns.  It retrieves the number of bytes the pointer moved with the wrong
  sign, which is larger than any buffer unless nothing was parsed, and then the sequence number is missing.
  When the buffer has room for the null character that is appended, a failed assertion is the end; when it
  has not, the pointer may also have been left behind in freed memory.
\<close>

theorem rtsp_never_returns:
  assumes c: "conns w c = Some x" and bi: "buf_inv (readBuffer x)"
  shows "\<exists>e. handleRtspRequest os date sid order c (ss, w) = Inl e \<and>
    (1 \<le> writableBytes (readBuffer x) \<longrightarrow> e = Assert_failed)"
proof -
  let ?b = "readBuffer x"
  let ?k = "\<lambda>b. res_bind (rtsp_parseRequest (vec b) (peek ?b)) (\<lambda>(request, p).
      res_bind (retrieve b (to_size_t (int (peek ?b) - int p))) (\<lambda>(_, b1).
        let w1 = upd_conn c (x\<lparr>readBuffer := b1\<rparr>) w in
        res_bind (rtsp_handleRequest date sid request ss) (\<lambda>(response, sessions1).
          res_bind (strifyResponse order response) (\<lambda>responseStr.
            res_bind (send_data os c responseStr w1) (\<lambda>w2. Inr (sessions1, w2))))))"
  have eq: "handleRtspRequest os date sid order c (ss, w) =
      res_bind (buf_append ?b [NUL]) (\<lambda>b. if length (vec b) \<noteq> length (vec ?b) then Inl Use_after_free else ?k b)"
    using c by (simp add: handleRtspRequest_def Let_def)
  have parsed: "?k b = Inl Assert_failed"
    if "rtsp_parseRequest (vec b) (peek ?b) = Inr (req, q)" "buf_inv b" for b req q
    using that wrong_retrieve [of b "peek ?b" q] parse_bounds [OF that(1)]
    by (cases "q = peek ?b") (auto simp: rtsp_handleRequest_def found_def Let_def)
  have err: "e = Assert_failed" if "?k b = Inl e" "vec b ! z = NUL" "peek ?b \<le> z" "z < length (vec b)" "buf_inv b" for b e z
  proof -
    note b = that
    obtain req q where "rtsp_parseRequest (vec b) (peek ?b) = Inr (req, q)" using parse_before b(2-4) by metis
    then show ?thesis using parsed [of b req q] b by (metis sum.inject(1))
  qed
  have never: "\<exists>e. ?k b = Inl e" if "buf_inv b" for b
  proof (cases "rtsp_parseRequest (vec b) (peek ?b)")
    case (Inl e)
    then show ?thesis by simp
  next
    case (Inr r)
    then obtain req q where "rtsp_parseRequest (vec b) (peek ?b) = Inr (req, q)" by (cases r) auto
    then show ?thesis using parsed [of b req q] that by metis
  qed
  have "length [NUL] \<le> vec_max" by (simp add: vec_max_def)
  with bi show ?thesis
  proof (cases rule: buf_append_cases)
    case (appended b)
    obtain e where e: "?k b = Inl e" using never [OF appended(2)] by metis
    have "e = Assert_failed" "length (vec b) = length (vec ?b)" if room: "1 \<le> writableBytes ?b"
      using append_in_place [OF bi room, of NUL] appended(1,2) err [OF e, of "writeIndex ?b"] by auto
    then show ?thesis using eq appended(1) e by auto
  next
    case too_long
    then show ?thesis using eq by auto
  qed
qed

text \<open>A request of a client, as it waits in the buffer of a connection.\<close>

definition demo_request_buffer :: buffer where
  "demo_request_buffer =
     (let s = print_rtsp ''OPTIONS'' ''*'' ''RTSP/1.0'' [(''CSeq'', ''1'')] in
      \<lparr>vec = s @ [NUL], readIndex = 0, writeIndex = length s\<rparr>)"

theorem rtsp_never_returns_witness:
  "handleRtspRequest sim_os ''now'' ''0123456789'' id 0
      (Map.empty, (demo_world sim_init [])\<lparr>conns := [0 \<mapsto> (demo_conn [])\<lparr>readBuffer := demo_request_buffer\<rparr>]\<rparr>) =
    Inl Assert_failed"
proof -
  let ?x = "(demo_conn [])\<lparr>readBuffer := demo_request_buffer\<rparr>"
  let ?w = "(demo_world sim_init [])\<lparr>conns := [0 \<mapsto> ?x]\<rparr>"
  have len: "length (vec demo_request_buffer) = Suc (writeIndex demo_request_buffer)"
    "readIndex demo_request_buffer = 0" "writeIndex demo_request_buffer = 31"
    by (simp_all add: demo_request_buffer_def print_rtsp_def CRLF_def Let_def)
  then have bi: "buf_inv demo_request_buffer" by (simp add: buf_inv_def vec_max_def)
  then have room: "1 \<le> writableBytes (readBuffer ?x)" using len by (simp add: writable_eq)
  have "conns ?w 0 = Some ?x" by simp
  from rtsp_never_returns [OF this, of sim_os "''now''" "''0123456789''" id Map.empty] bi
  obtain e where "handleRtspRequest sim_os ''now'' ''0123456789'' id 0 (Map.empty, ?w) = Inl e"
    "1 \<le> writableBytes (readBuffer ?x) \<longrightarrow> e = Assert_failed"
    by auto
  then show ?thesis using room by metis
qed

end
