(* ===== verification/RtspText.thy ===== *)
theory RtspText imports Rtsp begin

section \<open>examples/RTSP: the pointer parser computes a parser on strings\<close>

text \<open>
  The parser of theory \<open>Rtsp\<close> moves an index over the memory of a buffer.  Here is the parser a reader has
  in mind, on strings with \<open>takeWhile\<close> and \<open>dropWhile\<close> only, and the proof that on every text that ends in
  a null character the two agree: in what they return, in how far they go, and in not going further.
\<close>

subsection \<open>The reference parser\<close>

text \<open>Each function returns the field and the text behind it.\<close>

definition text_blanks :: "string \<Rightarrow> string \<times> string" where
  "text_blanks s = (takeWhile (\<lambda>c. c \<noteq> SP) s, dropWhile (\<lambda>c. c = SP) (dropWhile (\<lambda>c. c \<noteq> SP) s))"

definition text_colon :: "string \<Rightarrow> string \<times> string" where
  "text_colon s =
     (let r = dropWhile (\<lambda>c. c \<noteq> CHR '':'' \<and> c \<noteq> CR) s in
      if take 1 r = [CR] then ([], r)
      else (takeWhile (\<lambda>c. c \<noteq> CHR '':'' \<and> c \<noteq> CR) s, dropWhile (\<lambda>c. c = CHR '':'' \<or> c = SP) r))"

definition text_crlf :: "string \<Rightarrow> string \<times> string" where
  "text_crlf s =
     (let r = dropWhile (\<lambda>c. c \<noteq> CR) s in
      (takeWhile (\<lambda>c. c \<noteq> CR) s, if take 2 r = [CR, LF] then drop 2 r else drop 1 r))"

lemma text_colon_length: "text_colon s = (k, r) \<Longrightarrow> length r + length k \<le> length s"
proof -
  assume a: "text_colon s = (k, r)"
  let ?P = "\<lambda>c. c \<noteq> CHR '':'' \<and> c \<noteq> CR"
  have "length (takeWhile ?P s) + length (dropWhile ?P s) = length s"
    by (metis length_append takeWhile_dropWhile_id)
  moreover have "length r \<le> length (dropWhile ?P s)" "length k \<le> length (takeWhile ?P s)"
    using a by (auto simp: text_colon_def Let_def length_dropWhile_le split: if_splits)
  ultimately show ?thesis by linarith
qed

lemma text_crlf_length: "text_crlf s = (v, t) \<Longrightarrow> length t \<le> length s"
  using length_dropWhile_le [of "\<lambda>c. c \<noteq> CR" s] by (auto simp: text_crlf_def Let_def split: if_splits)

function text_headers :: "string \<Rightarrow> (string \<times> string) list \<times> string" where
  "text_headers s =
     (let kr = text_colon s in
      if fst kr = [] then ([], snd kr)
      else
        let vt = text_crlf (snd kr); hz = text_headers (snd vt) in
        ((fst kr, fst vt) # fst hz, snd hz))"
  by pat_completeness auto
termination
proof (relation "measure length")
  fix s kr vt
  assume a: "kr = text_colon s" "fst kr \<noteq> []" "vt = text_crlf (snd kr)"
  then have "length (snd kr) + length (fst kr) \<le> length s" "length (snd vt) \<le> length (snd kr)"
    using text_colon_length [of s "fst kr" "snd kr"] text_crlf_length [of "snd kr" "fst vt" "snd vt"] by simp_all
  then show "(snd vt, s) \<in> measure length" using a(2) by (cases "fst kr") simp_all
qed simp

declare text_headers.simps [simp del]

text \<open>Of two headers with one name the first counts.\<close>

definition text_request :: "string \<Rightarrow> rtsp_request \<times> string" where
  "text_request s =
     (let (meth, s1) = text_blanks s; (URI, s2) = text_blanks s1; (version, s3) = text_crlf s2;
          (hs, s4) = text_headers s3 in
      (\<lparr>r_method = meth, r_URI = URI, r_version = version, r_headers = map_of hs, r_body = []\<rparr>, s4))"

subsection \<open>A pointer to a text in memory\<close>

definition on_text :: "bytes \<Rightarrow> bytes \<Rightarrow> nat \<Rightarrow> string \<Rightarrow> bool" where
  "on_text B v p s \<longleftrightarrow> NUL \<notin> set s \<and> (\<exists>A. v = A @ s @ NUL # B \<and> p = length A)"

lemma on_text_append:
  assumes "on_text B v p (x @ y)"
  shows "on_text B v (p + length x) y" "block_at v p (length x) = x"
proof -
  from assms obtain A where "v = A @ x @ y @ NUL # B" "p = length A" "NUL \<notin> set y"
    by (auto simp: on_text_def)
  then show "on_text B v (p + length x) y" "block_at v p (length x) = x"
    by (auto simp: on_text_def intro: exI [of _ "A @ x"])
qed

lemma on_text_at: "on_text B v p s \<Longrightarrow> mem_at v p = Inr (case s of [] \<Rightarrow> NUL | c # _ \<Rightarrow> c)"
  by (auto simp: on_text_def mem_at_def nth_append split: list.split)

text \<open>A scan that stops at the null character is a \<open>dropWhile\<close>.\<close>

lemma scan_text:
  assumes t: "on_text B v p s" and stop: "stop NUL"
  obtains q where "scan stop v p = Inr q" "q = p + length (takeWhile (\<lambda>c. \<not> stop c) s)"
    "on_text B v q (dropWhile (\<lambda>c. \<not> stop c) s)" "block_at v p (q - p) = takeWhile (\<lambda>c. \<not> stop c) s"
proof -
  let ?x = "takeWhile (\<lambda>c. \<not> stop c) s" and ?y = "dropWhile (\<lambda>c. \<not> stop c) s"
  have t': "on_text B v p (?x @ ?y)" using t by simp
  obtain A where v: "v = A @ (?x @ ?y) @ NUL # B" "p = length A" using t' by (auto simp: on_text_def)
  obtain d D where d: "?y @ NUL # B = d # D" "stop d"
  proof (cases ?y)
    case (Cons c cs)
    then have "stop c" using hd_dropWhile [of "\<lambda>c. \<not> stop c" s] by simp
    then show ?thesis using Cons that by simp
  next
    case Nil
    then show ?thesis using that [of NUL B] stop by simp
  qed
  have mem: "?x @ ?y @ NUL # B = s @ NUL # B" by (metis append.assoc takeWhile_dropWhile_id)
  have "scan stop v p = Inr (length A + length ?x)"
    using scan_at [of ?x stop d A D] d set_takeWhileD [of _ "\<lambda>c. \<not> stop c" s] by (simp add: v(1,2) flip: mem)
  then show ?thesis using that on_text_append [OF t'] v(2) by simp
qed

subsection \<open>The fields\<close>

lemma blanks_text:
  assumes "on_text B v p s" "text_blanks s = (x, r)"
  obtains q where "parseFieldAndBlanks v p = Inr (x, q)" "on_text B v q r"
proof -
  obtain q where q: "scan (\<lambda>c. c = NUL \<or> c = SP) v p = Inr q"
    "on_text B v q (dropWhile (\<lambda>c. \<not> (c = NUL \<or> c = SP)) s)"
    "block_at v p (q - p) = takeWhile (\<lambda>c. \<not> (c = NUL \<or> c = SP)) s"
    using scan_text [OF assms(1), of "\<lambda>c. c = NUL \<or> c = SP"] by blast
  have eq: "takeWhile (\<lambda>c. \<not> (c = NUL \<or> c = SP)) s = takeWhile (\<lambda>c. c \<noteq> SP) s"
    "dropWhile (\<lambda>c. \<not> (c = NUL \<or> c = SP)) s = dropWhile (\<lambda>c. c \<noteq> SP) s"
    using assms(1) by (auto simp: on_text_def intro!: takeWhile_cong dropWhile_cong)
  obtain q' where q': "scan (\<lambda>c. c \<noteq> SP) v q = Inr q'" "on_text B v q' (dropWhile (\<lambda>c. \<not> c \<noteq> SP) (dropWhile (\<lambda>c. c \<noteq> SP) s))"
    using scan_text [OF q(2), of "\<lambda>c. c \<noteq> SP"] eq by auto
  show ?thesis using that [of q'] q q' eq assms(2) by (simp add: parseFieldAndBlanks_def text_blanks_def)
qed

lemma colon_text:
  assumes "on_text B v p s" "text_colon s = (x, r)"
  obtains q where "parseFieldAndColon v p = Inr (x, q)" "on_text B v q r"
proof -
  let ?stop = "\<lambda>c. c = NUL \<or> c = CHR '':'' \<or> c = CR" and ?P = "\<lambda>c. c \<noteq> CHR '':'' \<and> c \<noteq> CR"
  obtain q where q: "scan ?stop v p = Inr q" "on_text B v q (dropWhile (\<lambda>c. \<not> ?stop c) s)"
    "block_at v p (q - p) = takeWhile (\<lambda>c. \<not> ?stop c) s"
    using scan_text [OF assms(1), of ?stop] by blast
  have eq: "takeWhile (\<lambda>c. \<not> ?stop c) s = takeWhile ?P s" "dropWhile (\<lambda>c. \<not> ?stop c) s = dropWhile ?P s"
    using assms(1) by (auto simp: on_text_def intro!: takeWhile_cong dropWhile_cong)
  note at = on_text_at [OF q(2), unfolded eq]
  show ?thesis
  proof (cases "take 1 (dropWhile ?P s) = [CR]")
    case True
    then obtain z where "dropWhile ?P s = CR # z" by (cases "dropWhile ?P s") auto
    then show ?thesis
      using that [of q] q eq at assms(2) True by (simp add: parseFieldAndColon_def text_colon_def Let_def)
  next
    case False
    then obtain c where c: "mem_at v q = Inr c" "c \<noteq> CR" using at by (cases "dropWhile ?P s") auto
    obtain q' where q': "scan (\<lambda>c. c \<noteq> CHR '':'' \<and> c \<noteq> SP) v q = Inr q'"
      "on_text B v q' (dropWhile (\<lambda>c. \<not> (c \<noteq> CHR '':'' \<and> c \<noteq> SP)) (dropWhile ?P s))"
      using scan_text [OF q(2), of "\<lambda>c. c \<noteq> CHR '':'' \<and> c \<noteq> SP"] eq by auto
    show ?thesis
      using that [of q'] q(1,3) q' eq(1) c assms(2) False by (simp add: parseFieldAndColon_def text_colon_def Let_def)
  qed
qed

lemma skip_text:
  assumes "on_text B v p s" "d \<noteq> NUL"
  obtains q where "skip_if d v p = Inr q" "on_text B v q (if take 1 s = [d] then drop 1 s else s)"
proof (cases s)
  case Nil
  then show ?thesis using that [of p] on_text_at [OF assms(1)] assms by (simp add: skip_if_def)
next
  case (Cons c cs)
  then have "on_text B v (p + length [c]) cs" using on_text_append(1) [of B v p "[c]" cs] assms(1) by simp
  then show ?thesis
    using that [of "if c = d then p + 1 else p"] on_text_at [OF assms(1)] assms Cons by (auto simp: skip_if_def)
qed

lemma crlf_text:
  assumes "on_text B v p s" "text_crlf s = (x, r)"
  obtains q where "parseFieldAndCRLF v p = Inr (x, q)" "on_text B v q r"
proof -
  let ?P = "\<lambda>c. c \<noteq> CR" and ?stop = "\<lambda>c. c = NUL \<or> c = CR"
  obtain q where q: "scan ?stop v p = Inr q" "on_text B v q (dropWhile (\<lambda>c. \<not> ?stop c) s)"
    "block_at v p (q - p) = takeWhile (\<lambda>c. \<not> ?stop c) s"
    using scan_text [OF assms(1), of ?stop] by blast
  have eq: "takeWhile (\<lambda>c. \<not> ?stop c) s = takeWhile ?P s" "dropWhile (\<lambda>c. \<not> ?stop c) s = dropWhile ?P s"
    using assms(1) by (auto simp: on_text_def intro!: takeWhile_cong dropWhile_cong)
  define t where "t = dropWhile ?P s"
  have t: "t = [] \<or> (\<exists>z. t = CR # z)"
  proof (cases t)
    case (Cons a z)
    then have "dropWhile ?P s = a # z" by (simp only: t_def)
    then have "a = CR" unfolding dropWhile_eq_Cons_conv by blast
    then show ?thesis using Cons by simp
  qed simp
  then have no: "dropWhile (\<lambda>c. \<not> c \<noteq> SP) t = t" by auto
  obtain q1 where q1: "scan (\<lambda>c. c \<noteq> SP) v q = Inr q1" "on_text B v q1 t"
    using scan_text [OF q(2), of "\<lambda>c. c \<noteq> SP"] eq no by (auto simp: t_def)
  have t1: "(if take 1 t = [CR] then drop 1 t else t) = drop 1 t" using t by auto
  obtain q2 where q2: "skip_if CR v q1 = Inr q2" "on_text B v q2 (drop 1 t)"
    by (rule skip_text [OF q1(2), of CR, unfolded t1]) simp_all
  obtain q3 where q3: "skip_if LF v q2 = Inr q3"
    "on_text B v q3 (if take 1 (drop 1 t) = [LF] then drop 1 (drop 1 t) else drop 1 t)"
    by (rule skip_text [OF q2(2), of LF]) simp_all
  have "(if take 1 (drop 1 t) = [LF] then drop 1 (drop 1 t) else drop 1 t) =
      (if take 2 t = [CR, LF] then drop 2 t else drop 1 t)"
    using t by (rule disjE) (auto simp: numeral_2_eq_2)
  then show ?thesis
    using that [of q3] q(1,3) q1(1) q2(1) q3 eq(1) assms(2) by (simp add: parseFieldAndCRLF_def text_crlf_def Let_def flip: t_def)
qed

lemma headers_text:
  assumes "on_text B v p s" "text_headers s = (hs, r)"
  obtains q where "header_fields v p m = Inr (insert_all hs m, q)" "on_text B v q r"
  using assms
proof (induction s arbitrary: p m hs r thesis rule: text_headers.induct)
  case (1 s)
  obtain k s1 where k: "text_colon s = (k, s1)" by fastforce
  obtain q1 where q1: "parseFieldAndColon v p = Inr (k, q1)" "on_text B v q1 s1"
    using colon_text [OF "1.prems"(2) k] by blast
  show ?case
  proof (cases "k = []")
    case True
    then have "hs = []" "r = s1" using "1.prems"(3) k by (subst (asm) text_headers.simps, simp)+
    then show ?thesis using "1.prems"(1) [of q1] q1 True by (simp add: header_fields.simps [of v p] insert_all_def)
  next
    case False
    obtain x s2 where x: "text_crlf s1 = (x, s2)" by fastforce
    obtain q2 where q2: "parseFieldAndCRLF v q1 = Inr (x, q2)" "on_text B v q2 s2"
      using crlf_text [OF q1(2) x] by blast
    obtain hs2 z where hz: "text_headers s2 = (hs2, z)" by fastforce
    then have "text_headers s = ((k, x) # hs2, z)" using k x False by (simp add: text_headers.simps [of s] Let_def)
    then have hs: "text_headers s2 = (hs2, r)" "hs = (k, x) # hs2" using "1.prems"(3) hz by simp_all
    obtain q where "header_fields v q2 (insert_header k x m) = Inr (insert_all hs2 (insert_header k x m), q)" "on_text B v q r"
      using "1.IH" [of "(k, s1)" "(x, s2)" q2 "insert_header k x m" hs2] k x False q2(2) hs(1) by auto
    then show ?thesis
      using "1.prems"(1) [of q] q1 q2 False hs(2) by (simp add: header_fields.simps [of v p] insert_all_def)
  qed
qed

subsection \<open>Property\<close>

text \<open>
  C11: On every text that ends in a null character the parser returns, stays in the text, and returns
  what the reference parser returns, with the pointer at the text that the reference parser leaves.
\<close>

theorem rtsp_parser_equivalent:
  assumes s: "NUL \<notin> set s" and ref: "text_request s = (request, rest)"
  shows "rtsp_parseRequest (A @ s @ NUL # B) (length A) = Inr (request, length A + length s - length rest) \<and>
    length rest \<le> length s \<and> drop (length s - length rest) s = rest"
proof -
  let ?v = "A @ s @ NUL # B"
  have t: "on_text B ?v (length A) s" using s by (auto simp: on_text_def)
  obtain m s1 where 1: "text_blanks s = (m, s1)" by fastforce
  obtain u s2 where 2: "text_blanks s1 = (u, s2)" by fastforce
  obtain ve s3 where 3: "text_crlf s2 = (ve, s3)" by fastforce
  obtain hs where 4: "text_headers s3 = (hs, rest)" using ref 1 2 3 by (auto simp: text_request_def split: prod.splits)
  obtain q1 where q1: "parseFieldAndBlanks ?v (length A) = Inr (m, q1)" "on_text B ?v q1 s1" using blanks_text [OF t 1] .
  obtain q2 where q2: "parseFieldAndBlanks ?v q1 = Inr (u, q2)" "on_text B ?v q2 s2" using blanks_text [OF q1(2) 2] .
  obtain q3 where q3: "parseFieldAndCRLF ?v q2 = Inr (ve, q3)" "on_text B ?v q3 s3" using crlf_text [OF q2(2) 3] .
  obtain q where q: "header_fields ?v q3 Map.empty = Inr (insert_all hs Map.empty, q)" "on_text B ?v q rest"
    using headers_text [OF q3(2) 4] .
  have run: "rtsp_parseRequest ?v (length A) = Inr (request, q)"
    using q1(1) q2(1) q3(1) q(1) ref 1 2 3 4 by (simp add: rtsp_parseRequest_def text_request_def insert_all_map)
  have le: "length A \<le> q" using parse_bounds [OF run] by simp
  obtain A' where v': "A @ s @ NUL # B = A' @ rest @ NUL # B" "q = length A'" using q(2) by (auto simp: on_text_def)
  then have "A @ s = A' @ rest" using append_same_eq [of "A @ s" "NUL # B" "A' @ rest"] by simp
  then obtain x where "A' = A @ x" "s = x @ rest" using le v'(2) by (auto simp: append_eq_append_conv2)
  then show ?thesis using run v'(2) by simp
qed

theorem rtsp_parser_equivalent_witness:
  "\<exists>request. rtsp_parseRequest (''....'' @ (''OPTIONS * RTSP/1.0'' @ CRLF @ ''CSeq: 1'' @ CRLF @ CRLF) @ NUL # ''....'') 4 =
      Inr (request, 33) \<and> r_method request = ''OPTIONS'' \<and> r_headers request ''CSeq'' = Some ''1''"
proof -
  define s where "s = ''OPTIONS * RTSP/1.0'' @ CRLF @ ''CSeq: 1'' @ CRLF @ CRLF"
  have nul: "NUL \<notin> set s" unfolding s_def by code_simp
  have m: "r_method (fst (text_request s)) = ''OPTIONS''" unfolding s_def by code_simp
  have h: "r_headers (fst (text_request s)) ''CSeq'' = Some ''1''" unfolding s_def by code_simp
  have l: "length (snd (text_request s)) = 2" "length s = 31" unfolding s_def by code_simp+
  obtain request rest where ref: "text_request s = (request, rest)" by fastforce
  have "rtsp_parseRequest (''....'' @ s @ NUL # ''....'') 4 = Inr (request, 33)"
    using rtsp_parser_equivalent [OF nul ref, of "''....''" "''....''"] l ref by (simp add: eval_nat_numeral)
  then show ?thesis using m h ref unfolding s_def by auto
qed

end
