(* ===== verification/BufferRuns.thy ===== *)
theory BufferRuns imports Codec begin

section \<open>A buffer over its whole life\<close>

text \<open>
  What the single operations of theory \<open>Buffer\<close> keep, along any sequence of them: the buffer stays well
  formed whatever its owner does, and a buffer that is filled from one socket and emptied into another
  forwards the stream unchanged, while the peer goes on sending.
\<close>

subsection \<open>All operations\<close>

text \<open>
  One operation of \<open>Buffer\<close>'s interface that returned, or a codec's look at it, on a kernel that answers as
  \<open>os\<close>.  The lengths are those a caller can have: no memory is longer than \<open>vec_max\<close>, no request is zero.
\<close>

inductive buffer_step :: "'k os \<Rightarrow> buffer \<times> 'k env \<Rightarrow> buffer \<times> 'k env \<Rightarrow> bool" for os where
  append: "length s \<le> vec_max \<Longrightarrow> buf_append b s = Inr b' \<Longrightarrow> buffer_step os (b, e) (b', e)"
| retrieve: "retrieve b n = Inr (r, b') \<Longrightarrow> buffer_step os (b, e) (b', e)"
| retrieveAll: "retrieveAll b = Inr (r, b') \<Longrightarrow> buffer_step os (b, e) (b', e)"
| recv: "0 < m \<Longrightarrow> m \<le> 2 ^ 63 \<Longrightarrow> read_from_socket os f e b m = Some (Inr (n, b', e')) \<Longrightarrow> buffer_step os (b, e) (b', e')"
| forward: "m < 2 ^ 31 \<Longrightarrow> write_to_socket os f e b m = Inr (n, b', e') \<Longrightarrow> buffer_step os (b, e) (b', e')"
| check: "codec_check cd b = (v, b', lg) \<Longrightarrow> buffer_step os (b, e) (b', e\<lparr>logs := logs e @ lg\<rparr>)"
| kernel: "buffer_step os (b, e) (b, e\<lparr>kern := k\<rparr>)"

lemma recv_result:
  assumes "stream_contract os inq outq" "buf_inv b" "0 < m" "m \<le> 2 ^ 63"
    and "read_from_socket os f e b m = Some (Inr (n, b', e'))"
  shows "buf_inv b'" "contents b' @ inq f (kern e') = contents b @ inq f (kern e)"
  using read_from_socket_total [OF assms(1,2), of m f e] assms(3-5)
  by (auto simp: request_ok_def read_result_ok_def)

lemma buffer_step_inv:
  assumes os: "stream_contract os inq outq" and step: "buffer_step os (b, e) (b', e')" and inv: "buf_inv b"
  shows "buf_inv b'"
  using step
proof cases
  case (append s)
  from inv append(2) show ?thesis using append(3) by (cases rule: buf_append_cases) auto
next
  case (retrieve n r)
  then show ?thesis
    using retrieve_ok [OF inv, of n] retrieve_too_much [of b n] by (cases "n \<le> readableBytes b") auto
next
  case (retrieveAll r)
  then show ?thesis using retrieve_ok [OF inv, of "readableBytes b"] by (simp add: retrieveAll_def)
next
  case (recv m f n)
  then show ?thesis using recv_result(1) [OF os inv] by simp
next
  case (forward m f n)
  from os inv forward(1) show ?thesis
    using forward(2) by (cases rule: write_to_socket_cases [where f = f and e = e]) (auto simp: retrieve_ok(2) [OF inv])
next
  case (check cd v lg)
  then show ?thesis using codec_check_keeps(1) [OF inv] by simp
qed (use inv in simp)

text \<open>
  C25: the type of a buffer.  From its construction on, after any operations in any order, on any kernel that
  keeps the contract of streams, the indices are ordered, within the vector, and the vector has a length a
  vector can have.
\<close>

theorem buffer_well_formed:
  assumes "stream_contract os inq outq" and "n \<le> vec_max" and "(buffer_step os)\<^sup>*\<^sup>* (new_buffer n, e) (b, e')"
  shows "readIndex b \<le> writeIndex b \<and> writeIndex b \<le> totalSize b \<and> totalSize b \<le> vec_max"
proof -
  have "buf_inv b"
    using assms(3)
    by (induction rule: rtranclp_induct2) (use new_buffer_inv [OF assms(2)] buffer_step_inv [OF assms(1)] in blast)+
  then show ?thesis by (simp add: buf_inv_def totalSize_def)
qed

theorem buffer_well_formed_witness:
  "\<exists>b. (buffer_step sim_os)\<^sup>*\<^sup>* (new_buffer 2, \<lparr>kern = sim_init, logs = []\<rparr>) (b, \<lparr>kern = sim_init, logs = []\<rparr>) \<and>
    contents b = ''cd'' \<and> writeIndex b \<le> totalSize b"
proof -
  let ?e = "\<lparr>kern = sim_init, logs = []\<rparr>"
  have a: "buf_append (new_buffer 2) ''abcd'' = Inr \<lparr>vec = ''abcd'', readIndex = 0, writeIndex = 4\<rparr>"
    by (simp add: buffer_eval)
  have r: "retrieve \<lparr>vec = ''abcd'', readIndex = 0, writeIndex = 4\<rparr> 2 =
      Inr (Some 0, \<lparr>vec = ''abcd'', readIndex = 2, writeIndex = 4\<rparr>)"
    by (simp add: buffer_eval)
  have run: "(buffer_step sim_os)\<^sup>*\<^sup>* (new_buffer 2, ?e) (\<lparr>vec = ''abcd'', readIndex = 2, writeIndex = 4\<rparr>, ?e)"
    using buffer_step.append [OF _ a, of sim_os ?e] buffer_step.retrieve [OF r, of sim_os ?e]
    by (simp add: vec_max_def)
  have n: "2 \<le> vec_max" by (simp add: vec_max_def)
  have "contents \<lparr>vec = ''abcd'', readIndex = 2, writeIndex = 4\<rparr> = ''cd''" by (simp add: contents_def)
  then show ?thesis using run buffer_well_formed [OF sim_stream_contract n run] by blast
qed

subsection \<open>A buffer between two sockets\<close>

text \<open>
  \<open>relay os inq outq f g e0 (b, e, got)\<close>: starting with an empty buffer in the environment \<open>e0\<close>, reads from
  \<open>f\<close>, writes to \<open>g\<close> and bytes that arrive for \<open>f\<close> have led to \<open>(b, e)\<close>; \<open>got\<close> are the bytes that arrived.
\<close>

inductive relay ::
  "'k os \<Rightarrow> (fd \<Rightarrow> 'k \<Rightarrow> bytes) \<Rightarrow> (fd \<Rightarrow> 'k \<Rightarrow> bytes) \<Rightarrow> fd \<Rightarrow> fd \<Rightarrow> 'k env \<Rightarrow> buffer \<times> 'k env \<times> bytes \<Rightarrow> bool"
  for os inq outq f g e0 where
  start: "n \<le> vec_max \<Longrightarrow> relay os inq outq f g e0 (new_buffer n, e0, [])"
| recv: "relay os inq outq f g e0 (b, e, got) \<Longrightarrow> 0 < m \<Longrightarrow> m \<le> 2 ^ 63 \<Longrightarrow>
    read_from_socket os f e b m = Some (Inr (n, b', e')) \<Longrightarrow> relay os inq outq f g e0 (b', e', got)"
| forward: "relay os inq outq f g e0 (b, e, got) \<Longrightarrow> m < 2 ^ 31 \<Longrightarrow>
    write_to_socket os g e b m = Inr (n, b', e') \<Longrightarrow> relay os inq outq f g e0 (b', e', got)"
| arrive: "relay os inq outq f g e0 (b, e, got) \<Longrightarrow> inq f k = inq f (kern e) @ x \<Longrightarrow> outq g k = outq g (kern e) \<Longrightarrow>
    relay os inq outq f g e0 (b, e\<lparr>kern := k\<rparr>, got @ x)"

text \<open>
  C13: a relay forwards the stream.  At any time, what \<open>g\<close> was given since the start, what is in the buffer and
  what is still to be read from \<open>f\<close> are, in this order, what was to be read at the start and what has arrived
  since: no byte is lost, repeated or out of order, however the kernel splits the reads and writes.
\<close>

theorem relay_conserves:
  assumes os: "stream_contract os inq outq" and run: "relay os inq outq f g e0 (b, e, got)"
  shows "buf_inv b \<and>
    outq g (kern e) @ contents b @ inq f (kern e) = outq g (kern e0) @ inq f (kern e0) @ got"
  using run
proof (induction "(b, e, got)" arbitrary: b e got rule: relay.induct)
  case (start n)
  then show ?case by (simp add: new_buffer_inv)
next
  case (recv b e got m n b' e')
  have out: "outq g k' = outq g k" if "sys_read os h m k = (a, k')" for h m k a k'
    using os that unfolding stream_contract_def by (elim conjE) metis
  have "outq g (kern e') = outq g (kern e)" by (rule read_from_socket_keeps [OF out recv.hyps(5)])
  then show ?case
    using recv.hyps(2) recv_result [OF os _ recv.hyps(3-5)] by simp
next
  case (forward b e got m n b' e')
  have inv: "buf_inv b" using forward.hyps(2) by simp
  from os inv forward.hyps(3) show ?case
  proof (cases rule: write_to_socket_cases [where f = g and e = e])
    case (written n' k)
    have "inq f k = inq f (kern e)"
      using os written(1) unfolding stream_contract_def by (elim conjE) metis
    moreover have z: "take n' (contents b) @ drop n' (contents b) @ z = contents b @ z" for z
      by (simp flip: append_assoc)
    ultimately show ?thesis
      using forward.hyps(2,4) written(3-5) retrieve_ok(2,3) [OF inv written(3)] by (auto simp: z)
  qed (use forward.hyps(4) in simp)
next
  case (arrive b e got k x)
  then show ?case by simp
qed

theorem relay_conserves_witness:
  "\<exists>b k. relay sim_os sim_inq sim_outq 5 6 \<lparr>kern = sim_init\<lparr>sim_rd := (\<lambda>_. [RdBytes ''abcde''])\<rparr>, logs = []\<rparr>
      (b, \<lparr>kern = k, logs = []\<rparr>, []) \<and>
    sim_outq 6 k = ''abc'' \<and> contents b @ sim_inq 5 k = ''de''"
proof -
  let ?e = "\<lparr>kern = sim_init\<lparr>sim_rd := (\<lambda>_. [RdBytes ''abcde''])\<rparr>, logs = []\<rparr>"
  let ?k = "(kern ?e)\<lparr>sim_rd := (sim_rd (kern ?e))(5 := [])\<rparr>"
  let ?k2 = "?k\<lparr>sim_out := (sim_out ?k)(6 := ''abc'')\<rparr>"
  let ?b = "\<lparr>vec = ''abcde'' @ replicate 3 (CHR 0x00), readIndex = 3, writeIndex = 5\<rparr>"
  have rd: "read_from_socket sim_os 5 ?e (new_buffer 8) 6 =
      Some (Inr (5, \<lparr>vec = ''abcde'' @ replicate 3 (CHR 0x00), readIndex = 0, writeIndex = 5\<rparr>, \<lparr>kern = ?k, logs = []\<rparr>))"
    by (subst read_from_socket.simps) (simp add: buffer_eval sim_read_def sim_init_def sz_add_def)
  have wr: "write_to_socket sim_os 6 \<lparr>kern = ?k, logs = []\<rparr>
        \<lparr>vec = ''abcde'' @ replicate 3 (CHR 0x00), readIndex = 0, writeIndex = 5\<rparr> 3 =
      Inr (3, ?b, \<lparr>kern = ?k2, logs = []\<rparr>)"
    by (simp add: write_to_socket_def buffer_eval sim_write_def sim_init_def to_int32_def to_size_t_def)
  have run: "relay sim_os sim_inq sim_outq 5 6 ?e
      (?b, \<lparr>kern = ?k2, logs = []\<rparr>, [])"
    by (rule relay.forward [OF relay.recv [OF relay.start _ _ rd] _ wr]) (simp_all add: vec_max_def)
  have "sim_outq 6 ?k2 = ''abc''" by (simp add: sim_outq_def)
  moreover have "sim_outq 6 (kern ?e) = []" "sim_inq 5 (kern ?e) = ''abcde''"
    by (simp_all add: sim_outq_def sim_inq_def sim_init_def)
  ultimately show ?thesis
    using relay_conserves [OF sim_stream_contract run] run
    by - (rule exI [of _ ?b], rule exI [of _ ?k2], simp)
qed

end
