(* ===== verification/SpinLock.thy ===== *)
theory SpinLock imports Prelude begin

section \<open>SpinLock.h: mutual exclusion with one atomic byte\<close>

text \<open>
  Any number of threads run \<open>lock\<close> and \<open>unlock\<close> on one lock.  A thread's program counter says where
  in the two functions it is; every access to the atomic byte is a step of its own, so all
  interleavings are covered.  \<open>spinCount\<close> is local to a call of \<open>lock\<close>.
\<close>

definition FREE :: "8 word" where "FREE = 0"
definition LOCKED :: "8 word" where "LOCKED = 1"
definition kMaxActiveSpin :: nat where "kMaxActiveSpin = 5000"

text \<open>
  \<open>Try\<close>: before the compare-and-exchange; \<open>Spin\<close>: before \<open>spin_wait\<close>; \<open>Load\<close>: before the load in the
  inner loop; \<open>Check\<close>: before the assertion that ends \<open>lock\<close>; \<open>Held\<close>: between the two functions;
  \<open>Store\<close>: behind the assertion of \<open>unlock\<close>, before its store; \<open>Failed\<close>: an assertion has failed.
\<close>

datatype lock_pc = Outside | Try nat | Spin nat | Load nat | Check | Held | Store | Failed

type_synonym lock_state = "8 word \<times> (nat \<Rightarrow> lock_pc)"

definition cas :: "8 word \<Rightarrow> 8 word \<Rightarrow> 8 word \<Rightarrow> bool \<times> 8 word" where
  "cas compare newVal l = (if l = compare then (True, newVal) else (False, l))"

definition spin_wait :: "nat \<Rightarrow> nat" where
  "spin_wait spinCount = (if spinCount < kMaxActiveSpin then spinCount + 1 else spinCount)"

text \<open>The next step of a thread at \<open>pc\<close>: the lock byte and its program counter after it.\<close>

fun lock_step :: "8 word \<Rightarrow> lock_pc \<Rightarrow> 8 word \<times> lock_pc" where
  "lock_step l Outside = (l, Try 0)"
| "lock_step l (Try n) = (case cas FREE LOCKED l of (ok, l') \<Rightarrow> (l', if ok then Check else Spin n))"
| "lock_step l (Spin n) = (l, Load (spin_wait n))"
| "lock_step l (Load n) = (l, if l = LOCKED then Spin n else Try n)"
| "lock_step l Check = (l, if l = LOCKED then Held else Failed)"
| "lock_step l Held = (l, if l = LOCKED then Store else Failed)"
| "lock_step l Store = (FREE, Outside)"
| "lock_step l Failed = (l, Failed)"

definition step_of :: "nat \<Rightarrow> lock_state \<Rightarrow> lock_state" where
  "step_of t s = (case lock_step (fst s) (snd s t) of (l, pc) \<Rightarrow> (l, (snd s)(t := pc)))"

definition lock_init :: lock_state where
  "lock_init = (FREE, \<lambda>_. Outside)"

inductive lock_reach :: "lock_state \<Rightarrow> bool" where
  init: "lock_reach lock_init"
| step: "lock_reach s \<Longrightarrow> lock_reach (step_of t s)"

text \<open>A run of given threads, one step each.\<close>

fun lock_run :: "nat list \<Rightarrow> lock_state \<Rightarrow> lock_state" where
  "lock_run [] s = s"
| "lock_run (t # ts) s = lock_run ts (step_of t s)"

lemma lock_run_reach: "lock_reach s \<Longrightarrow> lock_reach (lock_run ts s)"
proof (induction ts arbitrary: s)
  case (Cons t ts)
  then show ?case using lock_reach.step [of s t] by simp
qed simp

fun inside :: "lock_pc \<Rightarrow> bool" where
  "inside Check = True" | "inside Held = True" | "inside Store = True" | "inside _ = False"

fun spins :: "lock_pc \<Rightarrow> nat" where
  "spins (Try n) = n" | "spins (Spin n) = n" | "spins (Load n) = n" | "spins _ = 0"

definition lock_inv :: "lock_state \<Rightarrow> bool" where
  "lock_inv s \<longleftrightarrow> (fst s = FREE \<or> fst s = LOCKED) \<and> (\<forall>t. snd s t \<noteq> Failed) \<and>
     (\<forall>t u. inside (snd s t) \<longrightarrow> inside (snd s u) \<longrightarrow> t = u) \<and>
     (fst s = LOCKED \<longleftrightarrow> (\<exists>t. inside (snd s t))) \<and>
     (\<forall>t. spins (snd s t) \<le> kMaxActiveSpin)"

lemma free_locked [simp]: "FREE \<noteq> LOCKED" "LOCKED \<noteq> FREE"
  by (simp_all add: FREE_def LOCKED_def)

lemma spin_wait_le: "n \<le> kMaxActiveSpin \<Longrightarrow> spin_wait n \<le> kMaxActiveSpin"
  by (simp add: spin_wait_def)

lemma lock_inv_step:
  assumes "lock_inv s"
  shows "lock_inv (step_of t s)"
proof -
  obtain l p where s: "s = (l, p)" by (cases s)
  have inv: "l = FREE \<or> l = LOCKED" "\<And>t. p t \<noteq> Failed" "\<And>t u. inside (p t) \<Longrightarrow> inside (p u) \<Longrightarrow> t = u"
    "l = LOCKED \<longleftrightarrow> (\<exists>t. inside (p t))"
    "\<And>t. spins (p t) \<le> kMaxActiveSpin"
    using assms by (auto simp: lock_inv_def s)
  have ex: "(\<exists>u. inside ((p(t := q)) u)) \<longleftrightarrow> inside q \<or> (\<exists>u. u \<noteq> t \<and> inside (p u))" for q
    by auto
  have same: ?thesis if "step_of t s = (l, p(t := q))" "inside q = inside (p t)" "q \<noteq> Failed"
    "spins q \<le> kMaxActiveSpin" for q
  proof -
    have i: "inside ((p(t := q)) u) = inside (p u)" for u using that(2) by simp
    have "(\<exists>u. inside ((p(t := q)) u)) = (\<exists>u. inside (p u))" by (simp only: i)
    then show ?thesis
      unfolding lock_inv_def that(1) fst_conv snd_conv i using inv that(3,4) by auto
  qed
  show ?thesis
  proof (cases "p t")
    case Outside
    then show ?thesis by (intro same [of "Try 0"]) (auto simp: step_of_def s)
  next
    case (Try n)
    show ?thesis
    proof (cases "l = FREE")
      case True
      then have "\<not> inside (p u)" for u using inv(4) by auto
      then show ?thesis using inv Try True by (auto simp: lock_inv_def step_of_def s cas_def)
    next
      case False
      then show ?thesis using inv(5) [of t] Try
        by (intro same [of "Spin n"]) (auto simp: step_of_def s cas_def)
    qed
  next
    case (Spin n)
    then show ?thesis using spin_wait_le inv(5) [of t]
      by (intro same [of "Load (spin_wait n)"]) (auto simp: step_of_def s)
  next
    case (Load n)
    then show ?thesis using inv(5) [of t]
      by (intro same [of "if l = LOCKED then Spin n else Try n"]) (auto simp: step_of_def s)
  next
    case Check
    then have "l = LOCKED" using inv(4) by (metis inside.simps(1))
    then show ?thesis using Check by (intro same [of Held]) (auto simp: step_of_def s)
  next
    case Held
    then have "l = LOCKED" using inv(4) by (metis inside.simps(2))
    then show ?thesis using Held by (intro same [of Store]) (auto simp: step_of_def s)
  next
    case Store
    then have "\<not> inside (p u)" if "u \<noteq> t" for u using inv(3) [of u t] that by auto
    then show ?thesis using inv by (auto simp: lock_inv_def step_of_def s Store)
  next
    case Failed
    then show ?thesis using inv(2) by simp
  qed
qed

lemma lock_reach_inv: "lock_reach s \<Longrightarrow> lock_inv s"
proof (induction rule: lock_reach.induct)
  case init
  then show ?case by (simp add: lock_inv_def lock_init_def)
next
  case (step s t)
  then show ?case by (intro lock_inv_step)
qed

subsection \<open>Properties\<close>

text \<open>
  C15: in every interleaving of any number of threads at most one thread is between the end of
  \<open>lock\<close> and its \<open>unlock\<close>, the assertions in both functions hold, and when the lock is free a waiting
  thread that runs alone takes it within three of its own steps.
\<close>

theorem spinlock_exclusive:
  assumes "lock_reach s"
  shows "(snd s t = Held \<and> snd s u = Held \<longrightarrow> t = u) \<and> snd s t \<noteq> Failed \<and>
    (fst s = FREE \<and> snd s t \<in> {Try n, Spin n, Load n} \<longrightarrow>
       (\<exists>k \<le> 3. snd (lock_run (replicate k t) s) t = Check))"
proof -
  note inv = lock_reach_inv [OF assms, unfolded lock_inv_def]
  have "\<exists>k \<le> 3. snd (lock_run (replicate k t) s) t = Check"
    if free: "fst s = FREE" and pc: "snd s t \<in> {Try n, Spin n, Load n}"
  proof -
    consider "snd s t = Try n" | "snd s t = Load n" | "snd s t = Spin n" using pc by auto
    then show ?thesis
    proof cases
      case 1
      then show ?thesis using free by (intro exI [of _ 1]) (simp add: step_of_def cas_def)
    next
      case 2
      then show ?thesis using free
        by (intro exI [of _ 2]) (simp add: step_of_def cas_def numeral_2_eq_2)
    next
      case 3
      then show ?thesis using free
        by (intro exI [of _ 3]) (simp add: step_of_def cas_def numeral_3_eq_3)
    qed
  qed
  moreover have "t = u" if "snd s t = Held" "snd s u = Held"
    using inv that by (metis inside.simps(2))
  ultimately show ?thesis using inv by blast
qed

theorem spinlock_exclusive_witness:
  "snd (lock_run [0, 1, 0, 1, 0, 1] lock_init) 0 = Held \<and>
   snd (lock_run [0, 1, 0, 1, 0, 1] lock_init) 1 \<noteq> Held"
proof -
  have r: "lock_reach (lock_run [0, 1, 0, 1, 0, 1] lock_init)" by (intro lock_run_reach lock_reach.init)
  have "snd (lock_run [0, 1, 0, 1, 0, 1] lock_init) 0 = Held"
    by (simp add: step_of_def lock_init_def cas_def)
  then show ?thesis using spinlock_exclusive [OF r, of 0 1] by auto
qed

end
