(* ===== verification/PoolStart.thy ===== *)
theory PoolStart imports Prelude begin

section \<open>EventLoopPool.h: starting the helper threads\<close>

text \<open>
  \<open>setHelperThreadsNumAndStart\<close> makes \<open>n\<close> threads and waits on a condition variable until each has
  initialised its loop and counted itself (\<open>threadFunc\<close>).  The threads interleave; a step is one
  access to the mutex, the counter or the condition variable.  The invariant says who holds the
  mutex and what the counter counts; a measure shows that the protocol comes to an end.
\<close>

subsection \<open>Program counters, state, steps\<close>

text \<open>
  The main thread: making thread \<open>i\<close>; in front of the mutex; holding it, about to look at the
  predicate; asleep in \<open>wait\<close>; returned.
\<close>

datatype main_pc = M_spawn nat | M_lock | M_test | M_sleep | M_done

text \<open>
  A helper thread: not made yet; in \<open>init\<close>; in front of the mutex; holding it; having counted itself;
  having notified; in \<open>start\<close>, the mutex given back.
\<close>

datatype helper_pc = T_none | T_init | T_want | T_hold | T_counted | T_notified | T_run

datatype holder = Main_thread | Helper_thread nat

record startup =
  nums :: nat
  cnt :: nat
  mutex :: "holder option"
  main_at :: main_pc
  helper_at :: "nat \<Rightarrow> helper_pc"

definition startup_init :: "nat \<Rightarrow> startup" where
  "startup_init n = \<lparr>nums = n, cnt = 0, mutex = None, main_at = M_spawn 0, helper_at = (\<lambda>_. T_none)\<rparr>"

text \<open>\<open>wait\<close> with a predicate looks at it, and while it fails gives the mutex back and sleeps.\<close>

fun main_step :: "startup \<Rightarrow> startup option" where
  "main_step s =
     (case main_at s of
        M_spawn i \<Rightarrow>
          Some (if i < nums s then s\<lparr>main_at := M_spawn (i + 1), helper_at := (helper_at s)(i := T_init)\<rparr>
                else s\<lparr>main_at := M_lock\<rparr>)
      | M_lock \<Rightarrow> if mutex s = None then Some (s\<lparr>mutex := Some Main_thread, main_at := M_test\<rparr>) else None
      | M_test \<Rightarrow> Some (s\<lparr>mutex := None, main_at := (if cnt s = nums s then M_done else M_sleep)\<rparr>)
      | M_sleep \<Rightarrow> None
      | M_done \<Rightarrow> None)"

fun helper_step :: "nat \<Rightarrow> startup \<Rightarrow> startup option" where
  "helper_step i s =
     (let at = (\<lambda>pc. (helper_at s)(i := pc)) in
      case helper_at s i of
        T_none \<Rightarrow> None
      | T_init \<Rightarrow> Some (s\<lparr>helper_at := at T_want\<rparr>)
      | T_want \<Rightarrow> if mutex s = None then Some (s\<lparr>mutex := Some (Helper_thread i), helper_at := at T_hold\<rparr>) else None
      | T_hold \<Rightarrow> Some (s\<lparr>cnt := cnt s + 1, helper_at := at T_counted\<rparr>)
      | T_counted \<Rightarrow> Some (s\<lparr>main_at := (if main_at s = M_sleep then M_lock else main_at s), helper_at := at T_notified\<rparr>)
      | T_notified \<Rightarrow> Some (s\<lparr>mutex := None, helper_at := at T_run\<rparr>)
      | T_run \<Rightarrow> None)"

text \<open>A condition variable may wake a sleeper that nobody notified.\<close>

datatype startup_action = Main_step | Helper_step nat | Spurious

fun startup_exec :: "startup_action \<Rightarrow> startup \<Rightarrow> startup option" where
  "startup_exec Main_step s = main_step s"
| "startup_exec (Helper_step i) s = helper_step i s"
| "startup_exec Spurious s = (if main_at s = M_sleep then Some (s\<lparr>main_at := M_lock\<rparr>) else None)"

inductive startup_reach :: "nat \<Rightarrow> startup \<Rightarrow> bool" for n where
  init: "startup_reach n (startup_init n)"
| step: "startup_reach n s \<Longrightarrow> startup_exec a s = Some s' \<Longrightarrow> startup_reach n s'"

fun startup_run :: "startup_action list \<Rightarrow> startup \<Rightarrow> startup option" where
  "startup_run [] s = Some s"
| "startup_run (a # as) s = Option.bind (startup_exec a s) (startup_run as)"

lemma startup_run_reach:
  "startup_reach n s \<Longrightarrow> startup_run as s = Some s' \<Longrightarrow> startup_reach n s'"
proof (induction as arbitrary: s)
  case (Cons a as)
  then obtain s1 where "startup_exec a s = Some s1" "startup_run as s1 = Some s'"
    by (auto simp: bind_eq_Some_conv)
  then show ?case using Cons startup_reach.step by blast
qed simp

lemma main_stepE:
  assumes "main_step s = Some s'"
  obtains (spawn) k where "main_at s = M_spawn k" "k < nums s"
      "s' = s\<lparr>main_at := M_spawn (k + 1), helper_at := (helper_at s)(k := T_init)\<rparr>"
    | (spawned) k where "main_at s = M_spawn k" "\<not> k < nums s" "s' = s\<lparr>main_at := M_lock\<rparr>"
    | (lock) "main_at s = M_lock" "mutex s = None" "s' = s\<lparr>mutex := Some Main_thread, main_at := M_test\<rparr>"
    | (test) "main_at s = M_test" "s' = s\<lparr>mutex := None, main_at := (if cnt s = nums s then M_done else M_sleep)\<rparr>"
  using assms by (cases "main_at s") (simp_all split: if_splits)

text \<open>A step of helper \<open>i\<close> takes it to \<open>pc\<close>; what else it does depends on where it was.\<close>

lemma helper_stepE:
  assumes "helper_step i s = Some s'"
  obtains (init) "helper_at s i = T_init" "s' = s\<lparr>helper_at := (helper_at s)(i := T_want)\<rparr>"
    | (lock) "helper_at s i = T_want" "mutex s = None"
        "s' = s\<lparr>mutex := Some (Helper_thread i), helper_at := (helper_at s)(i := T_hold)\<rparr>"
    | (count) "helper_at s i = T_hold" "s' = s\<lparr>cnt := cnt s + 1, helper_at := (helper_at s)(i := T_counted)\<rparr>"
    | (notify) "helper_at s i = T_counted" "s' = s\<lparr>main_at := (if main_at s = M_sleep then M_lock else main_at s),
        helper_at := (helper_at s)(i := T_notified)\<rparr>"
    | (unlock) "helper_at s i = T_notified" "s' = s\<lparr>mutex := None, helper_at := (helper_at s)(i := T_run)\<rparr>"
  using assms by (cases "helper_at s i") (simp_all split: if_splits)

declare main_step.simps [simp del] helper_step.simps [simp del]

subsection \<open>Sums over the helpers\<close>

definition over_helpers :: "(helper_pc \<Rightarrow> nat) \<Rightarrow> startup \<Rightarrow> nat" where
  "over_helpers f s = (\<Sum>i<nums s. f (helper_at s i))"

lemma over_helpers_move:
  assumes "helper_at s' = (helper_at s)(i := pc)" and "nums s' = nums s" and "i < nums s"
  shows "over_helpers f s' + f (helper_at s i) = over_helpers f s + f pc"
proof -
  have "over_helpers f s' = f pc + (\<Sum>j \<in> {..<nums s} - {i}. f (helper_at s j))"
    using assms by (simp add: over_helpers_def sum.remove [of "{..<nums s}" i])
  moreover have "over_helpers f s = f (helper_at s i) + (\<Sum>j \<in> {..<nums s} - {i}. f (helper_at s j))"
    using assms(3) by (simp add: over_helpers_def sum.remove [of "{..<nums s}" i])
  ultimately show ?thesis by simp
qed

lemma over_helpers_same:
  "helper_at s' = helper_at s \<Longrightarrow> nums s' = nums s \<Longrightarrow> over_helpers f s' = over_helpers f s"
  by (simp add: over_helpers_def)

subsection \<open>The invariant\<close>

fun in_section :: "helper_pc \<Rightarrow> bool" where
  "in_section T_hold = True" | "in_section T_counted = True" | "in_section T_notified = True"
| "in_section _ = False"

fun has_counted :: "helper_pc \<Rightarrow> nat" where
  "has_counted T_counted = 1" | "has_counted T_notified = 1" | "has_counted T_run = 1"
| "has_counted _ = 0"

definition spawn_inv :: "startup \<Rightarrow> bool" where
  "spawn_inv s \<longleftrightarrow>
     (\<forall>i. helper_at s i \<noteq> T_none \<longrightarrow> i < nums s) \<and>
     (case main_at s of M_spawn k \<Rightarrow> k \<le> nums s \<and> (\<forall>i. helper_at s i \<noteq> T_none \<longleftrightarrow> i < k)
      | _ \<Rightarrow> \<forall>i < nums s. helper_at s i \<noteq> T_none)"

definition mutex_inv :: "startup \<Rightarrow> bool" where
  "mutex_inv s \<longleftrightarrow>
     (mutex s = Some Main_thread \<longleftrightarrow> main_at s = M_test) \<and>
     (\<forall>i. mutex s = Some (Helper_thread i) \<longleftrightarrow> in_section (helper_at s i))"

definition count_inv :: "startup \<Rightarrow> bool" where
  "count_inv s \<longleftrightarrow>
     cnt s = over_helpers has_counted s \<and>
     (main_at s = M_done \<longrightarrow> cnt s = nums s) \<and>
     (main_at s = M_sleep \<longrightarrow> cnt s < nums s \<or> (\<exists>i. helper_at s i = T_counted))"

definition startup_inv :: "startup \<Rightarrow> bool" where
  "startup_inv s \<longleftrightarrow> spawn_inv s \<and> mutex_inv s \<and> count_inv s"

lemma has_counted_le: "has_counted pc \<le> 1"
  by (cases pc) simp_all

lemma over_helpers_le: "over_helpers has_counted s \<le> nums s"
  unfolding over_helpers_def 
  using sum_bounded_above [of "{..<nums s}" "\<lambda>i. has_counted (helper_at s i)" 1] has_counted_le by simp

text \<open>When every helper has counted itself, and only then, the counter has its final value.\<close>

lemma all_counted:
  assumes "over_helpers has_counted s = nums s" and "i < nums s"
  shows "has_counted (helper_at s i) = 1"
proof (rule ccontr)
  assume "has_counted (helper_at s i) \<noteq> 1"
  then have "has_counted (helper_at s i) < 1" using has_counted_le [of "helper_at s i"] by linarith
  then have "over_helpers has_counted s < (\<Sum>j<nums s. 1)"
    unfolding over_helpers_def using assms(2) has_counted_le
    by (intro sum_strict_mono_ex1) auto
  then show False using assms(1) by simp
qed

lemma startup_invD:
  assumes "startup_inv s"
  shows "helper_at s i \<noteq> T_none \<Longrightarrow> i < nums s"
    and "main_at s = M_spawn k \<Longrightarrow> k \<le> nums s"
    and "main_at s = M_spawn k \<Longrightarrow> helper_at s i \<noteq> T_none \<longleftrightarrow> i < k"
    and "(\<And>k. main_at s \<noteq> M_spawn k) \<Longrightarrow> i < nums s \<Longrightarrow> helper_at s i \<noteq> T_none"
    and "mutex s = Some Main_thread \<longleftrightarrow> main_at s = M_test"
    and "mutex s = Some (Helper_thread i) \<longleftrightarrow> in_section (helper_at s i)"
    and "cnt s = over_helpers has_counted s"
    and "main_at s = M_done \<Longrightarrow> cnt s = nums s"
    and "main_at s = M_sleep \<Longrightarrow> cnt s < nums s \<or> (\<exists>i. helper_at s i = T_counted)"
  using assms
  by (auto simp: startup_inv_def spawn_inv_def mutex_inv_def count_inv_def split: main_pc.splits)

lemma spawn_invD:
  assumes "spawn_inv s" and "main_at s = M_spawn k"
  shows "helper_at s i \<noteq> T_none \<longleftrightarrow> i < k" and "helper_at s k = T_none"
proof -
  show *: "helper_at s i \<noteq> T_none \<longleftrightarrow> i < k" for i using assms by (simp add: spawn_inv_def)
  show "helper_at s k = T_none" using * [of k] by simp
qed

lemma step_spawn_inv:
  assumes inv: "spawn_inv s" and st: "startup_exec a s = Some s'"
  shows "spawn_inv s' \<and> nums s' = nums s"
proof (cases a)
  case Main_step
  then have "main_step s = Some s'" using st by simp
  then show ?thesis
  proof (cases rule: main_stepE)
    case (spawn k)
    show ?thesis using spawn_invD [OF inv spawn(1)] spawn by (auto simp: spawn_inv_def less_Suc_eq)
  next
    case (spawned k)
    then show ?thesis using inv by (simp add: spawn_inv_def)
  qed (use inv in \<open>simp_all add: spawn_inv_def\<close>)
next
  case (Helper_step i)
  then have "helper_step i s = Some s'" using st by simp
  then have pc: "helper_at s i \<noteq> T_none" "helper_at s' i \<noteq> T_none"
    "helper_at s' = (helper_at s)(i := helper_at s' i)" "nums s' = nums s" "main_at s' = main_at s \<or> main_at s = M_sleep \<and> main_at s' = M_lock"
    by (cases rule: helper_stepE; simp)+
  have "helper_at s' j = T_none \<longleftrightarrow> helper_at s j = T_none" for j
    using pc(1,2) by (cases "j = i") (simp, subst pc(3), simp)
  then show ?thesis using inv pc(4,5) by (cases "main_at s") (auto simp: spawn_inv_def)
next
  case Spurious
  then show ?thesis using inv st by (auto simp: spawn_inv_def split: if_splits)
qed

lemma step_mutex_inv:
  assumes sp: "spawn_inv s" and inv: "mutex_inv s" and st: "startup_exec a s = Some s'"
  shows "mutex_inv s'"
proof -
  have m: "mutex s = Some (Helper_thread j) \<longleftrightarrow> in_section (helper_at s j)"
    "mutex s = Some Main_thread \<longleftrightarrow> main_at s = M_test" for j
    using inv by (auto simp: mutex_inv_def)
  show ?thesis
  proof (cases a)
    case Main_step
    then have "main_step s = Some s'" using st by simp
    then show ?thesis
    proof (cases rule: main_stepE)
      case (spawn k)
      have "helper_at s k = T_none" using spawn_invD(2) [OF sp spawn(1)] .
      then show ?thesis using m spawn by (simp add: mutex_inv_def)
    qed (use m in \<open>auto simp: mutex_inv_def\<close>)
  next
    case (Helper_step i)
    then have "helper_step i s = Some s'" using st by simp
    then show ?thesis
    proof (cases rule: helper_stepE)
      case lock
      then have "\<not> in_section (helper_at s j)" "main_at s \<noteq> M_test" for j
        using m(1) [of j] m(2) by simp_all
      then show ?thesis using lock by (simp add: mutex_inv_def)
    next
      case unlock
      then have own: "mutex s = Some (Helper_thread i)" using m(1) [of i] by simp
      then have "\<not> in_section (helper_at s j)" if "j \<noteq> i" for j using m(1) [of j] that by simp
      then show ?thesis using unlock own m(2) by (simp add: mutex_inv_def)
    qed (use m in \<open>simp_all add: mutex_inv_def\<close>)
  next
    case Spurious
    then show ?thesis using m st by (auto simp: mutex_inv_def split: if_splits)
  qed
qed

lemma step_count_inv:
  assumes sp: "spawn_inv s" and inv: "count_inv s" and st: "startup_exec a s = Some s'"
  shows "count_inv s'"
proof (cases a)
  case Main_step
  have le: "cnt s \<le> nums s" using inv over_helpers_le by (simp add: count_inv_def)
  from Main_step have "main_step s = Some s'" using st by simp
  then show ?thesis
  proof (cases rule: main_stepE)
    case (spawn k)
    have "helper_at s k = T_none" using spawn_invD(2) [OF sp spawn(1)] .
    then have "over_helpers has_counted s' = over_helpers has_counted s"
      using over_helpers_move [of s' s k T_init has_counted] spawn by simp
    then show ?thesis using inv spawn by (simp add: count_inv_def)
  qed (use inv le over_helpers_same [of s' s] in \<open>auto simp: count_inv_def\<close>)
next
  case (Helper_step i)
  then have h: "helper_step i s = Some s'" using st by simp
  then have "helper_at s i \<noteq> T_none" by (cases rule: helper_stepE) simp_all
  then have i: "i < nums s" using sp by (simp add: spawn_inv_def)
  define pc where "pc = helper_at s' i"
  from h have pc: "helper_at s' = (helper_at s)(i := pc)" "nums s' = nums s"
    "cnt s' + has_counted (helper_at s i) = cnt s + has_counted pc" "cnt s \<le> cnt s'"
    "main_at s' = (if helper_at s i = T_counted \<and> main_at s = M_sleep then M_lock else main_at s)"
    "helper_at s i = T_hold \<and> pc = T_counted \<or> cnt s' = cnt s"
    by (cases rule: helper_stepE; simp add: pc_def)+
  have sum: "cnt s' = over_helpers has_counted s'"
    using over_helpers_move [OF pc(1,2) i, of has_counted] pc(3) inv by (simp add: count_inv_def)
  then have le: "cnt s' \<le> nums s'" using over_helpers_le by simp
  have "cnt s' = nums s'" if "main_at s' = M_done"
    using that pc(2,4,5) le inv by (simp add: count_inv_def split: if_splits)
  moreover have "cnt s' < nums s' \<or> (\<exists>j. helper_at s' j = T_counted)" if sl: "main_at s' = M_sleep"
  proof (cases "helper_at s i = T_hold \<and> pc = T_counted")
    case True
    then show ?thesis using pc(1) by (intro disjI2 exI [of _ i]) simp
  next
    case False
    have s: "main_at s = M_sleep" "helper_at s i \<noteq> T_counted" using sl pc(5) by (auto split: if_splits)
    have "helper_at s' j = T_counted" if "helper_at s j = T_counted" for j
      using that s(2) pc(1) by auto
    then show ?thesis using inv s(1) pc(2,6) False unfolding count_inv_def by metis
  qed
  ultimately show ?thesis using sum by (simp add: count_inv_def)
next
  case Spurious
  then show ?thesis
    using inv st over_helpers_same [of s' s] by (auto simp: count_inv_def split: if_splits)
qed

lemma startup_reach_inv: "startup_reach n s \<Longrightarrow> startup_inv s \<and> nums s = n"
proof (induction rule: startup_reach.induct)
  case init
  then show ?case by (simp add: startup_inv_def spawn_inv_def mutex_inv_def count_inv_def startup_init_def over_helpers_def)
next
  case (step s a s')
  then show ?case
    using step_spawn_inv step_mutex_inv step_count_inv unfolding startup_inv_def by metis
qed

subsection \<open>A measure\<close>

fun main_weight :: "nat \<Rightarrow> main_pc \<Rightarrow> nat" where
  "main_weight n (M_spawn i) = 3 + (n - i)"
| "main_weight n M_lock = 2" | "main_weight n M_test = 1"
| "main_weight n M_sleep = 0" | "main_weight n M_done = 0"

fun helper_weight :: "helper_pc \<Rightarrow> nat" where
  "helper_weight T_none = 8" | "helper_weight T_init = 7" | "helper_weight T_want = 6"
| "helper_weight T_hold = 5" | "helper_weight T_counted = 4" | "helper_weight T_notified = 1"
| "helper_weight T_run = 0"

definition startup_measure :: "startup \<Rightarrow> nat" where
  "startup_measure s = main_weight (nums s) (main_at s) + over_helpers helper_weight s"

lemma measure_decreases:
  assumes inv: "startup_inv s" and st: "startup_exec a s = Some s'" and "a \<noteq> Spurious"
  shows "startup_measure s' < startup_measure s"
proof (cases a)
  case Main_step
  then have "main_step s = Some s'" using st by simp
  then show ?thesis
  proof (cases rule: main_stepE)
    case (spawn k)
    have "helper_at s k = T_none" using startup_invD(3) [OF inv spawn(1), of k] by simp
    then show ?thesis
      using over_helpers_move [of s' s k T_init helper_weight] spawn by (simp add: startup_measure_def)
  qed (use over_helpers_same [of s' s] in \<open>simp_all add: startup_measure_def\<close>)
next
  case (Helper_step i)
  then have h: "helper_step i s = Some s'" using st by simp
  then have "helper_at s i \<noteq> T_none" by (cases rule: helper_stepE) simp_all
  then have i: "i < nums s" using startup_invD(1) [OF inv] by simp
  define pc where "pc = helper_at s' i"
  from h have "helper_at s' = (helper_at s)(i := pc)" "nums s' = nums s"
    "main_weight (nums s) (main_at s') + helper_weight pc <
       main_weight (nums s) (main_at s) + helper_weight (helper_at s i)"
    by (cases rule: helper_stepE; simp add: pc_def)+
  then show ?thesis
    using over_helpers_move [of s' s i pc helper_weight] i by (simp add: startup_measure_def)
qed (use assms in simp)

lemma run_bounded:
  "startup_reach n s \<Longrightarrow> startup_run as s = Some s' \<Longrightarrow> Spurious \<notin> set as \<Longrightarrow>
     length as + startup_measure s' \<le> startup_measure s"
proof (induction as arbitrary: s)
  case Nil
  then show ?case by simp
next
  case (Cons a as)
  then obtain s1 where s1: "startup_exec a s = Some s1" "startup_run as s1 = Some s'"
    by (auto simp: bind_eq_Some_conv)
  have "startup_measure s1 < startup_measure s"
    using measure_decreases [OF _ s1(1)] startup_reach_inv [OF Cons.prems(1)] Cons.prems(3) by auto
  moreover have "length as + startup_measure s' \<le> startup_measure s1"
    using Cons.IH [OF _ s1(2)] startup_reach.step [OF Cons.prems(1) s1(1)] Cons.prems(3) by simp
  ultimately show ?case by simp
qed

text \<open>Somebody can always go on, until the main thread has returned.\<close>

lemma not_stuck:
  assumes inv: "startup_inv s" and "main_at s \<noteq> M_done"
  shows "\<exists>a s'. a \<noteq> Spurious \<and> startup_exec a s = Some s'"
proof -
  note D = startup_invD [OF inv]
  have helper: "\<exists>a s'. a \<noteq> Spurious \<and> startup_exec a s = Some s'"
    if "helper_at s i \<noteq> T_none" "helper_at s i \<noteq> T_run" "helper_at s i = T_want \<Longrightarrow> mutex s = None" for i
    using that by (intro exI [of _ "Helper_step i"]) (cases "helper_at s i"; simp add: helper_step.simps)
  have main: "\<exists>a s'. a \<noteq> Spurious \<and> startup_exec a s = Some s'" if "main_step s \<noteq> None"
    using that by (intro exI [of _ Main_step]) auto
  show ?thesis
  proof (cases "mutex s")
    case (Some h)
    show ?thesis
    proof (cases h)
      case Main_thread
      then show ?thesis using D(5) Some main by (simp add: main_step.simps)
    next
      case (Helper_thread i)
      then have "in_section (helper_at s i)" using D(6) [of i] Some by simp
      then show ?thesis using helper [of i] by (cases "helper_at s i") auto
    qed
  next
    case None
    show ?thesis
    proof (cases "main_at s = M_sleep")
      case False
      then show ?thesis using main assms(2) None by (cases "main_at s") (auto simp: main_step.simps)
    next
      case True
      then have all: "helper_at s i \<noteq> T_none" if "i < nums s" for i using D(4) that by simp
      consider (counted) i where "helper_at s i = T_counted" | (less) "cnt s < nums s"
        using D(9) [OF True] by blast
      then show ?thesis
      proof cases
        case counted
        then show ?thesis using helper [of i] by simp
      next
        case less
        have "\<exists>i < nums s. has_counted (helper_at s i) = 0"
        proof (rule ccontr)
          assume "\<not> ?thesis"
          then have "has_counted (helper_at s i) = 1" if "i < nums s" for i
            using that has_counted_le [of "helper_at s i"] by (metis le_neq_implies_less less_one)
          then have "over_helpers has_counted s = nums s" by (simp add: over_helpers_def)
          then show False using less D(7) by simp
        qed
        then obtain i where "i < nums s" "has_counted (helper_at s i) = 0" by blast
        then show ?thesis using helper [of i] all None by (cases "helper_at s i") auto
      qed
    qed
  qed
qed

subsection \<open>Properties\<close>

text \<open>
  C21: when \<open>setHelperThreadsNumAndStart\<close> returns, every helper thread has finished initialising its
  loop, in every interleaving and with spurious wake-ups.
\<close>

theorem startup_complete:
  assumes "startup_reach n s" and "main_at s = M_done"
  shows "cnt s = n \<and> (\<forall>i < n. helper_at s i \<in> {T_counted, T_notified, T_run})"
proof -
  note r = startup_reach_inv [OF assms(1)]
  then have c: "cnt s = n" "over_helpers has_counted s = nums s"
    using startup_invD(7,8) [of s] assms(2) by simp_all
  have "helper_at s i \<in> {T_counted, T_notified, T_run}" if "i < n" for i
    using all_counted [OF c(2), of i] that r by (cases "helper_at s i") auto
  then show ?thesis using c(1) by simp
qed

definition demo_schedule :: "startup_action list" where
  "demo_schedule = [Main_step, Main_step, Main_step, Main_step] @ replicate 5 (Helper_step 0) @ [Main_step, Main_step]"

theorem startup_complete_witness:
  "\<exists>s. startup_run demo_schedule (startup_init 1) = Some s \<and> main_at s = M_done \<and> cnt s = 1"
proof -
  obtain s where s: "startup_run demo_schedule (startup_init 1) = Some s" "main_at s = M_done"
    by (simp add: demo_schedule_def startup_init_def numeral_eq_Suc main_step.simps helper_step.simps)
  have r: "startup_reach 1 s" using startup_run_reach [OF startup_reach.init s(1)] .
  from startup_complete [OF r s(2)] s show ?thesis by auto
qed

text \<open>
  C22: and it does return: without spurious wake-ups no schedule is longer than \<open>9 n + 3\<close> steps, and as
  long as the main thread has not returned some thread can take a step (so there is neither a
  deadlock nor a lost notification).
\<close>

theorem startup_returns:
  assumes "startup_run as (startup_init n) = Some s" and "Spurious \<notin> set as"
  shows "length as \<le> 9 * n + 3 \<and>
    (main_at s = M_done \<or> (\<exists>a s'. a \<noteq> Spurious \<and> startup_exec a s = Some s'))"
proof -
  have r: "startup_reach n s" using startup_run_reach [OF startup_reach.init assms(1)] .
  have "startup_measure (startup_init n) = 9 * n + 3"
    by (simp add: startup_measure_def startup_init_def over_helpers_def)
  then have "length as \<le> 9 * n + 3"
    using run_bounded [OF startup_reach.init assms] by simp
  then show ?thesis using not_stuck startup_reach_inv [OF r] by blast
qed

theorem startup_returns_witness:
  "length demo_schedule \<le> 12 \<and> startup_run (demo_schedule @ demo_schedule) (startup_init 1) = None"
proof -
  have s: "Spurious \<notin> set (demo_schedule @ demo_schedule)" by (simp add: demo_schedule_def)
  have "startup_run (demo_schedule @ demo_schedule) (startup_init 1) = None"
  proof (rule ccontr)
    assume "startup_run (demo_schedule @ demo_schedule) (startup_init 1) \<noteq> None"
    then obtain t where "startup_run (demo_schedule @ demo_schedule) (startup_init 1) = Some t" by blast
    from startup_returns [OF this s] show False by (simp add: demo_schedule_def)
  qed
  then show ?thesis by (simp add: demo_schedule_def)
qed

end
